(* ===== verification/Prelude.thy ===== *)
theory Prelude
  imports Main "HOL-Library.Word" "HOL-Library.Multiset"
begin

text \<open>
  Shared vocabulary of the development: the fixed-width integer types of the C sources, the
  conversions between them, and the generic facts on words and lists that the component
  theories rest on.

  Conventions.  \<^verbatim>\<open>uint8_t\<close>, \<^verbatim>\<open>uint16_t\<close>, \<^verbatim>\<open>uint32_t\<close> and \<^verbatim>\<open>uint64_t\<close> are words of that width, so
  their arithmetic wraps exactly as in C.  A C \<^verbatim>\<open>int\<close> is a HOL \<^typ>\<open>int\<close> where its value is a
  small count or flag; the cast of an unsigned word to \<^verbatim>\<open>int\<close> is \<open>sint\<close>.  Array indices and object
  sizes that the C standard bounds by the size of one object are \<^typ>\<open>nat\<close>.
\<close>

unbundle bit_operations_syntax

type_synonym u8 = "8 word"
type_synonym u16 = "16 word"
type_synonym u32 = "32 word"
type_synonym u64 = "64 word"

named_theorems word_nat "transfer of word operations to natural numbers"

section \<open>Words read as natural numbers\<close>

lemma unat_div_word [word_nat]: "unat (a div b) = unat a div unat (b :: 'a::len word)"
  by (simp add: unat_div)

lemma unat_mod_word [word_nat]: "unat (a mod b) = unat a mod unat (b :: 'a::len word)"
  by (simp add: unat_mod)

lemma unat_add_exact: "unat (a + b) = unat a + unat b"
  if "unat a + unat b < 2 ^ LENGTH('a)" for a b :: "'a::len word"
  using that by (simp add: unat_word_ariths)

lemma unat_mult_exact: "unat (a * b) = unat a * unat b"
  if "unat a * unat b < 2 ^ LENGTH('a)" for a b :: "'a::len word"
  using that by (simp add: unat_word_ariths)

lemma unat_sub_exact: "unat (a - b) = unat a - unat b" if "unat b \<le> unat a" for a b :: "'a::len word"
  using that by (simp add: unat_sub word_le_nat_alt)

lemma unat_lt_len: "unat (w :: 'a::len word) < 2 ^ LENGTH('a)"
  by (rule unsigned_less)

lemma unat_ucast_exact: "unat (ucast w :: 'b::len word) = unat w"
  if "unat w < 2 ^ LENGTH('b)" for w :: "'a::len word"
  using that by (simp add: unsigned_ucast_eq take_bit_nat_eq_self)

lemma unat_ucast_up: "unat (ucast w :: 'b::len word) = unat w"
  if "LENGTH('a) \<le> LENGTH('b)" for w :: "'a::len word"
proof (rule unat_ucast_exact)
  have "(2 :: nat) ^ LENGTH('a) \<le> 2 ^ LENGTH('b)" using that by simp
  with unat_lt_len [of w] show "unat w < 2 ^ LENGTH('b)" by linarith
qed

lemma unat_u32_to_u64 [word_nat]: "unat (ucast (w :: u32) :: u64) = unat w"
  by (rule unat_ucast_up) simp

lemma unat_u8_to_u32 [word_nat]: "unat (ucast (w :: u8) :: u32) = unat w"
  by (rule unat_ucast_up) simp

lemma unat_u16_to_u64 [word_nat]: "unat (ucast (w :: u16) :: u64) = unat w"
  by (rule unat_ucast_up) simp

lemma unat_u64_to_u32: "unat (ucast (w :: u64) :: u32) = unat w" if "unat w < 2 ^ 32"
  using that by (simp add: unat_ucast_exact)

lemma unat_lt_u32: "unat (w :: u32) < 4294967296"
  using unat_lt_len [of w] by simp

lemma unat_lt_u64: "unat (w :: u64) < 18446744073709551616"
  using unat_lt_len [of w] by simp

lemma word_eq_0_iff_unat [word_nat]: "w = 0 \<longleftrightarrow> unat (w :: 'a::len word) = 0"
  by (simp add: unat_eq_zero)

lemma sint_u32_small: "sint (w :: u32) = int (unat w)" if "unat w < 2147483648"
proof -
  have "int (unat w) < 2147483648" using that by linarith
  then have "uint w < 2147483648" by simp
  moreover have "- 2147483648 \<le> uint w" by (rule order.trans [of _ 0]) simp_all
  ultimately have "signed_take_bit 31 (uint w) = uint w" by (intro signed_take_bit_int_eq_self) simp_all
  then show ?thesis by (simp add: sint_uint)
qed

lemma unat_word_of_int: "unat (word_of_int v :: 'a::len word) = nat v" if "0 \<le> v" "v < 2 ^ LENGTH('a)"
  using that by (simp add: unsigned_of_int take_bit_int_eq_self)

lemma cap_is_min: "(if a > b then b else a) = min a b" for a b :: "'a::linorder"
  by (auto simp: min_def)

section \<open>Natural division\<close>

lemma div_mult_le_nat: "(a div b) * b \<le> (a :: nat)"
  by simp

lemma ceil_div_mult: "a \<le> ((a + b - 1) div b) * b" if "0 < b" for a b :: nat
proof -
  let ?q = "(a + b - 1) div b"
  have "a + b - 1 = ?q * b + (a + b - 1) mod b" by simp
  moreover have "(a + b - 1) mod b < b" using that by simp
  ultimately show ?thesis by linarith
qed

lemma ceil_div_mult_less: "((a + b - 1) div b) * b < a + b" if "0 < b" for a b :: nat
proof -
  have "((a + b - 1) div b) * b \<le> a + b - 1" by (rule div_mult_le_nat)
  with that show ?thesis by linarith
qed

section \<open>Alignment\<close>

lemma and_not_mask_eq: "w AND NOT (mask n) = (w div 2 ^ n) * 2 ^ n" for w :: "'a::len word"
proof -
  have "w AND NOT (mask n) = push_bit n (drop_bit n w)"
    by (rule bit_word_eqI) (auto simp: bit_simps)
  then show ?thesis by (simp add: push_bit_eq_mult drop_bit_eq_div)
qed

lemma unat_and_not_mask: "unat (w AND NOT (mask n)) = (unat w div 2 ^ n) * 2 ^ n"
  if "n < LENGTH('a)" for w :: "'a::len word"
proof -
  have p: "unat (2 ^ n :: 'a word) = 2 ^ n" 
    using unat_of_nat [where 'a = 'a, of "2 ^ n"] that by simp
  have "(unat w div 2 ^ n) * 2 ^ n < 2 ^ LENGTH('a)"
    using div_mult_le_nat [of "unat w" "2 ^ n"] unat_lt_len [of w] by linarith
  then show ?thesis
    by (simp add: and_not_mask_eq unat_mult_exact unat_div_word p)
qed

end
