(* ===== verification/Validation_Common.thy ===== *)
theory Validation_Common
  imports Prelude
begin

text \<open>
  Model of \<^verbatim>\<open>src/src/validation_common.h\<close>: the fill patterns, the derivation of chunk size and ring
  depth, the layout of the validation buffer, and the classification of a mismatch.  All values
  keep their C width, so every wrap-around of the header is visible here.
\<close>

section \<open>Fill patterns\<close>

abbreviation VALIDATION_PATTERNS_COUNT :: nat where "VALIDATION_PATTERNS_COUNT \<equiv> 3"
abbreviation VALIDATION_PATTERN_0 :: u8 where "VALIDATION_PATTERN_0 \<equiv> 1"
abbreviation VALIDATION_MAX_CHUNKS_PER_QP :: nat where "VALIDATION_MAX_CHUNKS_PER_QP \<equiv> 24"
abbreviation VALIDATION_MIN_CHUNK_BYTES :: nat where "VALIDATION_MIN_CHUNK_BYTES \<equiv> 65536"
abbreviation VALIDATION_MAX_CHUNK_BYTES :: nat where "VALIDATION_MAX_CHUNK_BYTES \<equiv> 8388608"

datatype validation_mismatch_type =
  VALIDATION_MISMATCH_NONE
| VALIDATION_MISMATCH_REAL
| VALIDATION_MISMATCH_RACE
| VALIDATION_MISMATCH_STALE

definition validation_cycle_to_pattern :: "u64 \<Rightarrow> u8" where
  "validation_cycle_to_pattern cycle = ucast (1 + cycle mod 3)"

definition validation_is_pattern :: "u8 \<Rightarrow> bool" where
  "validation_is_pattern v \<longleftrightarrow> v \<ge> VALIDATION_PATTERN_0 \<and> v < VALIDATION_PATTERN_0 + 3"

section \<open>Chunk size and ring depth\<close>

text \<open>
  \<open>derive_validation_chunk_size\<close> divides by \<^verbatim>\<open>tx_depth\<close> on its first and second branch.  A zero
  divisor traps in C; the model returns \<open>None\<close> there.
\<close>

definition derive_validation_chunk_size :: "u64 \<Rightarrow> u32 \<Rightarrow> u32 option" where
  "derive_validation_chunk_size payload tx_depth =
     (let raw_chunk_bytes = payload * ucast tx_depth in
      if raw_chunk_bytes < 65536 \<and> payload > 0 then
        (let needed = ucast ((65536 + payload - 1) div payload) :: u32 in
         if tx_depth = 0 then None
         else Some (((needed + tx_depth - 1) div tx_depth) * tx_depth))
      else if raw_chunk_bytes > 8388608 \<and> payload > 0 then
        (let target = ucast (8388608 div payload) :: u32 in
         if target \<ge> tx_depth then
           (if tx_depth = 0 then None else Some ((target div tx_depth) * tx_depth))
         else Some (if target > 0 then target else 1))
      else Some tx_depth)"

definition validation_base_depth :: "u64 \<Rightarrow> int" where
  "validation_base_depth chunk_bytes =
     (if chunk_bytes < 131072 then 12
      else if chunk_bytes < 524288 then 10
      else if chunk_bytes < 2097152 then 8
      else if chunk_bytes < 8388608 then 6
      else 4)"

definition validation_scale_depth :: "int \<Rightarrow> int \<Rightarrow> bool \<Rightarrow> int" where
  "validation_scale_depth base0 num_qps is_read =
     (let base1 = (if num_qps \<le> 2 then base0 * 2
                   else if num_qps \<le> 4 then (base0 * 3) div 2
                   else base0);
          base2 = (if is_read then (base1 * 3) div 2 else base1)
      in if base2 > 24 then 24 else base2)"

definition derive_validation_chunks_per_qp :: "u64 \<Rightarrow> int \<Rightarrow> bool \<Rightarrow> int" where
  "derive_validation_chunks_per_qp chunk_bytes num_qps is_read =
     validation_scale_depth (validation_base_depth chunk_bytes) num_qps is_read"

section \<open>Buffer layout\<close>

definition VALIDATION_CACHE_LINE_ALIGN :: "u64 \<Rightarrow> u64" where
  "VALIDATION_CACHE_LINE_ALIGN x = (x + 63) AND NOT 63"

record validation_buffer_layout =
  vl_total_size :: u64
  vl_markers_offset :: u64
  vl_recv_slots_offset :: u64
  vl_atomic_returns_offset :: u64
  vl_markers_size :: u64
  vl_recv_slots_size :: u64
  vl_atomic_returns_size :: u64
  vl_slots_per_qp :: u32

definition validation_safe_mul_u64 :: "u64 \<Rightarrow> u64 \<Rightarrow> u64 option" where
  "validation_safe_mul_u64 a b =
     (if a \<noteq> 0 \<and> b > 0xFFFFFFFFFFFFFFFF div a then None else Some (a * b))"

text \<open>
  The result is \<open>None\<close> for the return value \<open>-1\<close>.  The caller's structure is written before
  the overflow checks, but no caller reads it when \<open>-1\<close> is returned.
\<close>

definition compute_validation_layout ::
    "u64 \<Rightarrow> u32 \<Rightarrow> u32 \<Rightarrow> u32 \<Rightarrow> bool \<Rightarrow> validation_buffer_layout option" where
  "compute_validation_layout payload_size tx_depth num_qps chunks_per_qp is_read_mode =
     (if payload_size = 0 \<or> tx_depth = 0 \<or> num_qps = 0 \<or> chunks_per_qp = 0 then None
      else
        let total_chunks = num_qps * chunks_per_qp;
            slots = tx_depth * chunks_per_qp;
            msize = ucast total_chunks * 8
        in case validation_safe_mul_u64 payload_size (ucast tx_depth) of
             None \<Rightarrow> None
           | Some chunk_bytes \<Rightarrow>
          (case validation_safe_mul_u64 chunk_bytes (ucast chunks_per_qp) of
             None \<Rightarrow> None
           | Some qp_bytes \<Rightarrow>
          (case validation_safe_mul_u64 qp_bytes (ucast num_qps) of
             None \<Rightarrow> None
           | Some rsize \<Rightarrow>
             (let asize = (if is_read_mode then ucast total_chunks * 8 else ucast num_qps * 8);
                  moff = VALIDATION_CACHE_LINE_ALIGN (payload_size * 3);
                  roff = VALIDATION_CACHE_LINE_ALIGN (moff + msize);
                  aoff = VALIDATION_CACHE_LINE_ALIGN (roff + rsize)
              in Some \<lparr> vl_total_size = aoff + asize, vl_markers_offset = moff,
                        vl_recv_slots_offset = roff, vl_atomic_returns_offset = aoff,
                        vl_markers_size = msize, vl_recv_slots_size = rsize,
                        vl_atomic_returns_size = asize, vl_slots_per_qp = slots \<rparr>))))"

section \<open>Classification of a mismatch\<close>

definition validation_tail_bytes :: "u64 \<Rightarrow> u64" where
  "validation_tail_bytes payload_size =
     (let tail_bytes = payload_size * 2 in if tail_bytes < 256 then 256 else tail_bytes)"

definition classify_validation_mismatch ::
    "u64 \<Rightarrow> u64 \<Rightarrow> u64 \<Rightarrow> u8 \<Rightarrow> u8 \<Rightarrow> bool \<Rightarrow> u8 \<times> u8 \<times> u8 \<times> u8 \<Rightarrow> bool
     \<Rightarrow> validation_mismatch_type" where
  "classify_validation_mismatch error_offset chunk_size payload_size expected actual
       retry_matched fwd fwd_valid =
     (let tail_bytes = validation_tail_bytes payload_size in
      if error_offset \<ge> chunk_size - tail_bytes \<and> retry_matched then VALIDATION_MISMATCH_STALE
      else case fwd of (f0, f1, f2, f3) \<Rightarrow>
        (if fwd_valid \<and> actual \<noteq> expected \<and> validation_is_pattern actual \<and>
            actual = f0 \<and> actual = f1 \<and> actual = f2 \<and> actual = f3
         then VALIDATION_MISMATCH_RACE
         else VALIDATION_MISMATCH_REAL))"

section \<open>Facts on patterns\<close>

lemma unat_cycle_to_pattern [word_nat]:
  "unat (validation_cycle_to_pattern c) = 1 + unat c mod 3"
proof -
  have m: "unat (c mod 3) = unat c mod 3" by (simp add: unat_mod_word)
  have "unat c mod 3 < 3" by simp
  then have "unat (1 + c mod 3) = 1 + unat c mod 3"
    by (subst unat_add_exact) (auto simp: m)
  with \<open>unat c mod 3 < 3\<close> show ?thesis
    unfolding validation_cycle_to_pattern_def by (subst unat_ucast_exact) auto
qed

lemma is_pattern_iff [word_nat]: "validation_is_pattern v \<longleftrightarrow> 1 \<le> unat v \<and> unat v \<le> 3"
  by (simp add: validation_is_pattern_def word_le_nat_alt word_less_nat_alt) linarith

lemma cycle_to_pattern_is_pattern: "validation_is_pattern (validation_cycle_to_pattern c)"
proof -
  have "unat c mod 3 < 3" by simp
  then show ?thesis by (simp add: is_pattern_iff unat_cycle_to_pattern)
qed

lemma cycle_to_pattern_eq_iff:
  "validation_cycle_to_pattern c = validation_cycle_to_pattern d \<longleftrightarrow> unat c mod 3 = unat d mod 3"
  by (simp add: word_unat_eq_iff unat_cycle_to_pattern)

section \<open>Facts on the chunk size\<close>

lemma chunk_raw_exact:
  assumes "unat payload \<le> 8388608"
  shows "unat (payload * ucast (tx :: u32) :: u64) = unat payload * unat tx"
proof -
  have "unat payload * unat tx \<le> 8388608 * 4294967295"
    using assms unat_lt_u32 [of tx] by (intro mult_le_mono) simp_all
  then show ?thesis by (subst unat_mult_exact) (simp_all add: unat_u32_to_u64)
qed

lemma needed_exact:
  assumes "0 < unat payload" "unat payload \<le> 8388608"
  shows "unat (ucast ((65536 + payload - 1 :: u64) div payload) :: u32)
         = (65536 + unat payload - 1) div unat payload"
proof -
  have "unat (65536 + payload) = 65536 + unat payload"
    by (subst unat_add_exact) (use assms in simp_all)
  then have "unat (65536 + payload - 1) = 65536 + unat payload - 1"
    by (subst unat_sub_exact) (use assms in simp_all)
  then have "unat ((65536 + payload - 1) div payload) = (65536 + unat payload - 1) div unat payload"
    by (simp only: unat_div_word)
  moreover have "(65536 + unat payload - 1) div unat payload < 4294967296"
    using div_le_dividend [of "65536 + unat payload - 1" "unat payload"] assms by linarith
  ultimately show ?thesis by (subst unat_ucast_exact) simp_all
qed

text \<open>Small payloads: the least multiple of \<open>tx\<close> that reaches the minimum chunk.\<close>

lemma chunk_size_small:
  assumes p: "0 < unat payload" "unat payload \<le> 8388608" and t: "0 < unat tx"
    and raw: "unat payload * unat tx < 65536"
  shows "\<exists>vcs. derive_validation_chunk_size payload tx = Some vcs \<and> unat tx dvd unat vcs \<and>
               65536 \<le> unat payload * unat vcs \<and> unat payload * unat vcs < 196608"
proof -
  let ?P = "unat payload" and ?T = "unat tx"
  let ?N = "(65536 + ?P - 1) div ?P"
  define n :: u32 where "n = ucast ((65536 + payload - 1) div payload)"
  have n: "unat n = ?N" using needed_exact [OF p] by (simp add: n_def)
  have NP: "65536 \<le> ?N * ?P" "?N * ?P < 65536 + ?P"
    using ceil_div_mult [OF p(1), of 65536] ceil_div_mult_less [OF p(1), of 65536] by auto
  have T: "?T \<le> ?P * ?T" "?P \<le> ?P * ?T" using p(1) t by simp_all
  then have Tb: "?T < 65536" "?P < 65536" using raw by linarith+
  have "?N \<le> ?N * ?P" using p(1) by simp
  then have Nb: "?N < 131072" using NP(2) Tb by linarith
  let ?V = "((?N + ?T - 1) div ?T) * ?T"
  have V: "?N \<le> ?V" "?V < ?N + ?T"
    using ceil_div_mult [OF t, of ?N] ceil_div_mult_less [OF t, of ?N] by auto
  have "unat (n + tx) = ?N + ?T" by (subst unat_add_exact) (use n Nb Tb in simp_all)
  then have s: "unat (n + tx - 1) = ?N + ?T - 1" by (subst unat_sub_exact) (use t in simp_all)
  have d: "unat ((n + tx - 1) div tx) = (?N + ?T - 1) div ?T" by (simp add: unat_div_word s)
  have v: "unat (((n + tx - 1) div tx) * tx) = ?V"
    by (subst unat_mult_exact) (use d V Nb Tb in simp_all)
  have "?N * ?P \<le> ?V * ?P" using V(1) by (rule mult_le_mono1)
  with NP(1) have "65536 \<le> ?P * ?V" by (simp only: mult.commute [of ?P])
  moreover have "?P * ?V \<le> ?P * ?N + ?P * ?T"
    using mult_le_mono2 [of ?V "?N + ?T" ?P] V(2) by (simp add: distrib_left)
  then have "?P * ?V < 196608" using NP(2) raw Tb mult.commute [of ?P ?N] by linarith
  moreover have "derive_validation_chunk_size payload tx = Some (((n + tx - 1) div tx) * tx)"
    using raw p t chunk_raw_exact [OF p(2), of tx]
    by (simp add: derive_validation_chunk_size_def Let_def n_def word_less_nat_alt word_eq_0_iff_unat)
  ultimately show ?thesis using v by (intro exI [of _ "((n + tx - 1) div tx) * tx"]) auto
qed

lemma chunk_size_large:
  assumes p: "0 < unat payload" "unat payload \<le> 8388608" and raw: "8388608 < unat payload * unat tx"
  shows "\<exists>vcs. derive_validation_chunk_size payload tx = Some vcs \<and> 0 < unat vcs \<and>
               unat vcs = 8388608 div unat payload"
proof -
  let ?P = "unat payload" and ?T = "unat tx"
  define target :: u32 where "target = ucast (8388608 div payload :: u64)"
  have dl: "8388608 div ?P \<le> 8388608" by (rule div_le_dividend)
  have t: "unat target = 8388608 div ?P"
    unfolding target_def
    by (subst unat_ucast_exact) (use order.strict_trans1 [OF dl, of 4294967296] in \<open>simp_all add: unat_div_word\<close>)
  have "8388608 div ?P < ?T" using raw p(1) by (simp add: div_less_iff_less_mult mult.commute)
  then have lt: "\<not> target \<ge> tx" by (simp add: word_le_nat_alt t)
  have "1 \<le> 8388608 div ?P" using p div_le_mono [of ?P 8388608 ?P] by simp
  then have pos: "target > 0" by (simp add: word_less_nat_alt t)
  have "derive_validation_chunk_size payload tx = Some target"
    using raw p chunk_raw_exact [OF p(2), of tx] lt pos
    by (simp add: derive_validation_chunk_size_def Let_def target_def word_less_nat_alt)
  with t pos show ?thesis by (auto simp: word_less_nat_alt)
qed

lemma chunk_size_middle:
  assumes p: "unat payload \<le> 8388608" and raw: "65536 \<le> unat payload * unat tx" "unat payload * unat tx \<le> 8388608"
  shows "derive_validation_chunk_size payload tx = Some tx"
  using raw chunk_raw_exact [OF p, of tx]
  by (simp add: derive_validation_chunk_size_def Let_def word_less_nat_alt)

lemma div_mult_gt_half: "m < 2 * (p * (m div p))" if "0 < p" "p \<le> m" for m p :: nat
proof -
  have "m = p * (m div p) + m mod p" by simp
  moreover have "m mod p < p" using that by simp
  moreover have "p * 1 \<le> p * (m div p)"
    using that by (intro mult_le_mono2) (simp add: Suc_leI div_greater_zero_iff)
  ultimately show ?thesis by linarith
qed

lemma chunk_size_bounds:
  assumes p: "0 < unat payload" "unat payload \<le> 8388608" and t: "0 < unat tx"
  obtains vcs where "derive_validation_chunk_size payload tx = Some vcs" "0 < unat vcs"
    "65536 \<le> unat payload * unat vcs" "unat payload * unat vcs \<le> 8388608"
proof -
  consider "unat payload * unat tx < 65536"
    | "65536 \<le> unat payload * unat tx" "unat payload * unat tx \<le> 8388608"
    | "8388608 < unat payload * unat tx" by linarith
  then show thesis
  proof cases
    case 1
    from chunk_size_small [OF p t this] obtain v where v: "derive_validation_chunk_size payload tx = Some v"
      "65536 \<le> unat payload * unat v" "unat payload * unat v < 196608" by blast
    from v(2) have "0 < unat v" by (cases "unat v") auto
    with v show thesis by (intro that) auto
  next
    case 2
    with chunk_size_middle [OF p(2) this] t show thesis by (intro that)
  next
    case 3
    from chunk_size_large [OF p this] obtain v where v: "derive_validation_chunk_size payload tx = Some v"
      "0 < unat v" "unat v = 8388608 div unat payload" by blast
    have "unat payload * unat v \<le> 8388608" by (simp add: v(3))
    moreover have "65536 \<le> unat payload * unat v" using div_mult_gt_half [OF p] by (simp add: v(3))
    ultimately show thesis using v(1,2) by (intro that)
  qed
qed

lemma base_depth_range: "4 \<le> validation_base_depth b" "validation_base_depth b \<le> 12"
  by (simp_all add: validation_base_depth_def)

lemma base_depth_antimono: "b \<le> b' \<Longrightarrow> validation_base_depth b' \<le> validation_base_depth b"
  unfolding validation_base_depth_def by (simp split: if_split) (use order.strict_trans1 in blast)

lemma half_more: "a \<le> b \<Longrightarrow> a * 3 div 2 \<le> b * 3 div 2" "0 \<le> a \<Longrightarrow> a \<le> a * 3 div 2" for a b :: int
  by (simp_all add: zdiv_mono1)

lemma scale_depth_min:
  "validation_scale_depth a n r =
     min 24 ((if r then (\<lambda>x. x * 3 div 2) else id)
       ((if n \<le> 2 then (\<lambda>x. x * 2) else if n \<le> 4 then (\<lambda>x. x * 3 div 2) else id) a))"
  by (simp add: validation_scale_depth_def Let_def min_def)

lemma scale_depth_mono: "a \<le> b \<Longrightarrow> validation_scale_depth a n r \<le> validation_scale_depth b n r"
  unfolding scale_depth_min by (intro min.mono) (simp_all add: half_more)

lemma half_more_ge4: "4 \<le> x \<Longrightarrow> 4 \<le> (if r then (\<lambda>x. x * 3 div 2) else id) x" for x :: int
  using half_more(2) [of x] by simp

lemma scale_depth_range:
  assumes "4 \<le> a"
  shows "4 \<le> validation_scale_depth a n r \<and> validation_scale_depth a n r \<le> 24"
proof -
  let ?b = "(if n \<le> 2 then (\<lambda>x. x * 2) else if n \<le> 4 then (\<lambda>x. x * 3 div 2) else id) a"
  have "4 \<le> ?b" using assms half_more(2) [of a] by simp
  then have "4 \<le> (if r then (\<lambda>x. x * 3 div 2) else id) ?b" by (rule half_more_ge4)
  then show ?thesis unfolding scale_depth_min by simp
qed

section \<open>Facts on the layout\<close>

lemma unat_cache_line_align:
  assumes "unat x + 63 < 18446744073709551616"
  shows "unat (VALIDATION_CACHE_LINE_ALIGN x) = ((unat x + 63) div 64) * 64"
proof -
  have "unat (x + 63) = unat x + 63" using assms by (subst unat_add_exact) simp_all
  moreover have "(63 :: u64) = mask 6" by (simp add: mask_eq_exp_minus_1)
  ultimately show ?thesis
    unfolding VALIDATION_CACHE_LINE_ALIGN_def using unat_and_not_mask [of 6 "x + 63"] by simp
qed

lemma cache_line_align_props:
  assumes "unat x + 63 < 18446744073709551616"
  shows "64 dvd unat (VALIDATION_CACHE_LINE_ALIGN x)" "unat x \<le> unat (VALIDATION_CACHE_LINE_ALIGN x)"
    "unat (VALIDATION_CACHE_LINE_ALIGN x) < unat x + 64"
  using unat_cache_line_align [OF assms] ceil_div_mult [of 64 "unat x"] ceil_div_mult_less [of 64 "unat x"]
  by simp_all

lemma safe_mul_Some_iff:
  "validation_safe_mul_u64 a b = Some r \<longleftrightarrow>
     unat a * unat b < 18446744073709551616 \<and> r = a * b"
proof (cases "a = 0")
  case True
  then show ?thesis by (auto simp: validation_safe_mul_u64_def)
next
  case False
  then have a: "0 < unat a" by (simp add: unat_gt_0)
  have "b > 0xFFFFFFFFFFFFFFFF div a \<longleftrightarrow> 18446744073709551615 div unat a < unat b"
    by (simp add: word_less_nat_alt unat_div_word)
  also have "\<dots> \<longleftrightarrow> 18446744073709551615 < unat a * unat b"
    using a by (simp add: div_less_iff_less_mult mult.commute)
  finally show ?thesis using False by (auto simp: validation_safe_mul_u64_def)
qed

lemma safe_mul_unat:
  "validation_safe_mul_u64 a b = Some r \<Longrightarrow> unat r = unat a * unat b"
  by (simp add: safe_mul_Some_iff unat_mult_exact)

lemma safe_mul_exact:
  "unat a * unat b < 18446744073709551616 \<Longrightarrow>
   validation_safe_mul_u64 a b = Some (a * b) \<and> unat (a * b) = unat a * unat b"
  by (simp add: safe_mul_Some_iff unat_mult_exact)

lemma recv_slots_product:
  fixes payload :: u64 and tx chunks qps :: u32
  assumes "0 < unat chunks" "0 < unat qps"
    and R: "unat payload * unat tx * unat chunks * unat qps < 18446744073709551616"
  shows "validation_safe_mul_u64 payload (ucast tx) = Some (payload * ucast tx)"
    and "validation_safe_mul_u64 (payload * ucast tx) (ucast chunks) = Some (payload * ucast tx * ucast chunks)"
    and "validation_safe_mul_u64 (payload * ucast tx * ucast chunks) (ucast qps) =
         Some (payload * ucast tx * ucast chunks * ucast qps)"
    and "unat (payload * ucast tx * ucast chunks * ucast qps) =
         unat payload * unat tx * unat chunks * unat qps"
proof -
  let ?a = "unat payload * unat tx"
  have "?a * 1 \<le> ?a * unat chunks" using assms(1) by (intro mult_le_mono2) simp
  moreover have "?a * unat chunks * 1 \<le> ?a * unat chunks * unat qps"
    using assms(2) by (intro mult_le_mono2) simp
  ultimately have b: "?a < 18446744073709551616" "?a * unat chunks < 18446744073709551616"
    using R by linarith+
  have 1: "unat (payload * ucast tx) = ?a" using b(1) by (simp add: unat_mult_exact unat_u32_to_u64)
  have 2: "unat (payload * ucast tx * ucast chunks) = ?a * unat chunks"
    using b(2) by (simp add: unat_mult_exact [of "payload * ucast tx"] 1 unat_u32_to_u64)
  show "validation_safe_mul_u64 payload (ucast tx) = Some (payload * ucast tx)"
    using b(1) by (simp add: safe_mul_Some_iff unat_u32_to_u64)
  show "validation_safe_mul_u64 (payload * ucast tx) (ucast chunks) = Some (payload * ucast tx * ucast chunks)"
    using b(2) by (simp add: safe_mul_Some_iff unat_u32_to_u64 1)
  show "validation_safe_mul_u64 (payload * ucast tx * ucast chunks) (ucast qps) =
         Some (payload * ucast tx * ucast chunks * ucast qps)"
    using R by (simp add: safe_mul_Some_iff unat_u32_to_u64 2)
  show "unat (payload * ucast tx * ucast chunks * ucast qps) = ?a * unat chunks * unat qps"
    using R by (simp add: unat_mult_exact [of "payload * ucast tx * ucast chunks"] 2 unat_u32_to_u64)
qed

text \<open>One region after another: where the aligned end of a region lies.\<close>

lemma align_after:
  fixes off size :: u64
  assumes "unat off + unat size + 63 < 18446744073709551616"
  shows "64 dvd unat (VALIDATION_CACHE_LINE_ALIGN (off + size))"
    "unat off + unat size \<le> unat (VALIDATION_CACHE_LINE_ALIGN (off + size))"
    "unat (VALIDATION_CACHE_LINE_ALIGN (off + size)) < unat off + unat size + 64"
proof -
  have "unat (off + size) = unat off + unat size" using assms by (simp add: unat_add_exact)
  with assms show "64 dvd unat (VALIDATION_CACHE_LINE_ALIGN (off + size))"
    "unat off + unat size \<le> unat (VALIDATION_CACHE_LINE_ALIGN (off + size))"
    "unat (VALIDATION_CACHE_LINE_ALIGN (off + size)) < unat off + unat size + 64"
    using cache_line_align_props [of "off + size"] by simp_all
qed

lemma unat_markers_size:
  fixes qps chunks :: u32
  assumes "unat qps * unat chunks < 4294967296"
  shows "unat (ucast (qps * chunks) * 8 :: u64) = 8 * (unat qps * unat chunks)"
proof -
  have "unat (ucast (qps * chunks) :: u64) = unat qps * unat chunks"
    using assms by (simp add: unat_u32_to_u64 unat_mult_exact)
  with assms show ?thesis by (subst unat_mult_exact) (simp_all add: mult.commute)
qed

lemma unat_per_qp_size: "unat (ucast (qps :: u32) * 8 :: u64) = 8 * unat qps"
  using unat_lt_u32 [of qps] by (subst unat_mult_exact) (simp_all add: unat_u32_to_u64)

section \<open>Properties\<close>

text \<open>
  The chunk size derived for a payload of at most 8 MB keeps every validation chunk
  (\<open>payload * chunk size\<close> bytes) between 64 KB and 8 MB, is at least one operation, and the
  derivation never divides by zero, for every positive queue depth.
\<close>

theorem derive_chunk_size_in_range:
  assumes "0 < unat payload" and "unat payload \<le> VALIDATION_MAX_CHUNK_BYTES" and "0 < unat tx_depth"
  shows "\<exists>vcs. derive_validation_chunk_size payload tx_depth = Some vcs \<and> 0 < unat vcs \<and>
           VALIDATION_MIN_CHUNK_BYTES \<le> unat payload * unat vcs \<and>
           unat payload * unat vcs \<le> VALIDATION_MAX_CHUNK_BYTES"
  using chunk_size_bounds [OF assms] by blast

theorem derive_chunk_size_in_range_witness:
  "\<exists>vcs. derive_validation_chunk_size 4096 3 = Some vcs \<and> 0 < unat vcs \<and>
      VALIDATION_MIN_CHUNK_BYTES \<le> unat (4096 :: u64) * unat vcs \<and>
      unat (4096 :: u64) * unat vcs \<le> VALIDATION_MAX_CHUNK_BYTES"
  using derive_chunk_size_in_range [of 4096 3] by simp

text \<open>
  The ring depth is between 4 and 24 chunks per queue pair, and smaller chunks never get a
  shallower ring than larger ones.
\<close>

theorem derive_chunks_per_qp_range:
  "4 \<le> derive_validation_chunks_per_qp b n r \<and>
   derive_validation_chunks_per_qp b n r \<le> int VALIDATION_MAX_CHUNKS_PER_QP \<and>
   (b \<le> b' \<longrightarrow> derive_validation_chunks_per_qp b' n r \<le> derive_validation_chunks_per_qp b n r)"
  using base_depth_range [of b] scale_depth_range base_depth_antimono [of b b'] scale_depth_mono
  unfolding derive_validation_chunks_per_qp_def by simp

theorem derive_chunks_per_qp_range_witness:
  "derive_validation_chunks_per_qp 8388608 1 False \<le> derive_validation_chunks_per_qp 65536 1 False"
  using derive_chunks_per_qp_range [of 65536 1 False 8388608] by simp

text \<open>
  When the regions fit in 64 bits, the layout exists, every region starts on a cache line, and
  the pattern buffers, the markers, the receive slots and the atomic return area follow each other
  without overlap and end at the total size.
\<close>

theorem layout_regions_ordered:
  fixes payload_size :: u64 and tx_depth num_qps chunks_per_qp :: u32
  defines "P \<equiv> unat payload_size" and "T \<equiv> unat tx_depth" and "N \<equiv> unat num_qps" and "C \<equiv> unat chunks_per_qp"
  assumes pos: "0 < P" "0 < T" "0 < N" "0 < C" and small: "N * C < 2 ^ 32"
    and fits: "3 * P + P * T * C * N + 16 * (N * C) + 256 < 2 ^ 64"
  shows "\<exists>l. compute_validation_layout payload_size tx_depth num_qps chunks_per_qp rd = Some l \<and>
     64 dvd unat (vl_markers_offset l) \<and> 64 dvd unat (vl_recv_slots_offset l) \<and>
     64 dvd unat (vl_atomic_returns_offset l) \<and>
     3 * P \<le> unat (vl_markers_offset l) \<and>
     unat (vl_markers_offset l) + 8 * (N * C) \<le> unat (vl_recv_slots_offset l) \<and>
     unat (vl_recv_slots_offset l) + P * T * C * N \<le> unat (vl_atomic_returns_offset l) \<and>
     unat (vl_total_size l) = unat (vl_atomic_returns_offset l) + (if rd then 8 * (N * C) else 8 * N)"
proof -
  let ?R = "P * T * C * N"
  define rsize where "rsize = payload_size * ucast tx_depth * ucast chunks_per_qp * ucast num_qps"
  define moff where "moff = VALIDATION_CACHE_LINE_ALIGN (payload_size * 3)"
  define msize where "msize = (ucast (num_qps * chunks_per_qp) * 8 :: u64)"
  define roff where "roff = VALIDATION_CACHE_LINE_ALIGN (moff + msize)"
  define aoff where "aoff = VALIDATION_CACHE_LINE_ALIGN (roff + rsize)"
  define asize where "asize = (if rd then msize else (ucast num_qps * 8 :: u64))"
  have R: "unat payload_size * unat tx_depth * unat chunks_per_qp * unat num_qps < 18446744073709551616"
    using fits by (simp add: P_def T_def C_def N_def)
  note prod = recv_slots_product [OF pos(4) [unfolded C_def] pos(3) [unfolded N_def] R]
  have rs: "unat rsize = ?R" using prod(4) by (simp add: rsize_def P_def T_def C_def N_def)
  have ms: "unat msize = 8 * (N * C)"
    using unat_markers_size [of num_qps chunks_per_qp] small by (simp add: msize_def N_def C_def)
  have as: "unat asize = (if rd then 8 * (N * C) else 8 * N)"
    by (simp add: asize_def ms unat_per_qp_size N_def)
  have "N * 1 \<le> N * C" using pos(4) by (intro mult_le_mono2) simp
  then have as_le: "unat asize \<le> 8 * (N * C)" using as by auto
  have p3: "unat (payload_size * 3) = 3 * P"
    using fits by (subst unat_mult_exact) (simp_all add: P_def)
  have m: "64 dvd unat moff" "3 * P \<le> unat moff" "unat moff < 3 * P + 64"
    using cache_line_align_props [of "payload_size * 3"] fits by (simp_all add: p3 moff_def)
  have r: "64 dvd unat roff" "unat moff + 8 * (N * C) \<le> unat roff" "unat roff < unat moff + 8 * (N * C) + 64"
    using align_after [of moff msize] m fits by (simp_all add: ms roff_def)
  have a: "64 dvd unat aoff" "unat roff + ?R \<le> unat aoff" "unat aoff < unat roff + ?R + 64"
    using align_after [of roff rsize] m r fits by (simp_all add: rs aoff_def)
  have t: "unat (aoff + asize) = unat aoff + unat asize"
    using a m r fits as_le by (subst unat_add_exact) simp_all
  have nz: "payload_size \<noteq> 0" "tx_depth \<noteq> 0" "num_qps \<noteq> 0" "chunks_per_qp \<noteq> 0"
    using pos by (auto simp: P_def T_def N_def C_def)
  have "compute_validation_layout payload_size tx_depth num_qps chunks_per_qp rd =
      Some \<lparr> vl_total_size = aoff + asize, vl_markers_offset = moff, vl_recv_slots_offset = roff,
             vl_atomic_returns_offset = aoff, vl_markers_size = msize, vl_recv_slots_size = rsize,
             vl_atomic_returns_size = asize, vl_slots_per_qp = tx_depth * chunks_per_qp \<rparr>"
    using nz prod(1-3)
    by (simp add: compute_validation_layout_def Let_def moff_def roff_def aoff_def msize_def rsize_def asize_def)
  then show ?thesis using m r a t as by auto
qed

theorem layout_regions_ordered_witness:
  "\<exists>l. compute_validation_layout 4096 128 2 12 True = Some l \<and>
     64 dvd unat (vl_markers_offset l) \<and> 64 dvd unat (vl_recv_slots_offset l) \<and>
     64 dvd unat (vl_atomic_returns_offset l) \<and>
     3 * unat (4096 :: u64) \<le> unat (vl_markers_offset l) \<and>
     unat (vl_markers_offset l) + 8 * (unat (2 :: u32) * unat (12 :: u32)) \<le> unat (vl_recv_slots_offset l) \<and>
     unat (vl_recv_slots_offset l) + unat (4096 :: u64) * unat (128 :: u32) * unat (12 :: u32) * unat (2 :: u32)
       \<le> unat (vl_atomic_returns_offset l) \<and>
     unat (vl_total_size l) = unat (vl_atomic_returns_offset l) +
       (if True then 8 * (unat (2 :: u32) * unat (12 :: u32)) else 8 * unat (2 :: u32))"
  using layout_regions_ordered [of 4096 128 2 12 True] by simp

text \<open>
  The header promises \<open>-1\<close> on overflow, but only the receive area's size is computed with
  checked multiplications.  A payload of \<open>2 ^ 63\<close> bytes is accepted with a total size of 72 bytes.
\<close>

lemma layout_unchecked_overflow:
  "map_option vl_total_size (compute_validation_layout 0x8000000000000000 1 1 1 False) = Some 72"
  by (simp add: compute_validation_layout_def validation_safe_mul_u64_def
      VALIDATION_CACHE_LINE_ALIGN_def Let_def)

lemma tail_bytes_unat:
  "2 * unat payload < 18446744073709551616 \<Longrightarrow>
   unat (validation_tail_bytes payload) = max 256 (2 * unat payload)"
  by (simp add: validation_tail_bytes_def Let_def word_less_nat_alt unat_mult_exact max_def mult.commute)

text \<open>
  A mismatch is classified as a flushed tail exactly when the re-read matched and the offset
  lies in the last \<open>max 256 (2 * payload)\<close> bytes of the chunk, as a race exactly when it is not such
  a tail, the forward bytes are valid, and the byte read and the four after it are one fill pattern
  other than the expected one, and as real corruption in every other case, whenever the chunk is at
  least as long as its tail zone.
\<close>

theorem classify_mismatch_spec:
  assumes "max 256 (2 * unat payload_size) \<le> unat chunk_size"
  shows "classify_validation_mismatch off chunk_size payload_size expected actual retry (f0, f1, f2, f3) fv =
     (if retry \<and> unat chunk_size \<le> unat off + max 256 (2 * unat payload_size) then VALIDATION_MISMATCH_STALE
      else if fv \<and> actual \<noteq> expected \<and> unat actual \<in> {1, 2, 3} \<and> [f0, f1, f2, f3] = replicate 4 actual
      then VALIDATION_MISMATCH_RACE else VALIDATION_MISMATCH_REAL)"
proof -
  have t: "unat (validation_tail_bytes payload_size) = max 256 (2 * unat payload_size)"
    using assms unat_lt_u64 [of chunk_size] by (intro tail_bytes_unat) simp
  then have "unat (chunk_size - validation_tail_bytes payload_size) =
      unat chunk_size - max 256 (2 * unat payload_size)"
    using assms by (subst unat_sub_exact) simp_all
  then have z: "off \<ge> chunk_size - validation_tail_bytes payload_size \<longleftrightarrow>
      unat chunk_size \<le> unat off + max 256 (2 * unat payload_size)"
    by (simp add: word_le_nat_alt le_diff_conv)
  have p: "validation_is_pattern actual \<longleftrightarrow> unat actual \<in> {1, 2, 3}" by (auto simp: is_pattern_iff)
  show ?thesis
    unfolding classify_validation_mismatch_def Let_def z p prod.case by (auto simp: numeral_eq_Suc)
qed

theorem classify_mismatch_spec_witness:
  "classify_validation_mismatch 1000 4096 512 1 2 False (2, 2, 2, 2) True =
     (if False \<and> unat (4096 :: u64) \<le> unat (1000 :: u64) + max 256 (2 * unat (512 :: u64)) then VALIDATION_MISMATCH_STALE
      else if True \<and> (2 :: u8) \<noteq> 1 \<and> unat (2 :: u8) \<in> {1, 2, 3} \<and> [2, 2, 2, 2] = replicate 4 (2 :: u8)
      then VALIDATION_MISMATCH_RACE else VALIDATION_MISMATCH_REAL)"
  by (rule classify_mismatch_spec) simp

text \<open>
  When one operation fills the chunk, the tail zone is longer than the chunk and the unsigned
  subtraction \<^verbatim>\<open>chunk_size - tail_bytes\<close> wraps: no offset of the chunk is then in the tail zone, and a
  matching re-read is never reported as a flushed tail.
\<close>

lemma classify_single_op_chunk_never_stale:
  assumes "256 \<le> unat payload_size" "2 * unat payload_size < 18446744073709551616"
    and "unat off < unat payload_size"
  shows "classify_validation_mismatch off payload_size payload_size expected actual True fwd fv
         \<noteq> VALIDATION_MISMATCH_STALE"
proof -
  have t: "unat (validation_tail_bytes payload_size) = 2 * unat payload_size"
    using tail_bytes_unat [OF assms(2)] assms(1) by (simp add: max_def)
  have "unat (payload_size - validation_tail_bytes payload_size) =
      18446744073709551616 + unat payload_size - 2 * unat payload_size"
    using assms t by (simp add: unat_sub_if_size word_size word_le_nat_alt)
  then have "\<not> off \<ge> payload_size - validation_tail_bytes payload_size"
    using assms by (simp add: word_le_nat_alt)
  then show ?thesis
    by (simp add: classify_validation_mismatch_def Let_def split: prod.split)
qed

end
