(* ===== verification/Simd_Scan.thy ===== *)
theory Simd_Scan
  imports Prelude
begin

text \<open>
  Model of the SIMD pattern scans of \<^verbatim>\<open>src/src/host_validation.c\<close> (\<open>validate_avx512\<close>,
  \<open>validate_avx2\<close>, \<open>validate_sse42\<close>, \<open>validate_neon\<close>) and the proof that each of them computes
  the same function, the position of the first byte that differs from the pattern.

  The vector registers are byte lists; the intrinsics used by the source are defined below from
  their lane-wise meaning.  A result \<open>Some (offset, byte)\<close> stands for a non-negative return value
  with \<^verbatim>\<open>*actual_byte\<close> set, \<open>None\<close> for \<open>-1\<close>.  One scan sees one snapshot of the chunk; what a
  concurrent writer can do between two scans is part of the theory of the validator.
\<close>

section \<open>Intrinsics\<close>

definition loadu :: "nat \<Rightarrow> u8 list \<Rightarrow> nat \<Rightarrow> u8 list" where
  "loadu w data i = take w (drop i data)"

definition cmpeq_epi8_mask :: "u8 list \<Rightarrow> u8 \<Rightarrow> 'm::len word" where
  "cmpeq_epi8_mask v pat = horner_sum of_bool 2 (map (\<lambda>b. b = pat) v)"

definition cmpeq_epi8 :: "u8 list \<Rightarrow> u8 \<Rightarrow> u8 list" where
  "cmpeq_epi8 v pat = map (\<lambda>b. if b = pat then 0xFF else 0) v"

definition movemask_epi8 :: "u8 list \<Rightarrow> u32" where
  "movemask_epi8 v = horner_sum of_bool 2 (map (\<lambda>b. bit b 7) v)"

definition vandq_u8 :: "u8 list \<Rightarrow> u8 list \<Rightarrow> u8 list" where
  "vandq_u8 a b = map2 (AND) a b"

definition vgetq_lane_u64 :: "u8 list \<Rightarrow> nat \<Rightarrow> u64" where
  "vgetq_lane_u64 v lane =
     horner_sum of_bool 2 (concat (map (\<lambda>b. map (bit b) [0..<8]) (take 8 (drop (8 * lane) v))))"

text \<open>\<^verbatim>\<open>__builtin_ctz\<close>: the number of trailing zero bits (unspecified in C for 0).\<close>

definition ctz :: "'m::len word \<Rightarrow> nat" where
  "ctz w = length (takeWhile (\<lambda>n. \<not> bit w n) [0..<LENGTH('m)])"

section \<open>Loops\<close>

text \<open>
  The shape shared by every loop of the four functions, \<^verbatim>\<open>for (; i + w <= size; i += w)\<close> with an
  early return: \<open>Inl p\<close> is the early return of offset \<open>p\<close>, \<open>Inr i\<close> the index on leaving the loop.
\<close>

function simd_loop :: "nat \<Rightarrow> (nat \<Rightarrow> nat option) \<Rightarrow> nat \<Rightarrow> nat \<Rightarrow> nat + nat" where
  "simd_loop w step i sz =
     (if 0 < w \<and> i + w \<le> sz then
        (case step i of Some p \<Rightarrow> Inl p | None \<Rightarrow> simd_loop w step (i + w) sz)
      else Inr i)"
  by pat_completeness auto
termination
  by (relation "measure (\<lambda>(w, step, i, sz). sz - i)") auto

declare simd_loop.simps [simp del]

definition scalar_step :: "u8 list \<Rightarrow> u8 \<Rightarrow> nat \<Rightarrow> nat option" where
  "scalar_step data pattern i = (if data ! i \<noteq> pattern then Some i else None)"

section \<open>AVX-512\<close>

definition avx512_quad :: "u8 list \<Rightarrow> u8 \<Rightarrow> nat \<Rightarrow> nat option" where
  "avx512_quad data pattern i =
     (let m0 = cmpeq_epi8_mask (loadu 64 data i) pattern :: u64;
          m1 = cmpeq_epi8_mask (loadu 64 data (i + 64)) pattern :: u64;
          m2 = cmpeq_epi8_mask (loadu 64 data (i + 128)) pattern :: u64;
          m3 = cmpeq_epi8_mask (loadu 64 data (i + 192)) pattern :: u64
      in if (m0 AND m1 AND m2 AND m3) \<noteq> 0xFFFFFFFFFFFFFFFF then
           (if m0 \<noteq> 0xFFFFFFFFFFFFFFFF then Some (i + ctz (NOT m0))
            else if m1 \<noteq> 0xFFFFFFFFFFFFFFFF then Some (i + 64 + ctz (NOT m1))
            else if m2 \<noteq> 0xFFFFFFFFFFFFFFFF then Some (i + 128 + ctz (NOT m2))
            else Some (i + 192 + ctz (NOT m3)))
         else None)"

definition avx512_single :: "u8 list \<Rightarrow> u8 \<Rightarrow> nat \<Rightarrow> nat option" where
  "avx512_single data pattern i =
     (let mask = cmpeq_epi8_mask (loadu 64 data i) pattern :: u64
      in if mask \<noteq> 0xFFFFFFFFFFFFFFFF then Some (i + ctz (NOT mask)) else None)"

definition validate_avx512 :: "u8 list \<Rightarrow> u8 \<Rightarrow> nat \<Rightarrow> (nat \<times> u8) option" where
  "validate_avx512 data pattern sz =
     (case simd_loop 256 (avx512_quad data pattern) 0 sz of
        Inl p \<Rightarrow> Some (p, data ! p)
      | Inr i \<Rightarrow> (case simd_loop 64 (avx512_single data pattern) i sz of
          Inl p \<Rightarrow> Some (p, data ! p)
        | Inr i \<Rightarrow> (case simd_loop 1 (scalar_step data pattern) i sz of
            Inl p \<Rightarrow> Some (p, data ! p)
          | Inr _ \<Rightarrow> None)))"

section \<open>AVX2\<close>

definition avx2_mask :: "u8 list \<Rightarrow> u8 \<Rightarrow> nat \<Rightarrow> u32" where
  "avx2_mask data pattern i = movemask_epi8 (cmpeq_epi8 (loadu 32 data i) pattern)"

definition avx2_quad :: "u8 list \<Rightarrow> u8 \<Rightarrow> nat \<Rightarrow> nat option" where
  "avx2_quad data pattern i =
     (let m0 = avx2_mask data pattern i;
          m1 = avx2_mask data pattern (i + 32);
          m2 = avx2_mask data pattern (i + 64);
          m3 = avx2_mask data pattern (i + 96)
      in if (m0 AND m1 AND m2 AND m3) \<noteq> 0xFFFFFFFF then
           (if m0 \<noteq> 0xFFFFFFFF then Some (i + ctz (NOT m0))
            else if m1 \<noteq> 0xFFFFFFFF then Some (i + 32 + ctz (NOT m1))
            else if m2 \<noteq> 0xFFFFFFFF then Some (i + 64 + ctz (NOT m2))
            else Some (i + 96 + ctz (NOT m3)))
         else None)"

definition avx2_single :: "u8 list \<Rightarrow> u8 \<Rightarrow> nat \<Rightarrow> nat option" where
  "avx2_single data pattern i =
     (let mask = avx2_mask data pattern i
      in if mask \<noteq> 0xFFFFFFFF then Some (i + ctz (NOT mask)) else None)"

definition validate_avx2 :: "u8 list \<Rightarrow> u8 \<Rightarrow> nat \<Rightarrow> (nat \<times> u8) option" where
  "validate_avx2 data pattern sz =
     (case simd_loop 128 (avx2_quad data pattern) 0 sz of
        Inl p \<Rightarrow> Some (p, data ! p)
      | Inr i \<Rightarrow> (case simd_loop 32 (avx2_single data pattern) i sz of
          Inl p \<Rightarrow> Some (p, data ! p)
        | Inr i \<Rightarrow> (case simd_loop 1 (scalar_step data pattern) i sz of
            Inl p \<Rightarrow> Some (p, data ! p)
          | Inr _ \<Rightarrow> None)))"

section \<open>SSE4.2\<close>

definition sse42_mask :: "u8 list \<Rightarrow> u8 \<Rightarrow> nat \<Rightarrow> u32" where
  "sse42_mask data pattern i = movemask_epi8 (cmpeq_epi8 (loadu 16 data i) pattern)"

definition sse42_quad :: "u8 list \<Rightarrow> u8 \<Rightarrow> nat \<Rightarrow> nat option" where
  "sse42_quad data pattern i =
     (let m0 = sse42_mask data pattern i;
          m1 = sse42_mask data pattern (i + 16);
          m2 = sse42_mask data pattern (i + 32);
          m3 = sse42_mask data pattern (i + 48)
      in if (m0 AND m1 AND m2 AND m3) \<noteq> 0xFFFF then
           (if m0 \<noteq> 0xFFFF then Some (i + ctz (NOT m0 AND 0xFFFF))
            else if m1 \<noteq> 0xFFFF then Some (i + 16 + ctz (NOT m1 AND 0xFFFF))
            else if m2 \<noteq> 0xFFFF then Some (i + 32 + ctz (NOT m2 AND 0xFFFF))
            else Some (i + 48 + ctz (NOT m3 AND 0xFFFF)))
         else None)"

definition sse42_single :: "u8 list \<Rightarrow> u8 \<Rightarrow> nat \<Rightarrow> nat option" where
  "sse42_single data pattern i =
     (let mask = sse42_mask data pattern i
      in if mask \<noteq> 0xFFFF then Some (i + ctz (NOT mask AND 0xFFFF)) else None)"

definition validate_sse42 :: "u8 list \<Rightarrow> u8 \<Rightarrow> nat \<Rightarrow> (nat \<times> u8) option" where
  "validate_sse42 data pattern sz =
     (case simd_loop 64 (sse42_quad data pattern) 0 sz of
        Inl p \<Rightarrow> Some (p, data ! p)
      | Inr i \<Rightarrow> (case simd_loop 16 (sse42_single data pattern) i sz of
          Inl p \<Rightarrow> Some (p, data ! p)
        | Inr i \<Rightarrow> (case simd_loop 1 (scalar_step data pattern) i sz of
            Inl p \<Rightarrow> Some (p, data ! p)
          | Inr _ \<Rightarrow> None)))"

section \<open>NEON\<close>

text \<open>A block whose lanes are not all ones is searched byte by byte.\<close>

definition neon_rescan :: "u8 list \<Rightarrow> u8 \<Rightarrow> nat \<Rightarrow> nat \<Rightarrow> nat option" where
  "neon_rescan data pattern i n =
     (case simd_loop 1 (scalar_step data pattern) i (i + n) of Inl p \<Rightarrow> Some p | Inr _ \<Rightarrow> None)"

definition neon_quad :: "u8 list \<Rightarrow> u8 \<Rightarrow> nat \<Rightarrow> nat option" where
  "neon_quad data pattern i =
     (let c0 = cmpeq_epi8 (loadu 16 data i) pattern;
          c1 = cmpeq_epi8 (loadu 16 data (i + 16)) pattern;
          c2 = cmpeq_epi8 (loadu 16 data (i + 32)) pattern;
          c3 = cmpeq_epi8 (loadu 16 data (i + 48)) pattern;
          all64 = vandq_u8 (vandq_u8 c0 c1) (vandq_u8 c2 c3)
      in if vgetq_lane_u64 all64 0 \<noteq> 0xFFFFFFFFFFFFFFFF \<or> vgetq_lane_u64 all64 1 \<noteq> 0xFFFFFFFFFFFFFFFF
         then neon_rescan data pattern i 64
         else None)"

definition neon_single :: "u8 list \<Rightarrow> u8 \<Rightarrow> nat \<Rightarrow> nat option" where
  "neon_single data pattern i =
     (let cmp64 = cmpeq_epi8 (loadu 16 data i) pattern
      in if vgetq_lane_u64 cmp64 0 \<noteq> 0xFFFFFFFFFFFFFFFF \<or> vgetq_lane_u64 cmp64 1 \<noteq> 0xFFFFFFFFFFFFFFFF
         then neon_rescan data pattern i 16
         else None)"

definition validate_neon :: "u8 list \<Rightarrow> u8 \<Rightarrow> nat \<Rightarrow> (nat \<times> u8) option" where
  "validate_neon data pattern sz =
     (case simd_loop 64 (neon_quad data pattern) 0 sz of
        Inl p \<Rightarrow> Some (p, data ! p)
      | Inr i \<Rightarrow> (case simd_loop 16 (neon_single data pattern) i sz of
          Inl p \<Rightarrow> Some (p, data ! p)
        | Inr i \<Rightarrow> (case simd_loop 1 (scalar_step data pattern) i sz of
            Inl p \<Rightarrow> Some (p, data ! p)
          | Inr _ \<Rightarrow> None)))"

section \<open>Specification\<close>

text \<open>What a scan promises: the first offset below \<open>sz\<close> whose byte differs, with that byte.\<close>

definition first_mismatch :: "u8 list \<Rightarrow> u8 \<Rightarrow> nat \<Rightarrow> (nat \<times> u8) option" where
  "first_mismatch data pattern sz =
     map_option (\<lambda>p. (p, data ! p)) (find (\<lambda>p. data ! p \<noteq> pattern) [0..<sz])"

text \<open>\<open>r\<close> is the first bad offset of the interval from \<open>a\<close> to \<open>b\<close>, if there is one.\<close>

definition first_bad_in :: "(nat \<Rightarrow> bool) \<Rightarrow> nat \<Rightarrow> nat \<Rightarrow> nat option \<Rightarrow> bool" where
  "first_bad_in bad a b r \<longleftrightarrow>
     (case r of None \<Rightarrow> (\<forall>k. a \<le> k \<and> k < b \<longrightarrow> \<not> bad k)
      | Some p \<Rightarrow> a \<le> p \<and> p < b \<and> bad p \<and> (\<forall>k. a \<le> k \<and> k < p \<longrightarrow> \<not> bad k))"

lemma first_bad_in_None: "first_bad_in bad a b None \<longleftrightarrow> (\<forall>k. a \<le> k \<and> k < b \<longrightarrow> \<not> bad k)"
  by (simp add: first_bad_in_def)

lemma first_bad_in_Some:
  "first_bad_in bad a b (Some p) \<longleftrightarrow> a \<le> p \<and> p < b \<and> bad p \<and> (\<forall>k. a \<le> k \<and> k < p \<longrightarrow> \<not> bad k)"
  by (simp add: first_bad_in_def)

lemma first_bad_in_empty [simp]: "first_bad_in bad i i None"
  by (auto simp: first_bad_in_def)

lemma first_bad_in_append:
  assumes "first_bad_in bad a b r" "first_bad_in bad b c s" "a \<le> b" "b \<le> c"
  shows "first_bad_in bad a c (case r of None \<Rightarrow> s | Some p \<Rightarrow> Some p)"
  using assms by (auto simp: first_bad_in_def split: option.splits) (meson not_le_imp_less)+

lemma first_bad_in_find: "first_bad_in bad 0 n (find bad [0..<n])"
  by (auto simp: first_bad_in_def find_None_iff find_Some_iff split: option.split)

lemma first_bad_in_unique: "first_bad_in bad a b r \<Longrightarrow> first_bad_in bad a b s \<Longrightarrow> r = s"
  by (cases r; cases s) (auto simp: first_bad_in_def, metis nat_neq_iff)

section \<open>The interface of a block step\<close>

text \<open>
  A step promises, on every block of \<open>width\<close> bytes inside the data, the first bad byte of that
  block.  The loops need nothing else.
\<close>

locale block_step =
  fixes width :: nat and step :: "nat \<Rightarrow> nat option" and bad :: "nat \<Rightarrow> bool" and len :: nat
  assumes width_pos: "0 < width"
    and step_first: "i + width \<le> len \<Longrightarrow> first_bad_in bad i (i + width) (step i)"
begin

lemma loop_first:
  assumes "sz \<le> len" "i \<le> sz"
  shows "case simd_loop width step i sz of
           Inl p \<Rightarrow> first_bad_in bad i sz (Some p)
         | Inr j \<Rightarrow> first_bad_in bad i j None \<and> i \<le> j \<and> j \<le> sz \<and> sz < j + width"
  using assms(2)
proof (induction "sz - i" arbitrary: i rule: less_induct)
  case less
  show ?case
  proof (cases "i + width \<le> sz")
    case False
    with less.prems show ?thesis by (simp add: simd_loop.simps)
  next
    case True
    then have blk: "first_bad_in bad i (i + width) (step i)" using assms(1) by (intro step_first) simp
    show ?thesis
    proof (cases "step i")
      case (Some p)
      with True blk width_pos show ?thesis by (simp add: simd_loop.simps [of _ _ i] first_bad_in_Some)
    next
      case None
      from True width_pos have "sz - (i + width) < sz - i" by linarith
      note IH = less.hyps [OF this True]
      have eq: "simd_loop width step i sz = simd_loop width step (i + width) sz"
        using True None width_pos by (simp add: simd_loop.simps [of _ _ i])
      show ?thesis
      proof (cases "simd_loop width step (i + width) sz")
        case (Inl p)
        with IH have "first_bad_in bad (i + width) sz (Some p)" by simp
        with blk None True show ?thesis
          using first_bad_in_append [of bad i "i + width" None sz "Some p"] by (simp add: eq Inl)
      next
        case (Inr j)
        with IH have "first_bad_in bad (i + width) j None" "i + width \<le> j" "j \<le> sz" "sz < j + width"
          by simp_all
        with blk None show ?thesis
          using first_bad_in_append [of bad i "i + width" None j None] by (simp add: eq Inr)
      qed
    qed
  qed
qed

lemma loop_Inl:
  "simd_loop width step i sz = Inl p \<Longrightarrow> sz \<le> len \<Longrightarrow> i \<le> sz \<Longrightarrow> first_bad_in bad i sz (Some p)"
  using loop_first [of sz i] by simp

lemma loop_Inr:
  "simd_loop width step i sz = Inr j \<Longrightarrow> sz \<le> len \<Longrightarrow> i \<le> sz \<Longrightarrow>
   first_bad_in bad i j None \<and> i \<le> j \<and> j \<le> sz \<and> sz < j + width"
  using loop_first [of sz i] by simp

end

text \<open>A scan is three loops, a wide one, a narrow one and a scalar one, over the same data.\<close>

locale three_loop_scan =
  wide: block_step w1 quad bad len + narrow: block_step w2 single bad len +
  scalar: block_step 1 one bad len
  for w1 w2 :: nat and quad single one :: "nat \<Rightarrow> nat option" and bad :: "nat \<Rightarrow> bool" and len :: nat
begin

lemma scan_first:
  assumes "sz \<le> len"
  shows "first_bad_in bad 0 sz
    (case simd_loop w1 quad 0 sz of Inl p \<Rightarrow> Some p
     | Inr i \<Rightarrow> (case simd_loop w2 single i sz of Inl p \<Rightarrow> Some p
       | Inr j \<Rightarrow> (case simd_loop 1 one j sz of Inl p \<Rightarrow> Some p | Inr _ \<Rightarrow> None)))"
proof (cases "simd_loop w1 quad 0 sz")
  case (Inl p)
  then show ?thesis using wide.loop_Inl [OF Inl assms] by simp
next
  case (Inr i)
  note i = wide.loop_Inr [OF Inr assms]
  show ?thesis
  proof (cases "simd_loop w2 single i sz")
    case (Inl p)
    from i narrow.loop_Inl [OF Inl assms] show ?thesis
      using first_bad_in_append [of bad 0 i None sz "Some p"] by (simp add: Inr Inl)
  next
    case j: (Inr j)
    note jj = narrow.loop_Inr [OF j assms]
    have 0: "first_bad_in bad 0 j None" "j \<le> sz"
      using i jj first_bad_in_append [of bad 0 i None j None] by auto
    show ?thesis
    proof (cases "simd_loop 1 one j sz")
      case (Inl p)
      from 0 scalar.loop_Inl [OF Inl assms] show ?thesis
        using first_bad_in_append [of bad 0 j None sz "Some p"] by (simp add: Inr j Inl del: One_nat_def)
    next
      case k: (Inr k)
      with scalar.loop_Inr [OF k assms] 0 have "first_bad_in bad j k None" "k = sz" by auto
      then have "first_bad_in bad j sz None" by simp
      with 0 show ?thesis using first_bad_in_append [of bad 0 j None sz None] by (simp add: Inr j k del: One_nat_def)
    qed
  qed
qed

lemma scan_eq:
  assumes "sz \<le> len"
  shows "(case simd_loop w1 quad 0 sz of Inl p \<Rightarrow> Some p
     | Inr i \<Rightarrow> (case simd_loop w2 single i sz of Inl p \<Rightarrow> Some p
       | Inr j \<Rightarrow> (case simd_loop 1 one j sz of Inl p \<Rightarrow> Some p | Inr _ \<Rightarrow> None)))
     = find bad [0..<sz]"
  using scan_first [OF assms] first_bad_in_find by (rule first_bad_in_unique)

end

section \<open>Masks\<close>

lemma bit_cmpeq_mask:
  "bit (cmpeq_epi8_mask v pat :: 'm::len word) n \<longleftrightarrow> n < LENGTH('m) \<and> n < length v \<and> v ! n = pat"
  by (auto simp: cmpeq_epi8_mask_def bit_horner_sum_bit_word_iff)

lemma movemask_cmpeq: "movemask_epi8 (cmpeq_epi8 v pat) = cmpeq_epi8_mask v pat"
proof -
  have "bit (if b = pat then (0xFF :: u8) else 0) 7 \<longleftrightarrow> b = pat" for b
    by (simp add: bit_numeral_rec)
  then show ?thesis by (simp add: movemask_epi8_def cmpeq_epi8_def cmpeq_epi8_mask_def comp_def)
qed

lemma ctz_first:
  fixes x :: "'m::len word"
  assumes "x \<noteq> 0"
  shows "ctz x < LENGTH('m)" "bit x (ctz x)" "k < ctz x \<Longrightarrow> \<not> bit x k"
proof -
  let ?xs = "takeWhile (\<lambda>n. \<not> bit x n) [0..<LENGTH('m)]"
  from assms obtain n where n: "bit x n" by (auto simp: bit_eq_iff)
  then have "n < LENGTH('m)" by (rule bit_imp_le_length)
  with n have "\<exists>n \<in> set [0..<LENGTH('m)]. bit x n" by auto
  then have "length ?xs < length [0..<LENGTH('m)]"
    by (metis length_takeWhile_le le_neq_implies_less takeWhile_eq_all_conv take_all_iff takeWhile_eq_take)
  then show "ctz x < LENGTH('m)" by (simp add: ctz_def)
  from nth_length_takeWhile [OF \<open>length ?xs < _\<close>] show "bit x (ctz x)"
    using \<open>ctz x < LENGTH('m)\<close> by (simp add: ctz_def)
  show "k < ctz x \<Longrightarrow> \<not> bit x k"
    using \<open>ctz x < LENGTH('m)\<close> nth_mem [of k ?xs] by (auto simp: ctz_def takeWhile_nth dest: set_takeWhileD)
qed

lemma mask_block:
  fixes x :: "'m::len word"
  assumes "\<And>k. bit x k \<longleftrightarrow> k < w \<and> data ! (i + k) \<noteq> pat"
  shows "first_bad_in (\<lambda>k. data ! k \<noteq> pat) i (i + w) (if x \<noteq> 0 then Some (i + ctz x) else None)"
proof (cases "x = 0")
  case True
  then have "\<not> (k < w \<and> data ! (i + k) \<noteq> pat)" for k using assms [of k] by simp
  then have "data ! k = pat" if "i \<le> k" "k < i + w" for k
    using that less_diff_conv2 [of i k w] by (metis add.commute le_add_diff_inverse)
  with True show ?thesis by (simp add: first_bad_in_None)
next
  case False
  note c = ctz_first [OF False]
  have "data ! k = pat" if "i \<le> k" "k < i + ctz x" for k
  proof -
    from that have "k - i < ctz x" by simp
    then have "\<not> bit x (k - i)" "k - i < w" using c(2,3) assms by (auto intro: order.strict_trans)
    then show ?thesis using assms [of "k - i"] that by simp
  qed
  with False c(2) assms [of "ctz x"] show ?thesis by (simp add: first_bad_in_Some)
qed

lemma bit_loadu_mask:
  assumes "i + w \<le> length data" "w \<le> LENGTH('m)"
  shows "bit (cmpeq_epi8_mask (loadu w data i) pat :: 'm::len word) k \<longleftrightarrow> k < w \<and> data ! (i + k) = pat"
  using assms by (auto simp: bit_cmpeq_mask loadu_def)

lemma all_ones_iff: "m = -1 \<longleftrightarrow> NOT m = 0" for m :: "'m::len word"
proof
  assume "NOT m = 0"
  then have "NOT (NOT m) = NOT 0" by (rule arg_cong)
  then show "m = -1" by simp
qed simp

lemma ones64: "(0xFFFFFFFFFFFFFFFF :: u64) = -1" by simp

lemma ones32: "(0xFFFFFFFF :: u32) = -1" by simp

lemma ones8: "(0xFF :: u8) = -1" by simp

lemma and_all_ones_iff: "m AND n = -1 \<longleftrightarrow> m = -1 \<and> n = -1" for m n :: "'m::len word"
  by (auto simp: bit_eq_iff bit_and_iff)

lemma full_mask_block:
  fixes pat :: u8
  assumes w: "LENGTH('m::len) = w" and "i + w \<le> length data"
  defines "m \<equiv> cmpeq_epi8_mask (loadu w data i) pat :: 'm word"
  shows "first_bad_in (\<lambda>k. data ! k \<noteq> pat) i (i + w) (if m \<noteq> -1 then Some (i + ctz (NOT m)) else None)"
proof -
  have "bit (NOT m) k \<longleftrightarrow> k < w \<and> data ! (i + k) \<noteq> pat" for k
    using bit_loadu_mask [where 'm = 'm, OF assms(2), of pat k] w by (auto simp: bit_not_iff m_def)
  from mask_block [OF this] show ?thesis by (simp add: all_ones_iff)
qed

text \<open>Four adjacent blocks searched in order.\<close>

definition in_order :: "nat option \<Rightarrow> nat option \<Rightarrow> nat option \<Rightarrow> nat option \<Rightarrow> nat option" where
  "in_order a b c d = (case a of Some p \<Rightarrow> Some p | None \<Rightarrow> (case b of Some p \<Rightarrow> Some p
     | None \<Rightarrow> (case c of Some p \<Rightarrow> Some p | None \<Rightarrow> d)))"

lemma first_bad_in_order:
  assumes "first_bad_in bad i (i + w) a" "first_bad_in bad (i + w) (i + 2 * w) b"
    "first_bad_in bad (i + 2 * w) (i + 3 * w) c" "first_bad_in bad (i + 3 * w) (i + 4 * w) d"
  shows "first_bad_in bad i (i + 4 * w) (in_order a b c d)"
proof -
  have "first_bad_in bad (i + 2 * w) (i + 4 * w) (case c of None \<Rightarrow> d | Some p \<Rightarrow> Some p)"
    using assms(3,4) by (rule first_bad_in_append) simp_all
  from first_bad_in_append [OF assms(2) this]
  have "first_bad_in bad (i + w) (i + 4 * w)
    (case b of None \<Rightarrow> (case c of None \<Rightarrow> d | Some p \<Rightarrow> Some p) | Some p \<Rightarrow> Some p)" by simp
  from first_bad_in_append [OF assms(1) this] show ?thesis by (simp add: in_order_def)
qed

lemma avx512_quad_eq:
  "avx512_quad data pat i = in_order (avx512_single data pat i) (avx512_single data pat (i + 64))
     (avx512_single data pat (i + 128)) (avx512_single data pat (i + 192))"
  unfolding avx512_quad_def avx512_single_def Let_def ones64 and_all_ones_iff in_order_def by simp

lemma avx512_single_first:
  "i + 64 \<le> length data \<Longrightarrow> first_bad_in (\<lambda>k. data ! k \<noteq> pat) i (i + 64) (avx512_single data pat i)"
  using full_mask_block [where 'm = 64, of 64 i data pat] unfolding avx512_single_def Let_def ones64 by simp

lemma scalar_first: "first_bad_in (\<lambda>k. data ! k \<noteq> pat) i (i + 1) (scalar_step data pat i)"
  by (auto simp: scalar_step_def first_bad_in_def less_Suc_eq_le)

section \<open>The four instruction sets\<close>

lemma avx2_single_first:
  "i + 32 \<le> length data \<Longrightarrow> first_bad_in (\<lambda>k. data ! k \<noteq> pat) i (i + 32) (avx2_single data pat i)"
  using full_mask_block [where 'm = 32, of 32 i data pat]
  unfolding avx2_single_def avx2_mask_def movemask_cmpeq Let_def ones32 by simp

lemma avx2_quad_eq:
  "avx2_quad data pat i = in_order (avx2_single data pat i) (avx2_single data pat (i + 32))
     (avx2_single data pat (i + 64)) (avx2_single data pat (i + 96))"
  unfolding avx2_quad_def avx2_single_def Let_def ones32 and_all_ones_iff in_order_def by simp

lemma bit_sse42_mask:
  "i + 16 \<le> length data \<Longrightarrow> bit (sse42_mask data pat i) k \<longleftrightarrow> k < 16 \<and> data ! (i + k) = pat"
  by (simp add: sse42_mask_def movemask_cmpeq bit_loadu_mask)

lemma bit_ffff: "bit (0xFFFF :: u32) k \<longleftrightarrow> k < 16"
proof -
  have *: "(0xFFFF :: u32) = mask 16" by (simp add: mask_eq_exp_minus_1)
  show ?thesis unfolding * bit_mask_iff by auto
qed

lemma sse42_full_iff:
  assumes "i + 16 \<le> length data"
  shows "sse42_mask data pat i = 0xFFFF \<longleftrightarrow> NOT (sse42_mask data pat i) AND 0xFFFF = 0"
  unfolding bit_eq_iff bit_and_iff bit_not_iff bit_ffff bit_sse42_mask [OF assms] by auto

lemma sse42_single_first:
  assumes "i + 16 \<le> length data"
  shows "first_bad_in (\<lambda>k. data ! k \<noteq> pat) i (i + 16) (sse42_single data pat i)"
proof -
  have "bit (NOT (sse42_mask data pat i) AND 0xFFFF) k \<longleftrightarrow> k < 16 \<and> data ! (i + k) \<noteq> pat" for k
    unfolding bit_and_iff bit_not_iff bit_ffff bit_sse42_mask [OF assms] by auto
  from mask_block [OF this] show ?thesis
    by (simp add: sse42_single_def Let_def sse42_full_iff [OF assms])
qed

lemma sse42_quad_eq:
  assumes "i + 64 \<le> length data"
  shows "sse42_quad data pat i = in_order (sse42_single data pat i) (sse42_single data pat (i + 16))
     (sse42_single data pat (i + 32)) (sse42_single data pat (i + 48))"
proof -
  have b: "i + 16 \<le> length data" "i + 16 + 16 \<le> length data" "i + 32 + 16 \<le> length data" "i + 48 + 16 \<le> length data"
    using assms by simp_all
  have "sse42_mask data pat i AND sse42_mask data pat (i + 16) AND sse42_mask data pat (i + 32) AND
      sse42_mask data pat (i + 48) = 0xFFFF \<longleftrightarrow>
      sse42_mask data pat i = 0xFFFF \<and> sse42_mask data pat (i + 16) = 0xFFFF \<and>
      sse42_mask data pat (i + 32) = 0xFFFF \<and> sse42_mask data pat (i + 48) = 0xFFFF"
    unfolding bit_eq_iff bit_and_iff bit_ffff bit_sse42_mask [OF b(1)] bit_sse42_mask [OF b(2)]
      bit_sse42_mask [OF b(3)] bit_sse42_mask [OF b(4)] by auto
  then show ?thesis unfolding sse42_quad_def sse42_single_def Let_def in_order_def by simp
qed

lemma lane_all_ones_iff:
  assumes "8 * lane + 8 \<le> length v"
  shows "vgetq_lane_u64 v lane = 0xFFFFFFFFFFFFFFFF \<longleftrightarrow> (\<forall>j<8. v ! (8 * lane + j) = 0xFF)"
proof -
  let ?t = "take 8 (drop (8 * lane) v)"
  let ?bits = "concat (map (\<lambda>b. map (bit b) [0..<8]) ?t)"
  have "sum_list (map (\<lambda>b. 8) xs) = 8 * length xs" for xs :: "u8 list" by (induction xs) auto
  then have len: "length ?bits = 64" using assms by (simp add: length_concat comp_def)
  have "vgetq_lane_u64 v lane = -1 \<longleftrightarrow> (\<forall>n<64. ?bits ! n)"
    unfolding vgetq_lane_u64_def by (auto simp: bit_eq_iff bit_horner_sum_bit_word_iff len)
  also have "\<dots> \<longleftrightarrow> (\<forall>x \<in> set ?bits. x)" unfolding all_set_conv_all_nth len ..
  also have "\<dots> \<longleftrightarrow> (\<forall>b \<in> set ?t. \<forall>n<8. bit b n)" by auto
  also have "\<dots> \<longleftrightarrow> (\<forall>b \<in> set ?t. b = -1)" by (auto simp: bit_eq_iff)
  also have "\<dots> \<longleftrightarrow> (\<forall>j<8. v ! (8 * lane + j) = -1)"
    unfolding all_set_conv_all_nth using assms by auto
  finally show ?thesis unfolding ones64 ones8 .
qed

lemma in_block_eq_iff:
  "(\<forall>j<n. data ! (i + j) = pat) \<longleftrightarrow> first_bad_in (\<lambda>k. data ! k \<noteq> pat) i (i + n) None"
proof
  assume L: "\<forall>j<n. data ! (i + j) = pat"
  have "data ! k = pat" if "i \<le> k" "k < i + n" for k
  proof -
    from that have "k - i < n" "i + (k - i) = k" by auto
    with L show ?thesis by metis
  qed
  then show "first_bad_in (\<lambda>k. data ! k \<noteq> pat) i (i + n) None" by (simp add: first_bad_in_None)
qed (simp add: first_bad_in_None)

interpretation scalar_scan: block_step 1 "scalar_step data pat" "\<lambda>k. data ! k \<noteq> pat" len for data pat len
  by unfold_locales (simp, rule scalar_first)

lemma neon_rescan_first:
  "first_bad_in (\<lambda>k. data ! k \<noteq> pat) i (i + n) (neon_rescan data pat i n)"
proof (cases "simd_loop 1 (scalar_step data pat) i (i + n)")
  case (Inl p)
  from scalar_scan.loop_Inl [OF this, of "i + n"] show ?thesis
    by (simp add: neon_rescan_def Inl del: One_nat_def)
next
  case (Inr j)
  from scalar_scan.loop_Inr [OF this, of "i + n"]
  have "first_bad_in (\<lambda>k. data ! k \<noteq> pat) i j None" "j = i + n" by auto
  then show ?thesis by (simp add: neon_rescan_def Inr del: One_nat_def)
qed

lemma neon_lanes_iff:
  assumes "length v = 16"
  shows "vgetq_lane_u64 v 0 = 0xFFFFFFFFFFFFFFFF \<and> vgetq_lane_u64 v 1 = 0xFFFFFFFFFFFFFFFF \<longleftrightarrow>
         (\<forall>j<16. v ! j = 0xFF)"
proof -
  have "(\<forall>j<16. v ! j = 0xFF) \<longleftrightarrow> (\<forall>j<8. v ! j = 0xFF) \<and> (\<forall>j<8. v ! (8 + j) = 0xFF)"
  proof (intro iffI allI impI)
    fix j :: nat
    assume a: "(\<forall>j<8. v ! j = 0xFF) \<and> (\<forall>j<8. v ! (8 + j) = 0xFF)" "j < 16"
    then show "v ! j = 0xFF" using less_diff_conv2 [of 8 j 8] by (cases "j < 8") (auto dest: spec [of _ "j - 8"])
  qed auto
  then show ?thesis using lane_all_ones_iff [of 0 v] lane_all_ones_iff [of 1 v] assms by simp
qed

lemma cmpeq_nth: "j < length v \<Longrightarrow> cmpeq_epi8 v pat ! j = 0xFF \<longleftrightarrow> v ! j = pat"
  by (simp add: cmpeq_epi8_def)

lemma loadu_nth: "i + w \<le> length data \<Longrightarrow> j < w \<Longrightarrow> loadu w data i ! j = data ! (i + j)"
  by (simp add: loadu_def)

lemma length_loadu: "i + w \<le> length data \<Longrightarrow> length (loadu w data i) = w"
  by (simp add: loadu_def)

lemma cmp_block_iff:
  assumes "i + 16 \<le> length data"
  shows "(\<forall>j<16. cmpeq_epi8 (loadu 16 data i) pat ! j = 0xFF) \<longleftrightarrow>
         first_bad_in (\<lambda>k. data ! k \<noteq> pat) i (i + 16) None"
  using assms by (simp add: cmpeq_nth loadu_nth length_loadu flip: in_block_eq_iff)

lemma neon_single_first:
  assumes "i + 16 \<le> length data"
  shows "first_bad_in (\<lambda>k. data ! k \<noteq> pat) i (i + 16) (neon_single data pat i)"
proof -
  have "length (cmpeq_epi8 (loadu 16 data i) pat) = 16" using assms by (simp add: cmpeq_epi8_def length_loadu)
  from neon_lanes_iff [OF this] cmp_block_iff [OF assms, of pat] neon_rescan_first [of data pat i 16]
  show ?thesis unfolding neon_single_def Let_def by (auto split: if_split)
qed

lemma and_ff: "a \<in> {0, 0xFF} \<Longrightarrow> b \<in> {0, 0xFF} \<Longrightarrow> a AND b = 0xFF \<longleftrightarrow> a = 0xFF \<and> b = (0xFF :: u8)"
  by auto

lemma and_ff_closed: "a \<in> {0, 0xFF} \<Longrightarrow> b \<in> {0, 0xFF} \<Longrightarrow> a AND b \<in> {0, 0xFF :: u8}"
  by auto

lemma vandq_all:
  assumes "length a = 16" "length b = 16" "\<forall>j<16. a ! j \<in> {0, 0xFF}" "\<forall>j<16. b ! j \<in> {0, 0xFF}"
  shows "length (vandq_u8 a b) = 16" and "\<forall>j<16. vandq_u8 a b ! j \<in> {0, 0xFF}"
    and "(\<forall>j<16. vandq_u8 a b ! j = 0xFF) \<longleftrightarrow> (\<forall>j<16. a ! j = 0xFF) \<and> (\<forall>j<16. b ! j = 0xFF)"
proof -
  have n: "vandq_u8 a b ! j = a ! j AND b ! j" if "j < 16" for j
    using that assms(1,2) by (simp add: vandq_u8_def)
  show "length (vandq_u8 a b) = 16" using assms(1,2) by (simp add: vandq_u8_def)
  show "\<forall>j<16. vandq_u8 a b ! j \<in> {0, 0xFF}" 
  proof (intro allI impI)
    fix j :: nat
    assume "j < 16"
    with assms(3,4) show "vandq_u8 a b ! j \<in> {0, 0xFF}" by (simp only: n and_ff_closed)
  qed
  show "(\<forall>j<16. vandq_u8 a b ! j = 0xFF) \<longleftrightarrow> (\<forall>j<16. a ! j = 0xFF) \<and> (\<forall>j<16. b ! j = 0xFF)"
    using assms(3,4) by (auto simp: n and_ff)
qed

lemma cmp_block:
  assumes "i + 16 \<le> length data"
  shows "length (cmpeq_epi8 (loadu 16 data i) pat) = 16"
    and "\<forall>j<16. cmpeq_epi8 (loadu 16 data i) pat ! j \<in> {0, 0xFF}"
  using assms by (auto simp: cmpeq_epi8_def length_loadu)

lemma neon_quad_first:
  assumes "i + 64 \<le> length data"
  shows "first_bad_in (\<lambda>k. data ! k \<noteq> pat) i (i + 64) (neon_quad data pat i)"
proof -
  let ?bad = "\<lambda>k. data ! k \<noteq> pat"
  define c where "c d = cmpeq_epi8 (loadu 16 data (i + d)) pat" for d
  have c: "length (c d) = 16" "\<forall>j<16. c d ! j \<in> {0, 0xFF}"
    "(\<forall>j<16. c d ! j = 0xFF) \<longleftrightarrow> first_bad_in ?bad (i + d) (i + d + 16) None" if "d \<le> 48" for d
  proof -
    have "i + d + 16 \<le> length data" using that assms by simp
    then show "length (c d) = 16" "\<forall>j<16. c d ! j \<in> {0, 0xFF}"
      "(\<forall>j<16. c d ! j = 0xFF) \<longleftrightarrow> first_bad_in ?bad (i + d) (i + d + 16) None"
      unfolding c_def by (rule cmp_block cmp_block_iff)+
  qed
  define u where "u = vandq_u8 (c 0) (c 16)"
  define v where "v = vandq_u8 (c 32) (c 48)"
  have u: "length u = 16" "\<forall>j<16. u ! j \<in> {0, 0xFF}"
    "(\<forall>j<16. u ! j = 0xFF) \<longleftrightarrow> (\<forall>j<16. c 0 ! j = 0xFF) \<and> (\<forall>j<16. c 16 ! j = 0xFF)"
    unfolding u_def using vandq_all [of "c 0" "c 16"] c(1,2) [of 0] c(1,2) [of 16] by simp_all
  have v: "length v = 16" "\<forall>j<16. v ! j \<in> {0, 0xFF}"
    "(\<forall>j<16. v ! j = 0xFF) \<longleftrightarrow> (\<forall>j<16. c 32 ! j = 0xFF) \<and> (\<forall>j<16. c 48 ! j = 0xFF)"
    unfolding v_def using vandq_all [of "c 32" "c 48"] c(1,2) [of 32] c(1,2) [of 48] by simp_all
  note w = vandq_all [OF u(1) v(1) u(2) v(2)]
  have "first_bad_in ?bad i (i + 64) None" if all: "\<forall>j<16. vandq_u8 u v ! j = 0xFF"
  proof -
    have "first_bad_in ?bad i (i + 16) None" "first_bad_in ?bad (i + 16) (i + 2 * 16) None"
      "first_bad_in ?bad (i + 2 * 16) (i + 3 * 16) None" "first_bad_in ?bad (i + 3 * 16) (i + 4 * 16) None"
      using all w(3) u(3) v(3) c(3) [of 0] c(3) [of 16] c(3) [of 32] c(3) [of 48] by (simp_all add: add.assoc)
    from first_bad_in_order [OF this] show ?thesis by (simp add: in_order_def)
  qed
  moreover have "neon_quad data pat i =
      (if vgetq_lane_u64 (vandq_u8 u v) 0 \<noteq> 0xFFFFFFFFFFFFFFFF \<or> vgetq_lane_u64 (vandq_u8 u v) 1 \<noteq> 0xFFFFFFFFFFFFFFFF
       then neon_rescan data pat i 64 else None)"
    by (simp only: neon_quad_def Let_def u_def v_def c_def add_0_right)
  ultimately show ?thesis using neon_lanes_iff [OF w(1)] neon_rescan_first [of data pat i 64] by auto
qed

interpretation avx512: three_loop_scan 256 64 "avx512_quad data pat" "avx512_single data pat"
    "scalar_step data pat" "\<lambda>k. data ! k \<noteq> pat" "length data" for data pat
proof unfold_locales
  fix i assume "i + 256 \<le> length data"
  then show "first_bad_in (\<lambda>k. data ! k \<noteq> pat) i (i + 256) (avx512_quad data pat i)"
    using first_bad_in_order [of _ i 64 "avx512_single data pat i" "avx512_single data pat (i + 64)"
        "avx512_single data pat (i + 128)" "avx512_single data pat (i + 192)"]
      avx512_single_first [of i data pat] avx512_single_first [of "i + 64" data pat]
      avx512_single_first [of "i + 128" data pat] avx512_single_first [of "i + 192" data pat]
    by (simp add: avx512_quad_eq add.assoc)
qed (simp_all add: avx512_single_first)

interpretation avx2: three_loop_scan 128 32 "avx2_quad data pat" "avx2_single data pat"
    "scalar_step data pat" "\<lambda>k. data ! k \<noteq> pat" "length data" for data pat
proof unfold_locales
  fix i assume "i + 128 \<le> length data"
  then show "first_bad_in (\<lambda>k. data ! k \<noteq> pat) i (i + 128) (avx2_quad data pat i)"
    using first_bad_in_order [of _ i 32 "avx2_single data pat i" "avx2_single data pat (i + 32)"
        "avx2_single data pat (i + 64)" "avx2_single data pat (i + 96)"]
      avx2_single_first [of i data pat] avx2_single_first [of "i + 32" data pat]
      avx2_single_first [of "i + 64" data pat] avx2_single_first [of "i + 96" data pat]
    by (simp add: avx2_quad_eq add.assoc)
qed (simp_all add: avx2_single_first)

interpretation sse42: three_loop_scan 64 16 "sse42_quad data pat" "sse42_single data pat"
    "scalar_step data pat" "\<lambda>k. data ! k \<noteq> pat" "length data" for data pat
proof unfold_locales
  fix i assume "i + 64 \<le> length data"
  then show "first_bad_in (\<lambda>k. data ! k \<noteq> pat) i (i + 64) (sse42_quad data pat i)"
    using first_bad_in_order [of _ i 16 "sse42_single data pat i" "sse42_single data pat (i + 16)"
        "sse42_single data pat (i + 32)" "sse42_single data pat (i + 48)"]
      sse42_single_first [of i data pat] sse42_single_first [of "i + 16" data pat]
      sse42_single_first [of "i + 32" data pat] sse42_single_first [of "i + 48" data pat]
    by (simp add: sse42_quad_eq add.assoc)
qed (simp_all add: sse42_single_first)

interpretation neon: three_loop_scan 64 16 "neon_quad data pat" "neon_single data pat"
    "scalar_step data pat" "\<lambda>k. data ! k \<noteq> pat" "length data" for data pat
  by unfold_locales (simp_all add: neon_quad_first neon_single_first)

section \<open>Properties\<close>

lemma three_loop_result:
  "(case a of Inl p \<Rightarrow> Some (p, data ! p) | Inr i \<Rightarrow> (case b i of Inl p \<Rightarrow> Some (p, data ! p)
      | Inr i \<Rightarrow> (case c i of Inl p \<Rightarrow> Some (p, data ! p) | Inr _ \<Rightarrow> None))) =
   map_option (\<lambda>p. (p, data ! p)) (case a of Inl p \<Rightarrow> Some p | Inr i \<Rightarrow> (case b i of Inl p \<Rightarrow> Some p
      | Inr i \<Rightarrow> (case c i of Inl p \<Rightarrow> Some p | Inr _ \<Rightarrow> None)))"
  by (simp split: sum.split)

lemma simd_scan_first_mismatch:
  assumes "sz \<le> length data"
  shows "validate_avx512 data pat sz = first_mismatch data pat sz"
    "validate_avx2 data pat sz = first_mismatch data pat sz"
    "validate_sse42 data pat sz = first_mismatch data pat sz"
    "validate_neon data pat sz = first_mismatch data pat sz"
  unfolding validate_avx512_def validate_avx2_def validate_sse42_def validate_neon_def
    three_loop_result first_mismatch_def
    avx512.scan_eq [OF assms] avx2.scan_eq [OF assms] sse42.scan_eq [OF assms] neon.scan_eq [OF assms]
  by simp_all

text \<open>
  C34. All four SIMD scans compute the reference scan: on data of at least the given size they return
  the first offset whose byte differs from the pattern together with that byte, and \<open>-1\<close> when
  there is none.
\<close>

theorem simd_scans_equal_reference:
  assumes "sz \<le> length data"
  shows "validate_avx512 data pat sz = first_mismatch data pat sz \<and>
         validate_avx2 data pat sz = first_mismatch data pat sz \<and>
         validate_sse42 data pat sz = first_mismatch data pat sz \<and>
         validate_neon data pat sz = first_mismatch data pat sz"
  by (simp add: simd_scan_first_mismatch [OF assms])

theorem simd_scans_equal_reference_witness:
  "validate_avx512 [1, 1, 3, 1] 1 4 = Some (2, 3) \<and> validate_avx2 [1, 1, 3, 1] 1 4 = Some (2, 3) \<and>
   validate_sse42 [1, 1, 3, 1] 1 4 = Some (2, 3) \<and> validate_neon [1, 1, 3, 1] 1 4 = Some (2, 3)"
proof -
  have "first_mismatch [1, 1, 3, 1] 1 4 = Some (2, 3)" by (simp add: first_mismatch_def upt_rec)
  then show ?thesis using simd_scans_equal_reference [of 4 "[1, 1, 3, 1]" 1] by simp
qed

end
