(* ===== verification/Marker_Distribution.thy ===== *)
theory Marker_Distribution
  imports Prelude
begin

text \<open>
  Model of \<open>distribute_markers\<close> of \<^verbatim>\<open>src/src/host_validation.c\<close>: the tail markers are dealt to
  the validator threads in chunk-major, queue-pair-interleaved order, each validator's share is
  sorted by an insertion sort, and a scan entry is filled in for every marker.

  A marker is named by its index in \<^verbatim>\<open>tail_markers\<close>, chunk data by its byte offset in \<^verbatim>\<open>recv_slots\<close>.
  Indices are bounded by the allocated arrays and are natural numbers; the slot number of a chunk
  is computed in 32 bits and the byte offset in 64 bits, as in the source.
\<close>

record marker_scan_entry =
  marker_ptr :: nat
  last_seen :: u64
  chunk_data :: nat
  me_qp_id :: nat
  me_chunk_id :: nat

section \<open>Phases 1 and 2\<close>

definition logical_order :: "nat \<Rightarrow> nat \<Rightarrow> nat list" where
  "logical_order num_qps chunks_per_qp =
     concat (map (\<lambda>chunk. map (\<lambda>qp. qp * chunks_per_qp + chunk) [0..<num_qps]) [0..<chunks_per_qp])"

definition marker_counts :: "nat \<Rightarrow> nat \<Rightarrow> nat list" where
  "marker_counts nv tm = map (\<lambda>i. tm div nv + (if i < tm mod nv then 1 else 0)) [0..<nv]"

section \<open>Phase 4: insertion sort and scan entries\<close>

text \<open>The inner loop; its index \<open>b\<close> of the source is \<open>k - 1\<close> here, so \<open>b >= 0\<close> reads \<open>k > 0\<close>.\<close>

fun shift_larger :: "nat list \<Rightarrow> nat \<Rightarrow> nat \<Rightarrow> nat list \<times> nat" where
  "shift_larger v 0 key = (v, 0)"
| "shift_larger v (Suc b) key =
     (if v ! b > key then shift_larger (v[Suc b := v ! b]) b key else (v, Suc b))"

definition insertion_step :: "nat list \<Rightarrow> nat \<Rightarrow> nat list" where
  "insertion_step v a = (let key = v ! a; (v', k) = shift_larger v a key in v'[k := key])"

definition insertion_sort :: "nat list \<Rightarrow> nat list" where
  "insertion_sort v = foldl insertion_step v [1..<length v]"

definition make_entry :: "nat \<Rightarrow> nat \<Rightarrow> nat \<Rightarrow> nat \<Rightarrow> nat \<Rightarrow> marker_scan_entry" where
  "make_entry chunks_per_qp slots_per_qp ops_per_chunk payload_size idx =
     (let qp = idx div chunks_per_qp;
          chunk = idx mod chunks_per_qp
      in \<lparr> marker_ptr = idx, last_seen = 0,
           chunk_data = ((qp * slots_per_qp + chunk * ops_per_chunk) mod 2 ^ 32 * payload_size) mod 2 ^ 64,
           me_qp_id = qp, me_chunk_id = chunk \<rparr>)"

fun deal_markers :: "nat list \<Rightarrow> nat list \<Rightarrow> nat list list" where
  "deal_markers [] order = []"
| "deal_markers (c # cs) order = insertion_sort (take c order) # deal_markers cs (drop c order)"

text \<open>
  \<open>alloc k\<close> says whether the \<open>k\<close>-th \<^verbatim>\<open>calloc\<close> of the function succeeds: the logical order, the
  counts, then one array per validator.
\<close>

definition distribute_markers ::
    "(nat \<Rightarrow> bool) \<Rightarrow> nat \<Rightarrow> nat \<Rightarrow> nat \<Rightarrow> nat \<Rightarrow> nat \<Rightarrow> nat \<Rightarrow> marker_scan_entry list list option" where
  "distribute_markers alloc num_validators num_qps chunks_per_qp slots_per_qp ops_per_chunk payload_size =
     (let tm = num_qps * chunks_per_qp in
      if \<not> alloc 0 then None
      else if \<not> alloc 1 then None
      else if \<not> (\<forall>i \<in> set [0..<num_validators]. alloc (2 + i)) then None
      else Some (map (map (make_entry chunks_per_qp slots_per_qp ops_per_chunk payload_size))
                   (deal_markers (marker_counts num_validators tm) (logical_order num_qps chunks_per_qp))))"

section \<open>The insertion sort sorts\<close>

lemma shift_larger_spec:
  "shift_larger v k key = (w, j) \<Longrightarrow> k < length v \<Longrightarrow>
   j \<le> k \<and> w[j := key] = take j v @ key # drop j (take k v) @ drop (Suc k) v \<and>
   (\<forall>i. j \<le> i \<and> i < k \<longrightarrow> key < v ! i) \<and> (j = 0 \<or> v ! (j - 1) \<le> key)"
proof (induction v k key rule: shift_larger.induct)
  case (1 v key)
  then show ?case by (cases v) auto
next
  case (2 v b key)
  show ?case
  proof (cases "v ! b > key")
    case False
    with 2 show ?thesis by (auto simp: upd_conv_take_nth_drop)
  next
    case True
    let ?v = "v[Suc b := v ! b]"
    from True 2 have sh: "shift_larger ?v b key = (w, j)" by simp
    from 2(1) [OF True sh] 2(3)
    have IH: "j \<le> b" "w[j := key] = take j ?v @ key # drop j (take b ?v) @ drop (Suc b) ?v"
      "\<forall>i. j \<le> i \<and> i < b \<longrightarrow> key < ?v ! i" "j = 0 \<or> ?v ! (j - 1) \<le> key" by simp_all
    have "drop (Suc b) ?v = v ! b # drop (Suc (Suc b)) v"
      using 2(3) by (simp add: Cons_nth_drop_Suc [symmetric] drop_update_cancel)
    moreover have "drop j (take (Suc b) v) = drop j (take b v) @ [v ! b]"
      using IH(1) 2(3) by (simp add: take_Suc_conv_app_nth)
    ultimately have "w[j := key] = take j v @ key # drop j (take (Suc b) v) @ drop (Suc (Suc b)) v"
      using IH(1,2) by simp
    moreover have "\<forall>i. j \<le> i \<and> i < Suc b \<longrightarrow> key < v ! i"
      using IH(3) True by (auto simp: less_Suc_eq)
    moreover have "j = 0 \<or> v ! (j - 1) \<le> key" using IH(1,4) by auto
    ultimately show ?thesis using IH(1) by simp
  qed
qed

lemma insertion_step_spec:
  assumes "a < length v" "sorted (take a v)"
  shows "length (insertion_step v a) = length v" "mset (insertion_step v a) = mset v"
    "sorted (take (Suc a) (insertion_step v a))" "drop (Suc a) (insertion_step v a) = drop (Suc a) v"
proof -
  let ?key = "v ! a"
  obtain w j where sh: "shift_larger v a ?key = (w, j)" by fastforce
  note s = shift_larger_spec [OF sh assms(1)]
  define r where "r = take j v @ ?key # drop j (take a v) @ drop (Suc a) v"
  have r: "insertion_step v a = r" using s by (simp add: insertion_step_def Let_def sh r_def)
  have j: "j \<le> a" using s by simp
  have split: "take j v @ drop j (take a v) = take a v"
    using j by (metis append_take_drop_id min.absorb1 take_take)
  have v: "v = take a v @ ?key # drop (Suc a) v" using assms(1) by (rule id_take_nth_drop)
  have "mset r = mset (take a v) + {#?key#} + mset (drop (Suc a) v)"
    using arg_cong [OF split, of mset] by (simp add: r_def)
  also have "\<dots> = mset v" by (subst (4) v) simp
  finally show m: "mset (insertion_step v a) = mset v" by (simp add: r)
  then show "length (insertion_step v a) = length v" by (metis size_mset)
  have t: "take (Suc a) r = take j v @ ?key # drop j (take a v)" and d: "drop (Suc a) r = drop (Suc a) v"
    using j assms(1) by (simp_all add: r_def min_def Suc_diff_le)
  show "drop (Suc a) (insertion_step v a) = drop (Suc a) v" by (simp add: r d)
  have so: "sorted (take j v)" "sorted (drop j (take a v))" "\<forall>x \<in> set (take j v). \<forall>y \<in> set (drop j (take a v)). x \<le> y"
  proof -
    have "sorted (take j v @ drop j (take a v))" using assms(2) by (simp only: split)
    then show "sorted (take j v)" "sorted (drop j (take a v))" "\<forall>x \<in> set (take j v). \<forall>y \<in> set (drop j (take a v)). x \<le> y"
      by (simp_all add: sorted_append del: append_take_drop_id)
  qed
  have lo: "x \<le> ?key" if "x \<in> set (take j v)" for x
  proof -
    from that obtain i where i: "i < j" "x = v ! i" using j assms(1) by (auto simp: in_set_conv_nth)
    then have "v ! i \<le> v ! (j - 1)"
      using sorted_nth_mono [OF so(1), of i "j - 1"] j assms(1) by simp
    with i s show ?thesis by auto
  qed
  have hi: "?key \<le> y" if "y \<in> set (drop j (take a v))" for y
  proof -
    from that obtain i where "i < a - j" "y = v ! (j + i)" using j assms(1) by (auto simp: in_set_conv_nth)
    moreover from this have "j \<le> j + i" "j + i < a" by simp_all
    ultimately show ?thesis using s by (auto intro: less_imp_le)
  qed
  from so lo hi show "sorted (take (Suc a) (insertion_step v a))" unfolding r t by (auto simp: sorted_append)
qed

lemma insertion_sort_loop:
  assumes "n \<le> length v" "1 \<le> n"
  shows "length (foldl insertion_step v [1..<n]) = length v \<and> mset (foldl insertion_step v [1..<n]) = mset v \<and>
         sorted (take n (foldl insertion_step v [1..<n]))"
  using assms(2,1)
proof (induction n rule: dec_induct)
  case base
  then show ?case by (cases v) auto
next
  case (step n)
  let ?u = "foldl insertion_step v [1..<n]"
  from step have u: "length ?u = length v" "mset ?u = mset v" "sorted (take n ?u)" by simp_all
  with step have "n < length ?u" by simp
  from insertion_step_spec [OF this u(3)] u step(1) show ?case by simp
qed

lemma insertion_sort_correct: "sorted (insertion_sort v)" "mset (insertion_sort v) = mset v"
proof -
  have "sorted (insertion_sort v) \<and> mset (insertion_sort v) = mset v"
  proof (cases v)
    case Nil
    then show ?thesis by (simp add: insertion_sort_def)
  next
    case (Cons x xs)
    then show ?thesis using insertion_sort_loop [of "length v" v] unfolding insertion_sort_def by (auto simp: Suc_le_eq)
  qed
  then show "sorted (insertion_sort v)" "mset (insertion_sort v) = mset v" by simp_all
qed

lemma insertion_sort_set [simp]: "set (insertion_sort v) = set v" "length (insertion_sort v) = length v"
  "distinct (insertion_sort v) = distinct v"
  using insertion_sort_correct(2) [of v] mset_eq_setD mset_eq_length mset_eq_imp_distinct_iff by metis+

section \<open>The logical order is a permutation\<close>

definition order_at :: "nat \<Rightarrow> nat \<Rightarrow> nat \<Rightarrow> nat" where
  "order_at num_qps chunks pos = (pos mod num_qps) * chunks + pos div num_qps"

lemma order_prefix:
  "concat (map (\<lambda>chunk. map (\<lambda>qp. qp * chunks + chunk) [0..<n]) [0..<k]) = map (order_at n chunks) [0..<n * k]"
proof (induction k)
  case (Suc k)
  have "map (order_at n chunks) [n * k..<n * k + n] = map (\<lambda>qp. qp * chunks + k) [0..<n]"
    by (rule nth_equalityI) (auto simp: order_at_def)
  moreover have "[0..<n * Suc k] = [0..<n * k] @ [n * k..<n * k + n]"
    using upt_add_eq_append [of 0 "n * k" n] by (simp add: add.commute)
  ultimately show ?case using Suc by simp
qed simp

lemma logical_order_eq: "logical_order n chunks = map (order_at n chunks) [0..<n * chunks]"
  unfolding logical_order_def by (rule order_prefix)

lemma order_at_div_mod:
  assumes "pos < n * chunks"
  shows "order_at n chunks pos div chunks = pos mod n" "order_at n chunks pos mod chunks = pos div n"
    "order_at n chunks pos < n * chunks"
proof -
  have c: "0 < chunks" "0 < n" using assms by (cases chunks; cases n; simp)+
  have d: "pos div n < chunks" using assms c by (simp add: less_mult_imp_div_less mult.commute)
  then show "order_at n chunks pos div chunks = pos mod n" "order_at n chunks pos mod chunks = pos div n"
    using c by (simp_all add: order_at_def)
  have "pos mod n < n" using c by simp
  then have "pos mod n + 1 \<le> n" by linarith
  then have "(pos mod n + 1) * chunks \<le> n * chunks" by (rule mult_le_mono1)
  then show "order_at n chunks pos < n * chunks" using d by (simp add: order_at_def)
qed

lemma order_at_inj: "inj_on (order_at n chunks) {0..<n * chunks}"
proof (rule inj_onI)
  fix p q assume a: "p \<in> {0..<n * chunks}" "q \<in> {0..<n * chunks}" "order_at n chunks p = order_at n chunks q"
  then have "p mod n = q mod n" "p div n = q div n"
    using order_at_div_mod [of p n chunks] order_at_div_mod [of q n chunks] by auto
  then show "p = q" by (metis div_mult_mod_eq)
qed

lemma logical_order_perm:
  "distinct (logical_order n chunks)" "set (logical_order n chunks) = {0..<n * chunks}"
  "length (logical_order n chunks) = n * chunks"
proof -
  show "distinct (logical_order n chunks)"
    unfolding logical_order_eq using order_at_inj by (simp add: distinct_map)
  have "order_at n chunks ` {0..<n * chunks} \<subseteq> {0..<n * chunks}" using order_at_div_mod(3) by auto
  from endo_inj_surj [OF finite_atLeastLessThan this order_at_inj]
  show "set (logical_order n chunks) = {0..<n * chunks}" by (simp add: logical_order_eq)
  show "length (logical_order n chunks) = n * chunks" by (simp add: logical_order_eq)
qed

section \<open>The shares partition the markers\<close>

lemma sum_marker_counts: "0 < nv \<Longrightarrow> sum_list (marker_counts nv tm) = tm"
proof -
  assume nv: "0 < nv"
  have "sum_list (map (\<lambda>i. q + (if i < r then 1 else 0)) [0..<n]) = n * q + min n r" for q r n :: nat
    by (induction n) (auto simp: min_def)
  from this [of "tm div nv" "tm mod nv" nv] nv show ?thesis
    by (simp add: marker_counts_def min_absorb2 less_imp_le)
qed

lemma deal_markers_lengths: "sum_list cs \<le> length order \<Longrightarrow> map length (deal_markers cs order) = cs"
  by (induction cs order rule: deal_markers.induct) auto

lemma deal_markers_sorted: "\<forall>s \<in> set (deal_markers cs order). sorted s"
  by (induction cs order rule: deal_markers.induct) (auto simp: insertion_sort_correct)

lemma deal_markers_mset:
  "sum_list cs = length order \<Longrightarrow> mset (concat (deal_markers cs order)) = mset order"
proof (induction cs order rule: deal_markers.induct)
  case (2 c cs order)
  then have "mset (concat (deal_markers cs (drop c order))) = mset (drop c order)" by simp
  moreover have "mset order = mset (take c order) + mset (drop c order)"
    by (metis append_take_drop_id mset_append)
  ultimately show ?case by (simp add: insertion_sort_correct(2))
qed simp

text \<open>Every share is a sorted stretch of consecutive positions of the logical order.\<close>

lemma deal_markers_stretch:
  "sum_list cs \<le> length order \<Longrightarrow> s \<in> set (deal_markers cs order) \<Longrightarrow>
   \<exists>p. p + length s \<le> length order \<and> mset s = mset (take (length s) (drop p order))"
proof (induction cs order rule: deal_markers.induct)
  case (2 c cs order)
  show ?case
  proof (cases "s = insertion_sort (take c order)")
    case True
    with 2(2) show ?thesis by (intro exI [of _ 0]) (simp add: insertion_sort_correct)
  next
    case False
    with 2(3) have "s \<in> set (deal_markers cs (drop c order))" by simp
    moreover have "sum_list cs \<le> length (drop c order)" using 2(2) by simp
    ultimately obtain p where "p + length s \<le> length (drop c order)"
      "mset s = mset (take (length s) (drop p (drop c order)))" using 2(1) by blast
    with 2(2) show ?thesis by (intro exI [of _ "p + c"]) (auto simp: add.commute)
  qed
qed simp

lemma card_consecutive_mod:
  assumes "0 < n"
  shows "card ((\<lambda>pos. pos mod n) ` {p..<p + l}) = min l n"
proof (cases "l \<le> n")
  case True
  have "inj_on (\<lambda>pos. pos mod n) {p..<p + l}"
  proof (rule inj_onI)
    fix x y assume xy: "x \<in> {p..<p + l}" "y \<in> {p..<p + l}" "x mod n = y mod n"
    show "x = y"
    proof (rule ccontr)
      assume "x \<noteq> y"
      then consider "x < y" | "y < x" by linarith
      then show False
      proof cases
        case 1
        then have "n dvd y - x" using xy(3) mod_eq_dvd_iff_nat [of x y n] by simp
        with 1 have "n \<le> y - x" by (intro dvd_imp_le) auto
        with xy(1,2) True show False by auto
      next
        case 2
        then have "n dvd x - y" using xy(3) mod_eq_dvd_iff_nat [of y x n] by simp
        with 2 have "n \<le> x - y" by (intro dvd_imp_le) auto
        with xy(1,2) True show False by auto
      qed
    qed
  qed
  then show ?thesis using True by (simp add: card_image)
next
  case False
  have "(\<lambda>pos. pos mod n) ` {p..<p + l} = {0..<n}"
  proof
    show "{0..<n} \<subseteq> (\<lambda>pos. pos mod n) ` {p..<p + l}"
    proof
      fix r assume "r \<in> {0..<n}"
      then have r: "r < n" by simp
      let ?x = "p + (r + n - p mod n) mod n"
      have "?x mod n = (p mod n + (r + n - p mod n)) mod n" by (metis mod_add_eq mod_mod_trivial)
      also have "p mod n + (r + n - p mod n) = r + n" using mod_less_divisor [OF assms, of p] by linarith
      also have "(r + n) mod n = r" using r by simp
      finally have "?x mod n = r" .
      moreover have "(r + n - p mod n) mod n < l" using assms False by (meson mod_less_divisor not_le order.strict_trans)
      ultimately show "r \<in> (\<lambda>pos. pos mod n) ` {p..<p + l}" by (intro image_eqI [of _ _ ?x]) auto
    qed
  qed (use assms in auto)
  with False show ?thesis by simp
qed

lemma share_queue_pairs:
  assumes "sum_list cs \<le> n * chunks" "s \<in> set (deal_markers cs (logical_order n chunks))" "0 < n"
  shows "card ((\<lambda>idx. idx div chunks) ` set s) = min (length s) n"
proof -
  from deal_markers_stretch [OF _ assms(2)] assms(1) obtain p where p: "p + length s \<le> n * chunks"
    and m: "mset s = mset (take (length s) (drop p (logical_order n chunks)))"
    by (auto simp: logical_order_perm)
  have "take (length s) (drop p (logical_order n chunks)) = map (order_at n chunks) [p..<p + length s]"
    using p by (simp add: logical_order_eq drop_map take_map)
  with m have "set s = order_at n chunks ` {p..<p + length s}" by (metis mset_eq_setD set_map set_upt)
  then have "(\<lambda>idx. idx div chunks) ` set s = (\<lambda>pos. pos mod n) ` {p..<p + length s}"
    using p order_at_div_mod(1) by (auto simp: image_image intro!: image_cong)
  then show ?thesis by (simp add: card_consecutive_mod [OF assms(3)])
qed

lemma chunk_data_offset:
  assumes "idx < n * chunks" and "n * (ops * chunks) \<le> 2 ^ 32" and "n * chunks * ops * payload \<le> 2 ^ 64"
    and "0 < ops" and "0 < payload"
  shows "chunk_data (make_entry chunks (ops * chunks) ops payload idx) = idx * (ops * payload)"
    and "idx * (ops * payload) + ops * payload \<le> n * chunks * ops * payload"
proof -
  have eq: "idx div chunks * (ops * chunks) + idx mod chunks * ops = idx * ops"
    by (metis div_mult_mod_eq distrib_right mult.assoc mult.commute)
  have "(idx + 1) * (ops * payload) \<le> n * chunks * (ops * payload)" using assms(1) by (intro mult_le_mono1) simp
  then show b: "idx * (ops * payload) + ops * payload \<le> n * chunks * ops * payload" by (simp add: algebra_simps)
  have "idx * ops < n * chunks * ops" using assms(1,4) by simp
  also have "\<dots> \<le> 2 ^ 32" using assms(2) by (simp add: ac_simps)
  finally have s: "idx * ops < 2 ^ 32" .
  have "0 < ops * payload" using assms(4,5) by simp
  with b assms(3) have "idx * (ops * payload) < 2 ^ 64" by linarith
  then have "idx * ops * payload < 2 ^ 64" by (simp only: mult.assoc)
  with s eq show "chunk_data (make_entry chunks (ops * chunks) ops payload idx) = idx * (ops * payload)"
    by (simp add: make_entry_def Let_def mult.assoc)
qed

lemma deal_markers_length: "length (deal_markers cs ord) = length cs"
  by (induction cs arbitrary: ord) simp_all

lemma distribute_markers_length:
  "distribute_markers alloc nv n chunks slots ops payload = Some shares \<Longrightarrow> length shares = nv"
  by (auto simp: distribute_markers_def Let_def deal_markers_length marker_counts_def split: if_splits)

lemma distribute_markers_unseen:
  "distribute_markers alloc nv n chunks slots ops payload = Some shares \<Longrightarrow> s \<in> set shares \<Longrightarrow> e \<in> set s \<Longrightarrow>
   last_seen e = 0"
  by (auto simp: distribute_markers_def Let_def make_entry_def split: if_splits)

section \<open>Properties\<close>

text \<open>
  C17. When its allocations succeed, the distribution gives one share to each validator, every marker
  is in exactly one share, each share is sorted by marker index, and share sizes differ by at most
  one.
\<close>

theorem distribution_partitions_markers:
  assumes "0 < nv" and "\<forall>k. alloc k"
  shows "\<exists>shares. distribute_markers alloc nv n chunks slots ops payload = Some shares \<and>
     length shares = nv \<and>
     distinct (map marker_ptr (concat shares)) \<and>
     set (map marker_ptr (concat shares)) = {0..<n * chunks} \<and>
     (\<forall>s \<in> set shares. sorted (map marker_ptr s) \<and>
        length s \<in> {n * chunks div nv, n * chunks div nv + 1})"
proof -
  let ?cs = "marker_counts nv (n * chunks)" and ?o = "logical_order n chunks"
  let ?d = "deal_markers ?cs ?o"
  let ?shares = "map (map (make_entry chunks slots ops payload)) ?d"
  have ptr: "marker_ptr \<circ> make_entry chunks slots ops payload = id"
    by (auto simp: make_entry_def Let_def)
  have "map marker_ptr (concat ?shares) = concat ?d" by (simp add: map_concat ptr)
  moreover have sum: "sum_list ?cs = length ?o" using assms(1) by (simp add: sum_marker_counts logical_order_perm)
  have "mset (concat ?d) = mset ?o" using sum by (rule deal_markers_mset)
  then have "distinct (concat ?d)" "set (concat ?d) = {0..<n * chunks}"
    using logical_order_perm [of n chunks] mset_eq_imp_distinct_iff mset_eq_setD by metis+
  moreover have len: "map length ?d = ?cs" using sum by (intro deal_markers_lengths) simp
  then have "length ?d = nv" by (metis length_map marker_counts_def diff_zero length_upt)
  moreover have "length s \<in> {n * chunks div nv, n * chunks div nv + 1}" if "s \<in> set ?d" for s
  proof -
    from that have "length s \<in> set (map length ?d)" by simp
    then show ?thesis unfolding len by (auto simp: marker_counts_def)
  qed
  moreover have "sorted (map marker_ptr (map (make_entry chunks slots ops payload) s))" if "s \<in> set ?d" for s
    using that deal_markers_sorted by (simp add: ptr)
  moreover have "distribute_markers alloc nv n chunks slots ops payload = Some ?shares"
    using assms(2) by (simp add: distribute_markers_def Let_def)
  ultimately show ?thesis by (intro exI [of _ ?shares]) auto
qed

theorem distribution_partitions_markers_witness:
  "\<exists>shares. distribute_markers (\<lambda>_. True) 2 3 2 8 4 64 = Some shares \<and>
     length shares = 2 \<and>
     distinct (map marker_ptr (concat shares)) \<and>
     set (map marker_ptr (concat shares)) = {0..<3 * 2} \<and>
     (\<forall>s \<in> set shares. sorted (map marker_ptr s) \<and> length s \<in> {3 * 2 div 2, 3 * 2 div 2 + 1})"
  by (rule distribution_partitions_markers) simp_all

text \<open>
  The sharing is balanced over the queue pairs: a validator with \<open>l\<close> markers watches
  \<open>min l num_qps\<close> different queue pairs, so every queue pair as soon as it has enough markers.
\<close>

theorem distribution_balances_queue_pairs:
  assumes "0 < nv" and "0 < n" and "distribute_markers alloc nv n chunks slots ops payload = Some shares"
    and "s \<in> set shares"
  shows "card (me_qp_id ` set s) = min (length s) n"
proof -
  from assms(3) have "shares = map (map (make_entry chunks slots ops payload))
      (deal_markers (marker_counts nv (n * chunks)) (logical_order n chunks))"
    by (simp add: distribute_markers_def Let_def split: if_splits)
  with assms(4) obtain t where t: "s = map (make_entry chunks slots ops payload) t"
    "t \<in> set (deal_markers (marker_counts nv (n * chunks)) (logical_order n chunks))" by auto
  have "me_qp_id \<circ> make_entry chunks slots ops payload = (\<lambda>idx. idx div chunks)"
    by (auto simp: make_entry_def Let_def)
  with share_queue_pairs [OF _ t(2) assms(2)] assms(1) show ?thesis
    by (simp add: t(1) image_comp sum_marker_counts)
qed

theorem distribution_balances_queue_pairs_witness:
  "\<exists>shares. distribute_markers (\<lambda>_. True) 2 3 2 8 4 64 = Some shares \<and> shares \<noteq> [] \<and>
     card (me_qp_id ` set (hd shares)) = min (length (hd shares)) 3"
proof -
  obtain shares where s: "distribute_markers (\<lambda>_. True) 2 3 2 8 4 64 = Some shares"
    by (simp add: distribute_markers_def Let_def)
  then have "shares \<noteq> []" by (auto simp: distribute_markers_def Let_def marker_counts_def upt_rec)
  then show ?thesis using s distribution_balances_queue_pairs [OF _ _ s, of "hd shares"] by simp
qed

text \<open>
  As long as the slot numbers fit in 32 bits, the chunk of marker \<open>idx\<close> is the \<open>idx\<close>-th stretch
  of \<open>ops_per_chunk * payload_size\<close> bytes of the receive area: inside it, and disjoint from the chunk
  of every other marker.
\<close>

theorem chunk_regions_disjoint:
  assumes "i < n * chunks" and "j < n * chunks" and "i \<noteq> j" and "0 < ops" and "0 < payload"
    and "n * (ops * chunks) \<le> 2 ^ 32" and "n * chunks * ops * payload \<le> 2 ^ 64"
  defines "off \<equiv> \<lambda>k. chunk_data (make_entry chunks (ops * chunks) ops payload k)"
  shows "off i + ops * payload \<le> n * chunks * ops * payload \<and>
         (off i + ops * payload \<le> off j \<or> off j + ops * payload \<le> off i)"
proof -
  have o: "off i = i * (ops * payload)" "off j = j * (ops * payload)"
    using chunk_data_offset(1) assms unfolding off_def by auto
  have "i * (ops * payload) + ops * payload \<le> n * chunks * ops * payload"
    using assms by (intro chunk_data_offset(2)) auto
  moreover have "(i + 1) * (ops * payload) \<le> j * (ops * payload) \<or> (j + 1) * (ops * payload) \<le> i * (ops * payload)"
    using assms(3) mult_le_mono1 [of "i + 1" j "ops * payload"] mult_le_mono1 [of "j + 1" i "ops * payload"] by linarith
  ultimately show ?thesis unfolding o by (simp add: add.commute)
qed

theorem chunk_regions_disjoint_witness:
  "chunk_data (make_entry 2 (4 * 2) 4 64 1) + 4 * 64 \<le> 3 * 2 * 4 * 64 \<and>
   (chunk_data (make_entry 2 (4 * 2) 4 64 1) + 4 * 64 \<le> chunk_data (make_entry 2 (4 * 2) 4 64 5) \<or>
    chunk_data (make_entry 2 (4 * 2) 4 64 5) + 4 * 64 \<le> chunk_data (make_entry 2 (4 * 2) 4 64 1))"
  using chunk_regions_disjoint [of 1 3 2 5 4 64] by simp

end
