(* ===== verification/C_Strings.thy ===== *)
theory C_Strings
  imports Prelude
begin

text \<open>
  The C library's string to number conversions as far as the sources use them, and the decimal and
  hexadecimal printing that \<^verbatim>\<open>printf\<close> does for them.  A C string is the list of its characters without
  the terminating zero.  \<open>strtol\<close> returns the value and the rest of the string (\<^verbatim>\<open>*endptr\<close>), or \<open>None\<close>
  when no digit was consumed (\<^verbatim>\<open>*endptr == nptr\<close>, value 0).
\<close>

section \<open>Characters\<close>

definition c_isspace :: "char \<Rightarrow> bool" where
  "c_isspace c \<longleftrightarrow> of_char c \<in> {9, 10, 11, 12, 13, 32 :: nat}"

definition c_isdigit :: "char \<Rightarrow> bool" where
  "c_isdigit c \<longleftrightarrow> 48 \<le> (of_char c :: nat) \<and> (of_char c :: nat) \<le> 57"

definition digit_val :: "char \<Rightarrow> nat option" where
  "digit_val c = (let n = of_char c :: nat in
     if 48 \<le> n \<and> n \<le> 57 then Some (n - 48)
     else if 97 \<le> n \<and> n \<le> 122 then Some (n - 87)
     else if 65 \<le> n \<and> n \<le> 90 then Some (n - 55)
     else None)"

definition is_digit :: "nat \<Rightarrow> char \<Rightarrow> bool" where
  "is_digit b c = (case digit_val c of None \<Rightarrow> False | Some d \<Rightarrow> d < b)"

section \<open>strtol\<close>

definition digits_value :: "nat \<Rightarrow> string \<Rightarrow> nat" where
  "digits_value b ds = foldl (\<lambda>n c. n * b + the (digit_val c)) 0 ds"

text \<open>Prefix handling: \<^verbatim>\<open>0x\<close> counts only when a hexadecimal digit follows.\<close>

definition strip_prefix :: "nat \<Rightarrow> string \<Rightarrow> nat \<times> string" where
  "strip_prefix b s =
     (case s of
        c0 # c1 # c2 # r \<Rightarrow>
          (if (b = 0 \<or> b = 16) \<and> c0 = CHR ''0'' \<and> (c1 = CHR ''x'' \<or> c1 = CHR ''X'') \<and> is_digit 16 c2
           then (16, c2 # r)
           else if b = 0 then (if c0 = CHR ''0'' then 8 else 10, s) else (b, s))
      | c0 # r \<Rightarrow> (if b = 0 then (if c0 = CHR ''0'' then 8 else 10, s) else (b, s))
      | [] \<Rightarrow> (if b = 0 then 10 else b, s))"

definition strip_sign :: "string \<Rightarrow> bool \<times> string" where
  "strip_sign s =
     (case s of c # r \<Rightarrow>
        (if c = CHR ''-'' then (True, r) else if c = CHR ''+'' then (False, r) else (False, s))
      | [] \<Rightarrow> (False, s))"

definition strtoint :: "nat \<Rightarrow> string \<Rightarrow> (int \<times> string) option" where
  "strtoint base s =
     (let (neg, s2) = strip_sign (dropWhile c_isspace s);
          (b, s3) = strip_prefix base s2;
          ds = takeWhile (is_digit b) s3
      in if ds = [] then None
         else Some ((if neg then - int (digits_value b ds) else int (digits_value b ds)),
                    dropWhile (is_digit b) s3))"

abbreviation LONG_MAX :: int where "LONG_MAX \<equiv> 9223372036854775807"
abbreviation LONG_MIN :: int where "LONG_MIN \<equiv> - 9223372036854775808"

definition strtol :: "nat \<Rightarrow> string \<Rightarrow> (int \<times> string) option" where
  "strtol base s = map_option (\<lambda>(v, r). (max LONG_MIN (min LONG_MAX v), r)) (strtoint base s)"

text \<open>Conversion of a \<^verbatim>\<open>long\<close> to \<^verbatim>\<open>int\<close>.\<close>

definition int_of_long :: "int \<Rightarrow> int" where
  "int_of_long v = sint (word_of_int v :: u32)"

section \<open>Printing\<close>

definition digit_char :: "nat \<Rightarrow> char" where
  "digit_char d = (if d < 10 then char_of (48 + d) else char_of (87 + d))"

fun print_base :: "nat \<Rightarrow> nat \<Rightarrow> string" where
  "print_base b n = (if b < 2 \<or> n < b then [digit_char n] else print_base b (n div b) @ [digit_char (n mod b)])"

declare print_base.simps [simp del]

definition print_dec :: "nat \<Rightarrow> string" where
  "print_dec n = print_base 10 n"

section \<open>Facts\<close>

lemma digit_val_digit_char: "d < 16 \<Longrightarrow> digit_val (digit_char d) = Some d"
  by (auto simp: digit_val_def digit_char_def Let_def of_char_mod_256)

lemma is_digit_digit_char: "d < 16 \<Longrightarrow> is_digit b (digit_char d) \<longleftrightarrow> d < b"
  by (simp add: is_digit_def digit_val_digit_char)

lemma digits_value_snoc: "digits_value b (ds @ [c]) = digits_value b ds * b + the (digit_val c)"
  by (simp add: digits_value_def)

lemma print_base_digits:
  assumes "2 \<le> b" "b \<le> 16"
  shows "print_base b n \<noteq> []" "\<forall>c \<in> set (print_base b n). is_digit b c" "digits_value b (print_base b n) = n"
proof -
  have "print_base b n \<noteq> [] \<and> (\<forall>c \<in> set (print_base b n). is_digit b c) \<and> digits_value b (print_base b n) = n"
  proof (induction n rule: less_induct)
    case (less n)
    show ?case
    proof (cases "n < b")
      case True
      with assms show ?thesis
        by (simp add: print_base.simps is_digit_digit_char digits_value_def digit_val_digit_char)
    next
      case False
      with assms have "n div b < n" by simp
      note IH = less.IH [OF this]
      have "n mod b < b" using assms by simp
      moreover from this assms have "n mod b < 16" by linarith
      ultimately show ?thesis using False assms IH
        by (simp add: print_base.simps [of b n] is_digit_digit_char digits_value_snoc digit_val_digit_char)
    qed
  qed
  then show "print_base b n \<noteq> []" "\<forall>c \<in> set (print_base b n). is_digit b c" "digits_value b (print_base b n) = n"
    by simp_all
qed

lemma digit_not_space: "is_digit b c \<Longrightarrow> \<not> c_isspace c"
  by (auto simp: is_digit_def digit_val_def c_isspace_def Let_def split: if_splits option.splits)

lemma digit_not_sign: "is_digit b c \<Longrightarrow> c \<noteq> CHR ''-'' \<and> c \<noteq> CHR ''+''"
  by (auto simp: is_digit_def digit_val_def Let_def split: if_splits option.splits)

lemma strip_prefix_10: "strip_prefix 10 s = (10, s)"
  by (auto simp: strip_prefix_def split: list.split)

lemma takeWhile_digits_append:
  assumes "\<forall>c \<in> set ds. P c" "rest = [] \<or> \<not> P (hd rest)"
  shows "takeWhile P (ds @ rest) = ds" "dropWhile P (ds @ rest) = rest"
  using assms by (induction ds) (cases rest; auto)+

text \<open>A string of digits of the base is read back in full.\<close>

lemma strtoint_digits:
  assumes "ds \<noteq> []" "\<forall>c \<in> set ds. is_digit b c" "rest = [] \<or> \<not> is_digit b (hd rest)"
    and "strip_prefix b (ds @ rest) = (b, ds @ rest)"
  shows "strtoint b (ds @ rest) = Some (int (digits_value b ds), rest)"
proof -
  from assms(1) obtain c r where c: "ds = c # r" by (cases ds) auto
  then have "is_digit b c" using assms(2) by simp
  from digit_not_space [OF this] digit_not_sign [OF this]
  have "dropWhile c_isspace (ds @ rest) = ds @ rest" "c \<noteq> CHR ''-''" "c \<noteq> CHR ''+''" by (simp_all add: c)
  then show ?thesis using takeWhile_digits_append [OF assms(2,3)] assms(1,4)
    by (simp add: strtoint_def strip_sign_def Let_def c)
qed

lemma strtol_print_dec:
  assumes "int n \<le> LONG_MAX" "rest = [] \<or> \<not> is_digit 10 (hd rest)"
  shows "strtol 10 (print_dec n @ rest) = Some (int n, rest)"
  using strtoint_digits [OF print_base_digits(1,2) [of 10 n] assms(2)] assms(1) print_base_digits(3) [of 10 n]
  by (simp add: strtol_def print_dec_def strip_prefix_10)

lemma strip_sign_length: "strip_sign s = (neg, r) \<Longrightarrow> length r \<le> length s"
  by (cases s) (auto simp: strip_sign_def split: if_splits)

lemma strtoint_consumes: "strtoint b s = Some (v, r) \<Longrightarrow> length r < length s"
proof -
  assume a: "strtoint b s = Some (v, r)"
  obtain neg s2 where s2: "strip_sign (dropWhile c_isspace s) = (neg, s2)" by fastforce
  obtain b' s3 where s3: "strip_prefix b s2 = (b', s3)" by fastforce
  have l1: "length (dropWhile c_isspace s) \<le> length s" by (rule length_dropWhile_le)
  have l2: "length s2 \<le> length (dropWhile c_isspace s)"
    using s2 by (rule strip_sign_length)
  have l3: "length s3 \<le> length s2"
    using s3 by (auto simp: strip_prefix_def split: list.splits if_splits)
  from a have d: "takeWhile (is_digit b') s3 \<noteq> []" "r = dropWhile (is_digit b') s3"
    by (auto simp: strtoint_def Let_def s2 s3 split: if_splits)
  have "length s3 = length (takeWhile (is_digit b') s3) + length r"
    unfolding d(2) by (metis length_append takeWhile_dropWhile_id)
  with d(1) l1 l2 l3 show ?thesis by (cases "takeWhile (is_digit b') s3") auto
qed

lemma strtol_consumes: "strtol b s = Some (v, r) \<Longrightarrow> length r < length s"
  by (auto simp: strtol_def dest: strtoint_consumes)

lemma int_of_long_id: "- 2147483648 \<le> v \<Longrightarrow> v < 2147483648 \<Longrightarrow> int_of_long v = v"
  by (simp add: int_of_long_def signed_of_int signed_take_bit_int_eq_self)

end
