(* ===== verification/Validator_Placement.thy ===== *)
theory Validator_Placement
  imports C_Strings
begin

text \<open>
  Model of how \<^verbatim>\<open>src/src/host_validation.c\<close> chooses the number of validator threads and the CPU
  of each: \<open>get_numa_node_cpus\<close>, \<open>get_num_validators\<close>, \<open>choose_validator_cpu\<close>.

  What the operating system answers is a parameter: \<open>cpulist n\<close> is the first line of the
  sysfs file of NUMA node \<open>n\<close> (\<open>None\<close> when it cannot be opened or read), \<open>nproc\<close> is
  \<^verbatim>\<open>sysconf(_SC_NPROCESSORS_ONLN)\<close>.
\<close>

datatype validation_mode = VALIDATION_MODE_WRITE | VALIDATION_MODE_READ

abbreviation NUMA_MAX_CPUS :: nat where "NUMA_MAX_CPUS \<equiv> 1024"
abbreviation HOST_VALIDATION_MAX_VALIDATORS :: int where "HOST_VALIDATION_MAX_VALIDATORS \<equiv> 32"
abbreviation HOST_VALIDATION_DEFAULT_VALIDATORS :: int where "HOST_VALIDATION_DEFAULT_VALIDATORS \<equiv> 4"

section \<open>CPU lists\<close>

text \<open>\<open>room\<close> is \<^verbatim>\<open>max_cpus - count\<close>, so a bound on what may still be stored.\<close>

fun add_cpu_range :: "nat \<Rightarrow> int \<Rightarrow> int \<Rightarrow> int list" where
  "add_cpu_range 0 cpu stop = []"
| "add_cpu_range (Suc room) cpu stop =
     (if cpu \<le> stop then int_of_long cpu # add_cpu_range room (cpu + 1) stop else [])"

definition is_cpulist_sep :: "char \<Rightarrow> bool" where
  "is_cpulist_sep c \<longleftrightarrow> of_char c \<in> {44, 32, 9, 10 :: nat}"

text \<open>One turn of the parsing loop: \<open>None\<close> for \<^verbatim>\<open>break\<close>, else the range and the rest.\<close>

definition parse_cpu_range :: "string \<Rightarrow> (int \<times> int \<times> string) option" where
  "parse_cpu_range s =
     (let p = dropWhile is_cpulist_sep s in
      if p = [] then None
      else case strtol 10 p of
             None \<Rightarrow> None
           | Some (start, q) \<Rightarrow>
               (if q \<noteq> [] \<and> hd q = CHR ''-'' then
                  (case strtol 10 (tl q) of None \<Rightarrow> None | Some (stop, r) \<Rightarrow> Some (start, stop, r))
                else Some (start, start, q)))"

lemma parse_cpu_range_consumes: "parse_cpu_range s = Some (a, b, r) \<Longrightarrow> length r < length s"
proof -
  assume a: "parse_cpu_range s = Some (a, b, r)"
  have l: "length (dropWhile is_cpulist_sep s) \<le> length s" by (rule length_dropWhile_le)
  from a show ?thesis
    using l by (auto simp: parse_cpu_range_def Let_def split: if_splits option.splits dest!: strtol_consumes)
qed

function parse_cpulist :: "nat \<Rightarrow> string \<Rightarrow> int list" where
  "parse_cpulist room s =
     (if s = [] \<or> room = 0 then []
      else case parse_cpu_range s of
             None \<Rightarrow> []
           | Some (start, stop, r) \<Rightarrow>
               (let cpus = add_cpu_range room start stop
                in cpus @ parse_cpulist (room - length cpus) r))"
  by pat_completeness auto
termination
  by (relation "measure (\<lambda>(room, s). length s)") (auto dest: parse_cpu_range_consumes)

declare parse_cpulist.simps [simp del]

definition get_numa_node_cpus :: "(int \<Rightarrow> string option) \<Rightarrow> int \<Rightarrow> nat \<Rightarrow> int list" where
  "get_numa_node_cpus cpulist numa_node max_cpus =
     (if numa_node < 0 \<or> max_cpus = 0 then []
      else case cpulist numa_node of None \<Rightarrow> [] | Some buf \<Rightarrow> parse_cpulist max_cpus buf)"

section \<open>How many validators\<close>

definition available_cores :: "(int \<Rightarrow> string option) \<Rightarrow> int \<Rightarrow> int \<Rightarrow> int" where
  "available_cores cpulist nproc numa_node =
     (let local = (if numa_node \<ge> 0 then int (length (get_numa_node_cpus cpulist numa_node NUMA_MAX_CPUS)) else 0)
      in if local \<le> 0 then (if nproc > 0 then int_of_long nproc else 0) else local)"

definition get_num_validators ::
    "(int \<Rightarrow> string option) \<Rightarrow> int \<Rightarrow> u32 \<Rightarrow> u32 \<Rightarrow> validation_mode \<Rightarrow> int \<Rightarrow> int" where
  "get_num_validators cpulist nproc num_qps chunks_per_qp mode numa_node =
     (let total_markers = num_qps * chunks_per_qp;
          per_qp = (if mode = VALIDATION_MODE_READ then 3 else 2);
          n0 = sint num_qps * per_qp;
          n1 = (if n0 < HOST_VALIDATION_DEFAULT_VALIDATORS then HOST_VALIDATION_DEFAULT_VALIDATORS else n0);
          cores = available_cores cpulist nproc numa_node;
          n2 = (if cores > 0 then (if n1 > cores div 2 then cores div 2 else n1) else n1);
          n3 = (if n2 > HOST_VALIDATION_MAX_VALIDATORS then HOST_VALIDATION_MAX_VALIDATORS else n2);
          n4 = (if (word_of_int n3 :: u32) > total_markers then sint total_markers else n3)
      in if n4 < 1 then 1 else n4)"

section \<open>Which CPU\<close>

text \<open>The return codes \<open>0\<close> (with \<^verbatim>\<open>*cpu_out\<close>) and \<open>-2\<close>; \<open>-1\<close> is for a null \<^verbatim>\<open>cpu_out\<close>, which no caller passes.\<close>

datatype pin_result = Pin_to int | Skip_pinning

definition choose_numa_cpu :: "int list \<Rightarrow> int \<Rightarrow> pin_result" where
  "choose_numa_cpu cpu_list validator_id =
     (let num_cpus = int (length cpu_list);
          even_slots = (num_cpus + 1) div 2;
          target_idx = (if validator_id < even_slots then validator_id * 2
                        else (validator_id - even_slots) * 2 + 1)
      in if num_cpus \<le> 1 then Skip_pinning
         else Pin_to (cpu_list ! nat (target_idx mod num_cpus)))"

definition choose_system_cpu :: "int \<Rightarrow> int \<Rightarrow> pin_result" where
  "choose_system_cpu nproc validator_id =
     (let total_cpus = (if nproc > 0 then int_of_long nproc else 0) in
      if total_cpus \<le> 2 then Skip_pinning
      else
        let usable_cpus = total_cpus - 2;
            even_slots = usable_cpus div 2
        in if validator_id < even_slots then Pin_to (2 + validator_id * 2)
           else
             let target_cpu = 3 + (validator_id - even_slots) * 2
             in Pin_to (if target_cpu \<ge> total_cpus then 2 + (target_cpu - 2) mod usable_cpus
                        else target_cpu))"

definition choose_validator_cpu ::
    "(int \<Rightarrow> string option) \<Rightarrow> int \<Rightarrow> int \<Rightarrow> int \<Rightarrow> pin_result" where
  "choose_validator_cpu cpulist nproc validator_id numa_node =
     (let cpu_list = (if numa_node \<ge> 0 then get_numa_node_cpus cpulist numa_node NUMA_MAX_CPUS else [])
      in if cpu_list \<noteq> [] then choose_numa_cpu cpu_list validator_id
         else choose_system_cpu nproc validator_id)"

section \<open>Facts on CPU lists\<close>

lemma length_add_cpu_range: "length (add_cpu_range room a b) \<le> room"
  by (induction room a b rule: add_cpu_range.induct) auto

lemma add_cpu_range_upto:
  "- 2147483648 \<le> a \<Longrightarrow> b < 2147483648 \<Longrightarrow> nat (b - a + 1) \<le> room \<Longrightarrow> add_cpu_range room a b = [a..b]"
proof (induction room a b rule: add_cpu_range.induct)
  case (1 a b)
  then show ?case by simp
next
  case (2 room a b)
  then show ?case by (cases "a \<le> b") (simp_all add: int_of_long_id upto_rec1)
qed

lemma length_parse_cpulist: "length (parse_cpulist room s) \<le> room"
proof (induction room s rule: parse_cpulist.induct)
  case (1 room s)
  show ?case
  proof (cases "s = [] \<or> room = 0 \<or> parse_cpu_range s = None")
    case True
    then show ?thesis by (auto simp: parse_cpulist.simps [of room s])
  next
    case False
    then obtain a b r where p: "parse_cpu_range s = Some (a, b, r)" by auto
    from 1 [of "(a, b, r)" a "(b, r)" b r "add_cpu_range room a b"] p False
    have "length (parse_cpulist (room - length (add_cpu_range room a b)) r) \<le> room - length (add_cpu_range room a b)"
      by auto
    with p False length_add_cpu_range [of room a b] show ?thesis
      by (simp add: parse_cpulist.simps [of room s] Let_def)
  qed
qed

text \<open>The kernel's format: ranges separated by commas and ended by a newline.\<close>

fun print_cpu_range :: "nat \<times> nat \<Rightarrow> string" where
  "print_cpu_range (a, b) = (if a = b then print_dec a else print_dec a @ CHR ''-'' # print_dec b)"

fun print_cpulist :: "(nat \<times> nat) list \<Rightarrow> string" where
  "print_cpulist [] = [char_of (10 :: nat)]"
| "print_cpulist [r] = print_cpu_range r @ [char_of (10 :: nat)]"
| "print_cpulist (r # s # rs) = print_cpu_range r @ CHR '','' # print_cpulist (s # rs)"

lemma sep_not_digit: "is_cpulist_sep c \<Longrightarrow> \<not> is_digit 10 c"
  by (auto simp: is_cpulist_sep_def is_digit_def digit_val_def Let_def split: if_splits option.splits)

lemma parse_print_cpu_range:
  assumes "a \<le> b" "b < 2147483648" "rest \<noteq> []" "is_cpulist_sep (hd rest)"
  shows "parse_cpu_range (print_cpu_range (a, b) @ rest) = Some (int a, int b, rest)"
proof -
  have np: "print_dec n \<noteq> []" "\<forall>c \<in> set (print_dec n). is_digit 10 c" for n
    by (simp_all add: print_dec_def print_base_digits)
  have hd_digit: "is_digit 10 (hd (print_dec a))" using np [of a] by (simp add: hd_in_set)
  have dw: "dropWhile is_cpulist_sep (print_dec a @ t) = print_dec a @ t" for t
    using np(1) [of a] hd_digit sep_not_digit by (cases "print_dec a") auto
  have minus: "\<not> is_digit 10 (CHR ''-'')" by (simp add: is_digit_def digit_val_def)
  have r: "\<not> is_digit 10 (hd rest)" "hd rest \<noteq> CHR ''-''"
    using assms(4) sep_not_digit by (auto simp: is_cpulist_sep_def)
  have b: "strtol 10 (print_dec b @ rest) = Some (int b, rest)"
    using assms r by (intro strtol_print_dec) simp_all
  show ?thesis
  proof (cases "a = b")
    case True
    with b r assms np(1) show ?thesis by (simp add: parse_cpu_range_def dw [unfolded True])
  next
    case False
    have "strtol 10 (print_dec a @ CHR ''-'' # print_dec b @ rest) = Some (int a, CHR ''-'' # print_dec b @ rest)"
      using assms minus by (intro strtol_print_dec) simp_all
    with False b np(1) show ?thesis
      using dw [of "CHR ''-'' # print_dec b @ rest"] by (simp add: parse_cpu_range_def)
  qed
qed

lemma print_cpulist_nonempty: "print_cpulist rs \<noteq> []"
  by (induction rs rule: print_cpulist.induct) auto

lemma parse_newline: "parse_cpulist room [char_of (10 :: nat)] = []"
  by (simp add: parse_cpulist.simps parse_cpu_range_def is_cpulist_sep_def)

lemma parse_cpulist_comma: "parse_cpulist room (CHR '','' # s) = parse_cpulist room s"
proof (cases "s = [] \<or> room = 0")
  case True
  then show ?thesis by (auto simp: parse_cpulist.simps parse_cpu_range_def is_cpulist_sep_def)
next
  case False
  have "parse_cpu_range (CHR '','' # s) = parse_cpu_range s" by (simp add: parse_cpu_range_def is_cpulist_sep_def)
  with False show ?thesis by (simp add: parse_cpulist.simps [of room "CHR '','' # s"] parse_cpulist.simps [of room s])
qed

lemma parse_cpulist_range:
  assumes "a \<le> b" "b < 2147483648" "rest \<noteq> []" "is_cpulist_sep (hd rest)" "Suc b - a \<le> room"
  shows "parse_cpulist room (print_cpu_range (a, b) @ rest) = [int a..int b] @ parse_cpulist (room - (Suc b - a)) rest"
proof -
  have "add_cpu_range room (int a) (int b) = [int a..int b]"
    using assms by (intro add_cpu_range_upto) auto
  moreover have "length [int a..int b] = Suc b - a" using assms(1) by simp
  moreover have "room \<noteq> 0" using assms(1,5) by auto
  ultimately show ?thesis
    using parse_print_cpu_range [OF assms(1-4)]
    by (subst parse_cpulist.simps) (simp add: Let_def assms(3) del: print_cpu_range.simps)
qed

section \<open>Facts on placement\<close>

definition numa_slot :: "int \<Rightarrow> int \<Rightarrow> int" where
  "numa_slot n i = (if i < (n + 1) div 2 then i * 2 else (i - (n + 1) div 2) * 2 + 1)"

lemma numa_slot_range: "0 \<le> i \<Longrightarrow> i < n \<Longrightarrow> 0 \<le> numa_slot n i \<and> numa_slot n i < n"
  by (auto simp: numa_slot_def)

lemma numa_slot_inj: "numa_slot n i = numa_slot n j \<Longrightarrow> i = j"
  unfolding numa_slot_def by (auto split: if_splits) presburger+

lemma choose_numa_cpu_slot:
  assumes "2 \<le> length cpus" "0 \<le> i" "i < int (length cpus)"
  shows "choose_numa_cpu cpus i = Pin_to (cpus ! nat (numa_slot (int (length cpus)) i))"
  using assms numa_slot_range [OF assms(2,3)]
  by (simp add: choose_numa_cpu_def Let_def numa_slot_def split: if_splits)

text \<open>The fallback, for \<open>2 * k\<close> and for \<open>2 * k + 1\<close> usable CPUs.\<close>

lemma system_cpu_even:
  assumes "1 \<le> k" "2 * k + 2 < 2147483648" "0 \<le> i" "i < 2 * k"
  shows "choose_system_cpu (2 * k + 2) i = Pin_to (if i < k then 2 + i * 2 else 3 + (i - k) * 2)"
proof -
  have "int_of_long (2 * k + 2) = 2 * k + 2" using assms by (intro int_of_long_id) simp_all
  with assms show ?thesis by (simp add: choose_system_cpu_def Let_def)
qed

lemma system_cpu_odd:
  assumes "1 \<le> k" "2 * k + 3 < 2147483648" "0 \<le> i" "i \<le> 2 * k"
  shows "choose_system_cpu (2 * k + 3) i =
    Pin_to (if i < k then 2 + i * 2 else if i = 2 * k then 2 else 3 + (i - k) * 2)"
proof -
  have "int_of_long (2 * k + 3) = 2 * k + 3" using assms by (intro int_of_long_id) simp_all
  moreover have "(2 * k + 1) div 2 = k" by simp
  moreover have "3 + (i - k) * 2 \<ge> 2 * k + 3 \<longleftrightarrow> i = 2 * k" using assms by presburger
  ultimately show ?thesis using assms by (auto simp: choose_system_cpu_def Let_def)
qed

section \<open>Properties\<close>

text \<open>
  A CPU list in the kernel's format is read back as the CPUs of its ranges in order, as long as
  they fit in the caller's array; and whatever the file holds, no more than \<open>max_cpus\<close> entries
  are stored.
\<close>

theorem cpulist_roundtrip:
  assumes "\<forall>(a, b) \<in> set rs. a \<le> b \<and> b < 2 ^ 31"
    and "(\<Sum>(a, b)\<leftarrow>rs. Suc b - a) \<le> max_cpus"
  shows "parse_cpulist max_cpus (print_cpulist rs) = concat (map (\<lambda>(a, b). [int a..int b]) rs) \<and>
         length (parse_cpulist max_cpus any) \<le> max_cpus"
proof -
  have "parse_cpulist max_cpus (print_cpulist rs) = concat (map (\<lambda>(a, b). [int a..int b]) rs)"
    using assms
  proof (induction rs arbitrary: max_cpus rule: print_cpulist.induct)
    case 1
    then show ?case by (simp add: parse_newline)
  next
    case (2 r)
    obtain a b where r: "r = (a, b)" by fastforce
    with 2 show ?case
      using parse_cpulist_range [of a b "[char_of (10 :: nat)]" max_cpus]
      by (simp add: parse_newline is_cpulist_sep_def del: print_cpu_range.simps)
  next
    case (3 r s rs)
    obtain a b where r: "r = (a, b)" by fastforce
    with 3 show ?case
      using parse_cpulist_range [of a b "CHR '','' # print_cpulist (s # rs)" max_cpus]
      by (simp add: parse_cpulist_comma is_cpulist_sep_def del: print_cpu_range.simps)
  qed
  then show ?thesis by (simp add: length_parse_cpulist)
qed

theorem cpulist_roundtrip_witness:
  "parse_cpulist 16 (print_cpulist [(0, 3), (8, 8)]) = [0, 1, 2, 3, 8] \<and> length (parse_cpulist 16 ''7,,x'') \<le> 16"
  using cpulist_roundtrip [of "[(0, 3), (8, 8)]" 16 "''7,,x''"] by (simp add: upto_rec1)

text \<open>
  On a NUMA node with at least two CPUs, every validator is pinned to a CPU of that node, and
  different validators to different CPUs while there are enough of them.
\<close>

theorem numa_pinning_injective:
  assumes "2 \<le> length cpus" and "distinct cpus"
    and "0 \<le> i" and "i < int (length cpus)" and "0 \<le> j" and "j < int (length cpus)" and "i \<noteq> j"
  shows "choose_numa_cpu cpus i \<in> Pin_to ` set cpus \<and> choose_numa_cpu cpus i \<noteq> choose_numa_cpu cpus j"
proof -
  let ?n = "int (length cpus)"
  note si = numa_slot_range [OF assms(3,4)] and sj = numa_slot_range [OF assms(5,6)]
  have "numa_slot ?n i \<noteq> numa_slot ?n j" using numa_slot_inj assms(7) by blast
  with si sj have "nat (numa_slot ?n i) \<noteq> nat (numa_slot ?n j)" by (metis eq_nat_nat_iff)
  moreover have "nat (numa_slot ?n i) < length cpus" "nat (numa_slot ?n j) < length cpus" using si sj by linarith+
  ultimately show ?thesis
    using assms nth_eq_iff_index_eq [OF assms(2)] by (auto simp: choose_numa_cpu_slot)
qed

theorem numa_pinning_injective_witness:
  "choose_numa_cpu [4, 5, 6] 1 \<in> Pin_to ` set [4, 5, 6] \<and> choose_numa_cpu [4, 5, 6] 1 \<noteq> choose_numa_cpu [4, 5, 6] 2"
  using numa_pinning_injective [of "[4, 5, 6]" 1 2] by simp

text \<open>
  Without a NUMA node the fallback never pins to CPU 0 or 1 and stays below the CPU count, and
  with an even number of usable CPUs it gives different validators different CPUs.  With an odd
  number it never uses the last CPU and puts two validators on CPU 2.
\<close>

theorem system_pinning:
  assumes "1 \<le> k" and "2 * k + 3 < 2 ^ 31" and "0 \<le> i" and "i < 2 * k" and "0 \<le> j" and "j < 2 * k" and "i \<noteq> j"
  shows "choose_system_cpu (2 * k + 2) i \<noteq> choose_system_cpu (2 * k + 2) j \<and>
     (\<exists>c. choose_system_cpu (2 * k + 2) i = Pin_to c \<and> 2 \<le> c \<and> c < 2 * k + 2) \<and>
     (\<exists>c. choose_system_cpu (2 * k + 3) i = Pin_to c \<and> 2 \<le> c \<and> c < 2 * k + 2) \<and>
     choose_system_cpu (2 * k + 3) (2 * k) = choose_system_cpu (2 * k + 3) 0"
proof -
  have b: "2 * k + 3 < 2147483648" "2 * k + 2 < 2147483648" using assms(2) by simp_all
  have e: "choose_system_cpu (2 * k + 2) i = Pin_to (if i < k then 2 + i * 2 else 3 + (i - k) * 2)"
    "choose_system_cpu (2 * k + 2) j = Pin_to (if j < k then 2 + j * 2 else 3 + (j - k) * 2)"
    using assms b(2) by (simp_all only: system_cpu_even)
  have o: "choose_system_cpu (2 * k + 3) i =
      Pin_to (if i < k then 2 + i * 2 else if i = 2 * k then 2 else 3 + (i - k) * 2)"
    "choose_system_cpu (2 * k + 3) (2 * k) = Pin_to 2" "choose_system_cpu (2 * k + 3) 0 = Pin_to 2"
    using assms b system_cpu_odd [of k i] system_cpu_odd [of k "2 * k"] system_cpu_odd [of k 0] by auto
  have "(if i < k then 2 + i * 2 else 3 + (i - k) * 2) \<noteq> (if j < k then 2 + j * 2 else 3 + (j - k) * 2)"
    using assms(7) by presburger
  moreover have "2 \<le> (if i < k then 2 + i * 2 else if i = 2 * k then 2 else 3 + (i - k) * 2)"
    "(if i < k then 2 + i * 2 else if i = 2 * k then 2 else 3 + (i - k) * 2) < 2 * k + 2"
    using assms(1,3,4) by auto
  ultimately show ?thesis using e o assms by auto
qed

theorem system_pinning_witness:
  "choose_system_cpu 6 0 \<noteq> choose_system_cpu 6 3 \<and>
   (\<exists>c. choose_system_cpu 6 0 = Pin_to c \<and> 2 \<le> c \<and> c < 6) \<and>
   (\<exists>c. choose_system_cpu 7 0 = Pin_to c \<and> 2 \<le> c \<and> c < 6) \<and> choose_system_cpu 7 4 = choose_system_cpu 7 0"
  using system_pinning [of 2 0 3] by simp

text \<open>
  The number of validators is between 1 and 32, never exceeds the number of markers when there
  is at least one, and never exceeds half of the available cores when that half is at least one.
\<close>

theorem num_validators_bounds:
  assumes "0 < unat num_qps * unat chunks_per_qp" and "unat num_qps * unat chunks_per_qp < 2 ^ 29"
  shows "1 \<le> get_num_validators cpulist nproc num_qps chunks_per_qp mode numa_node \<and>
     get_num_validators cpulist nproc num_qps chunks_per_qp mode numa_node \<le> HOST_VALIDATION_MAX_VALIDATORS \<and>
     get_num_validators cpulist nproc num_qps chunks_per_qp mode numa_node \<le> int (unat num_qps * unat chunks_per_qp) \<and>
     (2 \<le> available_cores cpulist nproc numa_node \<longrightarrow>
        get_num_validators cpulist nproc num_qps chunks_per_qp mode numa_node \<le> available_cores cpulist nproc numa_node div 2)"
proof -
  let ?t = "unat num_qps * unat chunks_per_qp"
  let ?n1 = "let n = sint num_qps * (if mode = VALIDATION_MODE_READ then 3 else 2) in if n < 4 then 4 else n :: int"
  let ?c = "available_cores cpulist nproc numa_node"
  define n3 where "n3 = min (if ?c > 0 then min ?n1 (?c div 2) else ?n1) 32"
  have t: "unat (num_qps * chunks_per_qp) = ?t" using assms(2) by (simp add: unat_mult_exact)
  have s: "sint (num_qps * chunks_per_qp) = int ?t" using assms(2) by (subst sint_u32_small) (simp_all add: t)
  have n3: "0 \<le> n3" "n3 \<le> 32" "2 \<le> ?c \<Longrightarrow> n3 \<le> ?c div 2" by (auto simp: n3_def Let_def)
  then have w: "(word_of_int n3 :: u32) > num_qps * chunks_per_qp \<longleftrightarrow> int ?t < n3"
    by (simp add: word_less_nat_alt t unat_word_of_int zless_nat_eq_int_zless)
  have "get_num_validators cpulist nproc num_qps chunks_per_qp mode numa_node =
      (let n4 = if (word_of_int n3 :: u32) > num_qps * chunks_per_qp then sint (num_qps * chunks_per_qp) else n3
       in if n4 < 1 then 1 else n4)"
    unfolding get_num_validators_def n3_def Let_def cap_is_min ..
  also have "\<dots> = max 1 (min n3 (int ?t))" unfolding w s Let_def by (auto simp: max_def min_def)
  finally have eq: "get_num_validators cpulist nproc num_qps chunks_per_qp mode numa_node = max 1 (min n3 (int ?t))" .
  have "1 \<le> int ?t" using assms(1) by linarith
  then show ?thesis unfolding eq using n3 by (auto simp: max_def min_def)
qed

theorem num_validators_bounds_witness:
  "1 \<le> get_num_validators (\<lambda>_. None) 16 2 12 VALIDATION_MODE_READ (-1) \<and>
   get_num_validators (\<lambda>_. None) 16 2 12 VALIDATION_MODE_READ (-1) \<le> 8"
  using num_validators_bounds [of 2 12 "\<lambda>_. None" 16 VALIDATION_MODE_READ "-1"]
  by (simp add: available_cores_def int_of_long_id)

end
