(* ===== verification/Marker_Validation.thy ===== *)
theory Marker_Validation
  imports Validation_Common Simd_Scan Marker_Distribution Validator_Placement
begin

text \<open>
  Model of the validator of \<^verbatim>\<open>src/src/host_validation.c\<close>: \<open>marker_to_expected_pattern\<close>,
  \<open>validate_one_marker\<close> and \<open>validator_thread_fn\<close>.

  The remote side keeps writing markers and data while a validator works, so what a validator reads
  is an input of the model: a marker read is a pair of the value and the chunk's bytes as they are
  seen by the first scan, by the tail re-scan and by the snapshot.  A chunk's bytes are a list of
  \<open>chunk_bytes\<close> bytes.  The error record and the error counter are shared by all validators; the
  compare-and-exchange that guards the record makes one validation's update of them atomic.
\<close>

section \<open>State\<close>

record host_validator_stats =
  work_items_processed :: u64
  bytes_validated :: u64
  markers_scanned :: u64
  markers_hit :: u64
  scan_cycles :: u64
  skipped_steps :: u64
  race_overwrites :: u64
  dma_stale_retries :: u64

record host_validation_error =
  has_error :: bool
  err_qp_id :: nat
  err_chunk_id :: nat
  err_byte_offset :: u64
  err_expected :: u8
  err_actual :: u8

record validator_state =
  vstats :: host_validator_stats
  errors_found :: u64
  verror :: host_validation_error

record validator_config =
  vc_payload_size :: u64
  vc_ops_per_chunk :: u32
  vc_mode :: validation_mode

definition chunk_bytes :: "validator_config \<Rightarrow> u64" where
  "chunk_bytes cfg = ucast (vc_ops_per_chunk cfg) * vc_payload_size cfg"

type_synonym chunk_views = "u8 list \<times> u8 list \<times> u8 list"
type_synonym marker_read = "u64 \<times> chunk_views"

datatype simd_isa = HAVE_AVX512 | HAVE_AVX2 | HAVE_SSE42 | HAVE_NEON | NO_SIMD

fun VALIDATE_CHUNK_FN :: "simd_isa \<Rightarrow> u8 list \<Rightarrow> u8 \<Rightarrow> nat \<Rightarrow> (nat \<times> u8) option" where
  "VALIDATE_CHUNK_FN HAVE_AVX512 data pattern n = validate_avx512 data pattern n"
| "VALIDATE_CHUNK_FN HAVE_AVX2 data pattern n = validate_avx2 data pattern n"
| "VALIDATE_CHUNK_FN HAVE_SSE42 data pattern n = validate_sse42 data pattern n"
| "VALIDATE_CHUNK_FN HAVE_NEON data pattern n = validate_neon data pattern n"
| "VALIDATE_CHUNK_FN NO_SIMD data pattern n = None"

section \<open>One marker\<close>

definition marker_to_expected_pattern :: "u64 \<Rightarrow> u8 option" where
  "marker_to_expected_pattern marker_val =
     (if marker_val = 0 then None else Some (validation_cycle_to_pattern (marker_val - 1)))"

text \<open>First-error capture: the record is filled only by the validation that flips \<^verbatim>\<open>has_error\<close>.\<close>

definition report_error ::
    "validator_config \<Rightarrow> marker_scan_entry \<Rightarrow> nat \<Rightarrow> u8 \<Rightarrow> u8 \<Rightarrow> validator_state \<Rightarrow> validator_state" where
  "report_error cfg entry mismatch expected actual st =
     (let error_offset = (of_nat mismatch :: u64) mod vc_payload_size cfg;
          err = (if has_error (verror st) then verror st
                 else \<lparr> has_error = True, err_qp_id = me_qp_id entry, err_chunk_id = me_chunk_id entry,
                        err_byte_offset = error_offset, err_expected = expected, err_actual = actual \<rparr>)
      in st\<lparr> verror := err, errors_found := errors_found st + 1 \<rparr>)"

definition tail_retry ::
    "simd_isa \<Rightarrow> validator_config \<Rightarrow> u8 list \<Rightarrow> u8 \<Rightarrow> nat \<Rightarrow> u8 \<Rightarrow> bool \<times> nat \<times> u8" where
  "tail_retry isa cfg d2 expected mismatch actual_byte =
     (if (of_nat mismatch :: u64) \<ge> chunk_bytes cfg - validation_tail_bytes (vc_payload_size cfg) then
        (case VALIDATE_CHUNK_FN isa (drop mismatch d2) expected (unat (chunk_bytes cfg) - mismatch) of
           None \<Rightarrow> (True, mismatch, actual_byte)
         | Some (retry, retry_actual) \<Rightarrow> (False, mismatch + retry, retry_actual))
      else (False, mismatch, actual_byte))"

definition forward_snapshot ::
    "validator_config \<Rightarrow> u8 list \<Rightarrow> u8 \<Rightarrow> u8 \<Rightarrow> bool \<Rightarrow> nat \<Rightarrow> u8 \<times> (u8 \<times> u8 \<times> u8 \<times> u8) \<times> bool" where
  "forward_snapshot cfg d3 expected first_actual retry_matched mismatch =
     (if \<not> retry_matched \<and> (of_nat (mismatch + 4) :: u64) < chunk_bytes cfg
      then (d3 ! mismatch, (d3 ! (mismatch + 1), d3 ! (mismatch + 2), d3 ! (mismatch + 3), d3 ! (mismatch + 4)), True)
      else (first_actual, (expected, expected, expected, expected), False))"

definition handle_mismatch ::
    "simd_isa \<Rightarrow> validator_config \<Rightarrow> u8 list \<Rightarrow> u8 list \<Rightarrow> marker_scan_entry \<Rightarrow> u8 \<Rightarrow> nat \<Rightarrow> u8
     \<Rightarrow> validator_state \<Rightarrow> validator_state" where
  "handle_mismatch isa cfg d2 d3 entry expected mismatch0 actual0 st =
     (let (retry_matched, mismatch, actual_byte) = tail_retry isa cfg d2 expected mismatch0 actual0;
          (actual_snap, fwd_snap, fwd_valid) = forward_snapshot cfg d3 expected actual0 retry_matched mismatch;
          mtype = classify_validation_mismatch (of_nat mismatch) (chunk_bytes cfg) (vc_payload_size cfg)
                    expected actual_snap retry_matched fwd_snap fwd_valid
      in case mtype of
           VALIDATION_MISMATCH_STALE \<Rightarrow>
             st\<lparr> vstats := (vstats st)\<lparr> dma_stale_retries := dma_stale_retries (vstats st) + 1 \<rparr> \<rparr>
         | VALIDATION_MISMATCH_RACE \<Rightarrow>
             st\<lparr> vstats := (vstats st)\<lparr> race_overwrites := race_overwrites (vstats st) + 1 \<rparr> \<rparr>
         | _ \<Rightarrow> report_error cfg entry mismatch expected actual_byte st)"

definition validate_one_marker ::
    "simd_isa \<Rightarrow> validator_config \<Rightarrow> chunk_views \<Rightarrow> validator_state \<Rightarrow> marker_scan_entry \<Rightarrow> u64
     \<Rightarrow> bool \<times> validator_state \<times> marker_scan_entry" where
  "validate_one_marker isa cfg views st entry marker_val =
     (case marker_to_expected_pattern marker_val of
        None \<Rightarrow> (False, st, entry\<lparr> last_seen := marker_val \<rparr>)
      | Some expected \<Rightarrow>
         (let (d1, d2, d3) = views;
              delta = marker_val - last_seen entry;
              st1 = (if delta > 1
                     then st\<lparr> vstats := (vstats st)\<lparr> skipped_steps := skipped_steps (vstats st) + (delta - 1) \<rparr> \<rparr>
                     else st);
              st2 = (case VALIDATE_CHUNK_FN isa d1 expected (unat (chunk_bytes cfg)) of
                       None \<Rightarrow> st1
                     | Some (mismatch, actual_byte) \<Rightarrow>
                         handle_mismatch isa cfg d2 d3 entry expected mismatch actual_byte st1);
              st3 = st2\<lparr> vstats := (vstats st2)\<lparr>
                      work_items_processed := work_items_processed (vstats st2) + ucast (vc_ops_per_chunk cfg),
                      bytes_validated := bytes_validated (vstats st2) + chunk_bytes cfg \<rparr> \<rparr>
          in (True, st3, entry\<lparr> last_seen := marker_val \<rparr>)))"

section \<open>The validator thread\<close>

abbreviation VALIDATOR_SPIN_CHECK_INTERVAL :: nat where "VALIDATOR_SPIN_CHECK_INTERVAL \<equiv> 1024"

definition count_hit :: "validator_state \<Rightarrow> validator_state" where
  "count_hit st = st\<lparr> vstats := (vstats st)\<lparr> markers_hit := markers_hit (vstats st) + 1 \<rparr> \<rparr>"

definition count_scanned :: "validator_state \<Rightarrow> validator_state" where
  "count_scanned st = st\<lparr> vstats := (vstats st)\<lparr> markers_scanned := markers_scanned (vstats st) + 1 \<rparr> \<rparr>"

definition count_cycle :: "validator_state \<Rightarrow> validator_state" where
  "count_cycle st = st\<lparr> vstats := (vstats st)\<lparr> scan_cycles := scan_cycles (vstats st) + 1 \<rparr> \<rparr>"

definition repoll_enabled :: "validator_config \<Rightarrow> bool" where
  "repoll_enabled cfg \<longleftrightarrow> vc_mode cfg = VALIDATION_MODE_WRITE \<and> chunk_bytes cfg \<le> 65536"

text \<open>
  The \<^verbatim>\<open>do ... while\<close> around one marker.  \<open>reads\<close> are the further reads of the marker; \<open>None\<close> says
  that the thread is still in the loop when they are used up.
\<close>

fun drain_marker ::
    "simd_isa \<Rightarrow> validator_config \<Rightarrow> validator_state \<Rightarrow> marker_scan_entry \<Rightarrow> marker_read \<Rightarrow> marker_read list
     \<Rightarrow> (validator_state \<times> marker_scan_entry) option" where
  "drain_marker isa cfg st entry (marker_val, views) reads =
     (let (ok, st', entry') = validate_one_marker isa cfg views (count_hit st) entry marker_val in
      if \<not> ok then Some (st', entry')
      else case reads of
             [] \<Rightarrow> None
           | (marker_val', views') # rs \<Rightarrow>
               (if repoll_enabled cfg \<and> marker_val' \<noteq> last_seen entry' \<and> marker_val' \<noteq> 0
                then drain_marker isa cfg st' entry' (marker_val', views') rs
                else Some (st', entry')))"

declare drain_marker.simps [simp del]

definition visit_marker ::
    "simd_isa \<Rightarrow> validator_config \<Rightarrow> validator_state \<Rightarrow> marker_scan_entry \<Rightarrow> marker_read list
     \<Rightarrow> (bool \<times> validator_state \<times> marker_scan_entry) option" where
  "visit_marker isa cfg st entry reads =
     (case reads of
        [] \<Rightarrow> None
      | (marker_val, views) # rs \<Rightarrow>
          (if marker_val \<noteq> last_seen entry \<and> marker_val \<noteq> 0
           then map_option (\<lambda>(st', e'). (True, count_scanned st', e'))
                  (drain_marker isa cfg st entry (marker_val, views) rs)
           else Some (False, count_scanned st, entry)))"

fun scan_markers ::
    "simd_isa \<Rightarrow> validator_config \<Rightarrow> validator_state \<Rightarrow> marker_scan_entry list \<Rightarrow> marker_read list list
     \<Rightarrow> (bool \<times> validator_state \<times> marker_scan_entry list) option" where
  "scan_markers isa cfg st [] rss = Some (False, st, [])"
| "scan_markers isa cfg st (e # es) [] = None"
| "scan_markers isa cfg st (e # es) (rs # rss) =
     (case visit_marker isa cfg st e rs of
        None \<Rightarrow> None
      | Some (f1, st1, e1) \<Rightarrow>
          (case scan_markers isa cfg st1 es rss of
             None \<Rightarrow> None
           | Some (f2, st2, es2) \<Rightarrow> Some (f1 \<or> f2, st2, e1 # es2)))"

text \<open>
  The main loop.  An element of \<open>passes\<close> is what one pass reads: the reads of every marker and the
  value of \<^verbatim>\<open>stop_flag\<close>, which is loaded after every 1024 passes without work.
\<close>

fun main_loop ::
    "simd_isa \<Rightarrow> validator_config \<Rightarrow> validator_state \<Rightarrow> marker_scan_entry list \<Rightarrow> nat
     \<Rightarrow> (marker_read list list \<times> bool) list \<Rightarrow> (validator_state \<times> marker_scan_entry list) option" where
  "main_loop isa cfg st es spin_count [] = None"
| "main_loop isa cfg st es spin_count ((rss, stop_flag) # passes) =
     (case scan_markers isa cfg (count_cycle st) es rss of
        None \<Rightarrow> None
      | Some (found_work, st', es') \<Rightarrow>
          (if \<not> found_work then
             (if spin_count + 1 \<ge> VALIDATOR_SPIN_CHECK_INTERVAL
              then (if stop_flag then Some (st', es') else main_loop isa cfg st' es' 0 passes)
              else main_loop isa cfg st' es' (spin_count + 1) passes)
           else main_loop isa cfg st' es' 0 passes))"

fun final_drain ::
    "simd_isa \<Rightarrow> validator_config \<Rightarrow> validator_state \<Rightarrow> marker_scan_entry list \<Rightarrow> marker_read list
     \<Rightarrow> (validator_state \<times> marker_scan_entry list) option" where
  "final_drain isa cfg st [] reads = Some (st, [])"
| "final_drain isa cfg st (e # es) [] = None"
| "final_drain isa cfg st (e # es) ((marker_val, views) # reads) =
     (let (st1, e1) = (if marker_val = last_seen e \<or> marker_val = 0 then (st, e)
                       else snd (validate_one_marker isa cfg views (count_hit st) e marker_val))
      in case final_drain isa cfg st1 es reads of
           None \<Rightarrow> None
         | Some (st2, es2) \<Rightarrow> Some (st2, e1 # es2))"

definition validator_thread_fn ::
    "simd_isa \<Rightarrow> validator_config \<Rightarrow> validator_state \<Rightarrow> marker_scan_entry list
     \<Rightarrow> (marker_read list list \<times> bool) list \<Rightarrow> marker_read list
     \<Rightarrow> (validator_state \<times> marker_scan_entry list) option" where
  "validator_thread_fn isa cfg st own_markers passes drain_reads =
     (case main_loop isa cfg st own_markers 0 passes of
        None \<Rightarrow> None
      | Some (st', es') \<Rightarrow> final_drain isa cfg st' es' drain_reads)"

section \<open>Facts on one validation\<close>

lemma handle_mismatch_frame [simp]:
  "work_items_processed (vstats (handle_mismatch isa cfg d2 d3 e x m a st)) = work_items_processed (vstats st)"
  "bytes_validated (vstats (handle_mismatch isa cfg d2 d3 e x m a st)) = bytes_validated (vstats st)"
  "markers_hit (vstats (handle_mismatch isa cfg d2 d3 e x m a st)) = markers_hit (vstats st)"
  "skipped_steps (vstats (handle_mismatch isa cfg d2 d3 e x m a st)) = skipped_steps (vstats st)"
  by (simp_all add: handle_mismatch_def report_error_def Let_def split: prod.split validation_mismatch_type.split)

lemma handle_mismatch_error_kept:
  "has_error (verror st) \<Longrightarrow> verror (handle_mismatch isa cfg d2 d3 e x m a st) = verror st"
  by (simp add: handle_mismatch_def report_error_def Let_def split: prod.split validation_mismatch_type.split)

lemma validate_one_marker_ok:
  "validate_one_marker isa cfg v st e mv = (ok, st', e') \<Longrightarrow> e' = e\<lparr> last_seen := mv \<rparr> \<and> (ok \<longleftrightarrow> mv \<noteq> 0)"
  by (auto simp: validate_one_marker_def marker_to_expected_pattern_def Let_def split: if_splits prod.splits)

lemma validate_one_marker_error_kept:
  "has_error (verror st) \<Longrightarrow> validate_one_marker isa cfg v st e mv = (ok, st', e') \<Longrightarrow> verror st' = verror st"
  by (auto simp: validate_one_marker_def marker_to_expected_pattern_def Let_def handle_mismatch_error_kept
      split: if_splits prod.splits option.splits)

lemma skipped_of_delta: "(if d > 1 then s + (d - 1) else s) + 1 = s + d" if "d \<noteq> 0" for d s :: u64
proof (cases "d > 1")
  case False
  then have "unat d \<le> 1" by (simp add: word_less_nat_alt)
  moreover have "unat d \<noteq> 0" using that by (simp add: unat_eq_zero)
  ultimately have "d = 1" by (metis One_nat_def le_antisym not_less_eq_eq unat_1 word_unat_eq_iff le_0_eq)
  with False show ?thesis by simp
qed simp

lemma validate_one_marker_counts:
  assumes "validate_one_marker isa cfg v st e mv = (ok, st', e')" "mv \<noteq> 0" "mv \<noteq> last_seen e"
  shows "markers_hit (vstats st') = markers_hit (vstats st)"
    "skipped_steps (vstats st') + 1 = skipped_steps (vstats st) + (mv - last_seen e)"
    "bytes_validated (vstats st') = bytes_validated (vstats st) + chunk_bytes cfg"
    "work_items_processed (vstats st') = work_items_processed (vstats st) + ucast (vc_ops_per_chunk cfg)"
proof -
  obtain d1 d2 d3 where v: "v = (d1, d2, d3)" by (cases v)
  have d: "mv - last_seen e \<noteq> 0" using assms(3) by simp
  have st': "skipped_steps (vstats st') =
      (if mv - last_seen e > 1 then skipped_steps (vstats st) + (mv - last_seen e - 1) else skipped_steps (vstats st))"
    using assms(1,2) by (auto simp: validate_one_marker_def marker_to_expected_pattern_def v Let_def split: option.splits)
  show "skipped_steps (vstats st') + 1 = skipped_steps (vstats st) + (mv - last_seen e)"
    unfolding st' by (rule skipped_of_delta [OF d])
  show "markers_hit (vstats st') = markers_hit (vstats st)"
    "bytes_validated (vstats st') = bytes_validated (vstats st) + chunk_bytes cfg"
    "work_items_processed (vstats st') = work_items_processed (vstats st) + ucast (vc_ops_per_chunk cfg)"
    using assms(1,2) by (auto simp: validate_one_marker_def marker_to_expected_pattern_def v Let_def split: option.splits)
qed

section \<open>Invariants of a thread\<close>

definition seen_total :: "marker_scan_entry list \<Rightarrow> u64" where
  "seen_total es = sum_list (map last_seen es)"

lemma seen_total_simps [simp]: "seen_total [] = 0" "seen_total (e # es) = last_seen e + seen_total es"
  by (simp_all add: seen_total_def)

text \<open>
  What one marker validation and the plain counters keep, a whole thread keeps.  The second argument
  of the invariant is the sum of the epochs seen so far.
\<close>

locale thread_invariant =
  fixes isa :: simd_isa and cfg :: validator_config and I :: "validator_state \<Rightarrow> u64 \<Rightarrow> bool"
  assumes hit: "\<lbrakk> mv \<noteq> last_seen e; mv \<noteq> 0; I st (tot + last_seen e);
      validate_one_marker isa cfg v (count_hit st) e mv = (ok, st', e') \<rbrakk> \<Longrightarrow> I st' (tot + mv)"
    and scanned: "I st tot \<Longrightarrow> I (count_scanned st) tot"
    and cycle: "I st tot \<Longrightarrow> I (count_cycle st) tot"
begin

lemma validate_inv:
  assumes "validate_one_marker isa cfg v (count_hit st) e mv = (ok, st1, e1)" "mv \<noteq> last_seen e" "mv \<noteq> 0"
    "I st (tot + last_seen e)"
  shows "ok" "last_seen e1 = mv" "I st1 (tot + last_seen e1)"
  using validate_one_marker_ok [OF assms(1)] hit [OF assms(2-4,1)] assms(3) by simp_all

lemma drain_marker_inv:
  "drain_marker isa cfg st e r rs = Some (st', e') \<Longrightarrow> fst r \<noteq> last_seen e \<Longrightarrow> fst r \<noteq> 0 \<Longrightarrow>
   I st (tot + last_seen e) \<Longrightarrow> I st' (tot + last_seen e')"
proof (induction rs arbitrary: st e r)
  case Nil
  obtain mv v where r: "r = (mv, v)" by (cases r)
  obtain ok st1 e1 where val: "validate_one_marker isa cfg v (count_hit st) e mv = (ok, st1, e1)"
    by (cases "validate_one_marker isa cfg v (count_hit st) e mv")
  from validate_inv(1) [OF val _ _ Nil(4)] Nil(1-3) val r show ?case by (simp add: drain_marker.simps)
next
  case (Cons r' rs')
  obtain mv v where r: "r = (mv, v)" by (cases r)
  obtain ok st1 e1 where val: "validate_one_marker isa cfg v (count_hit st) e mv = (ok, st1, e1)"
    by (cases "validate_one_marker isa cfg v (count_hit st) e mv")
  from validate_inv [OF val _ _ Cons(5)] Cons(3,4) r
  have 1: "ok" "last_seen e1 = mv" "I st1 (tot + last_seen e1)" by simp_all
  obtain mv' v' where r': "r' = (mv', v')" by (cases r')
  show ?case
  proof (cases "repoll_enabled cfg \<and> mv' \<noteq> last_seen e1 \<and> mv' \<noteq> 0")
    case True
    with Cons(2) have "drain_marker isa cfg st1 e1 r' rs' = Some (st', e')"
      by (simp add: drain_marker.simps [of isa cfg st e] r r' val 1(1))
    from Cons(1) [OF this] True 1(3) show ?thesis by (simp add: r')
  next
    case False
    with Cons(2) have "(st1, e1) = (st', e')"
      by (auto simp: drain_marker.simps [of isa cfg st e] r r' val 1(1))
    with 1(3) show ?thesis by simp
  qed
qed

lemma visit_marker_inv:
  assumes "visit_marker isa cfg st e rs = Some (f, st', e')" "I st (tot + last_seen e)"
  shows "I st' (tot + last_seen e')"
  using assms drain_marker_inv [of st e _ _ _ e' tot]
  by (auto simp: visit_marker_def intro!: scanned split: list.splits if_splits)

lemma scan_markers_inv:
  "scan_markers isa' cfg' st es rss = Some (f, st', es') \<Longrightarrow> isa' = isa \<Longrightarrow> cfg' = cfg \<Longrightarrow>
   I st (tot + seen_total es) \<Longrightarrow> I st' (tot + seen_total es')"
proof (induction isa' cfg' st es rss arbitrary: f st' es' tot rule: scan_markers.induct)
  case (3 isa' cfg' st e es rs rss)
  from 3(2-4) obtain f1 st1 e1 where v: "visit_marker isa cfg st e rs = Some (f1, st1, e1)"
    by (cases "visit_marker isa cfg st e rs") auto
  with 3(2-4) obtain f2 es2 where s: "scan_markers isa cfg st1 es rss = Some (f2, st', es2)" and es': "es' = e1 # es2"
    by (cases "scan_markers isa cfg st1 es rss") auto
  have "I st1 ((tot + seen_total es) + last_seen e1)"
    using visit_marker_inv [OF v, of "tot + seen_total es"] 3(5) by (simp add: ac_simps)
  then have "I st1 ((tot + last_seen e1) + seen_total es)" by (simp add: ac_simps)
  with 3(1) [of "(f1, st1, e1)" f1 "(st1, e1)" st1 e1 f2 st' es2 "tot + last_seen e1"] 3(3,4) v s
  have "I st' ((tot + last_seen e1) + seen_total es2)" by simp
  then show ?case by (simp add: es' ac_simps)
qed auto

lemma main_loop_inv:
  "main_loop isa' cfg' st es n passes = Some (st', es') \<Longrightarrow> isa' = isa \<Longrightarrow> cfg' = cfg \<Longrightarrow>
   I st (seen_total es) \<Longrightarrow> I st' (seen_total es')"
proof (induction isa' cfg' st es n passes rule: main_loop.induct)
  case (2 isa' cfg' st es n rss stop passes)
  from 2(4-6) obtain f st1 es1 where s: "scan_markers isa cfg (count_cycle st) es rss = Some (f, st1, es1)"
    by (cases "scan_markers isa cfg (count_cycle st) es rss") auto
  have I1: "I st1 (seen_total es1)"
    using scan_markers_inv [OF s, of 0] cycle [OF 2(7)] by simp
  from 2(1-3) [of "(f, st1, es1)" f "(st1, es1)" st1 es1] 2(4-6) s I1 show ?case
    by (auto split: if_splits)
qed simp

lemma final_drain_inv:
  "final_drain isa' cfg' st es reads = Some (st', es') \<Longrightarrow> isa' = isa \<Longrightarrow> cfg' = cfg \<Longrightarrow>
   I st (tot + seen_total es) \<Longrightarrow> I st' (tot + seen_total es')"
proof (induction isa' cfg' st es reads arbitrary: st' es' tot rule: final_drain.induct)
  case (3 isa' cfg' st e es mv v reads)
  let ?p = "if mv = last_seen e \<or> mv = 0 then (st, e) else snd (validate_one_marker isa cfg v (count_hit st) e mv)"
  obtain st1 e1 where p: "?p = (st1, e1)" by fastforce
  have "I st1 ((tot + seen_total es) + last_seen e1)"
  proof (cases "mv = last_seen e \<or> mv = 0")
    case True
    with p 3(5) show ?thesis by (auto simp: ac_simps)
  next
    case False
    then obtain ok where val: "validate_one_marker isa cfg v (count_hit st) e mv = (ok, st1, e1)"
      using p by (cases "validate_one_marker isa cfg v (count_hit st) e mv") auto
    from hit [OF _ _ _ val, of "tot + seen_total es"] False 3(5) validate_one_marker_ok [OF val] show ?thesis
      by (simp add: ac_simps)
  qed
  then have I1: "I st1 ((tot + last_seen e1) + seen_total es)" by (simp add: ac_simps)
  from 3(2-4) p obtain es2 where s: "final_drain isa cfg st1 es reads = Some (st', es2)" and es': "es' = e1 # es2"
    by (auto split: option.splits)
  from 3(1) [of "(st1, e1)" st1 e1 st' es2 "tot + last_seen e1"] 3(3,4) p s I1
  have "I st' ((tot + last_seen e1) + seen_total es2)" by metis
  then show ?case by (simp add: es' ac_simps)
qed auto

lemma thread_inv:
  assumes "validator_thread_fn isa cfg st es passes reads = Some (st', es')" "I st (seen_total es)"
  shows "I st' (seen_total es')"
proof -
  from assms(1) obtain st1 es1 where m: "main_loop isa cfg st es 0 passes = Some (st1, es1)"
    and d: "final_drain isa cfg st1 es1 reads = Some (st', es')"
    by (auto simp: validator_thread_fn_def split: option.splits)
  from final_drain_inv [OF d, of 0] main_loop_inv [OF m] assms(2) show ?thesis by simp
qed

end

text \<open>The accounting invariant, in 64-bit arithmetic, and the capture of the first error.\<close>

definition accounted :: "validator_config \<Rightarrow> validator_state \<Rightarrow> u64 \<Rightarrow> bool" where
  "accounted cfg st tot \<longleftrightarrow>
     markers_hit (vstats st) + skipped_steps (vstats st) = tot \<and>
     bytes_validated (vstats st) = markers_hit (vstats st) * chunk_bytes cfg \<and>
     work_items_processed (vstats st) = markers_hit (vstats st) * ucast (vc_ops_per_chunk cfg)"

lemma count_simps [simp]:
  "vstats (count_hit st) = (vstats st)\<lparr> markers_hit := markers_hit (vstats st) + 1 \<rparr>"
  "vstats (count_scanned st) = (vstats st)\<lparr> markers_scanned := markers_scanned (vstats st) + 1 \<rparr>"
  "vstats (count_cycle st) = (vstats st)\<lparr> scan_cycles := scan_cycles (vstats st) + 1 \<rparr>"
  "verror (count_hit st) = verror st" "verror (count_scanned st) = verror st" "verror (count_cycle st) = verror st"
  by (simp_all add: count_hit_def count_scanned_def count_cycle_def)

lemma accounted_hit:
  assumes "mv \<noteq> last_seen e" "mv \<noteq> 0" "accounted cfg st (tot + last_seen e)"
    "validate_one_marker isa cfg v (count_hit st) e mv = (ok, st', e')"
  shows "accounted cfg st' (tot + mv)"
proof -
  note c = validate_one_marker_counts [OF assms(4) assms(2,1)]
  have "markers_hit (vstats st') + skipped_steps (vstats st') =
      markers_hit (vstats st) + (skipped_steps (vstats st') + 1)" by (simp add: c(1))
  also have "\<dots> = (markers_hit (vstats st) + skipped_steps (vstats st)) + (mv - last_seen e)" by (simp add: c(2))
  also have "\<dots> = tot + mv" using assms(3) by (simp add: accounted_def)
  finally show ?thesis using assms(3) c(1,3,4) by (simp add: accounted_def algebra_simps)
qed

interpretation accounting: thread_invariant isa cfg "accounted cfg" for isa cfg
  by unfold_locales (rule accounted_hit, assumption+, simp_all add: accounted_def)

interpretation first_error: thread_invariant isa cfg "\<lambda>st _. has_error err \<and> verror st = err" for isa cfg err
proof unfold_locales
  fix mv e st tot v ok st' e'
  assume "has_error err \<and> verror st = err" "validate_one_marker isa cfg v (count_hit st) e mv = (ok, st', e')"
  then show "has_error err \<and> verror st' = err" using validate_one_marker_error_kept [of "count_hit st"] by simp
qed simp_all

lemma handle_mismatch_error_recorded:
  "(errors_found st \<noteq> 0 \<longrightarrow> has_error (verror st)) \<Longrightarrow>
   errors_found (handle_mismatch isa cfg d2 d3 e x m a st) \<noteq> 0 \<longrightarrow> has_error (verror (handle_mismatch isa cfg d2 d3 e x m a st))"
  by (simp add: handle_mismatch_def report_error_def Let_def split: prod.split validation_mismatch_type.split)

lemma validate_one_marker_error_recorded:
  assumes "validate_one_marker isa cfg v st e mv = (ok, st', e')" "errors_found st \<noteq> 0 \<longrightarrow> has_error (verror st)"
  shows "errors_found st' \<noteq> 0 \<longrightarrow> has_error (verror st')"
proof -
  define st1 where "st1 = (if mv - last_seen e > 1
    then st\<lparr> vstats := (vstats st)\<lparr> skipped_steps := skipped_steps (vstats st) + (mv - last_seen e - 1) \<rparr> \<rparr> else st)"
  have "errors_found st1 \<noteq> 0 \<longrightarrow> has_error (verror st1)" using assms(2) by (simp add: st1_def)
  note h = handle_mismatch_error_recorded [OF this]
  show ?thesis
    using assms h \<open>errors_found st1 \<noteq> 0 \<longrightarrow> has_error (verror st1)\<close>
    unfolding validate_one_marker_def marker_to_expected_pattern_def Let_def st1_def [symmetric]
    by (auto split: if_splits prod.splits option.splits)
qed

interpretation error_recorded: thread_invariant isa cfg "\<lambda>st _. errors_found st \<noteq> 0 \<longrightarrow> has_error (verror st)" for isa cfg
proof unfold_locales
  fix mv e st tot v ok st' e'
  assume "errors_found st \<noteq> 0 \<longrightarrow> has_error (verror st)"
    and val: "validate_one_marker isa cfg v (count_hit st) e mv = (ok, st', e')"
  then show "errors_found st' \<noteq> 0 \<longrightarrow> has_error (verror st')"
    by (intro validate_one_marker_error_recorded [OF val]) (simp add: count_hit_def)
qed (simp_all add: count_scanned_def count_cycle_def)

section \<open>Verdicts on memory that does not change\<close>

lemma find_upt_first:
  "find P [0..<n] = Some m \<longleftrightarrow> m < n \<and> P m \<and> (\<forall>k<m. \<not> P k)"
  by (auto simp: find_Some_iff)

lemma first_mismatch_Some:
  "first_mismatch d pat n = Some (m, a) \<longleftrightarrow> m < n \<and> d ! m \<noteq> pat \<and> (\<forall>k<m. d ! k = pat) \<and> a = d ! m"
  by (auto simp: first_mismatch_def find_upt_first)

lemma first_mismatch_drop:
  assumes "first_mismatch d pat (length d) = Some (m, a)"
  shows "first_mismatch (drop m d) pat (length d - m) = Some (0, a)"
  using assms by (auto simp: first_mismatch_Some)

lemma VALIDATE_CHUNK_FN_reference:
  assumes "isa \<noteq> NO_SIMD" "n \<le> length d"
  shows "VALIDATE_CHUNK_FN isa d pat n = first_mismatch d pat n"
  using assms by (cases isa) (simp_all add: simd_scan_first_mismatch)

lemma tail_retry_stable:
  assumes "isa \<noteq> NO_SIMD" "unat (chunk_bytes cfg) = length d" "first_mismatch d x (length d) = Some (m, a)"
  shows "tail_retry isa cfg d x m a = (False, m, a)"
  using assms first_mismatch_drop [OF assms(3)]
  by (simp add: tail_retry_def VALIDATE_CHUNK_FN_reference)

text \<open>The test of a racing overwrite: the byte and its four successors are one other fill pattern.\<close>

definition looks_overwritten :: "u8 list \<Rightarrow> nat \<Rightarrow> bool" where
  "looks_overwritten d m \<longleftrightarrow>
     m + 4 < length d \<and> validation_is_pattern (d ! m) \<and> (\<forall>k<4. d ! (m + 1 + k) = d ! m)"

lemma all_less_4: "(\<forall>k<4::nat. P k) \<longleftrightarrow> P 0 \<and> P 1 \<and> P 2 \<and> P 3"
proof -
  have "{..<4::nat} = {0, 1, 2, 3}" by auto
  then show ?thesis by (metis insert_iff lessThan_iff singletonD)
qed

lemma handle_mismatch_stable:
  assumes isa: "isa \<noteq> NO_SIMD" and len: "unat (chunk_bytes cfg) = length d" "length d < 2 ^ 63"
    and m: "first_mismatch d x (length d) = Some (m, a)"
  shows "handle_mismatch isa cfg d d e x m a st =
    (if looks_overwritten d m
     then st\<lparr> vstats := (vstats st)\<lparr> race_overwrites := race_overwrites (vstats st) + 1 \<rparr> \<rparr>
     else report_error cfg e m x (d ! m) st)"
proof -
  from m have a: "a = d ! m" and ne: "d ! m \<noteq> x" and lt: "m < length d" by (simp_all add: first_mismatch_Some)
  have u: "unat (of_nat (m + 4) :: u64) = m + 4" using lt len(2) by (simp only: unat_of_nat) simp
  have w: "(of_nat (m + 4) :: u64) < chunk_bytes cfg \<longleftrightarrow> m + 4 < length d"
    unfolding word_less_nat_alt u len(1) ..
  have idx: "m + 1 + 0 = m + 1" "m + 1 + 1 = m + 2" "m + 1 + 2 = m + 3" "m + 1 + 3 = m + 4" by simp_all
  show ?thesis
  proof (cases "m + 4 < length d")
    case True
    then have f: "forward_snapshot cfg d x a False m =
        (d ! m, (d ! (m + 1), d ! (m + 2), d ! (m + 3), d ! (m + 4)), True)"
      by (simp only: forward_snapshot_def w) simp
    show ?thesis
      unfolding handle_mismatch_def tail_retry_stable [OF isa len(1) m] Let_def prod.case f looks_overwritten_def
        all_less_4 idx classify_validation_mismatch_def
      using True ne a by (auto simp: eq_commute)
  next
    case False
    then have f: "forward_snapshot cfg d x a False m = (a, (x, x, x, x), False)"
      by (simp only: forward_snapshot_def w) simp
    show ?thesis
      unfolding handle_mismatch_def tail_retry_stable [OF isa len(1) m] Let_def prod.case f
        classify_validation_mismatch_def
      using False a by (simp add: looks_overwritten_def)
  qed
qed

section \<open>Idle passes and the final drain\<close>

text \<open>A pass is idle when every marker read returns the value already seen.\<close>

definition idle_reads :: "marker_scan_entry list \<Rightarrow> marker_read list list \<Rightarrow> bool" where
  "idle_reads es rss \<longleftrightarrow> list_all2 (\<lambda>e rs. rs \<noteq> [] \<and> (fst (hd rs) = last_seen e \<or> fst (hd rs) = 0)) es rss"

text \<open>The counters that only a validation changes.\<close>

definition work_done :: "validator_state \<Rightarrow> u64 \<times> u64 \<times> u64 \<times> host_validation_error" where
  "work_done st = (markers_hit (vstats st), bytes_validated (vstats st), errors_found st, verror st)"

lemma work_done_counted [simp]: "work_done (count_scanned st) = work_done st" "work_done (count_cycle st) = work_done st"
  by (simp_all add: work_done_def count_scanned_def count_cycle_def)

lemma scan_markers_idle:
  "idle_reads es rss \<Longrightarrow> \<exists>st'. scan_markers isa cfg st es rss = Some (False, st', es) \<and> work_done st' = work_done st"
proof (induction es arbitrary: rss st)
  case (Cons e es)
  from Cons.prems obtain rs rss' where rss: "rss = rs # rss'"
    and h: "rs \<noteq> []" "fst (hd rs) = last_seen e \<or> fst (hd rs) = 0" and t: "idle_reads es rss'"
    by (auto simp: idle_reads_def list_all2_Cons1)
  have "visit_marker isa cfg st e rs = Some (False, count_scanned st, e)"
    using h by (cases rs) (auto simp: visit_marker_def)
  with Cons.IH [OF t, of "count_scanned st"] show ?case by (auto simp: rss)
qed (simp add: idle_reads_def)

lemma main_loop_idle:
  assumes "\<forall>p \<in> set passes. idle_reads es (fst p)" "n \<le> 1023" "length passes = 1024 - n" "snd (last passes)"
  shows "\<exists>st'. main_loop isa cfg st es n passes = Some (st', es) \<and> work_done st' = work_done st"
  using assms
proof (induction passes arbitrary: n st)
  case (Cons p ps)
  obtain rss stop where p: "p = (rss, stop)" by (cases p)
  from Cons.prems(1) p have "idle_reads es rss" by simp
  from scan_markers_idle [OF this, of isa cfg "count_cycle st"] obtain st1 where
    s: "scan_markers isa cfg (count_cycle st) es rss = Some (False, st1, es)" and w: "work_done st1 = work_done st" by auto
  show ?case
  proof (cases "n = 1023")
    case True
    with Cons.prems(3,4) p have "ps = []" "stop" by simp_all
    with True w show ?thesis by (simp add: p s)
  next
    case False
    with Cons.prems(2,3) have "n + 1 \<le> 1023" "length ps = 1024 - (n + 1)" "ps \<noteq> []" by auto
    with Cons.IH [of "n + 1" st1] Cons.prems(1,4) w show ?thesis by (simp add: p s)
  qed
qed simp

lemma final_drain_seen:
  "final_drain isa cfg st es reads = Some (st', es') \<Longrightarrow>
   length es \<le> length reads \<and>
   es' = map2 (\<lambda>e (mv, _). if mv = 0 then e else e\<lparr> last_seen := mv \<rparr>) es (take (length es) reads)"
proof (induction es arbitrary: st reads es')
  case (Cons e es)
  then obtain mv v rs where reads: "reads = (mv, v) # rs" by (cases reads) auto
  obtain ok sv ev where val: "validate_one_marker isa cfg v (count_hit st) e mv = (ok, sv, ev)"
    by (cases "validate_one_marker isa cfg v (count_hit st) e mv")
  note ev = validate_one_marker_ok [OF val]
  from Cons.prems obtain st1 es2 where
    d: "final_drain isa cfg st1 es rs = Some (st', es2)"
    and es': "es' = (if mv = last_seen e \<or> mv = 0 then e else ev) # es2"
    by (auto simp: reads val split: option.splits if_splits)
  from Cons.IH [OF d] ev show ?case by (auto simp: reads es')
qed simp

lemma final_drain_total:
  "length es \<le> length reads \<Longrightarrow> \<exists>st' es'. final_drain isa cfg st es reads = Some (st', es')"
proof (induction es arbitrary: st reads)
  case (Cons e es)
  then obtain mv v rs where reads: "reads = (mv, v) # rs" and l: "length es \<le> length rs" by (cases reads) auto
  obtain st1 e1 where "(if mv = last_seen e \<or> mv = 0 then (st, e)
      else snd (validate_one_marker isa cfg v (count_hit st) e mv)) = (st1, e1)" by fastforce
  with Cons.IH [OF l, of st1] show ?case by (auto simp: reads)
qed simp

section \<open>Properties\<close>

text \<open>
  Verdict on a chunk that is not written during its validation: a chunk that holds the pattern of
  its epoch changes no error state; a chunk with a mismatch is excused as a racing overwrite exactly
  when the first wrong byte and the four after it are one fill pattern, and is reported otherwise:
  the shared counter grows by one and the record, unless an earlier error fills it, names the queue
  pair, the chunk, the offset in the operation, the expected byte and the byte read.
\<close>

theorem validate_stable_chunk:
  assumes "isa \<noteq> NO_SIMD" "unat (chunk_bytes cfg) = length d" "length d < 2 ^ 63" "mv \<noteq> 0"
  defines "x \<equiv> validation_cycle_to_pattern (mv - 1)"
  shows "case validate_one_marker isa cfg (d, d, d) st e mv of (ok, st', e') \<Rightarrow>
    ok \<and> e' = e\<lparr> last_seen := mv \<rparr> \<and>
    (case first_mismatch d x (length d) of
       None \<Rightarrow> verror st' = verror st \<and> errors_found st' = errors_found st \<and>
         race_overwrites (vstats st') = race_overwrites (vstats st)
     | Some (m, a) \<Rightarrow>
         if looks_overwritten d m
         then verror st' = verror st \<and> errors_found st' = errors_found st \<and>
           race_overwrites (vstats st') = race_overwrites (vstats st) + 1
         else errors_found st' = errors_found st + 1 \<and>
           race_overwrites (vstats st') = race_overwrites (vstats st) \<and>
           verror st' = (if has_error (verror st) then verror st
             else \<lparr> has_error = True, err_qp_id = me_qp_id e, err_chunk_id = me_chunk_id e,
               err_byte_offset = of_nat m mod vc_payload_size cfg, err_expected = x, err_actual = a \<rparr>))"
proof (cases "first_mismatch d x (length d)")
  case None
  then show ?thesis
    using assms(1,2,4) unfolding x_def
    by (simp add: validate_one_marker_def marker_to_expected_pattern_def Let_def VALIDATE_CHUNK_FN_reference)
next
  case (Some p)
  obtain m a where p: "p = (m, a)" by (cases p)
  note h = handle_mismatch_stable [OF assms(1-3) Some [unfolded p]]
  have "a = d ! m" using Some by (simp add: p first_mismatch_Some)
  with Some show ?thesis
    using assms(1,2,4) h unfolding x_def p
    by (simp add: validate_one_marker_def marker_to_expected_pattern_def Let_def VALIDATE_CHUNK_FN_reference
        report_error_def split del: if_split) (simp add: report_error_def Let_def)
qed

abbreviation zero_state :: validator_state where
  "zero_state \<equiv>
     \<lparr> vstats = \<lparr> work_items_processed = 0, bytes_validated = 0, markers_scanned = 0, markers_hit = 0,
                  scan_cycles = 0, skipped_steps = 0, race_overwrites = 0, dma_stale_retries = 0 \<rparr>,
       errors_found = 0,
       verror = \<lparr> has_error = False, err_qp_id = 0, err_chunk_id = 0, err_byte_offset = 0,
                  err_expected = 0, err_actual = 0 \<rparr> \<rparr>"

theorem validate_stable_chunk_witness:
  "errors_found (fst (snd (validate_one_marker HAVE_AVX2
      \<lparr> vc_payload_size = 4, vc_ops_per_chunk = 2, vc_mode = VALIDATION_MODE_WRITE \<rparr>
      ([1, 1, 1, 1, 1, 9, 1, 1], [1, 1, 1, 1, 1, 9, 1, 1], [1, 1, 1, 1, 1, 9, 1, 1]) zero_state
      \<lparr> marker_ptr = 0, last_seen = 0, chunk_data = 0, me_qp_id = 3, me_chunk_id = 7 \<rparr> 1))) = 1"
proof -
  let ?d = "[1, 1, 1, 1, 1, 9, 1, 1] :: u8 list"
  have m: "first_mismatch ?d (validation_cycle_to_pattern (1 - 1)) (length ?d) = Some (5, 9)"
    by (simp add: first_mismatch_def validation_cycle_to_pattern_def upt_rec)
  have "\<not> looks_overwritten ?d 5" by (simp add: looks_overwritten_def)
  with m show ?thesis
    using validate_stable_chunk [where isa = HAVE_AVX2 and d = ?d and mv = 1 and st = zero_state
      and cfg = "\<lparr> vc_payload_size = 4, vc_ops_per_chunk = 2, vc_mode = VALIDATION_MODE_WRITE \<rparr>"
      and e = "\<lparr> marker_ptr = 0, last_seen = 0, chunk_data = 0, me_qp_id = 3, me_chunk_id = 7 \<rparr>"]
    by (simp add: chunk_bytes_def split: prod.splits)
qed

text \<open>
  C18. Accounting of a whole validator thread, from zeroed statistics and unseen markers: the chunks
  validated and the epochs skipped add up to the epochs of all its markers, and bytes and work items
  are the chunks validated times the chunk's size and its number of operations (all in 64-bit
  arithmetic), whatever the remote side writes while the thread runs.
\<close>

theorem validator_thread_accounts:
  assumes "validator_thread_fn isa cfg zero_state es passes reads = Some (st', es')"
    and "\<forall>e \<in> set es. last_seen e = 0"
  shows "markers_hit (vstats st') + skipped_steps (vstats st') = sum_list (map last_seen es') \<and>
    bytes_validated (vstats st') = markers_hit (vstats st') * chunk_bytes cfg \<and>
    work_items_processed (vstats st') = markers_hit (vstats st') * ucast (vc_ops_per_chunk cfg)"
proof -
  have "seen_total es = 0" using assms(2) by (induction es) simp_all
  then have "accounted cfg zero_state (seen_total es)" by (simp add: accounted_def)
  from accounting.thread_inv [OF assms(1) this] show ?thesis by (simp add: accounted_def seen_total_def)
qed

abbreviation demo_cfg :: validator_config where
  "demo_cfg \<equiv> \<lparr> vc_payload_size = 4, vc_ops_per_chunk = 2, vc_mode = VALIDATION_MODE_WRITE \<rparr>"

abbreviation demo_entry :: marker_scan_entry where
  "demo_entry \<equiv> \<lparr> marker_ptr = 0, last_seen = 0, chunk_data = 0, me_qp_id = 3, me_chunk_id = 7 \<rparr>"

abbreviation demo_views :: chunk_views where
  "demo_views \<equiv> (replicate 8 1, replicate 8 1, replicate 8 1)"

lemma thread_returns:
  assumes "\<forall>p \<in> set passes. idle_reads es (fst p)" "length passes = 1024" "snd (last passes)" "length es \<le> length reads"
  shows "\<exists>st' es'. validator_thread_fn isa cfg st es passes reads = Some (st', es')"
proof -
  from main_loop_idle [OF assms(1), of 0 isa cfg st] assms(2,3) obtain st1 where
    "main_loop isa cfg st es 0 passes = Some (st1, es)" by auto
  with final_drain_total [OF assms(4)] show ?thesis by (simp add: validator_thread_fn_def)
qed

theorem validator_thread_accounts_witness:
  "\<exists>st' es'. validator_thread_fn HAVE_AVX2 demo_cfg zero_state [demo_entry]
      (replicate 1024 ([[(0, demo_views)]], True)) [(4, demo_views)] = Some (st', es') \<and>
    markers_hit (vstats st') + skipped_steps (vstats st') = sum_list (map last_seen es')"
proof -
  obtain st' es' where r: "validator_thread_fn HAVE_AVX2 demo_cfg zero_state [demo_entry]
      (replicate 1024 ([[(0, demo_views)]], True)) [(4, demo_views)] = Some (st', es')"
    using thread_returns [of "replicate 1024 ([[(0, demo_views)]], True)" "[demo_entry]" "[(4, demo_views)]"]
    by (force simp: idle_reads_def)
  with validator_thread_accounts [OF r] show ?thesis by simp
qed

text \<open>
  The validation error that is recorded first stays: once the shared record is filled, no further
  run of any validator thread changes it.
\<close>

theorem first_error_is_kept:
  assumes "has_error (verror st)" "validator_thread_fn isa cfg st es passes reads = Some (st', es')"
  shows "verror st' = verror st"
  using first_error.thread_inv [OF assms(2), of "verror st"] assms(1) by simp

theorem first_error_is_kept_witness:
  "\<exists>st' es'. validator_thread_fn HAVE_AVX2 demo_cfg
      (zero_state\<lparr> verror := \<lparr> has_error = True, err_qp_id = 5, err_chunk_id = 0, err_byte_offset = 0,
          err_expected = 1, err_actual = 9 \<rparr> \<rparr>) [demo_entry]
      (replicate 1024 ([[(0, demo_views)]], True)) [(4, demo_views)] = Some (st', es') \<and>
    err_qp_id (verror st') = 5"
proof -
  let ?st = "zero_state\<lparr> verror := \<lparr> has_error = True, err_qp_id = 5, err_chunk_id = 0, err_byte_offset = 0,
          err_expected = 1, err_actual = 9 \<rparr> \<rparr>"
  obtain st' es' where r: "validator_thread_fn HAVE_AVX2 demo_cfg ?st [demo_entry]
      (replicate 1024 ([[(0, demo_views)]], True)) [(4, demo_views)] = Some (st', es')"
    using thread_returns [of "replicate 1024 ([[(0, demo_views)]], True)" "[demo_entry]" "[(4, demo_views)]"]
    by (force simp: idle_reads_def)
  with first_error_is_kept [OF _ r] show ?thesis by simp
qed

text \<open>
  A read of the drain that finds a new epoch, and a chunk that deserves a report: its first mismatch against the
  pattern of the epoch is not the start of a later fill.
\<close>

fun unseen :: "marker_scan_entry \<times> marker_read \<Rightarrow> bool" where
  "unseen (e, mv, views) \<longleftrightarrow> mv \<noteq> last_seen e \<and> mv \<noteq> 0"

fun corrupt :: "marker_read \<Rightarrow> bool" where
  "corrupt (mv, d, _) = (case first_mismatch d (validation_cycle_to_pattern (mv - 1)) (length d) of
     None \<Rightarrow> False | Some (m, _) \<Rightarrow> \<not> looks_overwritten d m)"

definition steady :: "validator_config \<Rightarrow> marker_read \<Rightarrow> bool" where
  "steady cfg r \<longleftrightarrow> (\<exists>d. snd r = (d, d, d) \<and> length d = unat (chunk_bytes cfg) \<and> length d < 2 ^ 63)"

lemma final_drain_cases:
  assumes "final_drain isa cfg st (e # es) reads = Some (st', es')"
  obtains (idle) r rs es2 where "reads = r # rs" "\<not> unseen (e, r)" "final_drain isa cfg st es rs = Some (st', es2)"
  | (work) mv v rs ok st1 e1 es2 where "reads = (mv, v) # rs" "mv \<noteq> last_seen e" "mv \<noteq> 0"
      "validate_one_marker isa cfg v (count_hit st) e mv = (ok, st1, e1)" "final_drain isa cfg st1 es rs = Some (st', es2)"
proof -
  obtain mv v rs where reads: "reads = (mv, v) # rs" using assms by (cases reads) auto
  obtain ok st1 e1 where val: "validate_one_marker isa cfg v (count_hit st) e mv = (ok, st1, e1)"
    by (cases "validate_one_marker isa cfg v (count_hit st) e mv")
  show ?thesis
  proof (cases "unseen (e, mv, v)")
    case True
    with assms val show ?thesis by (intro work [OF reads _ _ val, of "tl es'"]) (auto simp: reads split: option.splits)
  next
    case False
    with assms show ?thesis by (intro idle [OF reads False, of "tl es'"]) (auto simp: reads split: option.splits)
  qed
qed

lemma final_drain_counts:
  "final_drain isa cfg st es reads = Some (st', es') \<Longrightarrow> length reads = length es \<Longrightarrow>
   markers_hit (vstats st') = markers_hit (vstats st) + of_nat (length (filter unseen (zip es reads))) \<and>
   bytes_validated (vstats st') = bytes_validated (vstats st) + of_nat (length (filter unseen (zip es reads))) * chunk_bytes cfg"
proof (induction es arbitrary: st reads es')
  case (Cons e es)
  from Cons.prems(1) show ?case
  proof (cases rule: final_drain_cases)
    case (idle r rs es2)
    with Cons.IH [OF idle(3)] Cons.prems(2) show ?thesis by simp
  next
    case (work mv v rs ok st1 e1 es2)
    with Cons.IH [OF work(5)] Cons.prems(2) validate_one_marker_counts [OF work(4,3,2)] show ?thesis
      by (simp add: count_hit_def distrib_right add.assoc)
  qed
qed simp

lemma validate_steady:
  assumes "isa \<noteq> NO_SIMD" "steady cfg (mv, v)" "mv \<noteq> 0" "validate_one_marker isa cfg v st e mv = (ok, st', e')"
  shows "errors_found st' = errors_found st + (if corrupt (mv, v) then 1 else 0)"
    "has_error (verror st') \<longleftrightarrow> has_error (verror st) \<or> corrupt (mv, v)"
proof -
  from assms(2) obtain d where "v = (d, d, d)" "unat (chunk_bytes cfg) = length d" "length d < 2 ^ 63"
    by (auto simp: steady_def)
  with validate_stable_chunk [OF assms(1) this(2,3) assms(3), where st = st and e = e] assms(4)
  show "errors_found st' = errors_found st + (if corrupt (mv, v) then 1 else 0)"
    "has_error (verror st') \<longleftrightarrow> has_error (verror st) \<or> corrupt (mv, v)"
    by (auto split: option.splits if_splits)
qed

lemma final_drain_errors:
  "final_drain isa cfg st es reads = Some (st', es') \<Longrightarrow> length reads = length es \<Longrightarrow> isa \<noteq> NO_SIMD \<Longrightarrow>
   \<forall>r \<in> set reads. steady cfg r \<Longrightarrow>
   errors_found st' = errors_found st + of_nat (length (filter (\<lambda>x. unseen x \<and> corrupt (snd x)) (zip es reads))) \<and>
   (has_error (verror st') \<longleftrightarrow> has_error (verror st) \<or> (\<exists>x \<in> set (zip es reads). unseen x \<and> corrupt (snd x)))"
proof (induction es arbitrary: st reads es')
  case (Cons e es)
  from Cons.prems(1) show ?case
  proof (cases rule: final_drain_cases)
    case (idle r rs es2)
    with Cons.IH [OF idle(3)] Cons.prems(2-4) show ?thesis by auto
  next
    case (work mv v rs ok st1 e1 es2)
    have "steady cfg (mv, v)" using Cons.prems(4) work(1) by simp
    note one = validate_steady [OF Cons.prems(3) this work(3,4)]
    from work Cons.IH [OF work(5)] Cons.prems(2-4) one show ?thesis by (auto simp: count_hit_def)
  qed
qed simp

text \<open>
  C37. A validator stops and leaves nothing behind: when the markers do not change for 1024 passes and
  the stop flag is set at the last of them, the thread returns.  Its final drain has then validated
  every marker of it that holds a new epoch, at the epoch the drain read: hits grow by the number of such markers
  and bytes by as many chunks; and if those chunks are not written meanwhile and are shorter than \<open>2 ^ 63\<close> bytes, on a
  processor with one of the instruction sets, the errors grow by the number of corrupt chunks among them,
  and the shared record holds an error if it did before or one of them is corrupt.
\<close>

theorem validator_thread_stops_drained:
  assumes "\<forall>p \<in> set passes. idle_reads es (fst p)" "length passes = 1024" "snd (last passes)"
    and "length reads = length es"
  shows "\<exists>st' es'. validator_thread_fn isa cfg st es passes reads = Some (st', es') \<and>
    length es' = length es \<and>
    (\<forall>i < length es. fst (reads ! i) \<noteq> 0 \<longrightarrow> last_seen (es' ! i) = fst (reads ! i)) \<and>
    markers_hit (vstats st') = markers_hit (vstats st) + of_nat (length (filter unseen (zip es reads))) \<and>
    bytes_validated (vstats st') = bytes_validated (vstats st) + of_nat (length (filter unseen (zip es reads))) * chunk_bytes cfg \<and>
    (isa \<noteq> NO_SIMD \<and> (\<forall>r \<in> set reads. steady cfg r) \<longrightarrow>
       errors_found st' = errors_found st + of_nat (length (filter (\<lambda>x. unseen x \<and> corrupt (snd x)) (zip es reads))) \<and>
       (has_error (verror st') \<longleftrightarrow> has_error (verror st) \<or> (\<exists>x \<in> set (zip es reads). unseen x \<and> corrupt (snd x))))"
proof -
  from main_loop_idle [OF assms(1), of 0 isa cfg st] assms(2,3) obtain st1 where
    m: "main_loop isa cfg st es 0 passes = Some (st1, es)" and w: "work_done st1 = work_done st" by auto
  from final_drain_total [of es reads isa cfg st1] assms(4) obtain st' es' where
    d: "final_drain isa cfg st1 es reads = Some (st', es')" by auto
  have es': "es' = map2 (\<lambda>e (mv, _). if mv = 0 then e else e\<lparr> last_seen := mv \<rparr>) es reads"
    using final_drain_seen [OF d] assms(4) by simp
  then have seen: "length es' = length es \<and> (\<forall>i < length es. fst (reads ! i) \<noteq> 0 \<longrightarrow> last_seen (es' ! i) = fst (reads ! i))"
    using assms(4) by (auto split: prod.split)
  have "validator_thread_fn isa cfg st es passes reads = Some (st', es')"
    using m d by (simp add: validator_thread_fn_def)
  with seen final_drain_counts [OF d assms(4)] final_drain_errors [OF d assms(4)] w show ?thesis
    unfolding work_done_def by (intro exI [of _ st'] exI [of _ es']) auto
qed

abbreviation bad_views :: chunk_views where
  "bad_views \<equiv> ([1, 1, 1, 1, 1, 9, 1, 1], [1, 1, 1, 1, 1, 9, 1, 1], [1, 1, 1, 1, 1, 9, 1, 1])"

theorem validator_thread_stops_drained_witness:
  "\<exists>st' es'. validator_thread_fn HAVE_AVX2 demo_cfg zero_state [demo_entry, demo_entry]
      (replicate 1024 ([[(0, demo_views)], [(0, demo_views)]], True)) [(1, demo_views), (1, bad_views)] = Some (st', es') \<and>
    last_seen (es' ! 0) = 1 \<and> markers_hit (vstats st') = 2 \<and> bytes_validated (vstats st') = 16 \<and> errors_found st' = 1"
proof -
  have steady: "\<forall>r \<in> set [(1, demo_views), (1, bad_views)]. steady demo_cfg r"
    by (auto simp: steady_def chunk_bytes_def)
  have ok: "\<not> corrupt (1, demo_views)"
    by (simp add: first_mismatch_def validation_cycle_to_pattern_def upt_rec numeral_eq_Suc)
  have bad: "corrupt (1, bad_views)"
    by (simp add: first_mismatch_def validation_cycle_to_pattern_def upt_rec looks_overwritten_def)
  show ?thesis
    using validator_thread_stops_drained [of "replicate 1024 ([[(0, demo_views)], [(0, demo_views)]], True)" "[demo_entry, demo_entry]"
        "[(1, demo_views), (1, bad_views)]" HAVE_AVX2 demo_cfg zero_state] steady ok bad
    by (force simp: idle_reads_def chunk_bytes_def simp del: corrupt.simps)
qed

end
