(* ===== verification/Host_Validation.thy ===== *)
theory Host_Validation
  imports Marker_Validation
begin

text \<open>
  Model of the life cycle in \<^verbatim>\<open>src/src/host_validation.c\<close> (\<open>host_validation_init\<close>, \<open>_start\<close>, \<open>_stop\<close>,
  \<open>_destroy\<close>, \<open>free_validators\<close>) on the static context \<open>g_host_ctx\<close>.

  Threads: a handle is a number, \<open>0\<close> for none.  \<open>joinable\<close> are the handles of threads that were created
  and not yet joined; joining any other handle is undefined in POSIX and counted in \<open>bad_joins\<close>.  A
  validator's run takes effect when it is joined: its statistics are its own, and its updates of the
  shared error state are atomic, so validators are run one after the other.  What validator \<open>i\<close> reads
  during its run is \<open>runs i\<close>.  The results of \<^verbatim>\<open>pthread_create\<close> are a list of pairs: success, and the
  value found in the handle afterwards, which is unspecified on failure.
\<close>

section \<open>State\<close>

record validation_config =
  cf_buffer_base :: u64
  cf_markers_offset :: u64
  cf_recv_slots_offset :: u64
  cf_payload_size :: u64
  cf_ops_per_chunk :: u32
  cf_num_qps :: u32
  cf_chunks_per_qp :: u32
  cf_validation_mode :: validation_mode
  cf_numa_node :: int

record host_validator_ctx =
  vx_id :: nat
  vx_thread :: nat
  vx_running :: bool
  vx_stats :: host_validator_stats
  vx_own_markers :: "marker_scan_entry list option"
  vx_own_marker_count :: nat

record host_validation_ctx =
  hc_buffer_base :: u64
  hc_markers_offset :: u64
  hc_recv_slots_offset :: u64
  hc_payload_size :: u64
  hc_ops_per_chunk :: u32
  hc_num_qps :: u32
  hc_chunks_per_qp :: u32
  hc_slots_per_qp :: u32
  hc_validation_mode :: validation_mode
  hc_numa_node :: int
  hc_tail_markers :: u64
  hc_recv_slots :: u64
  stop_flag :: bool
  validators_running :: int
  num_validators :: nat
  hc_validators :: "host_validator_ctx list option"
  total_markers :: u32
  hc_errors_found :: u64
  hc_error :: host_validation_error
  initialized :: bool

record data_validation_result =
  passed :: bool
  res_bytes_validated :: u64
  res_chunks_validated :: u64
  res_errors_found :: u64
  res_error :: "host_validation_error option"
  res_markers_scanned :: u64
  res_markers_hit :: u64
  res_skipped_steps :: u64
  res_queue_full_drops :: u64
  res_stale_work_skips :: u64
  res_race_overwrites :: u64
  res_dma_stale_retries :: u64

record thread_table =
  joinable :: "nat list"
  bad_joins :: nat

type_synonym thread_reads = "(marker_read list list \<times> bool) list \<times> marker_read list"

definition zero_stats :: host_validator_stats where
  "zero_stats = \<lparr> work_items_processed = 0, bytes_validated = 0, markers_scanned = 0, markers_hit = 0,
     scan_cycles = 0, skipped_steps = 0, race_overwrites = 0, dma_stale_retries = 0 \<rparr>"

definition no_error :: host_validation_error where
  "no_error = \<lparr> has_error = False, err_qp_id = 0, err_chunk_id = 0, err_byte_offset = 0,
     err_expected = 0, err_actual = 0 \<rparr>"

text \<open>The context after \<^verbatim>\<open>memset(&g_host_ctx, 0, ...)\<close>.\<close>

definition zero_ctx :: host_validation_ctx where
  "zero_ctx = \<lparr> hc_buffer_base = 0, hc_markers_offset = 0, hc_recv_slots_offset = 0, hc_payload_size = 0,
     hc_ops_per_chunk = 0, hc_num_qps = 0, hc_chunks_per_qp = 0, hc_slots_per_qp = 0,
     hc_validation_mode = VALIDATION_MODE_WRITE, hc_numa_node = 0, hc_tail_markers = 0, hc_recv_slots = 0,
     stop_flag = False, validators_running = 0, num_validators = 0, hc_validators = None,
     total_markers = 0, hc_errors_found = 0, hc_error = no_error, initialized = False \<rparr>"

section \<open>Joining\<close>

definition thread_config :: "host_validation_ctx \<Rightarrow> validator_config" where
  "thread_config g = \<lparr> vc_payload_size = hc_payload_size g, vc_ops_per_chunk = hc_ops_per_chunk g,
     vc_mode = hc_validation_mode g \<rparr>"

definition put_validator :: "nat \<Rightarrow> host_validator_ctx \<Rightarrow> host_validation_ctx \<Rightarrow> host_validation_ctx" where
  "put_validator i v g = g\<lparr> hc_validators := map_option (\<lambda>vs. vs[i := v]) (hc_validators g) \<rparr>"

definition pthread_join ::
    "simd_isa \<Rightarrow> (nat \<Rightarrow> thread_reads) \<Rightarrow> nat \<Rightarrow> host_validation_ctx \<times> thread_table
     \<Rightarrow> (host_validation_ctx \<times> thread_table) option" where
  "pthread_join isa runs i = (\<lambda>(g, w).
     (let v = the (hc_validators g) ! i;
          h = vx_thread v
      in if h \<in> set (joinable w) then
           (case validator_thread_fn isa (thread_config g)
                   \<lparr> vstats = vx_stats v, errors_found = hc_errors_found g, verror = hc_error g \<rparr>
                   (the (vx_own_markers v)) (fst (runs i)) (snd (runs i)) of
              None \<Rightarrow> None
            | Some (st, es) \<Rightarrow>
                Some (put_validator i (v\<lparr> vx_stats := vstats st, vx_own_markers := Some es, vx_running := False \<rparr>) g
                        \<lparr> hc_errors_found := errors_found st, hc_error := verror st,
                          validators_running := validators_running g - 1 \<rparr>,
                      w\<lparr> joinable := remove1 h (joinable w) \<rparr>))
         else Some (g, w\<lparr> bad_joins := bad_joins w + 1 \<rparr>)))"

definition clear_thread :: "nat \<Rightarrow> host_validation_ctx \<Rightarrow> host_validation_ctx" where
  "clear_thread i g = put_validator i ((the (hc_validators g) ! i)\<lparr> vx_thread := 0 \<rparr>) g"

text \<open>The join of one validator in \<open>host_validation_stop\<close> and \<open>free_validators\<close>.\<close>

definition join_validator ::
    "simd_isa \<Rightarrow> (nat \<Rightarrow> thread_reads) \<Rightarrow> nat \<Rightarrow> host_validation_ctx \<times> thread_table
     \<Rightarrow> (host_validation_ctx \<times> thread_table) option" where
  "join_validator isa runs i s =
     (if vx_thread (the (hc_validators (fst s)) ! i) \<noteq> 0
      then map_option (\<lambda>(g, w). (clear_thread i g, w)) (pthread_join isa runs i s)
      else Some s)"

fun for_each :: "(nat \<Rightarrow> 's \<Rightarrow> 's option) \<Rightarrow> nat list \<Rightarrow> 's \<Rightarrow> 's option" where
  "for_each f [] s = Some s"
| "for_each f (i # is) s = (case f i s of None \<Rightarrow> None | Some s' \<Rightarrow> for_each f is s')"

definition free_markers :: "nat \<Rightarrow> host_validation_ctx \<Rightarrow> host_validation_ctx" where
  "free_markers i g = put_validator i ((the (hc_validators g) ! i)\<lparr> vx_own_markers := None \<rparr>) g"

definition free_validators ::
    "simd_isa \<Rightarrow> (nat \<Rightarrow> thread_reads) \<Rightarrow> host_validation_ctx \<times> thread_table
     \<Rightarrow> (host_validation_ctx \<times> thread_table) option" where
  "free_validators isa runs s =
     (if hc_validators (fst s) = None then Some s
      else map_option (\<lambda>(g, w). (g\<lparr> hc_validators := None \<rparr>, w))
             (for_each (\<lambda>i s. map_option (\<lambda>(g, w). (free_markers i g, w)) (join_validator isa runs i s))
                [0..<num_validators (fst s)] s))"

section \<open>The interface\<close>

text \<open>The environment of \<open>host_validation_init\<close>: CPU lists, CPU count, and which allocations succeed.\<close>

record init_env =
  ie_cpulist :: "int \<Rightarrow> string option"
  ie_nproc :: int
  ie_alloc_validators :: bool
  ie_alloc :: "nat \<Rightarrow> bool"

definition fresh_validator :: "nat \<Rightarrow> host_validator_ctx" where
  "fresh_validator i = \<lparr> vx_id = i, vx_thread = 0, vx_running = False, vx_stats = zero_stats,
     vx_own_markers = None, vx_own_marker_count = 0 \<rparr>"

definition init_ctx :: "init_env \<Rightarrow> validation_config \<Rightarrow> host_validation_ctx" where
  "init_ctx env cfg =
     zero_ctx\<lparr> hc_buffer_base := cf_buffer_base cfg, hc_markers_offset := cf_markers_offset cfg,
       hc_recv_slots_offset := cf_recv_slots_offset cfg, hc_payload_size := cf_payload_size cfg,
       hc_ops_per_chunk := cf_ops_per_chunk cfg, hc_num_qps := cf_num_qps cfg,
       hc_chunks_per_qp := cf_chunks_per_qp cfg,
       hc_slots_per_qp := cf_ops_per_chunk cfg * cf_chunks_per_qp cfg,
       hc_validation_mode := cf_validation_mode cfg, hc_numa_node := cf_numa_node cfg,
       hc_tail_markers := cf_buffer_base cfg + cf_markers_offset cfg,
       hc_recv_slots := cf_buffer_base cfg + cf_recv_slots_offset cfg,
       total_markers := cf_num_qps cfg * cf_chunks_per_qp cfg,
       num_validators := nat (get_num_validators (ie_cpulist env) (ie_nproc env) (cf_num_qps cfg)
         (cf_chunks_per_qp cfg) (cf_validation_mode cfg) (cf_numa_node cfg)) \<rparr>"

text \<open>The validators get their shares and the context becomes usable.\<close>

definition ready_ctx :: "host_validation_ctx \<Rightarrow> marker_scan_entry list list \<Rightarrow> host_validation_ctx" where
  "ready_ctx g shares =
     g\<lparr> hc_validators := Some (map2 (\<lambda>v s. v\<lparr> vx_own_markers := Some s, vx_own_marker_count := length s \<rparr>)
                            (map fresh_validator [0..<num_validators g]) shares),
        initialized := True \<rparr>"

definition host_validation_init ::
    "init_env \<Rightarrow> validation_config \<Rightarrow> host_validation_ctx \<Rightarrow> int \<times> host_validation_ctx" where
  "host_validation_init env cfg g =
     (if initialized g then (-1, g)
      else if cf_buffer_base cfg = 0 then (-1, g)
      else if cf_chunks_per_qp cfg < 1 \<or> cf_chunks_per_qp cfg > 24 then (-1, g)
      else let g1 = init_ctx env cfg in
        if \<not> ie_alloc_validators env then (-1, g1)
        else (case distribute_markers (ie_alloc env) (num_validators g1) (unat (cf_num_qps cfg))
                     (unat (cf_chunks_per_qp cfg)) (unat (hc_slots_per_qp g1)) (unat (cf_ops_per_chunk cfg))
                     (unat (cf_payload_size cfg)) of
                None \<Rightarrow> (-1, g1\<lparr> hc_validators := None \<rparr>)
              | Some shares \<Rightarrow> (0, ready_ctx g1 shares)))"

definition create_thread :: "nat \<Rightarrow> nat \<Rightarrow> host_validation_ctx \<times> thread_table \<Rightarrow> host_validation_ctx \<times> thread_table" where
  "create_thread i h = (\<lambda>(g, w).
     (put_validator i ((the (hc_validators g) ! i)\<lparr> vx_thread := h, vx_running := True \<rparr>) g
        \<lparr> validators_running := validators_running g + 1 \<rparr>,
      w\<lparr> joinable := h # joinable w \<rparr>))"

fun create_loop ::
    "simd_isa \<Rightarrow> (nat \<Rightarrow> thread_reads) \<Rightarrow> nat list \<Rightarrow> (bool \<times> nat) list \<Rightarrow> host_validation_ctx \<times> thread_table
     \<Rightarrow> (int \<times> host_validation_ctx \<times> thread_table) option" where
  "create_loop isa runs [] creates s = Some (0, s)"
| "create_loop isa runs (i # is) [] s = None"
| "create_loop isa runs (i # is) ((ok, h) # creates) s =
     (if ok then create_loop isa runs is creates (create_thread i h s)
      else let g = fst s;
               g' = put_validator i ((the (hc_validators g) ! i)\<lparr> vx_thread := h \<rparr>) g\<lparr> stop_flag := True \<rparr>
           in map_option (\<lambda>s'. (-1, s')) (for_each (pthread_join isa runs) [0..<i] (g', snd s)))"

definition host_validation_start ::
    "simd_isa \<Rightarrow> (nat \<Rightarrow> thread_reads) \<Rightarrow> (bool \<times> nat) list \<Rightarrow> host_validation_ctx \<times> thread_table
     \<Rightarrow> (int \<times> host_validation_ctx \<times> thread_table) option" where
  "host_validation_start isa runs creates s =
     (let g = fst s in
      if \<not> initialized g then Some (-1, s)
      else if validators_running g > 0 then Some (-1, s)
      else create_loop isa runs [0..<num_validators g] creates (g\<lparr> stop_flag := False \<rparr>, snd s))"

text \<open>\<open>res_error = None\<close>: the error fields of the caller's result are not written.\<close>

definition collect_result :: "host_validation_ctx \<Rightarrow> data_validation_result" where
  "collect_result g =
     (let sts = map vx_stats (the (hc_validators g));
          errs = hc_errors_found g
      in \<lparr> passed = (errs = 0),
           res_bytes_validated = sum_list (map bytes_validated sts),
           res_chunks_validated = sum_list (map work_items_processed sts),
           res_errors_found = errs,
           res_error = (if errs = 0 then None else Some (hc_error g)),
           res_markers_scanned = sum_list (map markers_scanned sts),
           res_markers_hit = sum_list (map markers_hit sts),
           res_skipped_steps = sum_list (map skipped_steps sts),
           res_queue_full_drops = 0, res_stale_work_skips = 0,
           res_race_overwrites = sum_list (map race_overwrites sts),
           res_dma_stale_retries = sum_list (map dma_stale_retries sts) \<rparr>)"

text \<open>The flag says whether the caller passes a place for the result.\<close>

definition host_validation_stop ::
    "simd_isa \<Rightarrow> (nat \<Rightarrow> thread_reads) \<Rightarrow> bool \<Rightarrow> host_validation_ctx \<times> thread_table
     \<Rightarrow> (data_validation_result option \<times> host_validation_ctx \<times> thread_table) option" where
  "host_validation_stop isa runs has_result s =
     (if \<not> initialized (fst s) then Some (None, s)
      else if \<not> has_result then Some (None, s)
      else map_option (\<lambda>(g, w). (Some (collect_result g), g, w))
             (for_each (join_validator isa runs) [0..<num_validators (fst s)]
                ((fst s)\<lparr> stop_flag := True \<rparr>, snd s)))"

definition host_validation_destroy ::
    "simd_isa \<Rightarrow> (nat \<Rightarrow> thread_reads) \<Rightarrow> host_validation_ctx \<times> thread_table
     \<Rightarrow> (host_validation_ctx \<times> thread_table) option" where
  "host_validation_destroy isa runs s =
     (if \<not> initialized (fst s) then Some s
      else map_option (\<lambda>(g, w). (g\<lparr> initialized := False \<rparr>, w))
             (free_validators isa runs ((fst s)\<lparr> stop_flag := True \<rparr>, snd s)))"

section \<open>Every thread has one owner\<close>

text \<open>
  The invariant of the life cycle: the validators exist exactly while the context is initialized, the
  threads that can be joined are exactly those whose handle is in a validator, once each, and
  \<^verbatim>\<open>validators_running\<close> counts them.
\<close>

definition tracked :: "host_validation_ctx \<times> thread_table \<Rightarrow> bool" where
  "tracked = (\<lambda>(g, w). bad_joins w = 0 \<and> distinct (joinable w) \<and>
     (initialized g \<longleftrightarrow> hc_validators g \<noteq> None) \<and> validators_running g = int (length (joinable w)) \<and>
     (case hc_validators g of
        None \<Rightarrow> joinable w = []
      | Some vs \<Rightarrow> length vs = num_validators g \<and>
          mset (joinable w) = filter_mset (\<lambda>h. h \<noteq> 0) (mset (map vx_thread vs))))"

lemma mset_map_update:
  assumes "i < length xs"
  shows "add_mset (f (xs ! i)) (mset (map f (xs[i := v]))) = add_mset (f v) (mset (map f xs))"
proof -
  have "mset (map f (xs[i := v])) = add_mset (f v) (mset (map f xs) - {#f (xs ! i)#})"
    using assms by (simp add: map_update mset_update)
  moreover have "f (xs ! i) \<in># mset (map f xs)" using assms by (metis length_map nth_map nth_mem_mset)
  ultimately show ?thesis by (metis add_mset_commute insert_DiffM)
qed

lemma put_validator_simps [simp]:
  "hc_validators (put_validator i v g) = map_option (\<lambda>vs. vs[i := v]) (hc_validators g)"
  "num_validators (put_validator i v g) = num_validators g"
  "initialized (put_validator i v g) = initialized g"
  "validators_running (put_validator i v g) = validators_running g"
  "hc_payload_size (put_validator i v g) = hc_payload_size g"
  "hc_ops_per_chunk (put_validator i v g) = hc_ops_per_chunk g"
  "hc_validation_mode (put_validator i v g) = hc_validation_mode g"
  "hc_errors_found (put_validator i v g) = hc_errors_found g"
  "hc_error (put_validator i v g) = hc_error g"
  by (simp_all add: put_validator_def)

lemma filter_mset_update_zero:
  assumes "i < length vs" "vx_thread (vs ! i) = 0" "vx_thread v = h" "h \<noteq> 0"
  shows "filter_mset (\<lambda>h. h \<noteq> 0) (mset (map vx_thread (vs[i := v]))) =
    add_mset h (filter_mset (\<lambda>h. h \<noteq> 0) (mset (map vx_thread vs)))"
  using arg_cong [OF mset_map_update [OF assms(1), of vx_thread v], of "filter_mset (\<lambda>h. h \<noteq> 0)"] assms
  by simp

lemma filter_mset_clear:
  assumes "i < length vs" "vx_thread (vs ! i) = h" "h \<noteq> 0" "vx_thread v = 0"
  shows "add_mset h (filter_mset (\<lambda>h. h \<noteq> 0) (mset (map vx_thread (vs[i := v])))) =
    filter_mset (\<lambda>h. h \<noteq> 0) (mset (map vx_thread vs))"
  using arg_cong [OF mset_map_update [OF assms(1), of vx_thread v], of "filter_mset (\<lambda>h. h \<noteq> 0)"] assms
  by simp

lemma create_thread_tracked:
  assumes "tracked (g, w)" "hc_validators g = Some vs" "i < length vs" "vx_thread (vs ! i) = 0"
    "h \<noteq> 0" "h \<notin> set (joinable w)"
  shows "tracked (create_thread i h (g, w))"
  using assms filter_mset_update_zero [OF assms(3,4) _ assms(5), of "(vs ! i)\<lparr> vx_thread := h, vx_running := True \<rparr>"]
  by (simp add: tracked_def create_thread_def)

lemma joinable_handle:
  assumes "tracked (g, w)" "hc_validators g = Some vs" "i < length vs" "vx_thread (vs ! i) \<noteq> 0"
  shows "vx_thread (vs ! i) \<in> set (joinable w)"
proof -
  have "vx_thread (vs ! i) \<in># filter_mset (\<lambda>h. h \<noteq> 0) (mset (map vx_thread vs))"
    using assms(3,4) by auto
  then show ?thesis using assms(1,2) by (simp add: tracked_def flip: set_mset_mset)
qed

text \<open>What joining a live validator does: its run takes effect and its handle is cleared.\<close>

lemma join_validator_live:
  assumes "hc_validators g = Some vs" "i < length vs" "vx_thread (vs ! i) \<noteq> 0"
    "vx_thread (vs ! i) \<in> set (joinable w)" "join_validator isa runs i (g, w) = Some (g', w')"
  shows "\<exists>st es. validator_thread_fn isa (thread_config g)
      \<lparr> vstats = vx_stats (vs ! i), errors_found = hc_errors_found g, verror = hc_error g \<rparr>
      (the (vx_own_markers (vs ! i))) (fst (runs i)) (snd (runs i)) = Some (st, es) \<and>
    hc_validators g' = Some (vs[i := (vs ! i)\<lparr> vx_stats := vstats st, vx_own_markers := Some es,
      vx_running := False, vx_thread := 0 \<rparr>]) \<and>
    num_validators g' = num_validators g \<and> initialized g' = initialized g \<and>
    thread_config g' = thread_config g \<and>
    validators_running g' = validators_running g - 1 \<and>
    hc_errors_found g' = errors_found st \<and> hc_error g' = verror st \<and>
    w' = w\<lparr> joinable := remove1 (vx_thread (vs ! i)) (joinable w) \<rparr>"
  using assms
  by (auto simp: join_validator_def pthread_join_def clear_thread_def thread_config_def Let_def
      split: option.splits prod.splits)

lemma join_validator_tracked:
  assumes "tracked (g, w)" "hc_validators g = Some vs" "i < length vs"
    "join_validator isa runs i (g, w) = Some (g', w')"
  shows "tracked (g', w') \<and> num_validators g' = num_validators g \<and> initialized g' = initialized g \<and>
    (\<exists>v. hc_validators g' = Some (vs[i := v]) \<and> vx_thread v = 0)"
proof (cases "vx_thread (vs ! i) = 0")
  case True
  then have "g' = g" "w' = w" using assms(2,4) by (simp_all add: join_validator_def)
  with True assms(1,2) show ?thesis by (auto intro: exI [of _ "vs ! i"])
next
  case False
  let ?h = "vx_thread (vs ! i)"
  note j = joinable_handle [OF assms(1-3) False]
  from join_validator_live [OF assms(2,3) False j assms(4)] obtain v where
    v: "vx_thread v = 0" and w': "w' = w\<lparr> joinable := remove1 ?h (joinable w) \<rparr>"
    and g': "hc_validators g' = Some (vs[i := v])" "num_validators g' = num_validators g"
      "initialized g' = initialized g" "validators_running g' = validators_running g - 1"
    by force
  have "int (length (joinable w) - Suc 0) = int (length (joinable w)) - 1" using j by (cases "joinable w") auto
  moreover have "mset (remove1 ?h (joinable w)) = filter_mset (\<lambda>h. h \<noteq> 0) (mset (map vx_thread (vs[i := v])))"
    using filter_mset_clear [OF assms(3) refl False v] assms(1,2) j
    by (simp add: tracked_def) (metis add_mset_remove_trivial)
  ultimately show ?thesis
    using assms(1,2) j v g' by (auto simp: tracked_def w' length_remove1)
qed

text \<open>A loop over all validators that clears the handle it visits leaves no handle.\<close>

lemma for_each_join_tracked:
  assumes "tracked (g, w)" "hc_validators g = Some vs" "\<forall>i \<in> set is. i < length vs"
    "for_each (join_validator isa runs) is (g, w) = Some (g', w')"
  shows "tracked (g', w') \<and> num_validators g' = num_validators g \<and> initialized g' = initialized g \<and>
    (\<exists>vs'. hc_validators g' = Some vs' \<and> length vs' = length vs \<and>
       (\<forall>i < length vs. i \<in> set is \<or> vx_thread (vs ! i) = 0 \<longrightarrow> vx_thread (vs' ! i) = 0))"
  using assms
proof (induction "is" arbitrary: g w vs)
  case (Cons i js)
  from Cons.prems(4) obtain g1 w1 where j: "join_validator isa runs i (g, w) = Some (g1, w1)"
    and r: "for_each (join_validator isa runs) js (g1, w1) = Some (g', w')"
    by (auto split: option.splits)
  have i: "i < length vs" using Cons.prems(3) by simp
  from join_validator_tracked [OF Cons.prems(1,2) i j] obtain v where
    t: "tracked (g1, w1)" "num_validators g1 = num_validators g" "initialized g1 = initialized g"
      "hc_validators g1 = Some (vs[i := v])" "vx_thread v = 0" by auto
  from Cons.IH [OF t(1,4) _ r] Cons.prems(3) t(2,3) obtain vs' where
    vs': "tracked (g', w')" "num_validators g' = num_validators g" "initialized g' = initialized g"
      "hc_validators g' = Some vs'" "length vs' = length vs"
      "\<forall>k < length vs. k \<in> set js \<or> vx_thread (vs[i := v] ! k) = 0 \<longrightarrow> vx_thread (vs' ! k) = 0"
    by auto
  have "vx_thread (vs' ! k) = 0" if "k < length vs" "k \<in> set (i # js) \<or> vx_thread (vs ! k) = 0" for k
    using that vs'(6) t(5) i by (cases "k = i") auto
  with vs'(1-5) show ?case by blast
qed auto

lemma no_handles_no_threads:
  assumes "tracked (g, w)" "hc_validators g = Some vs" "\<forall>i < length vs. vx_thread (vs ! i) = 0"
  shows "joinable w = []" "validators_running g = 0"
proof -
  have "filter_mset (\<lambda>h. h \<noteq> 0) (mset (map vx_thread vs)) = {#}"
    using assms(3) by (auto simp: in_set_conv_nth)
  with assms(1,2) have "mset (joinable w) = {#}" by (simp only: tracked_def prod.case option.case)
  then show "joinable w = []" by simp
  with assms(1) show "validators_running g = 0" by (simp add: tracked_def)
qed

lemma no_threads_no_handles:
  assumes "tracked (g, w)" "hc_validators g = Some vs" "validators_running g \<le> 0" "i < length vs"
  shows "vx_thread (vs ! i) = 0"
proof (rule ccontr)
  assume "vx_thread (vs ! i) \<noteq> 0"
  from joinable_handle [OF assms(1,2,4) this] assms(1,3) show False by (simp add: tracked_def)
qed

text \<open>\<open>free_validators\<close> interleaves the joins with frees, which change no handle.\<close>

lemma free_markers_tracked:
  assumes "tracked (g, w)" "hc_validators g = Some vs" "i < length vs"
  shows "tracked (free_markers i g, w)"
proof -
  have "map vx_thread (vs[i := (vs ! i)\<lparr> vx_own_markers := None \<rparr>]) = map vx_thread vs"
    using assms(3) by (simp add: map_update) (metis list_update_id nth_map)
  with assms show ?thesis by (simp add: tracked_def free_markers_def)
qed

lemma for_each_free_tracked:
  assumes "tracked (g, w)" "hc_validators g = Some vs" "\<forall>i \<in> set is. i < length vs"
    "for_each (\<lambda>i s. map_option (\<lambda>(g, w). (free_markers i g, w)) (join_validator isa runs i s)) is (g, w) = Some (g', w')"
  shows "tracked (g', w') \<and> initialized g' = initialized g \<and>
    (\<exists>vs'. hc_validators g' = Some vs' \<and> length vs' = length vs \<and>
       (\<forall>i < length vs. i \<in> set is \<or> vx_thread (vs ! i) = 0 \<longrightarrow> vx_thread (vs' ! i) = 0))"
  using assms
proof (induction "is" arbitrary: g w vs)
  case (Cons i js)
  from Cons.prems(4) obtain g1 w1 where j: "join_validator isa runs i (g, w) = Some (g1, w1)"
    and r: "for_each (\<lambda>i s. map_option (\<lambda>(g, w). (free_markers i g, w)) (join_validator isa runs i s)) js
       (free_markers i g1, w1) = Some (g', w')"
    by (auto split: option.splits)
  have i: "i < length vs" using Cons.prems(3) by simp
  from join_validator_tracked [OF Cons.prems(1,2) i j] obtain v where
    t: "tracked (g1, w1)" "initialized g1 = initialized g" "hc_validators g1 = Some (vs[i := v])" "vx_thread v = 0"
    by auto
  let ?v = "v\<lparr> vx_own_markers := None \<rparr>"
  have f: "hc_validators (free_markers i g1) = Some (vs[i := ?v])" "initialized (free_markers i g1) = initialized g"
    using t i by (simp_all add: free_markers_def)
  have "tracked (free_markers i g1, w1)" using free_markers_tracked [OF t(1,3)] i by simp
  from Cons.IH [OF this f(1) _ r] Cons.prems(3) f(2) obtain vs' where
    vs': "tracked (g', w')" "initialized g' = initialized g"
      "hc_validators g' = Some vs'" "length vs' = length vs"
      "\<forall>k < length vs. k \<in> set js \<or> vx_thread (vs[i := ?v] ! k) = 0 \<longrightarrow> vx_thread (vs' ! k) = 0"
    by auto
  have "vx_thread (vs' ! k) = 0" if "k < length vs" "k \<in> set (i # js) \<or> vx_thread (vs ! k) = 0" for k
    using that vs'(5) t(4) i by (cases "k = i") auto
  with vs'(1-4) show ?case by blast
qed auto

lemma stop_flag_tracked [simp]: "tracked (g\<lparr> stop_flag := b \<rparr>, w) = tracked (g, w)"
  by (simp add: tracked_def split: option.split)

lemma tracked_initialized: "tracked (g, w) \<Longrightarrow> initialized g \<Longrightarrow> \<exists>vs. hc_validators g = Some vs \<and> length vs = num_validators g"
  by (auto simp: tracked_def split: option.splits)

lemma init_ctx_simps [simp]:
  "validators_running (init_ctx env cfg) = 0" "hc_validators (init_ctx env cfg) = None"
  "initialized (init_ctx env cfg) = False" "hc_errors_found (init_ctx env cfg) = 0" "hc_error (init_ctx env cfg) = no_error"
  by (simp_all add: init_ctx_def zero_ctx_def)

lemma host_validation_init_cases:
  assumes "host_validation_init env cfg g = (r, g')"
  obtains "r = -1" "g' = g"
  | "r = -1" "\<not> initialized g" "g' = init_ctx env cfg"
  | shares where "r = 0" "\<not> initialized g" "g' = ready_ctx (init_ctx env cfg) shares"
      "distribute_markers (ie_alloc env) (num_validators (init_ctx env cfg)) (unat (cf_num_qps cfg))
         (unat (cf_chunks_per_qp cfg)) (unat (hc_slots_per_qp (init_ctx env cfg))) (unat (cf_ops_per_chunk cfg))
         (unat (cf_payload_size cfg)) = Some shares"
proof -
  have "(init_ctx env cfg)\<lparr> hc_validators := None \<rparr> = init_ctx env cfg" by (simp add: init_ctx_def zero_ctx_def)
  with assms that show ?thesis by (auto simp: host_validation_init_def Let_def split: if_splits option.splits)
qed

lemma ready_ctx_validators:
  assumes "length shares = num_validators g"
  shows "\<exists>vs. hc_validators (ready_ctx g shares) = Some vs \<and> length vs = num_validators g \<and>
    (\<forall>i < length vs. vx_thread (vs ! i) = 0 \<and> vx_stats (vs ! i) = zero_stats \<and> vx_own_markers (vs ! i) = Some (shares ! i))"
  using assms by (simp add: ready_ctx_def fresh_validator_def)

lemma host_validation_init_tracked:
  assumes "tracked (g, w)" "host_validation_init env cfg g = (r, g')"
  shows "tracked (g', w)"
  using assms(2)
proof (cases rule: host_validation_init_cases)
  case 1
  with assms(1) show ?thesis by simp
next
  case 2
  with assms(1) show ?thesis by (auto simp: tracked_def split: option.splits)
next
  case (3 shares)
  note len = distribute_markers_length [OF 3(4)]
  from ready_ctx_validators [OF len] obtain vs where
    vs: "hc_validators g' = Some vs" "length vs = num_validators (init_ctx env cfg)"
      "\<forall>i < length vs. vx_thread (vs ! i) = 0" using 3(3) by auto
  then have "filter_mset (\<lambda>h. h \<noteq> 0) (mset (map vx_thread vs)) = {#}" by (auto simp: in_set_conv_nth)
  moreover have "joinable w = []" "bad_joins w = 0" using assms(1) 3(2) by (auto simp: tracked_def split: option.splits)
  moreover have "initialized g'" "validators_running g' = 0" "num_validators g' = num_validators (init_ctx env cfg)"
    using 3(3) by (simp_all add: ready_ctx_def)
  ultimately show ?thesis using vs(1,2) unfolding tracked_def prod.case by (simp del: filter_mset_eq_mempty_iff)
qed

lemma create_loop_tracked:
  assumes "tracked (g, w)" "hc_validators g = Some vs" "n = length vs" "k \<le> n"
    "\<forall>i. k \<le> i \<and> i < n \<longrightarrow> vx_thread (vs ! i) = 0"
    "\<forall>c \<in> set creates. fst c \<and> snd c \<noteq> 0 \<and> snd c \<notin> set (joinable w)" "distinct (map snd creates)"
    "create_loop isa runs [k..<n] creates (g, w) = Some (r, s')"
  shows "r = 0 \<and> tracked s'"
  using assms
proof (induction "n - k" arbitrary: k g w vs creates)
  case 0
  then show ?case by simp
next
  case (Suc m)
  then have k: "k < n" by simp
  then have u: "[k..<n] = k # [Suc k..<n]" by (rule upt_conv_Cons)
  from Suc.prems(8) obtain h cs where c: "creates = (True, h) # cs"
    using Suc.prems(6) by (cases creates) (auto simp: u)
  let ?v = "(vs ! k)\<lparr> vx_thread := h, vx_running := True \<rparr>"
  obtain g1 w1 where s1: "create_thread k h (g, w) = (g1, w1)" by fastforce
  have g1: "hc_validators g1 = Some (vs[k := ?v])" "joinable w1 = h # joinable w"
    using s1 Suc.prems(2) by (auto simp: create_thread_def)
  have "tracked (g1, w1)"
    using create_thread_tracked [OF Suc.prems(1,2), of k h] s1 k Suc.prems(3,5,6) by (simp add: c)
  moreover have "create_loop isa runs [Suc k..<n] cs (g1, w1) = Some (r, s')"
    using Suc.prems(8) by (simp add: u c s1)
  moreover have "m = n - Suc k" "n = length (vs[k := ?v])" "Suc k \<le> n" using Suc.hyps(2) Suc.prems(3) k by simp_all
  moreover have "\<forall>i. Suc k \<le> i \<and> i < n \<longrightarrow> vx_thread (vs[k := ?v] ! i) = 0" using Suc.prems(5) by simp
  moreover have "\<forall>c \<in> set cs. fst c \<and> snd c \<noteq> 0 \<and> snd c \<notin> set (joinable w1)" "distinct (map snd cs)"
    using Suc.prems(6,7) g1(2) by (auto simp: c)
  ultimately show ?case using Suc.hyps(1) g1(1) by blast
qed

lemma host_validation_start_tracked:
  assumes "tracked (g, w)" "host_validation_start isa runs creates (g, w) = Some (r, s')"
    "\<forall>c \<in> set creates. fst c \<and> snd c \<noteq> 0 \<and> snd c \<notin> set (joinable w)" "distinct (map snd creates)"
  shows "tracked s'"
proof (cases "\<not> initialized g \<or> validators_running g > 0")
  case True
  with assms(1,2) show ?thesis by (auto simp: host_validation_start_def split: if_splits)
next
  case False
  with tracked_initialized [OF assms(1)] obtain vs where vs: "hc_validators g = Some vs" "length vs = num_validators g" by blast
  have "\<forall>i. 0 \<le> i \<and> i < num_validators g \<longrightarrow> vx_thread (vs ! i) = 0"
    using no_threads_no_handles [OF assms(1) vs(1)] False vs(2) by auto
  with create_loop_tracked [of "g\<lparr> stop_flag := False \<rparr>" w vs "num_validators g" 0 creates isa runs r s'] assms vs False
  show ?thesis by (simp add: host_validation_start_def)
qed

lemma host_validation_stop_tracked:
  assumes "tracked (g, w)" "host_validation_stop isa runs h (g, w) = Some (r, g', w')"
  shows "tracked (g', w')" "initialized g \<Longrightarrow> h \<Longrightarrow> joinable w' = []"
proof -
  have "tracked (g', w') \<and> (initialized g \<and> h \<longrightarrow> joinable w' = [])"
  proof (cases "initialized g \<and> h")
    case True
    then have "initialized g" by simp
    from tracked_initialized [OF assms(1) this] obtain vs where vs: "hc_validators g = Some vs" "length vs = num_validators g" by blast
    from assms(2) True have f: "for_each (join_validator isa runs) [0..<num_validators g] (g\<lparr> stop_flag := True \<rparr>, w) = Some (g', w')"
      by (auto simp: host_validation_stop_def)
    from for_each_join_tracked [OF _ _ _ f, of vs] assms(1) vs obtain vs' where
      "tracked (g', w')" "hc_validators g' = Some vs'" "\<forall>i < length vs'. vx_thread (vs' ! i) = 0" by auto
    with no_handles_no_threads show ?thesis by blast
  next
    case False
    with assms show ?thesis by (auto simp: host_validation_stop_def split: if_splits)
  qed
  then show "tracked (g', w')" "initialized g \<Longrightarrow> h \<Longrightarrow> joinable w' = []" by simp_all
qed

lemma host_validation_destroy_tracked:
  assumes "tracked (g, w)" "host_validation_destroy isa runs (g, w) = Some (g', w')"
  shows "tracked (g', w') \<and> joinable w' = [] \<and> hc_validators g' = None \<and> \<not> initialized g'"
proof (cases "initialized g")
  case True
  with tracked_initialized [OF assms(1)] obtain vs where vs: "hc_validators g = Some vs" "length vs = num_validators g" by blast
  from assms(2) True vs obtain g1 where
    f: "for_each (\<lambda>i s. map_option (\<lambda>(g, w). (free_markers i g, w)) (join_validator isa runs i s))
          [0..<num_validators g] (g\<lparr> stop_flag := True \<rparr>, w) = Some (g1, w')"
    and g': "g' = g1\<lparr> hc_validators := None, initialized := False \<rparr>"
    by (auto simp: host_validation_destroy_def free_validators_def)
  from for_each_free_tracked [OF _ _ _ f, of vs] assms(1) vs obtain vs' where
    t: "tracked (g1, w')" "hc_validators g1 = Some vs'" "\<forall>i < length vs'. vx_thread (vs' ! i) = 0" by auto
  from no_handles_no_threads [OF this] t(1) show ?thesis by (simp add: tracked_def g')
next
  case False
  with assms show ?thesis by (auto simp: host_validation_destroy_def tracked_def split: option.splits)
qed

section \<open>Accounting over all validators\<close>

definition validator_accounted :: "validator_config \<Rightarrow> host_validator_ctx \<Rightarrow> bool" where
  "validator_accounted cfg v \<longleftrightarrow>
     accounted cfg \<lparr> vstats = vx_stats v, errors_found = 0, verror = no_error \<rparr> (seen_total (the (vx_own_markers v)))"

lemma accounted_stats: "accounted cfg st tot \<longleftrightarrow> accounted cfg \<lparr> vstats = vstats st, errors_found = a, verror = b \<rparr> tot"
  by (simp add: accounted_def)

definition books_kept :: "host_validation_ctx \<Rightarrow> bool" where
  "books_kept g \<longleftrightarrow> (hc_errors_found g \<noteq> 0 \<longrightarrow> has_error (hc_error g)) \<and>
     (\<forall>v \<in> set (the (hc_validators g)). validator_accounted (thread_config g) v)"

lemma join_validator_books:
  assumes "tracked (g, w)" "hc_validators g = Some vs" "i < length vs" "books_kept g"
    "join_validator isa runs i (g, w) = Some (g', w')"
  shows "books_kept g' \<and> thread_config g' = thread_config g"
proof (cases "vx_thread (vs ! i) = 0")
  case True
  with assms show ?thesis by (simp add: join_validator_def)
next
  case False
  let ?st = "\<lparr> vstats = vx_stats (vs ! i), errors_found = hc_errors_found g, verror = hc_error g \<rparr>"
  from join_validator_live [OF assms(2,3) False joinable_handle [OF assms(1-3) False] assms(5)]
  obtain st es where run: "validator_thread_fn isa (thread_config g) ?st
      (the (vx_own_markers (vs ! i))) (fst (runs i)) (snd (runs i)) = Some (st, es)"
    and g': "hc_validators g' = Some (vs[i := (vs ! i)\<lparr> vx_stats := vstats st, vx_own_markers := Some es,
      vx_running := False, vx_thread := 0 \<rparr>])" "thread_config g' = thread_config g"
      "hc_errors_found g' = errors_found st" "hc_error g' = verror st" by blast
  have "validator_accounted (thread_config g) (vs ! i)" using assms(2-4) by (simp add: books_kept_def)
  then have "accounted (thread_config g) ?st (seen_total (the (vx_own_markers (vs ! i))))"
    by (simp add: validator_accounted_def accounted_def)
  from accounting.thread_inv [OF run this]
  have "accounted (thread_config g) \<lparr> vstats = vstats st, errors_found = 0, verror = no_error \<rparr> (seen_total es)"
    by (simp add: accounted_def)
  moreover have "errors_found st \<noteq> 0 \<longrightarrow> has_error (verror st)"
    using error_recorded.thread_inv [OF run] assms(4) by (simp add: books_kept_def)
  ultimately show ?thesis
    using assms(2,4) g' by (auto simp: books_kept_def validator_accounted_def dest!: set_update_subset_insert [THEN subsetD])
qed

lemma for_each_join_books:
  assumes "tracked (g, w)" "hc_validators g = Some vs" "\<forall>i \<in> set is. i < length vs" "books_kept g"
    "for_each (join_validator isa runs) is (g, w) = Some (g', w')"
  shows "books_kept g' \<and> thread_config g' = thread_config g"
  using assms
proof (induction "is" arbitrary: g w vs)
  case (Cons i js)
  from Cons.prems(5) obtain g1 w1 where j: "join_validator isa runs i (g, w) = Some (g1, w1)"
    and r: "for_each (join_validator isa runs) js (g1, w1) = Some (g', w')"
    by (auto split: option.splits)
  have i: "i < length vs" using Cons.prems(3) by simp
  from join_validator_tracked [OF Cons.prems(1,2) i j] obtain v where
    t: "tracked (g1, w1)" "hc_validators g1 = Some (vs[i := v])" by auto
  note b = join_validator_books [OF Cons.prems(1,2) i Cons.prems(4) j]
  from Cons.IH [OF t _ _ r] b Cons.prems(3) show ?case by simp
qed simp

text \<open>Creating threads touches neither the statistics nor the markers.\<close>

lemma map_update_frame: "f v = f (xs ! i) \<Longrightarrow> map f (xs[i := v]) = map f xs"
  by (cases "i < length xs") (auto simp: map_update list_update_same_conv list_update_beyond)

lemma create_loop_frame:
  assumes "create_loop isa runs is creates (g, w) = Some (r, g', w')" "\<forall>c \<in> set creates. fst c" "hc_validators g \<noteq> None"
  shows "\<exists>vs vs'. hc_validators g = Some vs \<and> hc_validators g' = Some vs' \<and>
    map (\<lambda>v. (vx_stats v, vx_own_markers v)) vs' = map (\<lambda>v. (vx_stats v, vx_own_markers v)) vs \<and>
    thread_config g' = thread_config g \<and> hc_errors_found g' = hc_errors_found g \<and> hc_error g' = hc_error g \<and>
    num_validators g' = num_validators g \<and> initialized g' = initialized g"
  using assms
proof (induction "is" arbitrary: g w creates)
  case Nil
  then show ?case by auto
next
  case (Cons i js)
  then obtain h cs where c: "creates = (True, h) # cs" by (cases creates) auto
  obtain vs where vs: "hc_validators g = Some vs" using Cons.prems(3) by blast
  let ?v = "(vs ! i)\<lparr> vx_thread := h, vx_running := True \<rparr>"
  obtain g1 w1 where s1: "create_thread i h (g, w) = (g1, w1)" by fastforce
  have g1: "hc_validators g1 = Some (vs[i := ?v])" "thread_config g1 = thread_config g"
    "hc_errors_found g1 = hc_errors_found g" "hc_error g1 = hc_error g"
    "num_validators g1 = num_validators g" "initialized g1 = initialized g"
    using s1 vs by (auto simp: create_thread_def thread_config_def)
  have fr: "map (\<lambda>v. (vx_stats v, vx_own_markers v)) (vs[i := ?v]) = map (\<lambda>v. (vx_stats v, vx_own_markers v)) vs"
    by (rule map_update_frame) simp
  have "create_loop isa runs js cs (g1, w1) = Some (r, g', w')" using Cons.prems(1) by (simp add: c s1)
  from Cons.IH [OF this] Cons.prems(2) g1 vs fr show ?case by (auto simp: c)
qed

lemma ready_ctx_books:
  assumes "distribute_markers a (num_validators (init_ctx env cfg)) n c sl ops p = Some shares"
  shows "books_kept (ready_ctx (init_ctx env cfg) shares)"
proof -
  note len = distribute_markers_length [OF assms]
  from ready_ctx_validators [OF len] obtain vs where
    vs: "hc_validators (ready_ctx (init_ctx env cfg) shares) = Some vs" "length vs = num_validators (init_ctx env cfg)"
      "\<forall>i < length vs. vx_stats (vs ! i) = zero_stats \<and> vx_own_markers (vs ! i) = Some (shares ! i)" by blast
  have "seen_total s = 0" if "s \<in> set shares" for s
    using distribute_markers_unseen [OF assms that] by (induction s) simp_all
  then have z: "seen_total (shares ! i) = 0" if "i < length vs" for i using that vs(2) len by simp
  have "validator_accounted tc v" if "v \<in> set vs" for tc v
  proof -
    from that obtain i where "i < length vs" "v = vs ! i" by (auto simp: in_set_conv_nth)
    with vs(3) z show ?thesis by (simp add: validator_accounted_def accounted_def zero_stats_def)
  qed
  with vs(1) show ?thesis by (simp add: books_kept_def ready_ctx_def)
qed

lemma create_loop_books:
  assumes "create_loop isa runs is creates (g, w) = Some (r, g', w')" "\<forall>c \<in> set creates. fst c"
    "hc_validators g \<noteq> None" "books_kept g"
  shows "books_kept g' \<and> thread_config g' = thread_config g \<and> initialized g' = initialized g"
proof -
  from create_loop_frame [OF assms(1-3)] obtain vs vs' where f: "hc_validators g = Some vs" "hc_validators g' = Some vs'"
    "map (\<lambda>v. (vx_stats v, vx_own_markers v)) vs' = map (\<lambda>v. (vx_stats v, vx_own_markers v)) vs"
    "thread_config g' = thread_config g" "hc_errors_found g' = hc_errors_found g" "hc_error g' = hc_error g"
    "initialized g' = initialized g" by blast
  have "validator_accounted (thread_config g) v" if v: "v \<in> set vs'" for v
  proof -
    from v have "(vx_stats v, vx_own_markers v) \<in> set (map (\<lambda>v. (vx_stats v, vx_own_markers v)) vs'  )" by simp
    then obtain u where "u \<in> set vs" "vx_stats v = vx_stats u" "vx_own_markers v = vx_own_markers u"
      unfolding f(3) by auto
    with assms(4) f(1) show ?thesis by (simp add: books_kept_def validator_accounted_def)
  qed
  with f assms(4) show ?thesis by (simp add: books_kept_def)
qed

lemma session_books:
  assumes init: "host_validation_init env cfg g = (0, g0)" "tracked (g, w)"
    and start: "host_validation_start isa runs0 creates (g0, w) = Some (0, g1, w1)"
      "\<forall>c \<in> set creates. fst c \<and> snd c \<noteq> 0 \<and> snd c \<notin> set (joinable w)" "distinct (map snd creates)"
    and stop: "host_validation_stop isa runs h (g1, w1) = Some (Some res, g2, w2)"
  shows "books_kept g2" "vc_payload_size (thread_config g2) = cf_payload_size cfg"
    "vc_ops_per_chunk (thread_config g2) = cf_ops_per_chunk cfg" "res = collect_result g2"
proof -
  from init(1) obtain shares where g0: "g0 = ready_ctx (init_ctx env cfg) shares" and b0: "books_kept g0"
    by (cases rule: host_validation_init_cases) (auto intro: ready_ctx_books)
  have tc0: "vc_payload_size (thread_config g0) = cf_payload_size cfg" "vc_ops_per_chunk (thread_config g0) = cf_ops_per_chunk cfg"
    by (simp_all add: g0 ready_ctx_def thread_config_def init_ctx_def)
  from start(1) g0 have "create_loop isa runs0 [0..<num_validators g0] creates (g0\<lparr> stop_flag := False \<rparr>, w) = Some (0, g1, w1)"
    by (simp add: host_validation_start_def ready_ctx_def)
  from create_loop_books [OF this] start(2) b0 g0
  have 1: "books_kept g1" "thread_config g1 = thread_config g0" "initialized g1"
    by (auto simp: books_kept_def thread_config_def ready_ctx_def)
  have t1: "tracked (g1, w1)"
    using host_validation_start_tracked [OF host_validation_init_tracked [OF init(2,1)] start] .
  from tracked_initialized [OF t1 1(3)] obtain vs where vs: "hc_validators g1 = Some vs" "length vs = num_validators g1" by blast
  from stop 1(3) have f: "for_each (join_validator isa runs) [0..<num_validators g1] (g1\<lparr> stop_flag := True \<rparr>, w1) = Some (g2, w2)"
    and r: "res = collect_result g2" by (auto simp: host_validation_stop_def split: if_splits)
  from for_each_join_books [OF _ _ _ _ f, of vs] t1 vs 1(1)
  have 2: "books_kept g2" "thread_config g2 = thread_config g1" by (auto simp: books_kept_def thread_config_def)
  from 2 1(2) tc0 r show "books_kept g2" "vc_payload_size (thread_config g2) = cf_payload_size cfg"
    "vc_ops_per_chunk (thread_config g2) = cf_ops_per_chunk cfg" "res = collect_result g2" by simp_all
qed

section \<open>Runs of the interface\<close>

inductive api_step :: "simd_isa \<Rightarrow> host_validation_ctx \<times> thread_table \<Rightarrow> host_validation_ctx \<times> thread_table \<Rightarrow> bool"
  for isa where
  init: "host_validation_init env cfg g = (r, g') \<Longrightarrow> api_step isa (g, w) (g', w)"
| start: "\<lbrakk> host_validation_start isa runs creates (g, w) = Some (r, s');
    \<forall>c \<in> set creates. fst c \<and> snd c \<noteq> 0 \<and> snd c \<notin> set (joinable w); distinct (map snd creates) \<rbrakk>
    \<Longrightarrow> api_step isa (g, w) s'"
| stop: "host_validation_stop isa runs h (g, w) = Some (r, g', w') \<Longrightarrow> api_step isa (g, w) (g', w')"
| destroy: "host_validation_destroy isa runs (g, w) = Some (g', w') \<Longrightarrow> api_step isa (g, w) (g', w')"

abbreviation no_threads :: thread_table where "no_threads \<equiv> \<lparr> joinable = [], bad_joins = 0 \<rparr>"

lemma api_step_tracked: "api_step isa s s' \<Longrightarrow> tracked s \<Longrightarrow> tracked s'"
  by (induction rule: api_step.induct)
    (auto dest: host_validation_init_tracked host_validation_start_tracked host_validation_stop_tracked(1)
      host_validation_destroy_tracked)

lemma reachable_tracked: "(api_step isa)\<^sup>*\<^sup>* (zero_ctx, no_threads) s \<Longrightarrow> tracked s"
proof (induction rule: rtranclp_induct)
  case base
  show ?case by (simp add: tracked_def zero_ctx_def)
qed (rule api_step_tracked)

lemma seen_total_concat: "sum_list (map last_seen (concat ess)) = sum_list (map seen_total ess)"
  by (induction ess) (simp_all add: seen_total_def)

section \<open>A start that fails half way\<close>

lemma join_validator_bad_joins_mono: "join_validator isa runs i s = Some s' \<Longrightarrow> bad_joins (snd s) \<le> bad_joins (snd s')"
  by (cases s) (auto simp: join_validator_def pthread_join_def Let_def split: if_splits option.splits)

lemma for_each_free_bad_joins_mono:
  "for_each (\<lambda>i s. map_option (\<lambda>(g, w). (free_markers i g, w)) (join_validator isa runs i s)) is s = Some s' \<Longrightarrow>
   bad_joins (snd s) \<le> bad_joins (snd s')"
proof (induction "is" arbitrary: s)
  case (Cons i js)
  then obtain g1 w1 where j: "join_validator isa runs i s = Some (g1, w1)"
    and r: "for_each (\<lambda>i s. map_option (\<lambda>(g, w). (free_markers i g, w)) (join_validator isa runs i s)) js
       (free_markers i g1, w1) = Some s'" by (auto split: option.splits)
  from Cons.IH [OF r] join_validator_bad_joins_mono [OF j] show ?case by simp
qed simp

section \<open>Properties\<close>

text \<open>
  C33. Whatever sequence of \<open>init\<close>, \<open>start\<close>, \<open>stop\<close> and \<open>destroy\<close> the caller makes, as long as no
  \<^verbatim>\<open>pthread_create\<close> fails, no thread is joined twice and none is lost: the threads not yet joined are
  those whose handles the validators hold, once each, after a \<open>stop\<close> that asks for the result none is left,
  and \<open>destroy\<close> leaves no thread and no array of validators.
\<close>

theorem lifecycle_joins_each_thread_once:
  assumes "(api_step isa)\<^sup>*\<^sup>* (zero_ctx, no_threads) (g, w)"
  shows "bad_joins w = 0 \<and> distinct (joinable w) \<and> validators_running g = int (length (joinable w)) \<and>
    (\<forall>vs. hc_validators g = Some vs \<longrightarrow>
       mset (joinable w) = filter_mset (\<lambda>h. h \<noteq> 0) (mset (map vx_thread vs))) \<and>
    (\<forall>runs r g' w'. initialized g \<longrightarrow> host_validation_stop isa runs True (g, w) = Some (r, g', w') \<longrightarrow> joinable w' = []) \<and>
    (\<forall>runs g' w'. host_validation_destroy isa runs (g, w) = Some (g', w') \<longrightarrow>
       joinable w' = [] \<and> hc_validators g' = None \<and> \<not> initialized g' \<and> bad_joins w' = 0)"
proof -
  have t: "tracked (g, w)" using assms by (rule reachable_tracked)
  have d: "joinable w' = [] \<and> hc_validators g' = None \<and> \<not> initialized g' \<and> bad_joins w' = 0"
    if "host_validation_destroy isa runs (g, w) = Some (g', w')" for runs g' w'
    using host_validation_destroy_tracked [OF t that] by (simp add: tracked_def)
  show ?thesis
    using t d host_validation_stop_tracked(2) [OF t] by (auto simp: tracked_def)
qed

text \<open>
  C8. A whole session accounts for every epoch: after a successful \<open>init\<close>, a \<open>start\<close> whose threads
  are all created and a \<open>stop\<close>, the chunks validated and skipped in the result add up to the epochs
  of all markers at the end, bytes and work items are the chunks validated times the size and the
  number of operations of a chunk, and a failed result carries a recorded error.
\<close>

theorem session_result_accounts:
  assumes init: "host_validation_init env cfg g = (0, g0)" "tracked (g, w)"
    and start: "host_validation_start isa runs0 creates (g0, w) = Some (0, g1, w1)"
      "\<forall>c \<in> set creates. fst c \<and> snd c \<noteq> 0 \<and> snd c \<notin> set (joinable w)" "distinct (map snd creates)"
    and stop: "host_validation_stop isa runs h (g1, w1) = Some (Some res, g2, w2)"
  shows "res_markers_hit res + res_skipped_steps res =
      sum_list (map last_seen (concat (map (the \<circ> vx_own_markers) (the (hc_validators g2))))) \<and>
    res_bytes_validated res = res_markers_hit res * (ucast (cf_ops_per_chunk cfg) * cf_payload_size cfg) \<and>
    res_chunks_validated res = res_markers_hit res * ucast (cf_ops_per_chunk cfg) \<and>
    (\<not> passed res \<longrightarrow> (\<exists>e. res_error res = Some e \<and> has_error e))"
proof -
  let ?tc = "thread_config g2" and ?vs = "the (hc_validators g2)"
  from session_books [OF assms] have b: "books_kept g2" and tc: "vc_payload_size ?tc = cf_payload_size cfg"
    "vc_ops_per_chunk ?tc = cf_ops_per_chunk cfg" and res: "res = collect_result g2" by simp_all
  have acc: "markers_hit (vx_stats v) + skipped_steps (vx_stats v) = seen_total (the (vx_own_markers v))"
    "bytes_validated (vx_stats v) = markers_hit (vx_stats v) * chunk_bytes ?tc"
    "work_items_processed (vx_stats v) = markers_hit (vx_stats v) * ucast (vc_ops_per_chunk ?tc)" if "v \<in> set ?vs" for v
    using b that by (simp_all add: books_kept_def validator_accounted_def accounted_def)
  have "sum_list (map (\<lambda>v. markers_hit (vx_stats v)) ?vs) + sum_list (map (\<lambda>v. skipped_steps (vx_stats v)) ?vs) =
      sum_list (map (\<lambda>v. seen_total (the (vx_own_markers v))) ?vs)"
    unfolding sum_list_addf [symmetric] using acc(1) by (intro arg_cong [of _ _ sum_list] map_cong) simp_all
  also have "\<dots> = sum_list (map last_seen (concat (map (the \<circ> vx_own_markers) ?vs)))"
    by (simp add: seen_total_concat comp_def)
  finally have 1: "res_markers_hit res + res_skipped_steps res =
      sum_list (map last_seen (concat (map (the \<circ> vx_own_markers) ?vs)))"
    by (simp add: res collect_result_def Let_def comp_def)
  have "sum_list (map (\<lambda>v. bytes_validated (vx_stats v)) ?vs) = sum_list (map (\<lambda>v. markers_hit (vx_stats v)) ?vs) * chunk_bytes ?tc"
    "sum_list (map (\<lambda>v. work_items_processed (vx_stats v)) ?vs) =
       sum_list (map (\<lambda>v. markers_hit (vx_stats v)) ?vs) * ucast (vc_ops_per_chunk ?tc)"
    unfolding sum_list_mult_const [symmetric] using acc(2,3) by (intro arg_cong [of _ _ sum_list] map_cong; simp)+
  then have 2: "res_bytes_validated res = res_markers_hit res * chunk_bytes ?tc"
    "res_chunks_validated res = res_markers_hit res * ucast (vc_ops_per_chunk ?tc)"
    by (simp_all add: res collect_result_def Let_def comp_def)
  have 3: "\<not> passed res \<longrightarrow> (\<exists>e. res_error res = Some e \<and> has_error e)"
    using b by (simp add: res collect_result_def Let_def books_kept_def)
  from 1 2 3 tc show ?thesis by (simp add: chunk_bytes_def)
qed

text \<open>
  A start whose second \<^verbatim>\<open>pthread_create\<close> fails returns \<open>-1\<close>, but leaves the handle of the thread it
  has joined in its validator, so the following \<open>destroy\<close> joins that thread a second time, which is
  undefined behaviour.
\<close>

theorem failed_start_then_destroy_joins_twice:
  assumes t: "tracked (g, w)" and i: "initialized g" "validators_running g \<le> 0" "2 \<le> num_validators g" and h: "h \<noteq> 0"
    and start: "host_validation_start isa runs ((True, h) # (False, h') # cs) (g, w) = Some (r, g1, w1)"
    and destroy: "host_validation_destroy isa runs' (g1, w1) = Some (g2, w2)"
  shows "r = -1 \<and> bad_joins w2 \<ge> 1"
proof -
  from tracked_initialized [OF t i(1)] obtain vs where vs: "hc_validators g = Some vs" "length vs = num_validators g" by blast
  have w: "joinable w = []" "bad_joins w = 0" using t i(2) by (simp_all add: tracked_def)
  obtain m where m: "num_validators g = Suc (Suc m)" using i(3) by (metis add_2_eq_Suc le_Suc_ex)
  have u: "[0..<num_validators g] = 0 # 1 # [2..<num_validators g]"
    unfolding m by (metis One_nat_def Suc_1 upt_conv_Cons zero_less_Suc Suc_less_eq)
  have len: "1 < length vs" "0 < length vs" using vs(2) m by simp_all
  let ?v0 = "(vs ! 0)\<lparr> vx_thread := h, vx_running := True \<rparr>" and ?v1 = "(vs ! 1)\<lparr> vx_thread := h' \<rparr>"
  define gx where "gx = put_validator 1 ?v1 (put_validator 0 ?v0 (g\<lparr> stop_flag := False \<rparr>)
    \<lparr> validators_running := validators_running g + 1 \<rparr>)\<lparr> stop_flag := True \<rparr>"
  have vsx: "hc_validators gx = Some (vs[0 := ?v0, 1 := ?v1])" "num_validators gx = num_validators g" "initialized gx"
    using vs i by (simp_all add: gx_def)
  have st: "host_validation_start isa runs ((True, h) # (False, h') # cs) (g, w) =
      map_option (\<lambda>s'. (-1, s')) (pthread_join isa runs 0 (gx, w\<lparr> joinable := [h] \<rparr>))"
    using i vs(1) len w by (simp add: host_validation_start_def u create_thread_def gx_def Let_def split: option.split)
  have "\<exists>(a :: validator_state) es. r = -1 \<and> w1 = w\<lparr> joinable := [] \<rparr> \<and>
    g1 = put_validator 0 (?v0\<lparr> vx_stats := vstats a, vx_own_markers := Some es, vx_running := False \<rparr>) gx
      \<lparr> hc_errors_found := errors_found a, hc_error := verror a, validators_running := validators_running gx - 1 \<rparr>"
    using start [unfolded st] vsx len by (auto simp: pthread_join_def Let_def split: option.splits)
  then have w1: "w1 = w\<lparr> joinable := [] \<rparr>" by blast
  from \<open>\<exists>(a :: validator_state) es. _\<close> have "r = -1 \<and> (\<exists>us. hc_validators g1 = Some us \<and> vx_thread (us ! 0) = h) \<and>
      num_validators g1 = num_validators g \<and> initialized g1"
    using vsx len by auto
  then obtain us where r: "r = -1" and
    g1: "hc_validators g1 = Some us" "vx_thread (us ! 0) = h" "num_validators g1 = num_validators g" "initialized g1"
    by blast
  define g3 where "g3 = g1\<lparr> stop_flag := True \<rparr>"
  have j: "join_validator isa runs' 0 (g3, w1) = Some (clear_thread 0 g3, w1\<lparr> bad_joins := 1 \<rparr>)"
    using g1 h len w(2) by (simp add: join_validator_def pthread_join_def g3_def w1)
  from destroy g1 obtain s where
    f: "for_each (\<lambda>i s. map_option (\<lambda>(g, w). (free_markers i g, w)) (join_validator isa runs' i s)) [0..<num_validators g] (g3, w1)
      = Some s" and s: "w2 = snd s"
    by (auto simp: host_validation_destroy_def free_validators_def g3_def)
  from f have "for_each (\<lambda>i s. map_option (\<lambda>(g, w). (free_markers i g, w)) (join_validator isa runs' i s)) (1 # [2..<num_validators g])
      (free_markers 0 (clear_thread 0 g3), w1\<lparr> bad_joins := 1 \<rparr>) = Some s"
    unfolding u by (simp add: j)
  from for_each_free_bad_joins_mono [OF this] r s show ?thesis by simp
qed

text \<open>One or two validators on an idle device.\<close>

definition demo_env :: init_env where
  "demo_env = \<lparr> ie_cpulist = \<lambda>_. None, ie_nproc = 0, ie_alloc_validators = True, ie_alloc = \<lambda>_. True \<rparr>"

definition demo_config :: "u32 \<Rightarrow> validation_config" where
  "demo_config chunks = \<lparr> cf_buffer_base = 4096, cf_markers_offset = 192, cf_recv_slots_offset = 256, cf_payload_size = 4,
     cf_ops_per_chunk = 2, cf_num_qps = 1, cf_chunks_per_qp = chunks, cf_validation_mode = VALIDATION_MODE_WRITE,
     cf_numa_node = -1 \<rparr>"

lemma demo_num_validators:
  "num_validators (init_ctx demo_env (demo_config 1)) = 1" "num_validators (init_ctx demo_env (demo_config 2)) = 2"
  by (simp_all add: demo_env_def demo_config_def init_ctx_def get_num_validators_def available_cores_def Let_def)

abbreviation quiet_run :: thread_reads where
  "quiet_run \<equiv> (replicate 1024 ([[(0, demo_views)]], True), [(4, demo_views)])"

lemma quiet_run_returns:
  "last_seen e = 0 \<Longrightarrow> \<exists>st' es'. validator_thread_fn isa cfg st [e] (fst quiet_run) (snd quiet_run) = Some (st', es')"
  using thread_returns [of "fst quiet_run" "[e]" "snd quiet_run" isa cfg st] by (force simp: idle_reads_def)

lemma demo_distribution:
  "distribute_markers (\<lambda>_. True) 1 1 1 sl ops p = Some [[make_entry 1 sl ops p 0]]"
  "distribute_markers (\<lambda>_. True) 2 1 2 sl ops p = Some [[make_entry 2 sl ops p 0], [make_entry 2 sl ops p 1]]"
  by (simp_all add: distribute_markers_def marker_counts_def logical_order_def insertion_sort_def upt_rec)

lemma demo_init:
  "\<exists>e. host_validation_init demo_env (demo_config 1) zero_ctx = (0, ready_ctx (init_ctx demo_env (demo_config 1)) [[e]]) \<and>
     last_seen e = 0"
  "\<exists>e f. host_validation_init demo_env (demo_config 2) zero_ctx = (0, ready_ctx (init_ctx demo_env (demo_config 2)) [[e], [f]]) \<and>
     last_seen e = 0 \<and> last_seen f = 0"
proof -
  have c: "ie_alloc demo_env = (\<lambda>_. True)" "ie_alloc_validators demo_env" "cf_buffer_base (demo_config n) = 4096"
    "cf_num_qps (demo_config n) = 1" "cf_chunks_per_qp (demo_config n) = n" "\<not> initialized zero_ctx" for n
    by (simp_all add: demo_env_def demo_config_def zero_ctx_def)
  show "\<exists>e. host_validation_init demo_env (demo_config 1) zero_ctx = (0, ready_ctx (init_ctx demo_env (demo_config 1)) [[e]]) \<and>
     last_seen e = 0"
    by (simp add: host_validation_init_def c demo_num_validators demo_distribution Let_def del: One_nat_def)
      (auto simp: make_entry_def Let_def intro!: exI)
  show "\<exists>e f. host_validation_init demo_env (demo_config 2) zero_ctx = (0, ready_ctx (init_ctx demo_env (demo_config 2)) [[e], [f]]) \<and>
     last_seen e = 0 \<and> last_seen f = 0"
    by (simp add: host_validation_init_def c demo_num_validators demo_distribution Let_def del: One_nat_def)
      (auto simp: make_entry_def Let_def intro!: exI)
qed

lemma demo_tracked: "tracked (zero_ctx, no_threads)"
  by (simp add: tracked_def zero_ctx_def)

lemma ready_demo1:
  "hc_validators (ready_ctx (init_ctx demo_env (demo_config 1)) [[e]]) =
     Some [(fresh_validator 0)\<lparr> vx_own_markers := Some [e], vx_own_marker_count := 1 \<rparr>]"
  "num_validators (ready_ctx (init_ctx demo_env (demo_config 1)) [[e]]) = 1"
  "initialized (ready_ctx (init_ctx demo_env (demo_config 1)) [[e]])"
  "validators_running (ready_ctx (init_ctx demo_env (demo_config 1)) [[e]]) = 0"
  by (simp_all add: ready_ctx_def demo_num_validators upt_rec)

lemma demo_start:
  "\<exists>g1. host_validation_start isa runs [(True, 7)] (ready_ctx (init_ctx demo_env (demo_config 1)) [[e]], no_threads) =
     Some (0, g1, \<lparr> joinable = [7], bad_joins = 0 \<rparr>) \<and> initialized g1 \<and> num_validators g1 = 1 \<and>
     hc_validators g1 = Some [(fresh_validator 0)\<lparr> vx_own_markers := Some [e], vx_own_marker_count := 1,
       vx_thread := 7, vx_running := True \<rparr>]"
  by (simp add: host_validation_start_def ready_demo1 create_thread_def upt_rec Let_def)

lemma demo_stop:
  assumes "hc_validators g1 = Some [v]" "vx_own_markers v = Some [e]" "vx_thread v = 7" "last_seen e = 0"
    "initialized g1" "num_validators g1 = 1"
  shows "\<exists>res g2 w2. host_validation_stop isa (\<lambda>_. quiet_run) True (g1, \<lparr> joinable = [7], bad_joins = 0 \<rparr>) = Some (Some res, g2, w2)"
proof -
  let ?g = "g1\<lparr> stop_flag := True \<rparr>"
  from quiet_run_returns [OF assms(4)] obtain st es where
    "validator_thread_fn isa (thread_config ?g) \<lparr> vstats = vx_stats v, errors_found = hc_errors_found ?g, verror = hc_error ?g \<rparr>
      [e] (fst quiet_run) (snd quiet_run) = Some (st, es)" by blast
  then have "pthread_join isa (\<lambda>_. quiet_run) 0 (?g, \<lparr> joinable = [7], bad_joins = 0 \<rparr>) \<noteq> None"
    using assms(1-3) by (simp add: pthread_join_def Let_def del: replicate.simps)
  then show ?thesis using assms(1-3,5,6)
    by (auto simp: host_validation_stop_def join_validator_def upt_rec)
qed

theorem lifecycle_joins_each_thread_once_witness:
  "\<exists>g w. (api_step HAVE_AVX2)\<^sup>*\<^sup>* (zero_ctx, no_threads) (g, w) \<and> joinable w = [7] \<and> validators_running g = 1"
proof -
  obtain e where i: "host_validation_init demo_env (demo_config 1) zero_ctx = (0, ready_ctx (init_ctx demo_env (demo_config 1)) [[e]])"
    using demo_init(1) by blast
  from demo_start obtain g1 where s: "host_validation_start HAVE_AVX2 (\<lambda>_. quiet_run) [(True, 7)]
      (ready_ctx (init_ctx demo_env (demo_config 1)) [[e]], no_threads) = Some (0, g1, \<lparr> joinable = [7], bad_joins = 0 \<rparr>)" by blast
  have "api_step HAVE_AVX2 (ready_ctx (init_ctx demo_env (demo_config 1)) [[e]], no_threads) (g1, \<lparr> joinable = [7], bad_joins = 0 \<rparr>)"
    by (rule api_step.start [OF s]) simp_all
  with api_step.init [OF i]
  have r: "(api_step HAVE_AVX2)\<^sup>*\<^sup>* (zero_ctx, no_threads) (g1, \<lparr> joinable = [7], bad_joins = 0 \<rparr>)"
    by (meson converse_rtranclp_into_rtranclp rtranclp.rtrancl_refl)
  from lifecycle_joins_each_thread_once [OF r] r show ?thesis by (intro exI conjI) (assumption, simp_all)
qed

theorem session_result_accounts_witness:
  "\<exists>g0 g1 w1 res g2 w2. host_validation_init demo_env (demo_config 1) zero_ctx = (0, g0) \<and>
     host_validation_start HAVE_AVX2 (\<lambda>_. quiet_run) [(True, 7)] (g0, no_threads) = Some (0, g1, w1) \<and>
     host_validation_stop HAVE_AVX2 (\<lambda>_. quiet_run) True (g1, w1) = Some (Some res, g2, w2) \<and>
     res_bytes_validated res = res_markers_hit res * 8"
proof -
  obtain e where i: "host_validation_init demo_env (demo_config 1) zero_ctx = (0, ready_ctx (init_ctx demo_env (demo_config 1)) [[e]])"
    and e: "last_seen e = 0" using demo_init(1) by blast
  from demo_start obtain g1 where s: "host_validation_start HAVE_AVX2 (\<lambda>_. quiet_run) [(True, 7)]
      (ready_ctx (init_ctx demo_env (demo_config 1)) [[e]], no_threads) = Some (0, g1, \<lparr> joinable = [7], bad_joins = 0 \<rparr>)"
    and g1: "initialized g1" "num_validators g1 = 1" "hc_validators g1 = Some [(fresh_validator 0)\<lparr> vx_own_markers := Some [e],
       vx_own_marker_count := 1, vx_thread := 7, vx_running := True \<rparr>]" by blast
  from demo_stop [where isa = HAVE_AVX2, OF g1(3) _ _ e g1(1,2)] obtain res g2 w2 where
    t: "host_validation_stop HAVE_AVX2 (\<lambda>_. quiet_run) True (g1, \<lparr> joinable = [7], bad_joins = 0 \<rparr>) = Some (Some res, g2, w2)"
    by (auto simp del: replicate.simps)
  from session_result_accounts [OF i demo_tracked s _ _ t] have "res_bytes_validated res = res_markers_hit res * 8"
    by (simp add: demo_config_def)
  with i s t show ?thesis by blast
qed

lemma ready_demo2:
  "hc_validators (ready_ctx (init_ctx demo_env (demo_config 2)) [[e], [f]]) =
     Some [(fresh_validator 0)\<lparr> vx_own_markers := Some [e], vx_own_marker_count := 1 \<rparr>,
           (fresh_validator 1)\<lparr> vx_own_markers := Some [f], vx_own_marker_count := 1 \<rparr>]"
  "num_validators (ready_ctx (init_ctx demo_env (demo_config 2)) [[e], [f]]) = 2"
  "initialized (ready_ctx (init_ctx demo_env (demo_config 2)) [[e], [f]])"
  "validators_running (ready_ctx (init_ctx demo_env (demo_config 2)) [[e], [f]]) = 0"
  by (simp_all add: ready_ctx_def demo_num_validators upt_rec)

lemma demo_failed_start:
  assumes "last_seen e = 0"
  shows "\<exists>g1 v. host_validation_start isa (\<lambda>_. quiet_run) [(True, 7), (False, 0)]
       (ready_ctx (init_ctx demo_env (demo_config 2)) [[e], [f]], no_threads) = Some (-1, g1, no_threads) \<and>
     initialized g1 \<and> num_validators g1 = 2 \<and> vx_thread v = 7 \<and>
     hc_validators g1 = Some [v, (fresh_validator 1)\<lparr> vx_own_markers := Some [f], vx_own_marker_count := 1 \<rparr>]"
proof -
  let ?g = "ready_ctx (init_ctx demo_env (demo_config 2)) [[e], [f]]"
  let ?v0 = "(fresh_validator 0)\<lparr> vx_own_markers := Some [e], vx_own_marker_count := 1, vx_thread := 7, vx_running := True \<rparr>"
  let ?v1 = "(fresh_validator 1)\<lparr> vx_own_markers := Some [f], vx_own_marker_count := 1 \<rparr>"
  define gx where "gx = put_validator 1 (?v1\<lparr> vx_thread := 0 \<rparr>) (put_validator 0 ?v0 (?g\<lparr> stop_flag := False \<rparr>)
    \<lparr> validators_running := 1 \<rparr>)\<lparr> stop_flag := True \<rparr>"
  have vsx: "hc_validators gx = Some [?v0, ?v1]" "num_validators gx = 2" "initialized gx"
    by (simp_all add: gx_def ready_demo2 fresh_validator_def)
  have st: "host_validation_start isa (\<lambda>_. quiet_run) [(True, 7), (False, 0)] (?g, no_threads) =
      map_option (\<lambda>s'. (-1, s')) (pthread_join isa (\<lambda>_. quiet_run) 0 (gx, \<lparr> joinable = [7], bad_joins = 0 \<rparr>))"
    by (simp add: host_validation_start_def ready_demo2 upt_rec create_thread_def gx_def Let_def split: option.split)
  from quiet_run_returns [OF assms] obtain a es where
    "validator_thread_fn isa (thread_config gx) \<lparr> vstats = vx_stats ?v0, errors_found = hc_errors_found gx, verror = hc_error gx \<rparr>
      [e] (fst quiet_run) (snd quiet_run) = Some (a, es)" by blast
  then have "pthread_join isa (\<lambda>_. quiet_run) 0 (gx, \<lparr> joinable = [7], bad_joins = 0 \<rparr>) =
      Some (put_validator 0 (?v0\<lparr> vx_stats := vstats a, vx_own_markers := Some es, vx_running := False \<rparr>) gx
        \<lparr> hc_errors_found := errors_found a, hc_error := verror a, validators_running := validators_running gx - 1 \<rparr>, no_threads)"
    using vsx by (simp add: pthread_join_def Let_def)
  with st vsx show ?thesis by simp
qed

theorem failed_start_then_destroy_joins_twice_witness:
  "\<exists>g0 g1 w1 g2 w2. host_validation_init demo_env (demo_config 2) zero_ctx = (0, g0) \<and>
     host_validation_start HAVE_AVX2 (\<lambda>_. quiet_run) [(True, 7), (False, 0)] (g0, no_threads) = Some (-1, g1, w1) \<and>
     host_validation_destroy HAVE_AVX2 (\<lambda>_. quiet_run) (g1, w1) = Some (g2, w2) \<and> bad_joins w2 \<ge> 1"
proof -
  obtain e f where i: "host_validation_init demo_env (demo_config 2) zero_ctx = (0, ready_ctx (init_ctx demo_env (demo_config 2)) [[e], [f]])"
    and e: "last_seen e = 0" using demo_init(2) by blast
  from demo_failed_start [OF e] obtain g1 v where
    s: "host_validation_start HAVE_AVX2 (\<lambda>_. quiet_run) [(True, 7), (False, 0)]
       (ready_ctx (init_ctx demo_env (demo_config 2)) [[e], [f]], no_threads) = Some (-1, g1, no_threads)"
    and g1: "initialized g1" "num_validators g1 = 2" "vx_thread v = 7"
     "hc_validators g1 = Some [v, (fresh_validator 1)\<lparr> vx_own_markers := Some [f], vx_own_marker_count := 1 \<rparr>]" by blast
  from g1 obtain g2 w2 where d: "host_validation_destroy HAVE_AVX2 (\<lambda>_. quiet_run) (g1, no_threads) = Some (g2, w2)"
    by (simp add: host_validation_destroy_def free_validators_def join_validator_def pthread_join_def Let_def upt_rec
        clear_thread_def free_markers_def fresh_validator_def)
  from failed_start_then_destroy_joins_twice [OF host_validation_init_tracked [OF demo_tracked i] _ _ _ _ s d]
  have "bad_joins w2 \<ge> 1" by (simp add: ready_demo2)
  with i s d show ?thesis by blast
qed

end
