(* ===== verification/Params.thy ===== *)
theory Params
  imports Prelude
begin

text \<open>
  The enumerations of \<^verbatim>\<open>src/src/perftest_parameters.h\<close> and the part of \<^verbatim>\<open>struct perftest_parameters\<close>
  that the modelled components read.  Counts and sizes that the option parser keeps non-negative are
  natural numbers, flags are booleans.
\<close>

datatype VerbType = SEND | SEND_IMM | WRITE | WRITE_IMM | READ | ATOMIC
datatype TestType = LAT | BW | LAT_BY_BW | FS_RATE
datatype MachineType = SERVER | CLIENT | UNCHOSEN
datatype AtomicType = CMP_AND_SWAP | FETCH_AND_ADD
datatype TestMethod = ITERATIONS | DURATION
datatype DurationStates = START_STATE | SAMPLE_STATE | STOP_SAMPLE_STATE | END_STATE
datatype ctx_test_method = RUN_REGULAR | RUN_ALL | RUN_INFINITELY
datatype rate_limiter_types = HW_RATE_LIMIT | SW_RATE_LIMIT | PP_RATE_LIMIT | DISABLE_RATE_LIMIT
datatype connection_type = RC | UC | UD | RawEth | XRC | DC | SRD

abbreviation UD_ADDITION :: nat where "UD_ADDITION \<equiv> 40"
abbreviation HW_CRC_ADDITION :: nat where "HW_CRC_ADDITION \<equiv> 4"
abbreviation DEF_FLOWS :: nat where "DEF_FLOWS \<equiv> 1"
abbreviation MAX_QP_NUM :: nat where "MAX_QP_NUM \<equiv> 16384"

record perftest_parameters =
  connection_type :: connection_type
  verb :: VerbType
  tst :: TestType
  machine :: MachineType
  atomicType :: AtomicType
  test_type :: TestMethod
  test_method :: ctx_test_method
  up_size :: nat
  iters :: nat
  num_of_qps :: nat
  tx_depth :: nat
  rx_depth :: nat
  post_list :: nat
  recv_post_list :: nat
  cq_mod :: nat
  fill_count :: bool
  duplex :: bool
  use_xrc :: bool
  use_srq :: bool
  use_event :: bool
  noPeak :: bool
  flows :: nat
  flows_burst :: nat
  inline_size :: nat
  mac_fwd :: bool
  mr_per_qp :: bool
  use_null_mr :: bool
  use_unsolicited_write :: bool
  margin :: nat
  duration :: nat
  rate_limit_type :: rate_limiter_types
  burst_size :: nat
  cycle_buffer :: nat
  cache_line_size :: nat
  cqe_poll :: u16
  dynamic_cqe_poll :: bool
  work_rdma_cm :: bool
  report_per_port :: bool

text \<open>A one-queue-pair RC bandwidth test, the base of the concrete runs.\<close>

definition basic_params :: perftest_parameters where
  "basic_params = \<lparr> connection_type = RC, verb = WRITE, tst = BW, machine = CLIENT, atomicType = FETCH_AND_ADD,
     test_type = ITERATIONS, test_method = RUN_REGULAR, up_size = 64, iters = 5, num_of_qps = 1, tx_depth = 4,
     rx_depth = 16, post_list = 1, recv_post_list = 1, cq_mod = 2, fill_count = True, duplex = False,
     use_xrc = False, use_srq = False, use_event = False, noPeak = True, flows = 1, flows_burst = 1,
     inline_size = 0, mac_fwd = False, mr_per_qp = False, use_null_mr = False, use_unsolicited_write = False,
     margin = 0, duration = 0, rate_limit_type = DISABLE_RATE_LIMIT, burst_size = 0, cycle_buffer = 4096,
     cache_line_size = 64, cqe_poll = 16, dynamic_cqe_poll = False, work_rdma_cm = False,
     report_per_port = False \<rparr>"

end
