(* ===== verification/Work_Requests.thy ===== *)
theory Work_Requests
  imports Params
begin

text \<open>
  Work-request identifiers, buffer geometry and address cycling of \<^verbatim>\<open>src/src/perftest_resources.h\<close>
  and the construction of the send and receive work requests in \<open>ctx_set_send_reg_wqes\<close> and
  \<open>ctx_set_recv_wqes\<close> of \<^verbatim>\<open>src/src/perftest_resources.c\<close>.  A work request and its only
  scatter-gather entry are one record.
\<close>

section \<open>Work-request identifiers\<close>

definition get_wr_index :: "u64 \<Rightarrow> u32" where
  "get_wr_index wr_id = ucast (wr_id AND 0xFFFFFFFF)"

definition get_wr_id_qp_index :: "u64 \<Rightarrow> u16" where
  "get_wr_id_qp_index wr_id = ucast (drop_bit 32 wr_id AND 0xFFFF)"

definition build_wr_id :: "u32 \<Rightarrow> u16 \<Rightarrow> u64" where
  "build_wr_id wr_index qp_index = ucast wr_index OR push_bit 32 (ucast qp_index)"

section \<open>Buffer geometry\<close>

definition SIZE :: "connection_type \<Rightarrow> nat \<Rightarrow> bool \<Rightarrow> nat" where
  "SIZE type sz valid = (if type = UD \<and> valid then sz + UD_ADDITION else sz)"

definition BUFF_SIZE :: "nat \<Rightarrow> nat \<Rightarrow> nat" where
  "BUFF_SIZE sz cycle = (if sz < cycle then cycle else sz)"

definition ROUND_UP :: "nat \<Rightarrow> nat \<Rightarrow> nat" where
  "ROUND_UP value alignment =
     (if value mod alignment = 0 then value else alignment * (value div alignment + 1))"

definition INC :: "nat \<Rightarrow> nat \<Rightarrow> nat" where
  "INC sz cls = (if sz > cls then ROUND_UP sz cls else cls)"

text \<open>Sizes of the registered buffer, as \<open>alloc_ctx\<close> computes them.\<close>

record buffer_sizes =
  buff_size :: nat
  send_qp_buff_size :: nat
  flow_buff_size :: nat

definition ctx_cycle_buffer :: "perftest_parameters \<Rightarrow> nat" where
  "ctx_cycle_buffer p = (if mac_fwd p then up_size p * rx_depth p else cycle_buffer p)"

definition alloc_buffer_sizes :: "perftest_parameters \<Rightarrow> buffer_sizes" where
  "alloc_buffer_sizes p =
     (let num_of_qps_factor = (if mr_per_qp p then 1 else num_of_qps p);
          bs = INC (BUFF_SIZE (up_size p) (ctx_cycle_buffer p)) (cache_line_size p) * 2 * num_of_qps_factor * flows p;
          sq = bs div num_of_qps_factor div 2;
          fb = sq div flows p
      in \<lparr> buff_size = (if connection_type p = UD then bs + cache_line_size p else bs),
           send_qp_buff_size = sq, flow_buff_size = fb \<rparr>)"

section \<open>Address cycling\<close>

text \<open>\<open>increase_rem_addr\<close> and \<open>increase_loc_addr\<close> make the same step on the remote and the local address.\<close>

definition increase_addr :: "u64 \<Rightarrow> nat \<Rightarrow> nat \<Rightarrow> u64 \<Rightarrow> nat \<Rightarrow> nat \<Rightarrow> u64" where
  "increase_addr addr sz cnt prim_addr cls cycle =
     (if (cnt + 1) mod (cycle div INC sz cls) = 0 then prim_addr
      else addr + of_nat (INC sz cls))"

section \<open>Send work requests\<close>

datatype ibv_wr_opcode = IBV_WR_SEND | IBV_WR_SEND_WITH_IMM | IBV_WR_RDMA_WRITE | IBV_WR_RDMA_WRITE_WITH_IMM
  | IBV_WR_RDMA_READ | IBV_WR_ATOMIC_CMP_AND_SWP | IBV_WR_ATOMIC_FETCH_AND_ADD

fun opcode_verbs_array :: "VerbType \<Rightarrow> ibv_wr_opcode" where
  "opcode_verbs_array SEND = IBV_WR_SEND"
| "opcode_verbs_array SEND_IMM = IBV_WR_SEND_WITH_IMM"
| "opcode_verbs_array WRITE = IBV_WR_RDMA_WRITE"
| "opcode_verbs_array WRITE_IMM = IBV_WR_RDMA_WRITE_WITH_IMM"
| "opcode_verbs_array READ = IBV_WR_RDMA_READ"
| "opcode_verbs_array ATOMIC = IBV_WR_ATOMIC_FETCH_AND_ADD"

fun opcode_atomic_array :: "AtomicType \<Rightarrow> ibv_wr_opcode" where
  "opcode_atomic_array CMP_AND_SWAP = IBV_WR_ATOMIC_CMP_AND_SWP"
| "opcode_atomic_array FETCH_AND_ADD = IBV_WR_ATOMIC_FETCH_AND_ADD"

record send_wr =
  sge_addr :: u64
  sge_length :: u32
  sge_lkey :: u32
  wr_id :: u64
  wr_next :: "nat option"
  signaled :: bool
  inlined :: bool
  opcode :: ibv_wr_opcode
  imm_data :: "u32 option"
  remote_addr :: "u64 option"
  wr_rkey :: "u32 option"
  ud_remote_qpn :: "u32 option"

text \<open>The part of the context and of the remote destination that the requests are built from.\<close>

record pingpong_dest =
  d_vaddr :: u64
  d_rkey :: u32
  d_qpn :: u32

record wqe_ctx =
  buf :: "nat \<Rightarrow> u64"
  mr_lkey :: "nat \<Rightarrow> u32"
  null_mr_lkey :: u32
  cma_remote_qpn :: "nat \<Rightarrow> u32"

definition has_remote_addr :: "VerbType \<Rightarrow> bool" where
  "has_remote_addr v \<longleftrightarrow> v = WRITE \<or> v = WRITE_IMM \<or> v = READ \<or> v = ATOMIC"

definition cycles_local :: "perftest_parameters \<Rightarrow> bool" where
  "cycles_local p \<longleftrightarrow> (tst p = BW \<or> tst p = LAT_BY_BW) \<and> up_size p \<le> ctx_cycle_buffer p div 2"

text \<open>ATOMIC requests cycle the remote address whatever their size.\<close>

definition cycles_remote :: "perftest_parameters \<Rightarrow> bool" where
  "cycles_remote p \<longleftrightarrow> (tst p = BW \<or> tst p = LAT_BY_BW) \<and>
     (verb p = ATOMIC \<or> up_size p \<le> ctx_cycle_buffer p div 2)"

definition first_sge_addr :: "perftest_parameters \<Rightarrow> wqe_ctx \<Rightarrow> nat \<Rightarrow> nat \<Rightarrow> u64" where
  "first_sge_addr p c nq i =
     (if mac_fwd p \<and> mr_per_qp p
      then buf c 0 + of_nat ((nq + i) * BUFF_SIZE (up_size p) (ctx_cycle_buffer p))
      else buf c i)"

primrec list_addr :: "perftest_parameters \<Rightarrow> bool \<Rightarrow> u64 \<Rightarrow> u64 \<Rightarrow> nat \<Rightarrow> u64" where
  "list_addr p cyc prim first 0 = first"
| "list_addr p cyc prim first (Suc j) =
     (if cyc then increase_addr (list_addr p cyc prim first j) (up_size p) j prim (cache_line_size p) (ctx_cycle_buffer p)
      else list_addr p cyc prim first j)"

text \<open>The byte order of immediate data, on a little-endian host.\<close>

definition htobe32 :: "u32 \<Rightarrow> u32" where
  "htobe32 w = push_bit 24 w OR (push_bit 8 w AND 0xFF0000) OR (drop_bit 8 w AND 0xFF00) OR drop_bit 24 w"

abbreviation DEF_IMM :: u32 where "DEF_IMM \<equiv> 42"

definition send_wr_at :: "perftest_parameters \<Rightarrow> wqe_ctx \<Rightarrow> (nat \<Rightarrow> pingpong_dest) \<Rightarrow> nat \<Rightarrow> nat \<Rightarrow> nat \<Rightarrow> nat \<Rightarrow> send_wr" where
  "send_wr_at p c rem_dest nq xrc_offset i j =
     (let d = rem_dest (xrc_offset + i) in
      \<lparr> sge_addr = list_addr p (cycles_local p) (buf c i) (first_sge_addr p c nq i) j,
        sge_length = of_nat (if connection_type p = RawEth then up_size p - HW_CRC_ADDITION else up_size p),
        sge_lkey = (if use_null_mr p then null_mr_lkey c else mr_lkey c i),
        wr_id = build_wr_id (of_nat (i * post_list p + j)) (of_nat i),
        wr_next = (if j = post_list p - 1 then None else Some (i * post_list p + j + 1)),
        signaled = ((j + 1) mod cq_mod p = 0),
        inlined = (verb p \<in> {SEND, SEND_IMM, WRITE, WRITE_IMM} \<and> up_size p \<le> inline_size p),
        opcode = (if verb p = ATOMIC then opcode_atomic_array (atomicType p) else opcode_verbs_array (verb p)),
        imm_data = (if verb p = SEND_IMM \<or> verb p = WRITE_IMM then Some (htobe32 DEF_IMM) else None),
        remote_addr = (if has_remote_addr (verb p)
                       then Some (list_addr p (cycles_remote p) (d_vaddr d) (d_vaddr d) j) else None),
        wr_rkey = (if has_remote_addr (verb p) then Some (d_rkey d) else None),
        ud_remote_qpn = (if (verb p = SEND \<or> verb p = SEND_IMM) \<and> (connection_type p = UD \<or> connection_type p = SRD)
                         then Some (if work_rdma_cm p then cma_remote_qpn c i else d_qpn d) else None) \<rparr>)"

definition ctx_set_send_reg_wqes :: "perftest_parameters \<Rightarrow> wqe_ctx \<Rightarrow> (nat \<Rightarrow> pingpong_dest) \<Rightarrow> send_wr list" where
  "ctx_set_send_reg_wqes p c rem_dest =
     (let half = (use_xrc p \<or> connection_type p = DC) \<and> (duplex p \<or> tst p = LAT);
          nq = (if half then num_of_qps p div 2 else num_of_qps p);
          xrc_offset = (if half then nq else 0)
      in concat (map (\<lambda>i. map (send_wr_at p c rem_dest nq xrc_offset i) [0..<post_list p]) [0..<nq]))"

section \<open>Receive work requests\<close>

record recv_wr =
  r_sge_addr :: u64
  r_sge_length :: nat
  r_sge_lkey :: u32
  r_wr_id :: u64
  r_next :: "nat option"

text \<open>\<open>mtu\<close> is the path MTU in bytes, \<open>is_hns\<close> says whether the device is an HNS one.\<close>

definition set_recv_length :: "perftest_parameters \<Rightarrow> bool \<Rightarrow> nat \<Rightarrow> nat" where
  "set_recv_length p is_hns mtu =
     (let length = SIZE (connection_type p) (up_size p) True
      in if \<not> is_hns \<and> use_srq p then ((length + mtu - 1) div mtu) * mtu else length)"

definition recv_half :: "perftest_parameters \<Rightarrow> bool" where
  "recv_half p \<longleftrightarrow> (use_xrc p \<or> connection_type p = DC) \<and> (duplex p \<or> tst p = LAT)"

definition recv_base_addr :: "perftest_parameters \<Rightarrow> wqe_ctx \<Rightarrow> nat \<Rightarrow> nat \<Rightarrow> u64" where
  "recv_base_addr p c i k =
     (let nq = (if recv_half p then num_of_qps p div 2 else num_of_qps p);
          a = (if \<not> mr_per_qp p then buf c 0 + of_nat ((nq + k) * send_qp_buff_size (alloc_buffer_sizes p)) else buf c i)
      in if connection_type p = UD then a + of_nat (cache_line_size p) - of_nat UD_ADDITION else a)"

definition recv_wr_at :: "perftest_parameters \<Rightarrow> wqe_ctx \<Rightarrow> nat \<Rightarrow> nat \<Rightarrow> nat \<Rightarrow> nat \<Rightarrow> recv_wr" where
  "recv_wr_at p c len i k j =
     \<lparr> r_sge_addr = list_addr p (cycles_local p) (recv_base_addr p c i k) (recv_base_addr p c i k) j,
       r_sge_length = len,
       r_sge_lkey = (if use_null_mr p then null_mr_lkey c else mr_lkey c i),
       r_wr_id = build_wr_id (of_nat (i * recv_post_list p + j)) (of_nat i),
       r_next = (if j = recv_post_list p - 1 then None else Some (i * recv_post_list p + j + 1)) \<rparr>"

definition size_per_qp :: "perftest_parameters \<Rightarrow> nat" where
  "size_per_qp p = (let s = rx_depth p div recv_post_list p in if use_srq p then s div num_of_qps p else s)"

definition rposted :: "perftest_parameters \<Rightarrow> nat" where
  "rposted p = size_per_qp p * recv_post_list p"

text \<open>
  The addresses under which the receive lists of queue pair \<open>i\<close> are posted, one per
  \<^verbatim>\<open>ibv_post_recv\<close>: with single requests the address moves on after each one.
\<close>

definition prepost_addrs :: "perftest_parameters \<Rightarrow> u64 \<Rightarrow> u64 list" where
  "prepost_addrs p base = map (list_addr p (recv_post_list p = 1 \<and> cycles_local p) base base) [0..<size_per_qp p]"

definition recv_lists :: "perftest_parameters \<Rightarrow> wqe_ctx \<Rightarrow> bool \<Rightarrow> nat \<Rightarrow> (recv_wr list \<times> u64 list) list" where
  "recv_lists p c is_hns mtu =
     (let len = (if verb p = WRITE_IMM then 0 else set_recv_length p is_hns mtu);
          i0 = (if recv_half p then num_of_qps p div 2 else 0)
      in map (\<lambda>k. let i = i0 + k in
                (map (recv_wr_at p c len i k) [0..<recv_post_list p], prepost_addrs p (recv_base_addr p c i k)))
             [0..<num_of_qps p - i0])"

text \<open>\<open>post_ok k j\<close> says whether the \<open>j\<close>-th \<^verbatim>\<open>ibv_post_recv\<close> of the \<open>k\<close>-th queue pair succeeds; the first failure ends the function.\<close>

definition ctx_set_recv_wqes :: "perftest_parameters \<Rightarrow> wqe_ctx \<Rightarrow> bool \<Rightarrow> nat \<Rightarrow> (nat \<Rightarrow> nat \<Rightarrow> bool) \<Rightarrow> (recv_wr list \<times> u64 list) list option" where
  "ctx_set_recv_wqes p c is_hns mtu post_ok =
     (let l = recv_lists p c is_hns mtu
      in if list_all (\<lambda>k. list_all (post_ok k) [0..<size_per_qp p]) [0..<length l] then Some l else None)"

section \<open>Facts on identifiers\<close>

lemma build_wr_id_nat: "unat (build_wr_id w q) = unat w + unat q * 2 ^ 32"
proof -
  have disj: "(ucast w :: u64) AND push_bit 32 (ucast q) = 0"
    by (rule bit_word_eqI) (auto simp: bit_simps dest: bit_imp_le_length)
  have w: "unat (ucast w :: u64) = unat w" by (rule unat_ucast_up) simp
  have q: "unat (ucast q :: u64) = unat q" by (rule unat_ucast_up) simp
  have "unat q < 2 ^ 16" using unat_lt_len [of q] by simp
  then have p: "unat (push_bit 32 (ucast q :: u64)) = unat q * 2 ^ 32"
    unfolding push_bit_eq_mult by (subst unat_mult_exact) (simp_all add: q)
  have "build_wr_id w q = ucast w + push_bit 32 (ucast q)"
    unfolding build_wr_id_def by (rule disjunctive_add [symmetric]) (use disj in \<open>auto simp: bit_eq_iff bit_simps\<close>)
  also have "unat \<dots> = unat w + unat q * 2 ^ 32"
    using \<open>unat q < 2 ^ 16\<close> unat_lt_len [of w] by (subst unat_add_exact) (simp_all add: w p)
  finally show ?thesis .
qed

section \<open>Facts on cycling addresses\<close>

lemma ROUND_UP_props:
  assumes "0 < al"
  shows "v \<le> ROUND_UP v al" "ROUND_UP v al < v + al" "al dvd ROUND_UP v al"
proof -
  have d: "v = al * (v div al) + v mod al" by simp
  have m: "v mod al < al" using assms by simp
  have e: "al * (v div al + 1) = al * (v div al) + al" by simp
  show "v \<le> ROUND_UP v al" "ROUND_UP v al < v + al"
    unfolding ROUND_UP_def e using d m assms by (cases "v mod al = 0"; simp; linarith)+
  show "al dvd ROUND_UP v al" by (auto simp: ROUND_UP_def)
qed

lemma INC_props:
  assumes "0 < cls"
  shows "0 < INC sz cls" "sz \<le> INC sz cls" "INC sz cls < max sz cls + cls" "cls dvd INC sz cls"
  using ROUND_UP_props [OF assms, of sz] assms by (auto simp: INC_def)

lemma INC_fits:
  assumes "0 < cls" "cls \<le> cycle div 2" "sz \<le> cycle div 2"
  shows "INC sz cls \<le> cycle" "0 < cycle div INC sz cls"
proof -
  show le: "INC sz cls \<le> cycle" using INC_props(3) [OF assms(1), of sz] assms(2,3) by linarith
  then show "0 < cycle div INC sz cls" using INC_props(1) [OF assms(1)] by (simp add: div_greater_zero_iff)
qed

text \<open>Cycling walks through the slots of the cycle buffer and starts over.\<close>

lemma list_addr_cycles:
  assumes "0 < ctx_cycle_buffer p div INC (up_size p) (cache_line_size p)"
  shows "list_addr p True prim prim j =
    prim + of_nat (j mod (ctx_cycle_buffer p div INC (up_size p) (cache_line_size p)) * INC (up_size p) (cache_line_size p))"
proof (induction j)
  case (Suc j)
  let ?n = "ctx_cycle_buffer p div INC (up_size p) (cache_line_size p)"
  show ?case
    using Suc assms by (auto simp: increase_addr_def mod_Suc algebra_simps)
qed simp

lemma list_addr_fixed: "list_addr p False prim first j = first"
  by (induction j) simp_all

lemma slot_fits:
  fixes sz cls cycle j :: nat
  assumes "0 < cls" "cls \<le> cycle div 2" "sz \<le> cycle div 2"
  shows "j mod (cycle div INC sz cls) * INC sz cls + sz \<le> cycle"
proof -
  let ?n = "cycle div INC sz cls"
  have "j mod ?n + 1 \<le> ?n" using INC_fits(2) [OF assms] by (simp add: Suc_leI)
  then have "(j mod ?n + 1) * INC sz cls \<le> ?n * INC sz cls" by (rule mult_le_mono1)
  also have "\<dots> \<le> cycle" by (rule div_times_less_eq_dividend)
  finally show ?thesis using INC_props(2) [OF assms(1), of sz] by (simp add: algebra_simps)
qed

lemma list_addr_in_buffer:
  assumes "0 < cache_line_size p" "cache_line_size p \<le> ctx_cycle_buffer p div 2"
    "cyc \<Longrightarrow> up_size p \<le> ctx_cycle_buffer p div 2"
  obtains off where "list_addr p cyc prim prim j = prim + of_nat off" "off + up_size p \<le> BUFF_SIZE (up_size p) (ctx_cycle_buffer p)"
proof (cases cyc)
  case True
  let ?n = "ctx_cycle_buffer p div INC (up_size p) (cache_line_size p)"
  have "list_addr p cyc prim prim j = prim + of_nat (j mod ?n * INC (up_size p) (cache_line_size p))"
    using list_addr_cycles INC_fits(2) [OF assms(1,2) assms(3) [OF True]] True by simp
  moreover have "j mod ?n * INC (up_size p) (cache_line_size p) + up_size p \<le> BUFF_SIZE (up_size p) (ctx_cycle_buffer p)"
    by (rule le_trans [OF slot_fits [OF assms(1,2) assms(3) [OF True]]]) (simp add: BUFF_SIZE_def)
  ultimately show ?thesis by (rule that)
next
  case False
  then show ?thesis using that [of 0] by (simp add: list_addr_fixed BUFF_SIZE_def)
qed

section \<open>Facts on uniform lists\<close>

lemma concat_uniform_length: "length (concat (map (\<lambda>i. map (f i) [0..<m]) [0..<n])) = n * m"
  by (induction n) simp_all

lemma concat_uniform_nth:
  "i < n \<Longrightarrow> j < m \<Longrightarrow> concat (map (\<lambda>i. map (f i) [0..<m]) [0..<n]) ! (i * m + j) = f i j"
proof (induction n)
  case (Suc n)
  show ?case
  proof (cases "i < n")
    case True
    have "i * m + j < n * m"
    proof -
      have "i * m + j < (i + 1) * m" using Suc.prems(2) by (simp add: algebra_simps)
      also have "\<dots> \<le> n * m" using True by (intro mult_le_mono1) simp
      finally show ?thesis .
    qed
    with Suc True show ?thesis by (simp add: nth_append concat_uniform_length)
  next
    case False
    then have "i = n" using Suc.prems(1) by simp
    with Suc.prems(2) show ?thesis by (simp add: nth_append concat_uniform_length)
  qed
qed simp

lemma wr_id_parts:
  "get_wr_index (build_wr_id w q) = w" "get_wr_id_qp_index (build_wr_id w q) = q"
proof -
  have m: "(0xFFFFFFFF :: u64) = mask 32" "(0xFFFF :: u64) = mask 16" by (simp_all add: mask_eq_exp_minus_1)
  show "get_wr_index (build_wr_id w q) = w" "get_wr_id_qp_index (build_wr_id w q) = q"
    unfolding get_wr_index_def get_wr_id_qp_index_def build_wr_id_def m
    by (rule bit_word_eqI, auto simp: bit_simps dest: bit_imp_le_length)+
qed

lemma alloc_sizes:
  assumes "0 < num_of_qps p" "0 < flows p"
  defines "slot \<equiv> INC (BUFF_SIZE (up_size p) (ctx_cycle_buffer p)) (cache_line_size p)"
  shows "flow_buff_size (alloc_buffer_sizes p) = slot" "send_qp_buff_size (alloc_buffer_sizes p) = slot * flows p"
    "buff_size (alloc_buffer_sizes p) = 2 * (if mr_per_qp p then 1 else num_of_qps p) * (slot * flows p) +
       (if connection_type p = UD then cache_line_size p else 0)"
proof -
  let ?q = "if mr_per_qp p then 1 else num_of_qps p"
  have q: "0 < ?q" using assms(1) by simp
  have "slot * 2 * ?q * flows p = ?q * (2 * (slot * flows p))" by simp
  then have d: "slot * 2 * ?q * flows p div ?q div 2 = slot * flows p" using q by (metis nonzero_mult_div_cancel_left less_numeral_extra(3) zero_less_numeral neq0_conv)
  show "flow_buff_size (alloc_buffer_sizes p) = slot" "send_qp_buff_size (alloc_buffer_sizes p) = slot * flows p"
    "buff_size (alloc_buffer_sizes p) = 2 * ?q * (slot * flows p) + (if connection_type p = UD then cache_line_size p else 0)"
    unfolding alloc_buffer_sizes_def Let_def slot_def [symmetric] d using assms(2) by simp_all
qed

lemma BUFF_SIZE_le_slot: "0 < cls \<Longrightarrow> BUFF_SIZE sz cycle \<le> INC (BUFF_SIZE sz cycle) cls"
  by (rule INC_props)

text \<open>The address of the \<open>k\<close>-th receive area, as an offset of the registered buffer.\<close>

definition recv_area :: "perftest_parameters \<Rightarrow> nat \<Rightarrow> nat" where
  "recv_area p k = ((if recv_half p then num_of_qps p div 2 else num_of_qps p) + k) * send_qp_buff_size (alloc_buffer_sizes p)"

lemma recv_slot_in_area:
  assumes geo: "0 < cache_line_size p" "cache_line_size p \<le> ctx_cycle_buffer p div 2" "0 < num_of_qps p" "0 < flows p"
    "connection_type p = UD \<Longrightarrow> UD_ADDITION \<le> cache_line_size p" "\<not> mr_per_qp p"
    and cyc: "cyc \<Longrightarrow> up_size p \<le> ctx_cycle_buffer p div 2"
  shows "\<exists>off. list_addr p cyc (recv_base_addr p c i k) (recv_base_addr p c i k) j = buf c 0 + of_nat off \<and>
     recv_area p k \<le> off \<and>
     off + SIZE (connection_type p) (up_size p) True \<le> recv_area p (k + 1) + (if connection_type p = UD then cache_line_size p else 0)"
proof -
  let ?a = "recv_base_addr p c i k" and ?s = "send_qp_buff_size (alloc_buffer_sizes p)"
  let ?ud = "if connection_type p = UD then cache_line_size p - UD_ADDITION else 0"
  obtain off where off: "list_addr p cyc ?a ?a j = ?a + of_nat off" "off + up_size p \<le> BUFF_SIZE (up_size p) (ctx_cycle_buffer p)"
    using list_addr_in_buffer [OF geo(1,2) cyc] by blast
  have "BUFF_SIZE (up_size p) (ctx_cycle_buffer p) * 1 \<le> ?s"
    unfolding alloc_sizes(2) [OF geo(3,4)] using BUFF_SIZE_le_slot [OF geo(1)] geo(4) by (intro mult_le_mono) simp_all
  with off(2) have fit: "off + up_size p \<le> ?s" by simp
  have a: "?a = buf c 0 + of_nat (recv_area p k + ?ud)"
    using geo(5,6) by (simp add: recv_base_addr_def recv_area_def Let_def of_nat_diff)
  have nx: "recv_area p (k + 1) = recv_area p k + ?s" by (simp add: recv_area_def algebra_simps)
  have "list_addr p cyc ?a ?a j = buf c 0 + of_nat (recv_area p k + ?ud + off)" unfolding off(1) by (simp add: a)
  moreover have "recv_area p k + ?ud + off + SIZE (connection_type p) (up_size p) True \<le>
      recv_area p (k + 1) + (if connection_type p = UD then cache_line_size p else 0)"
    unfolding nx using fit geo(5) by (simp add: SIZE_def)
  ultimately show ?thesis by (intro exI conjI) (assumption, simp_all)
qed

section \<open>Properties\<close>

text \<open>
  Work-request identifiers carry their two indices: whatever 32-bit request index and 16-bit
  queue-pair index are packed, the two accessors give them back.
\<close>

theorem wr_id_roundtrip:
  "get_wr_index (build_wr_id wr_index qp_index) = wr_index \<and> get_wr_id_qp_index (build_wr_id wr_index qp_index) = qp_index"
  by (simp add: wr_id_parts)

text \<open>
  C35. The send requests of a queue pair form one list of \<open>post_list\<close> requests in array order, their
  identifiers name request and queue pair, and every local and remote buffer they name lies inside
  the cycle buffer of its queue pair: offset plus message size never exceeds the buffer of one flow.
\<close>

theorem send_requests_well_formed:
  assumes geo: "0 < cache_line_size p" "cache_line_size p \<le> ctx_cycle_buffer p div 2" "0 < num_of_qps p" "0 < flows p"
    and fwd: "\<not> mac_fwd p" "verb p \<noteq> ATOMIC \<or> up_size p \<le> ctx_cycle_buffer p div 2"
    and nq: "nq = (if (use_xrc p \<or> connection_type p = DC) \<and> (duplex p \<or> tst p = LAT) then num_of_qps p div 2 else num_of_qps p)"
    and ij: "i < nq" "j < post_list p" "nq * post_list p \<le> 2 ^ 32" "nq \<le> 2 ^ 16"
    and w: "w = ctx_set_send_reg_wqes p c rem_dest ! (i * post_list p + j)"
  shows "length (ctx_set_send_reg_wqes p c rem_dest) = nq * post_list p \<and>
    unat (get_wr_index (wr_id w)) = i * post_list p + j \<and> unat (get_wr_id_qp_index (wr_id w)) = i \<and>
    wr_next w = (if j + 1 = post_list p then None else Some (i * post_list p + j + 1)) \<and>
    (\<exists>off. sge_addr w = buf c i + of_nat off \<and> off + up_size p \<le> flow_buff_size (alloc_buffer_sizes p)) \<and>
    (has_remote_addr (verb p) \<longrightarrow> (\<exists>off k. remote_addr w = Some (d_vaddr (rem_dest k) + of_nat off) \<and> wr_rkey w = Some (d_rkey (rem_dest k)) \<and>
       off + up_size p \<le> flow_buff_size (alloc_buffer_sizes p)))"
proof -
  define xo where "xo = (if (use_xrc p \<or> connection_type p = DC) \<and> (duplex p \<or> tst p = LAT) then nq else 0)"
  have l: "ctx_set_send_reg_wqes p c rem_dest =
      concat (map (\<lambda>i. map (send_wr_at p c rem_dest nq xo i) [0..<post_list p]) [0..<nq])"
    by (simp add: ctx_set_send_reg_wqes_def Let_def nq xo_def)
  have wij: "w = send_wr_at p c rem_dest nq xo i j" unfolding w l using ij(1,2) by (rule concat_uniform_nth)
  have "i * post_list p + j < (i + 1) * post_list p" using ij(2) by simp
  also have "\<dots> \<le> nq * post_list p" using ij(1) by (intro mult_le_mono1) simp
  finally have ix: "i * post_list p + j < 2 ^ 32" using ij(3) by simp
  have b: "BUFF_SIZE (up_size p) (ctx_cycle_buffer p) \<le> flow_buff_size (alloc_buffer_sizes p)"
    using BUFF_SIZE_le_slot [OF geo(1)] by (simp add: alloc_sizes [OF geo(3,4)])
  obtain off where off: "list_addr p (cycles_local p) (buf c i) (buf c i) j = buf c i + of_nat off"
    "off + up_size p \<le> BUFF_SIZE (up_size p) (ctx_cycle_buffer p)"
    using list_addr_in_buffer [OF geo(1,2), of "cycles_local p" "buf c i" j] by (auto simp: cycles_local_def)
  let ?v = "d_vaddr (rem_dest (xo + i))"
  obtain roff where roff: "list_addr p (cycles_remote p) ?v ?v j = ?v + of_nat roff"
    "roff + up_size p \<le> BUFF_SIZE (up_size p) (ctx_cycle_buffer p)"
    using list_addr_in_buffer [OF geo(1,2), of "cycles_remote p" ?v j] fwd(2) by (auto simp: cycles_remote_def)
  have ids: "unat (get_wr_index (wr_id w)) = i * post_list p + j" "unat (get_wr_id_qp_index (wr_id w)) = i"
    using ix ij(1,4) by (simp_all only: wij send_wr_at_def Let_def send_wr.simps wr_id_parts unat_of_nat) simp_all
  have nx: "wr_next w = (if j + 1 = post_list p then None else Some (i * post_list p + j + 1))"
    using ij(2) by (auto simp: wij send_wr_at_def Let_def)
  have sg: "sge_addr w = buf c i + of_nat off"
    using off(1) fwd(1) by (simp add: wij send_wr_at_def Let_def first_sge_addr_def)
  have rm: "has_remote_addr (verb p) \<Longrightarrow> remote_addr w = Some (?v + of_nat roff) \<and> wr_rkey w = Some (d_rkey (rem_dest (xo + i)))"
    using roff(1) by (simp add: wij send_wr_at_def Let_def)
  have len: "length (ctx_set_send_reg_wqes p c rem_dest) = nq * post_list p" unfolding l by (rule concat_uniform_length)
  from len ids nx sg rm le_trans [OF off(2) b] le_trans [OF roff(2) b] show ?thesis by blast
qed

theorem send_requests_well_formed_witness:
  "wr_next (ctx_set_send_reg_wqes (basic_params\<lparr> num_of_qps := 2, post_list := 3 \<rparr>)
     \<lparr> buf = \<lambda>_. 4096, mr_lkey = \<lambda>_. 1, null_mr_lkey = 0, cma_remote_qpn = \<lambda>_. 0 \<rparr>
     (\<lambda>_. \<lparr> d_vaddr = 8192, d_rkey = 7, d_qpn = 9 \<rparr>) ! (1 * 3 + 1)) = Some 5"
  using send_requests_well_formed [of "basic_params\<lparr> num_of_qps := 2, post_list := 3 \<rparr>" 2 1 1 _
     "\<lparr> buf = \<lambda>_. 4096, mr_lkey = \<lambda>_. 1, null_mr_lkey = 0, cma_remote_qpn = \<lambda>_. 0 \<rparr>"
     "\<lambda>_. \<lparr> d_vaddr = 8192, d_rkey = 7, d_qpn = 9 \<rparr>", OF _ _ _ _ _ _ _ _ _ _ _ refl]
  by (simp add: basic_params_def ctx_cycle_buffer_def)

text \<open>
  C36. Without a shared receive queue and with one registered buffer for all queue pairs, every receive request and every
  address it is posted with lies in the receive area of its queue pair: it starts at or after the area's start, which lies
  above all send areas, and ends within the registered buffer.  (A cache line fits into half of the cycle buffer and, for UD,
  has room for the header that comes with a datagram.)  For shared receive queues see \<open>shared_queue_request_leaves_buffer\<close>.
\<close>

theorem receive_requests_in_buffer:
  assumes geo: "0 < cache_line_size p" "cache_line_size p \<le> ctx_cycle_buffer p div 2" "0 < num_of_qps p" "0 < flows p"
    "connection_type p = UD \<Longrightarrow> UD_ADDITION \<le> cache_line_size p" "\<not> mr_per_qp p" "\<not> use_srq p"
    and ok: "ctx_set_recv_wqes p c is_hns mtu post_ok = Some ls" and k: "k < length ls" "ls ! k = (rs, addrs)"
  shows "(\<forall>r \<in> set rs. \<exists>off. r_sge_addr r = buf c 0 + of_nat off \<and> recv_area p k \<le> off \<and>
       off + r_sge_length r \<le> buff_size (alloc_buffer_sizes p)) \<and>
    (\<forall>a \<in> set addrs. \<exists>off. a = buf c 0 + of_nat off \<and> recv_area p k \<le> off \<and>
       off + SIZE (connection_type p) (up_size p) True \<le> buff_size (alloc_buffer_sizes p)) \<and>
    length addrs * recv_post_list p = rposted p"
proof -
  define i0 where "i0 = (if recv_half p then num_of_qps p div 2 else 0)"
  define len where "len = (if verb p = WRITE_IMM then 0 else set_recv_length p is_hns mtu)"
  have l: "ls = map (\<lambda>k. (map (recv_wr_at p c len (i0 + k) k) [0..<recv_post_list p],
      prepost_addrs p (recv_base_addr p c (i0 + k) k))) [0..<num_of_qps p - i0]"
    using ok by (auto simp: ctx_set_recv_wqes_def recv_lists_def i0_def len_def Let_def split: if_splits)
  have kq: "k < num_of_qps p - i0" using k(1) by (simp add: l)
  then have rs: "rs = map (recv_wr_at p c len (i0 + k) k) [0..<recv_post_list p]"
    and addrs: "addrs = prepost_addrs p (recv_base_addr p c (i0 + k) k)" using k(2) by (auto simp: l)
  have len: "len \<le> SIZE (connection_type p) (up_size p) True"
    using geo(7) by (simp add: len_def set_recv_length_def Let_def)
  have "(if recv_half p then num_of_qps p div 2 else num_of_qps p) + (k + 1) \<le> 2 * num_of_qps p" using kq by (auto simp: i0_def split: if_splits)
  then have "recv_area p (k + 1) \<le> 2 * num_of_qps p * send_qp_buff_size (alloc_buffer_sizes p)"
    unfolding recv_area_def by (rule mult_le_mono1)
  then have lim: "recv_area p (k + 1) + (if connection_type p = UD then cache_line_size p else 0) \<le> buff_size (alloc_buffer_sizes p)"
    using geo(6) by (simp add: alloc_sizes [OF geo(3,4)])
  have slot: "\<exists>off. list_addr p cyc (recv_base_addr p c (i0 + k) k) (recv_base_addr p c (i0 + k) k) j = buf c 0 + of_nat off \<and>
      recv_area p k \<le> off \<and> off + SIZE (connection_type p) (up_size p) True \<le> buff_size (alloc_buffer_sizes p)"
    if "cyc \<Longrightarrow> cycles_local p" for cyc j
    using recv_slot_in_area [OF geo(1-6), of cyc c "i0 + k" k j] that lim by (force simp: cycles_local_def)
  have "\<exists>off. r_sge_addr r = buf c 0 + of_nat off \<and> recv_area p k \<le> off \<and> off + r_sge_length r \<le> buff_size (alloc_buffer_sizes p)"
    if r: "r \<in> set rs" for r
  proof -
    from r obtain j where "r_sge_addr r = list_addr p (cycles_local p) (recv_base_addr p c (i0 + k) k) (recv_base_addr p c (i0 + k) k) j"
      and "r_sge_length r = len" by (auto simp: rs recv_wr_at_def)
    with slot [of "cycles_local p" j] len show ?thesis by (metis add_left_mono le_trans)
  qed
  moreover have "\<exists>off. a = buf c 0 + of_nat off \<and> recv_area p k \<le> off \<and>
       off + SIZE (connection_type p) (up_size p) True \<le> buff_size (alloc_buffer_sizes p)" if "a \<in> set addrs" for a
    using that slot [of "recv_post_list p = 1 \<and> cycles_local p"] by (auto simp: addrs prepost_addrs_def)
  moreover have "length addrs * recv_post_list p = rposted p" by (simp add: addrs prepost_addrs_def rposted_def)
  ultimately show ?thesis by blast
qed

theorem receive_requests_in_buffer_witness:
  "\<exists>ls. ctx_set_recv_wqes basic_params \<lparr> buf = \<lambda>_. 4096, mr_lkey = \<lambda>_. 1, null_mr_lkey = 0, cma_remote_qpn = \<lambda>_. 0 \<rparr>
     False 1024 (\<lambda>_ _. True) = Some ls \<and> length (snd (ls ! 0)) = 16"
proof -
  let ?c = "\<lparr> buf = \<lambda>_. 4096, mr_lkey = \<lambda>_. 1, null_mr_lkey = 0, cma_remote_qpn = \<lambda>_. 0 \<rparr> :: wqe_ctx"
  let ?l = "recv_lists basic_params ?c False 1024"
  have ok: "ctx_set_recv_wqes basic_params ?c False 1024 (\<lambda>_ _. True) = Some ?l"
    by (simp add: ctx_set_recv_wqes_def list_all_iff)
  have k: "0 < length ?l" by (simp add: recv_lists_def recv_half_def basic_params_def Let_def)
  have "length (snd (?l ! 0)) * recv_post_list basic_params = rposted basic_params"
    using receive_requests_in_buffer [OF _ _ _ _ _ _ _ ok k prod.collapse [symmetric]]
    by (simp add: basic_params_def ctx_cycle_buffer_def)
  then have "length (snd (?l ! 0)) = 16" by (simp add: basic_params_def rposted_def size_per_qp_def)
  with ok show ?thesis by blast
qed

text \<open>
  With a shared receive queue the length of a request is rounded up to the MTU, and the request can end behind the
  registered buffer: here the second of a list of two does, for messages of 64 bytes and an MTU of 4096.
\<close>

lemma shared_queue_request_leaves_buffer:
  defines "p \<equiv> basic_params\<lparr> verb := SEND, use_srq := True, recv_post_list := 2, up_size := 64 \<rparr>"
  shows "buff_size (alloc_buffer_sizes p) <
    unat (r_sge_addr (recv_wr_at p \<lparr> buf = \<lambda>_. 0, mr_lkey = \<lambda>_. 1, null_mr_lkey = 0, cma_remote_qpn = \<lambda>_. 0 \<rparr> (set_recv_length p False 4096) 0 0 1)) +
    r_sge_length (recv_wr_at p \<lparr> buf = \<lambda>_. 0, mr_lkey = \<lambda>_. 1, null_mr_lkey = 0, cma_remote_qpn = \<lambda>_. 0 \<rparr> (set_recv_length p False 4096) 0 0 1)"
  unfolding p_def
  by (simp add: basic_params_def alloc_buffer_sizes_def recv_wr_at_def recv_base_addr_def recv_half_def set_recv_length_def list_addr_def
      ctx_cycle_buffer_def BUFF_SIZE_def INC_def ROUND_UP_def SIZE_def Let_def cycles_local_def increase_addr_def)

end
