(* ===== verification/Polling.thy ===== *)
theory Polling
  imports Params
begin

text \<open>
  The adaptive completion polling of \<^verbatim>\<open>src/src/perftest_resources.c\<close>: \<open>init_dyn_poll_ctx\<close>,
  \<open>poll_cq_adaptive\<close> and \<open>poll_completions\<close>.  The result \<open>ne\<close> of \<^verbatim>\<open>ibv_poll_cq\<close> is an input: at most the
  number of entries asked for, negative on failure.  The threshold \<open>0.85\<close> is compared exactly, as
  \<open>20 * ne < 17 * curr_size\<close>: for sizes up to 65535 the rounding of the product in double precision
  never moves it across an integer.
\<close>

record dyn_poll_state =
  curr_size :: int
  stable_iters :: int
  last_ne :: int

record dyn_poll_ctx =
  dstate :: dyn_poll_state
  stabilization_iters :: nat

abbreviation poll_min :: int where "poll_min \<equiv> 16"
abbreviation poll_max :: int where "poll_max \<equiv> 1024"
abbreviation poll_stabilize :: int where "poll_stabilize \<equiv> 10"

definition init_dyn_poll_ctx :: "perftest_parameters \<Rightarrow> dyn_poll_ctx" where
  "init_dyn_poll_ctx p =
     \<lparr> dstate = \<lparr> curr_size = (if dynamic_cqe_poll p then 1024 else uint (cqe_poll p)), stable_iters = 0, last_ne = 0 \<rparr>,
       stabilization_iters = (if test_type p = ITERATIONS then min (iters p div 4) MAX_QP_NUM
                              else max (num_of_qps p * 3) 1000) \<rparr>"

text \<open>One adaptive poll that returned \<open>ne\<close>: the new state and whether adaptation stays enabled.\<close>

definition poll_cq_adaptive :: "dyn_poll_state \<Rightarrow> int \<Rightarrow> dyn_poll_state \<times> bool" where
  "poll_cq_adaptive s ne =
     (let (s', en) =
        (if ne = curr_size s \<and> curr_size s < poll_max
         then (s\<lparr> curr_size := min ((curr_size s + ne) div 2) poll_max, stable_iters := 0 \<rparr>, True)
         else if 20 * ne < 17 * curr_size s
         then (if curr_size s > poll_min
               then (s\<lparr> curr_size := max ((curr_size s + ne) div 2) poll_min, stable_iters := 0 \<rparr>, True)
               else (s, True))
         else if ne = last_ne s
         then (s\<lparr> stable_iters := stable_iters s + 1 \<rparr>, \<not> stable_iters s + 1 \<ge> poll_stabilize)
         else (s\<lparr> stable_iters := 0 \<rparr>, True))
      in (s'\<lparr> last_ne := ne \<rparr>, en))"

text \<open>The answer of the device is a function of the number of entries asked for.\<close>

definition poll_completions :: "dyn_poll_ctx \<Rightarrow> (int \<Rightarrow> int) \<Rightarrow> nat \<Rightarrow> bool \<Rightarrow> int \<times> dyn_poll_ctx \<times> bool" where
  "poll_completions ctx device curr_count dynamic_enabled =
     (let ne = device (curr_size (dstate ctx)) in
      if dynamic_enabled \<and> curr_count < stabilization_iters ctx
      then (let (s', en) = poll_cq_adaptive (dstate ctx) ne in (ne, ctx\<lparr> dstate := s' \<rparr>, en))
      else (ne, ctx, dynamic_enabled))"

section \<open>Repeated polling\<close>

text \<open>A sequence of polls: the sizes asked for, in order.\<close>

fun poll_sizes :: "dyn_poll_ctx \<Rightarrow> (int \<Rightarrow> int) list \<Rightarrow> nat list \<Rightarrow> bool \<Rightarrow> int list" where
  "poll_sizes ctx (d # ds) (n # ns) en =
     (let (ne, ctx', en') = poll_completions ctx d n en in curr_size (dstate ctx) # poll_sizes ctx' ds ns en')"
| "poll_sizes ctx _ _ en = []"

lemma poll_cq_adaptive_size:
  assumes "ne \<le> curr_size s" "poll_min \<le> curr_size s" "curr_size s \<le> poll_max"
  shows "poll_min \<le> curr_size (fst (poll_cq_adaptive s ne))" "curr_size (fst (poll_cq_adaptive s ne)) \<le> curr_size s"
proof -
  have h: "(curr_size s + ne) div 2 \<le> curr_size s" "ne = curr_size s \<Longrightarrow> (curr_size s + ne) div 2 = curr_size s"
    using assms(1) by simp_all
  show "poll_min \<le> curr_size (fst (poll_cq_adaptive s ne))" "curr_size (fst (poll_cq_adaptive s ne)) \<le> curr_size s"
    using assms h by (auto simp: poll_cq_adaptive_def Let_def)
qed

lemma poll_completions_size:
  assumes "device (curr_size (dstate ctx)) \<le> curr_size (dstate ctx)" "poll_min \<le> curr_size (dstate ctx)"
    "curr_size (dstate ctx) \<le> poll_max" "poll_completions ctx device n en = (ne, ctx', en')"
  shows "poll_min \<le> curr_size (dstate ctx')" "curr_size (dstate ctx') \<le> curr_size (dstate ctx)"
  using assms poll_cq_adaptive_size [OF assms(1-3)]
  by (auto simp: poll_completions_def Let_def split: if_splits prod.splits)

lemma poll_sizes_decreasing:
  assumes "\<forall>d \<in> set ds. \<forall>k. d k \<le> k" "poll_min \<le> curr_size (dstate ctx)" "curr_size (dstate ctx) \<le> poll_max"
  shows "sorted (rev (poll_sizes ctx ds ns en))"
    "\<forall>x \<in> set (poll_sizes ctx ds ns en). poll_min \<le> x \<and> x \<le> curr_size (dstate ctx)"
  using assms
proof (induction ds arbitrary: ctx ns en)
  case (Cons d ds)
  {
    case 1
    show ?case
    proof (cases ns)
      case (Cons n ns')
      obtain ne ctx' en' where p: "poll_completions ctx d n en = (ne, ctx', en')" by (cases "poll_completions ctx d n en")
      have "d (curr_size (dstate ctx)) \<le> curr_size (dstate ctx)" using 1(1) by simp
      note b = poll_completions_size [OF this 1(2,3) p]
      from Cons.IH(1) [of ctx' ns' en'] Cons.IH(2) [of ctx' ns' en'] 1 b show ?thesis
        by (force simp: Cons p sorted_append)
    qed simp
  next
    case 2
    show ?case
    proof (cases ns)
      case (Cons n ns')
      obtain ne ctx' en' where p: "poll_completions ctx d n en = (ne, ctx', en')" by (cases "poll_completions ctx d n en")
      have "d (curr_size (dstate ctx)) \<le> curr_size (dstate ctx)" using 2(1) by simp
      note b = poll_completions_size [OF this 2(2,3) p]
      from Cons.IH(2) [of ctx' ns' en'] 2 b show ?thesis by (force simp: Cons p)
    qed simp
  }
qed simp_all

section \<open>Properties\<close>

text \<open>
  The number of entries asked for never exceeds the 1024 work completions that are allocated,
  never falls below 16, and never grows: whatever the device answers, the sizes of successive polls
  are decreasing.  (When the poll is full, the code takes the mean of the size and the equal number of
  completions, which is the size itself, so the intended growth does not happen.)
\<close>

theorem poll_size_only_shrinks:
  assumes "dynamic_cqe_poll p \<or> 16 \<le> unat (cqe_poll p) \<and> unat (cqe_poll p) \<le> 1024"
    and "\<forall>d \<in> set ds. \<forall>k. d k \<le> k"
  shows "sorted (rev (poll_sizes (init_dyn_poll_ctx p) ds ns en)) \<and>
    (\<forall>x \<in> set (poll_sizes (init_dyn_poll_ctx p) ds ns en). 16 \<le> x \<and> x \<le> 1024)"
proof -
  have c: "poll_min \<le> curr_size (dstate (init_dyn_poll_ctx p))" "curr_size (dstate (init_dyn_poll_ctx p)) \<le> poll_max"
  proof -
    have "uint (cqe_poll p) = int (unat (cqe_poll p))" by simp
    with assms(1) show "poll_min \<le> curr_size (dstate (init_dyn_poll_ctx p))" "curr_size (dstate (init_dyn_poll_ctx p)) \<le> poll_max"
      unfolding init_dyn_poll_ctx_def by (auto simp del: of_nat_unat)
  qed
  from poll_sizes_decreasing [OF assms(2) c] c(2) show ?thesis by (meson order_trans)
qed

theorem poll_size_only_shrinks_witness:
  "poll_sizes (init_dyn_poll_ctx (basic_params\<lparr> dynamic_cqe_poll := True, iters := 1000 \<rparr>))
     [\<lambda>k. 100, \<lambda>k. k, \<lambda>k. k] [0, 100, 200] True = [1024, 562, 562] \<and>
   sorted (rev (poll_sizes (init_dyn_poll_ctx (basic_params\<lparr> dynamic_cqe_poll := True, iters := 1000 \<rparr>))
     [\<lambda>k. min k 100, \<lambda>k. k, \<lambda>k. k] [0, 100, 200] True))"
proof
  show "sorted (rev (poll_sizes (init_dyn_poll_ctx (basic_params\<lparr> dynamic_cqe_poll := True, iters := 1000 \<rparr>))
     [\<lambda>k. min k 100, \<lambda>k. k, \<lambda>k. k] [0, 100, 200] True))"
    using poll_size_only_shrinks [of "basic_params\<lparr> dynamic_cqe_poll := True, iters := 1000 \<rparr>"
        "[\<lambda>k. min k 100, \<lambda>k. k, \<lambda>k. k]" "[0, 100, 200]" True] by simp
qed (simp add: init_dyn_poll_ctx_def basic_params_def poll_completions_def poll_cq_adaptive_def)

text \<open>
  With the adaptation switched off every poll asks for exactly \<open>cqe_poll\<close> entries, a value the
  option parser accepts up to 65535, while the completion array of the test loops has 1024 entries:
  for a larger \<open>cqe_poll\<close> every poll lets the device write past that array.
\<close>

theorem fixed_poll_ignores_allocation:
  assumes "\<not> dynamic_cqe_poll p"
  shows "poll_sizes (init_dyn_poll_ctx p) ds ns False = replicate (min (length ds) (length ns)) (uint (cqe_poll p))"
proof -
  have "poll_sizes ctx ds ns False = replicate (min (length ds) (length ns)) (curr_size (dstate ctx))" for ctx
  proof (induction ds arbitrary: ns)
    case (Cons d ds)
    then show ?case by (cases ns) (simp_all add: poll_completions_def Let_def)
  qed simp
  with assms show ?thesis by (simp add: init_dyn_poll_ctx_def)
qed

theorem fixed_poll_ignores_allocation_witness:
  "poll_sizes (init_dyn_poll_ctx (basic_params\<lparr> cqe_poll := 4000 \<rparr>)) [\<lambda>k. k, \<lambda>k. k] [0, 9] False = [4000, 4000]"
proof -
  let ?p = "basic_params\<lparr> cqe_poll := 4000 \<rparr>" and ?ds = "[\<lambda>k. k, \<lambda>k. k] :: (int \<Rightarrow> int) list"
  have "poll_sizes (init_dyn_poll_ctx ?p) ?ds [0, 9] False = replicate (min (length ?ds) (length [0, 9 :: nat])) (uint (cqe_poll ?p))"
    by (rule fixed_poll_ignores_allocation) (simp add: basic_params_def)
  also have "\<dots> = [4000, 4000]" by (simp add: basic_params_def)
  finally show ?thesis .
qed

end
