(* ===== verification/Bw_Client.thy ===== *)
theory Bw_Client
  imports Work_Requests Polling
begin

text \<open>
  Model of \<open>run_iter_bw\<close> in \<^verbatim>\<open>src/src/perftest_resources.c\<close>, the sender of all bandwidth tests.

  What the loop observes is an environment \<open>env\<close> indexed by a clock that advances with every
  observation: the cycle counter, the credits written by the receiver, the state of a timed test (set
  by the alarm handler), the result of posting, of event notification and of polling.  The poll
  result may depend on the whole state.  Beside the program's variables the state keeps the trace of
  the posts (\<open>posts\<close>, newest first), of the completions taken (\<open>polled\<close>), of the polls in a row that found
  nothing (\<open>empty_polls\<close>) and of the indices at which time stamps were stored.  Counters are natural numbers: 64-bit counters of messages do not wrap.
  The computation of the gap between bursts from the rate limit, in floating point, is the
  environment's \<open>e_gap\<close>.
\<close>

section \<open>State\<close>

record post_event =
  pe_qp :: nat
  pe_scnt :: nat
  pe_ccnt :: nat
  pe_credit :: u32
  pe_signaled :: bool
  pe_laddr :: u64
  pe_raddr :: u64

record bw_state =
  scnt :: "nat list"
  ccnt :: "nat list"
  flag :: "bool list"
  laddr :: "u64 list"
  raddr :: "u64 list"
  totscnt :: nat
  totccnt :: nat
  siters :: nat
  iters_per_port :: "nat list"
  send_flows_index :: nat
  flows_burst_iter :: nat
  address_offset :: nat
  burst_iter :: nat
  is_sending_burst :: bool
  gap_deadline :: nat
  ne :: int
  dyn :: dyn_poll_ctx
  dyn_en :: bool
  clk :: nat
  empty_polls :: nat
  posts :: "post_event list"
  polled :: "nat list"
  tposted_ix :: "nat list"
  tcompleted_ix :: "nat list"

record bw_env =
  e_cycles :: "nat \<Rightarrow> nat"
  e_gap :: nat
  e_credit :: "nat \<Rightarrow> nat \<Rightarrow> u32"
  e_dstate :: "nat \<Rightarrow> DurationStates"
  e_post_ok :: "nat \<Rightarrow> bool"
  e_notify_ok :: "nat \<Rightarrow> bool"
  e_poll :: "nat \<Rightarrow> bw_state \<Rightarrow> int \<Rightarrow> (nat \<times> bool) list option"

record bw_ctx =
  bp :: perftest_parameters
  send_rcredit :: bool
  my_addr :: "nat \<Rightarrow> u64"
  rem_addr :: "nat \<Rightarrow> u64"
  port_by_qp :: "nat \<Rightarrow> nat"

definition bw_num_qps :: "perftest_parameters \<Rightarrow> nat" where
  "bw_num_qps p = (if duplex p \<and> (use_xrc p \<or> connection_type p = DC) then num_of_qps p div 2 else num_of_qps p)"

definition tot_iters :: "bw_ctx \<Rightarrow> nat" where
  "tot_iters c = (if test_type (bp c) = DURATION then 0 else iters (bp c)) * bw_num_qps (bp c)"

datatype 'a outcome = Next 'a | Break 'a | Fail 'a

section \<open>One post\<close>

definition can_post :: "bw_ctx \<Rightarrow> bw_state \<Rightarrow> nat \<Rightarrow> bool" where
  "can_post c st i \<longleftrightarrow>
     (scnt st ! i < siters st \<or> test_type (bp c) = DURATION) \<and>
     scnt st ! i + post_list (bp c) \<le> tx_depth (bp c) + ccnt st ! i \<and>
     \<not> (rate_limit_type (bp c) = SW_RATE_LIMIT \<and> \<not> is_sending_burst st)"

definition clear_signal :: "bw_ctx \<Rightarrow> nat \<Rightarrow> bw_state \<Rightarrow> bw_state" where
  "clear_signal c i st =
     (if post_list (bp c) = 1 \<and> scnt st ! i mod cq_mod (bp c) = 0 \<and> cq_mod (bp c) > 1 \<and>
         \<not> (scnt st ! i + 1 = siters st \<and> test_type (bp c) = ITERATIONS)
      then st\<lparr> flag := (flag st)[i := False] \<rparr> else st)"

definition next_flow :: "bw_ctx \<Rightarrow> bw_state \<Rightarrow> bw_state" where
  "next_flow c st =
     (if flows (bp c) \<noteq> DEF_FLOWS then
        (if flows_burst_iter st + 1 = flows_burst (bp c) then
           (let fi = (if send_flows_index st + 1 = flows (bp c) then 0 else send_flows_index st + 1);
                ao = fi * flow_buff_size (alloc_buffer_sizes (bp c))
            in st\<lparr> flows_burst_iter := 0, send_flows_index := fi, address_offset := ao,
                   laddr := (laddr st)[0 := my_addr c 0 + of_nat ao] \<rparr>)
         else st\<lparr> flows_burst_iter := flows_burst_iter st + 1 \<rparr>)
      else st)"

definition move_addresses :: "bw_ctx \<Rightarrow> nat \<Rightarrow> bw_state \<Rightarrow> bw_state" where
  "move_addresses c i st =
     (if post_list (bp c) = 1 \<and> up_size (bp c) \<le> ctx_cycle_buffer (bp c) div 2 then
        (let step = (\<lambda>a prim. increase_addr a (up_size (bp c)) (scnt st ! i) prim (cache_line_size (bp c)) (ctx_cycle_buffer (bp c)));
             la = (laddr st)[i := step (laddr st ! i) (my_addr c i + of_nat (address_offset st))];
             ra = (if verb (bp c) \<noteq> SEND \<and> verb (bp c) \<noteq> SEND_IMM
                   then (raddr st)[i := step (raddr st ! i) (rem_addr c i)] else raddr st)
         in st\<lparr> laddr := la, raddr := ra \<rparr>)
      else st)"

definition set_signal :: "bw_ctx \<Rightarrow> nat \<Rightarrow> bw_state \<Rightarrow> bw_state" where
  "set_signal c i st =
     (if post_list (bp c) = 1 \<and>
         (scnt st ! i mod cq_mod (bp c) = cq_mod (bp c) - 1 \<or>
          test_type (bp c) = ITERATIONS \<and> scnt st ! i + 1 = siters st)
      then st\<lparr> flag := (flag st)[i := True] \<rparr> else st)"

definition count_burst :: "bw_ctx \<Rightarrow> bw_state \<Rightarrow> bw_state" where
  "count_burst c st =
     (if rate_limit_type (bp c) = SW_RATE_LIMIT then
        (let b = burst_iter st + post_list (bp c)
         in st\<lparr> burst_iter := b, is_sending_burst := (if b \<ge> burst_size (bp c) then False else is_sending_burst st) \<rparr>)
      else st)"

definition log_post :: "bw_env \<Rightarrow> nat \<Rightarrow> bw_state \<Rightarrow> bw_state" where
  "log_post env i st =
     st\<lparr> posts := \<lparr> pe_qp = i, pe_scnt = scnt st ! i, pe_ccnt = ccnt st ! i, pe_credit = e_credit env (clk st) i,
                    pe_signaled = flag st ! i, pe_laddr = laddr st ! i, pe_raddr = raddr st ! i \<rparr> # posts st \<rparr>"

definition count_post :: "bw_ctx \<Rightarrow> nat \<Rightarrow> bw_state \<Rightarrow> bw_state" where
  "count_post c i st =
     st\<lparr> scnt := (scnt st)[i := scnt st ! i + post_list (bp c)], totscnt := totscnt st + post_list (bp c), clk := clk st + 1 \<rparr>"

definition stamp_post :: "bw_ctx \<Rightarrow> bw_state \<Rightarrow> bw_state" where
  "stamp_post c st = (if noPeak (bp c) then st else st\<lparr> tposted_ix := totscnt st # tposted_ix st \<rparr>)"

definition post_one :: "bw_ctx \<Rightarrow> bw_env \<Rightarrow> nat \<Rightarrow> bw_state \<Rightarrow> bw_state outcome" where
  "post_one c env i st =
     (let swindow = (of_nat (scnt st ! i + post_list (bp c)) :: u32) - e_credit env (clk st) i in
      if send_rcredit c \<and> swindow \<ge> of_nat (rx_depth (bp c)) then Break (st\<lparr> clk := clk st + 1 \<rparr>)
      else let st2 = stamp_post c (clear_signal c i st) in
        if test_type (bp c) = DURATION \<and> e_dstate env (clk st2) = END_STATE then Break (st2\<lparr> clk := clk st2 + 1 \<rparr>)
        else if \<not> e_post_ok env (clk st2) then Fail (st2\<lparr> clk := clk st2 + 1 \<rparr>)
        else Next (count_burst c (set_signal c i (count_post c i (move_addresses c i (next_flow c (log_post env i st2)))))))"

section \<open>The posting loops\<close>

text \<open>\<open>None\<close>: the fuel is used up.  \<open>Inl\<close>: the function fails, \<open>Inr\<close>: it goes on.\<close>

fun post_while :: "nat \<Rightarrow> bw_ctx \<Rightarrow> bw_env \<Rightarrow> nat \<Rightarrow> bw_state \<Rightarrow> (bw_state + bw_state) option" where
  "post_while fuel c env i st =
     (if \<not> can_post c st i then Some (Inr st)
      else case fuel of
             0 \<Rightarrow> None
           | Suc f \<Rightarrow> (case post_one c env i st of
                        Next st' \<Rightarrow> post_while f c env i st'
                      | Break st' \<Rightarrow> Some (Inr st')
                      | Fail st' \<Rightarrow> Some (Inl st')))"

declare post_while.simps [simp del]

definition start_burst :: "bw_ctx \<Rightarrow> bw_env \<Rightarrow> bw_state \<Rightarrow> bw_state option" where
  "start_burst c env st =
     (if rate_limit_type (bp c) = SW_RATE_LIMIT \<and> \<not> is_sending_burst st then
        (if gap_deadline st > e_cycles env (clk st) then None
         else Some (st\<lparr> gap_deadline := gap_deadline st + e_gap env, is_sending_burst := True, burst_iter := 0, clk := clk st + 1 \<rparr>))
      else Some st)"

fun post_qps :: "nat \<Rightarrow> bw_ctx \<Rightarrow> bw_env \<Rightarrow> nat list \<Rightarrow> bw_state \<Rightarrow> (bw_state + bw_state) option" where
  "post_qps fuel c env [] st = Some (Inr st)"
| "post_qps fuel c env (i # is) st =
     (case start_burst c env st of
        None \<Rightarrow> post_qps fuel c env is (st\<lparr> clk := clk st + 1 \<rparr>)
      | Some st1 \<Rightarrow>
          (case post_while fuel c env i st1 of
             None \<Rightarrow> None
           | Some (Inl st2) \<Rightarrow> Some (Inl st2)
           | Some (Inr st2) \<Rightarrow> post_qps fuel c env is st2))"

section \<open>Completions\<close>

definition complete_one :: "bw_ctx \<Rightarrow> bw_env \<Rightarrow> nat \<times> bool \<Rightarrow> bw_state \<Rightarrow> bw_state + bw_state" where
  "complete_one c env = (\<lambda>(qp, ok) st.
     if \<not> ok then Inl st
     else (let capped = fill_count (bp c) \<and> ccnt st ! qp + cq_mod (bp c) > siters st;
               cc = (if capped then siters st else ccnt st ! qp + cq_mod (bp c));
               tc = totccnt st + cc - ccnt st ! qp;
               st1 = st\<lparr> ccnt := (ccnt st)[qp := cc], totccnt := tc, polled := qp # polled st \<rparr>;
               st2 = (if noPeak (bp c) then st1
                      else st1\<lparr> tcompleted_ix := (if tc > tot_iters c then siters st * bw_num_qps (bp c) - 1 else tc - 1) # tcompleted_ix st1 \<rparr>);
               st3 = (if test_type (bp c) = DURATION \<and> e_dstate env (clk st2) = SAMPLE_STATE
                      then st2\<lparr> iters_per_port := (if report_per_port (bp c)
                                   then (iters_per_port st2)[port_by_qp c qp := iters_per_port st2 ! port_by_qp c qp + cq_mod (bp c)]
                                   else iters_per_port st2),
                                 siters := siters st2 + cq_mod (bp c) \<rparr>
                      else st2)
           in Inr (st3\<lparr> clk := clk st3 + 1 \<rparr>)))"

fun complete_all :: "bw_ctx \<Rightarrow> bw_env \<Rightarrow> (nat \<times> bool) list \<Rightarrow> bw_state \<Rightarrow> bw_state + bw_state" where
  "complete_all c env [] st = Inr st"
| "complete_all c env (w # ws) st =
     (case complete_one c env w st of Inl st' \<Rightarrow> Inl st' | Inr st' \<Rightarrow> complete_all c env ws st')"

definition poll_phase :: "bw_ctx \<Rightarrow> bw_env \<Rightarrow> bw_state \<Rightarrow> bw_state + bw_state" where
  "poll_phase c env st =
     (if totccnt st < tot_iters c \<or> test_type (bp c) = DURATION \<and> totccnt st < totscnt st then
        (if use_event (bp c) \<and> ne st = 0 \<and> \<not> e_notify_ok env (clk st) then Inl (st\<lparr> clk := clk st + 1 \<rparr>)
         else let ans = e_poll env (clk st) st (curr_size (dstate (dyn st)));
                  n = (case ans of None \<Rightarrow> -1 | Some ws \<Rightarrow> int (length ws));
                  (n', dyn', en') = poll_completions (dyn st) (\<lambda>_. n) (totccnt st) (dyn_en st);
                  st1 = st\<lparr> ne := n', dyn := dyn', dyn_en := en', clk := clk st + 1, empty_polls := (if n = 0 then empty_polls st + 1 else 0) \<rparr>
              in (case ans of None \<Rightarrow> Inl st1 | Some ws \<Rightarrow> complete_all c env ws st1))
      else Inr st)"

section \<open>The main loop\<close>

definition running :: "bw_ctx \<Rightarrow> bw_env \<Rightarrow> bw_state \<Rightarrow> bool" where
  "running c env st \<longleftrightarrow> totscnt st < tot_iters c \<or> totccnt st < tot_iters c \<or>
     test_type (bp c) = DURATION \<and> e_dstate env (clk st) \<noteq> END_STATE"

definition bw_pass :: "nat \<Rightarrow> bw_ctx \<Rightarrow> bw_env \<Rightarrow> bw_state \<Rightarrow> (bw_state + bw_state) option" where
  "bw_pass fuel c env st =
     (case post_qps fuel c env [0..<bw_num_qps (bp c)] (st\<lparr> clk := clk st + 1 \<rparr>) of
        None \<Rightarrow> None
      | Some (Inl st1) \<Rightarrow> Some (Inl st1)
      | Some (Inr st1) \<Rightarrow> Some (poll_phase c env st1))"

fun bw_loop :: "nat \<Rightarrow> nat \<Rightarrow> bw_ctx \<Rightarrow> bw_env \<Rightarrow> bw_state \<Rightarrow> (bw_state + bw_state) option" where
  "bw_loop inner fuel c env st =
     (if \<not> running c env st then Some (Inr st)
      else case fuel of
             0 \<Rightarrow> None
           | Suc f \<Rightarrow> (case bw_pass inner c env st of
                        None \<Rightarrow> None
                      | Some (Inl st') \<Rightarrow> Some (Inl st')
                      | Some (Inr st') \<Rightarrow> bw_loop inner f c env st'))"

declare bw_loop.simps [simp del]

text \<open>The state when the loop is entered: as \<open>ctx_set_send_reg_wqes\<close> has left the requests.\<close>

definition bw_init :: "bw_ctx \<Rightarrow> bw_env \<Rightarrow> bw_state" where
  "bw_init c env =
     (let n = num_of_qps (bp c) in
      \<lparr> scnt = replicate n 0, ccnt = replicate n 0, flag = replicate n (1 mod cq_mod (bp c) = 0),
        laddr = map (my_addr c) [0..<n], raddr = map (rem_addr c) [0..<n],
        totscnt = 0, totccnt = 0, siters = (if test_type (bp c) = DURATION then 0 else iters (bp c)),
        iters_per_port = [0, 0], send_flows_index = 0, flows_burst_iter = 0, address_offset = 0, burst_iter = 0, is_sending_burst = False,
        gap_deadline = e_cycles env 0, ne = 0, dyn = init_dyn_poll_ctx (bp c), dyn_en = dynamic_cqe_poll (bp c), clk = 1, empty_polls = 0,
        posts = [], polled = [], tposted_ix = (if test_type (bp c) = ITERATIONS \<and> noPeak (bp c) then [0] else []),
        tcompleted_ix = [] \<rparr>)"

definition run_iter_bw :: "nat \<Rightarrow> nat \<Rightarrow> bw_ctx \<Rightarrow> bw_env \<Rightarrow> (bw_state + bw_state) option" where
  "run_iter_bw inner fuel c env =
     (if test_type (bp c) = DURATION \<and> margin (bp c) > 0 \<and> e_dstate env 0 \<noteq> START_STATE then Some (Inl (bw_init c env))
      else case bw_loop inner fuel c env (bw_init c env) of
             Some (Inr st) \<Rightarrow>
               Some (Inr (if noPeak (bp c) \<and> test_type (bp c) = ITERATIONS then st\<lparr> tcompleted_ix := 0 # tcompleted_ix st \<rparr> else st))
           | r \<Rightarrow> r)"

section \<open>What the device may answer\<close>

text \<open>
  One work completion for every signaled request that was posted: a request posted alone is signaled
  or not, a list of \<open>post_list\<close> requests has a signaled request after every \<open>cq_mod\<close> requests.
\<close>

definition signaled_in :: "bw_ctx \<Rightarrow> post_event \<Rightarrow> nat" where
  "signaled_in c e = (if post_list (bp c) = 1 then (if pe_signaled e then 1 else 0) else post_list (bp c) div cq_mod (bp c))"

definition signaled_posts :: "bw_ctx \<Rightarrow> bw_state \<Rightarrow> nat \<Rightarrow> nat" where
  "signaled_posts c st q = sum_list (map (signaled_in c) (filter (\<lambda>e. pe_qp e = q) (posts st)))"

definition honest_answer :: "bw_ctx \<Rightarrow> bw_state \<Rightarrow> nat list \<Rightarrow> bool" where
  "honest_answer c st qs \<longleftrightarrow>
     (\<forall>q. count_list qs q + count_list (polled st) q \<le> signaled_posts c st q) \<and> (\<forall>q \<in> set qs. q < bw_num_qps (bp c))"

definition honest_device :: "bw_ctx \<Rightarrow> bw_env \<Rightarrow> bool" where
  "honest_device c env \<longleftrightarrow> (\<forall>t st k ws. e_poll env t st k = Some ws \<longrightarrow> honest_answer c st (map fst ws))"

section \<open>Invariants of the loop\<close>

text \<open>The part of the state that invariants talk about; the rest is bookkeeping of the pacing and polling.\<close>

definition bw_core :: "bw_state \<Rightarrow> nat list \<times> nat list \<times> bool list \<times> u64 list \<times> u64 list \<times> nat \<times> nat \<times> nat \<times> nat
    \<times> post_event list \<times> nat list \<times> nat list \<times> nat list" where
  "bw_core st = (scnt st, ccnt st, flag st, laddr st, raddr st, totscnt st, totccnt st, siters st, address_offset st,
     posts st, polled st, tposted_ix st, tcompleted_ix st)"

locale bw_invariant =
  fixes c :: bw_ctx and env :: bw_env and I :: "bw_state \<Rightarrow> bool"
  assumes device: "honest_device c env"
    and neutral: "bw_core st' = bw_core st \<Longrightarrow> I st \<Longrightarrow> I st'"
    and post: "\<lbrakk> I st; can_post c st i; i < bw_num_qps (bp c); post_one c env i st = Next st' \<rbrakk> \<Longrightarrow> I st'"
    and stop: "\<lbrakk> I st; can_post c st i; i < bw_num_qps (bp c); post_one c env i st = Break st' \<or> post_one c env i st = Fail st' \<rbrakk> \<Longrightarrow> I st'"
    and compl: "\<lbrakk> I st; honest_answer c st [fst w]; complete_one c env w st = Inr st' \<rbrakk> \<Longrightarrow> I st'"
begin

lemma post_while_inv:
  "post_while fuel c env i st = Some r \<Longrightarrow> I st \<Longrightarrow> i < bw_num_qps (bp c) \<Longrightarrow> I (case r of Inl s \<Rightarrow> s | Inr s \<Rightarrow> s)"
proof (induction fuel arbitrary: st)
  case 0
  then show ?case by (subst (asm) post_while.simps) (auto split: if_splits)
next
  case (Suc f)
  show ?case
  proof (cases "can_post c st i")
    case False
    with Suc.prems show ?thesis by (subst (asm) post_while.simps) auto
  next
    case True
    show ?thesis
    proof (cases "post_one c env i st")
      case (Next st')
      with Suc.prems(1) True have "post_while f c env i st' = Some r" by (subst (asm) post_while.simps) simp
      with Suc.IH post [OF Suc.prems(2) True Suc.prems(3) Next] Suc.prems(3) show ?thesis by blast
    next
      case (Break st')
      with Suc.prems(1) True have "r = Inr st'" by (subst (asm) post_while.simps) simp
      with stop [OF Suc.prems(2) True Suc.prems(3)] Break show ?thesis by simp
    next
      case (Fail st')
      with Suc.prems(1) True have "r = Inl st'" by (subst (asm) post_while.simps) simp
      with stop [OF Suc.prems(2) True Suc.prems(3)] Fail show ?thesis by simp
    qed
  qed
qed

lemma start_burst_inv: "start_burst c env st = Some st1 \<Longrightarrow> I st \<Longrightarrow> I st1"
  by (auto simp: start_burst_def bw_core_def split: if_splits intro: neutral)

lemma post_qps_inv:
  "post_qps fuel c env is st = Some r \<Longrightarrow> I st \<Longrightarrow> \<forall>i \<in> set is. i < bw_num_qps (bp c) \<Longrightarrow> I (case r of Inl s \<Rightarrow> s | Inr s \<Rightarrow> s)"
proof (induction "is" arbitrary: st)
  case (Cons i js)
  have i: "i < bw_num_qps (bp c)" using Cons.prems(3) by simp
  show ?case
  proof (cases "start_burst c env st")
    case None
    have "I (st\<lparr> clk := clk st + 1 \<rparr>)" by (rule neutral [OF _ Cons.prems(2)]) (simp add: bw_core_def)
    with Cons None show ?thesis by simp
  next
    case (Some st1)
    note I1 = start_burst_inv [OF Some Cons.prems(2)]
    from Cons.prems(1) Some obtain r1 where w: "post_while fuel c env i st1 = Some r1" by (auto split: option.splits)
    from post_while_inv [OF w I1 i] Cons Some w show ?thesis by (cases r1) auto
  qed
qed (cases r; auto)

lemma complete_all_inv:
  "I st \<Longrightarrow> honest_answer c st (map fst ws) \<Longrightarrow> I (case complete_all c env ws st of Inl s \<Rightarrow> s | Inr s \<Rightarrow> s)"
proof (induction ws arbitrary: st)
  case (Cons w ws)
  obtain q ok where w: "w = (q, ok)" by (cases w)
  show ?case
  proof (cases "complete_one c env w st")
    case (Inl st')
    then have "st' = st" by (auto simp: complete_one_def w Let_def split: if_splits)
    with Cons.prems Inl show ?thesis by auto
  next
    case (Inr st')
    have h: "honest_answer c st [fst w]" using Cons.prems(2)
      unfolding honest_answer_def by (auto simp: w split: if_splits)
    have "posts st' = posts st" "polled st' = q # polled st"
      using Inr by (auto simp: complete_one_def w Let_def split: if_splits)
    with Cons.prems(2) have "honest_answer c st' (map fst ws)"
      by (auto simp: honest_answer_def signaled_posts_def w add.commute add.left_commute split: if_splits)
    with Cons.IH compl [OF Cons.prems(1) h Inr] Inr show ?thesis by simp
  qed
qed simp

lemma poll_phase_inv:
  assumes "I st"
  shows "I (case poll_phase c env st of Inl s \<Rightarrow> s | Inr s \<Rightarrow> s)"
proof (cases "(totccnt st < tot_iters c \<or> test_type (bp c) = DURATION \<and> totccnt st < totscnt st) \<and>
    \<not> (use_event (bp c) \<and> ne st = 0 \<and> \<not> e_notify_ok env (clk st))")
  case False
  then have "poll_phase c env st = Inr st \<or> poll_phase c env st = Inl (st\<lparr> clk := clk st + 1 \<rparr>)" by (auto simp: poll_phase_def)
  moreover have "I (st\<lparr> clk := clk st + 1 \<rparr>)" by (rule neutral [OF _ assms]) (simp add: bw_core_def)
  ultimately show ?thesis using assms by auto
next
  case True
  let ?ans = "e_poll env (clk st) st (curr_size (dstate (dyn st)))"
  let ?n = "case ?ans of None \<Rightarrow> -1 | Some ws \<Rightarrow> int (length ws)"
  obtain n' dyn' en' where p: "poll_completions (dyn st) (\<lambda>_. ?n) (totccnt st) (dyn_en st) = (n', dyn', en')"
    by (cases "poll_completions (dyn st) (\<lambda>_. ?n) (totccnt st) (dyn_en st)")
  define st1 where "st1 = st\<lparr> ne := n', dyn := dyn', dyn_en := en', clk := clk st + 1, empty_polls := (if ?n = 0 then empty_polls st + 1 else 0) \<rparr>"
  have I1: "I st1" by (rule neutral [OF _ assms]) (simp add: bw_core_def st1_def)
  have r: "poll_phase c env st = (case ?ans of None \<Rightarrow> Inl st1 | Some ws \<Rightarrow> complete_all c env ws st1)"
    by (cases ?ans) (use True p in \<open>auto simp: poll_phase_def Let_def st1_def\<close>)
  show ?thesis
  proof (cases ?ans)
    case None
    with r I1 show ?thesis by simp
  next
    case (Some ws)
    then have "honest_answer c st (map fst ws)" using device by (auto simp: honest_device_def)
    then have "honest_answer c st1 (map fst ws)" by (simp add: honest_answer_def signaled_posts_def st1_def)
    with complete_all_inv [OF I1] r Some show ?thesis by simp
  qed
qed

lemma bw_pass_inv:
  assumes "bw_pass fuel c env st = Some r" "I st"
  shows "I (case r of Inl s \<Rightarrow> s | Inr s \<Rightarrow> s)"
proof -
  have I0: "I (st\<lparr> clk := clk st + 1 \<rparr>)" by (rule neutral [OF _ assms(2)]) (simp add: bw_core_def)
  from assms(1) obtain r1 where p: "post_qps fuel c env [0..<bw_num_qps (bp c)] (st\<lparr> clk := clk st + 1 \<rparr>) = Some r1"
    by (auto simp: bw_pass_def split: option.splits)
  from post_qps_inv [OF p I0] have I1: "I (case r1 of Inl s \<Rightarrow> s | Inr s \<Rightarrow> s)" by simp
  show ?thesis
  proof (cases r1)
    case (Inl s)
    with assms(1) p I1 show ?thesis by (auto simp: bw_pass_def)
  next
    case (Inr s)
    with assms(1) p have "poll_phase c env s = r" by (simp add: bw_pass_def)
    with poll_phase_inv [of s] I1 Inr show ?thesis by simp
  qed
qed

lemma bw_loop_inv:
  "bw_loop inner fuel c env st = Some r \<Longrightarrow> I st \<Longrightarrow> I (case r of Inl s \<Rightarrow> s | Inr s \<Rightarrow> s)"
proof (induction fuel arbitrary: st)
  case 0
  then show ?case by (subst (asm) bw_loop.simps) (auto split: if_splits)
next
  case (Suc f)
  show ?case
  proof (cases "running c env st")
    case False
    with Suc.prems show ?thesis by (subst (asm) bw_loop.simps) auto
  next
    case True
    with Suc.prems(1) obtain r1 where p: "bw_pass inner c env st = Some r1"
      by (subst (asm) bw_loop.simps) (auto split: option.splits)
    note I1 = bw_pass_inv [OF p Suc.prems(2)]
    show ?thesis
    proof (cases r1)
      case (Inl s)
      with Suc.prems(1) True p have "r = Inl s" by (subst (asm) bw_loop.simps) simp
      with I1 Inl show ?thesis by simp
    next
      case (Inr s)
      with Suc.prems(1) True p have "bw_loop inner f c env s = Some r" by (subst (asm) bw_loop.simps) simp
      with Suc.IH I1 Inr show ?thesis by simp
    qed
  qed
qed

end

section \<open>What one post changes\<close>

lemma clear_signal_frame [simp]:
  "scnt (clear_signal c i st) = scnt st" "ccnt (clear_signal c i st) = ccnt st" "totscnt (clear_signal c i st) = totscnt st"
  "totccnt (clear_signal c i st) = totccnt st" "siters (clear_signal c i st) = siters st" "posts (clear_signal c i st) = posts st"
  "polled (clear_signal c i st) = polled st" "tposted_ix (clear_signal c i st) = tposted_ix st"
  "tcompleted_ix (clear_signal c i st) = tcompleted_ix st" "laddr (clear_signal c i st) = laddr st" "raddr (clear_signal c i st) = raddr st"
  "clk (clear_signal c i st) = clk st" "address_offset (clear_signal c i st) = address_offset st"
  "length (flag (clear_signal c i st)) = length (flag st)"
  by (simp_all add: clear_signal_def)

lemma stamp_post_frame [simp]:
  "scnt (stamp_post c st) = scnt st" "ccnt (stamp_post c st) = ccnt st" "totscnt (stamp_post c st) = totscnt st"
  "totccnt (stamp_post c st) = totccnt st" "siters (stamp_post c st) = siters st" "posts (stamp_post c st) = posts st"
  "polled (stamp_post c st) = polled st" "flag (stamp_post c st) = flag st" "laddr (stamp_post c st) = laddr st"
  "raddr (stamp_post c st) = raddr st" "tcompleted_ix (stamp_post c st) = tcompleted_ix st" "clk (stamp_post c st) = clk st"
  "address_offset (stamp_post c st) = address_offset st"
  by (simp_all add: stamp_post_def)

lemma log_post_frame [simp]:
  "scnt (log_post env i st) = scnt st" "ccnt (log_post env i st) = ccnt st" "totscnt (log_post env i st) = totscnt st"
  "totccnt (log_post env i st) = totccnt st" "siters (log_post env i st) = siters st" "polled (log_post env i st) = polled st"
  "flag (log_post env i st) = flag st" "laddr (log_post env i st) = laddr st" "raddr (log_post env i st) = raddr st"
  "tposted_ix (log_post env i st) = tposted_ix st" "tcompleted_ix (log_post env i st) = tcompleted_ix st"
  "address_offset (log_post env i st) = address_offset st"
  by (simp_all add: log_post_def)

lemma next_flow_frame [simp]:
  "scnt (next_flow c st) = scnt st" "ccnt (next_flow c st) = ccnt st" "totscnt (next_flow c st) = totscnt st"
  "totccnt (next_flow c st) = totccnt st" "siters (next_flow c st) = siters st" "posts (next_flow c st) = posts st"
  "polled (next_flow c st) = polled st" "flag (next_flow c st) = flag st" "raddr (next_flow c st) = raddr st"
  "tposted_ix (next_flow c st) = tposted_ix st" "tcompleted_ix (next_flow c st) = tcompleted_ix st"
  by (simp_all add: next_flow_def Let_def)

lemma move_addresses_frame [simp]:
  "scnt (move_addresses c i st) = scnt st" "ccnt (move_addresses c i st) = ccnt st" "totscnt (move_addresses c i st) = totscnt st"
  "totccnt (move_addresses c i st) = totccnt st" "siters (move_addresses c i st) = siters st" "posts (move_addresses c i st) = posts st"
  "polled (move_addresses c i st) = polled st" "flag (move_addresses c i st) = flag st" "tposted_ix (move_addresses c i st) = tposted_ix st"
  "tcompleted_ix (move_addresses c i st) = tcompleted_ix st" "address_offset (move_addresses c i st) = address_offset st"
  by (simp_all add: move_addresses_def Let_def)

lemma set_signal_frame [simp]:
  "scnt (set_signal c i st) = scnt st" "ccnt (set_signal c i st) = ccnt st" "totscnt (set_signal c i st) = totscnt st"
  "totccnt (set_signal c i st) = totccnt st" "siters (set_signal c i st) = siters st" "posts (set_signal c i st) = posts st"
  "polled (set_signal c i st) = polled st" "laddr (set_signal c i st) = laddr st" "raddr (set_signal c i st) = raddr st"
  "tposted_ix (set_signal c i st) = tposted_ix st" "tcompleted_ix (set_signal c i st) = tcompleted_ix st"
  "address_offset (set_signal c i st) = address_offset st"
  by (simp_all add: set_signal_def)

lemma count_burst_frame [simp]:
  "scnt (count_burst c st) = scnt st" "ccnt (count_burst c st) = ccnt st" "totscnt (count_burst c st) = totscnt st"
  "totccnt (count_burst c st) = totccnt st" "siters (count_burst c st) = siters st" "posts (count_burst c st) = posts st"
  "polled (count_burst c st) = polled st" "flag (count_burst c st) = flag st" "laddr (count_burst c st) = laddr st"
  "raddr (count_burst c st) = raddr st" "tposted_ix (count_burst c st) = tposted_ix st"
  "tcompleted_ix (count_burst c st) = tcompleted_ix st" "address_offset (count_burst c st) = address_offset st"
  by (simp_all add: count_burst_def Let_def)

lemma move_addresses_cong:
  assumes "laddr s = laddr t" "raddr s = raddr t" "scnt s = scnt t" "address_offset s = address_offset t"
  shows "laddr (move_addresses c i s) = laddr (move_addresses c i t)" "raddr (move_addresses c i s) = raddr (move_addresses c i t)"
  using assms by (simp_all add: move_addresses_def Let_def)

lemma next_flow_cong:
  assumes "laddr s = laddr t" "address_offset s = address_offset t"
    "flows_burst_iter s = flows_burst_iter t" "send_flows_index s = send_flows_index t"
  shows "laddr (next_flow c s) = laddr (next_flow c t)" "address_offset (next_flow c s) = address_offset (next_flow c t)"
  using assms by (simp_all add: next_flow_def Let_def)

lemma flow_counters_frame [simp]:
  "flows_burst_iter (log_post env i st) = flows_burst_iter st" "flows_burst_iter (stamp_post c st) = flows_burst_iter st"
  "flows_burst_iter (clear_signal c i st) = flows_burst_iter st" "send_flows_index (log_post env i st) = send_flows_index st"
  "send_flows_index (stamp_post c st) = send_flows_index st" "send_flows_index (clear_signal c i st) = send_flows_index st"
  by (simp_all add: log_post_def stamp_post_def clear_signal_def)

text \<open>The effect of a successful post, field by field.\<close>

lemma post_one_NextD:
  assumes "post_one c env i st = Next st'"
  shows "\<not> (send_rcredit c \<and> (of_nat (scnt st ! i + post_list (bp c)) :: u32) - e_credit env (clk st) i \<ge> of_nat (rx_depth (bp c)))"
    "posts st' = \<lparr> pe_qp = i, pe_scnt = scnt st ! i, pe_ccnt = ccnt st ! i, pe_credit = e_credit env (clk st) i,
       pe_signaled = flag (clear_signal c i st) ! i, pe_laddr = laddr st ! i, pe_raddr = raddr st ! i \<rparr> # posts st"
    "scnt st' = (scnt st)[i := scnt st ! i + post_list (bp c)]" "ccnt st' = ccnt st"
    "totscnt st' = totscnt st + post_list (bp c)" "totccnt st' = totccnt st" "siters st' = siters st" "polled st' = polled st"
    "tposted_ix st' = (if noPeak (bp c) then tposted_ix st else totscnt st # tposted_ix st)" "tcompleted_ix st' = tcompleted_ix st"
    "flag st' = flag (set_signal c i (count_post c i (clear_signal c i st)))"
    "laddr st' = laddr (move_addresses c i (next_flow c st))" "raddr st' = raddr (move_addresses c i (next_flow c st))"
    "address_offset st' = address_offset (next_flow c st)"
proof -
  let ?st2 = "stamp_post c (clear_signal c i st)"
  let ?mv = "move_addresses c i (next_flow c (log_post env i ?st2))"
  from assms have st': "st' = count_burst c (set_signal c i (count_post c i ?mv))"
    and cr: "\<not> (send_rcredit c \<and> (of_nat (scnt st ! i + post_list (bp c)) :: u32) - e_credit env (clk st) i \<ge> of_nat (rx_depth (bp c)))"
    by (auto simp: post_one_def Let_def split: if_splits)
  show "\<not> (send_rcredit c \<and> (of_nat (scnt st ! i + post_list (bp c)) :: u32) - e_credit env (clk st) i \<ge> of_nat (rx_depth (bp c)))"
    by (rule cr)
  show "posts st' = \<lparr> pe_qp = i, pe_scnt = scnt st ! i, pe_ccnt = ccnt st ! i, pe_credit = e_credit env (clk st) i,
       pe_signaled = flag (clear_signal c i st) ! i, pe_laddr = laddr st ! i, pe_raddr = raddr st ! i \<rparr> # posts st"
    "scnt st' = (scnt st)[i := scnt st ! i + post_list (bp c)]" "ccnt st' = ccnt st"
    "totscnt st' = totscnt st + post_list (bp c)" "totccnt st' = totccnt st" "siters st' = siters st" "polled st' = polled st"
    "tcompleted_ix st' = tcompleted_ix st"
    by (simp_all add: st' count_post_def log_post_def)
  show "tposted_ix st' = (if noPeak (bp c) then tposted_ix st else totscnt st # tposted_ix st)"
    by (simp add: st' count_post_def stamp_post_def)
  show "flag st' = flag (set_signal c i (count_post c i (clear_signal c i st)))"
    by (auto simp: st' count_post_def set_signal_def)
  show "laddr st' = laddr (move_addresses c i (next_flow c st))" "raddr st' = raddr (move_addresses c i (next_flow c st))"
    "address_offset st' = address_offset (next_flow c st)"
    using next_flow_cong [of "log_post env i ?st2" st c]
    by (simp_all add: st' count_post_def move_addresses_cong [of "next_flow c (log_post env i ?st2)" "next_flow c st"])
qed

lemma post_one_stopD:
  assumes "post_one c env i st = Break st' \<or> post_one c env i st = Fail st'"
  shows "posts st' = posts st" "scnt st' = scnt st" "ccnt st' = ccnt st" "totscnt st' = totscnt st" "totccnt st' = totccnt st"
    "siters st' = siters st" "polled st' = polled st" "tcompleted_ix st' = tcompleted_ix st"
    "flag st' = flag st \<or> flag st' = flag (clear_signal c i st)" "laddr st' = laddr st" "raddr st' = raddr st"
    "address_offset st' = address_offset st" "tposted_ix st' = tposted_ix st \<or> tposted_ix st' = totscnt st # tposted_ix st \<and> \<not> noPeak (bp c)"
  using assms by (auto simp: post_one_def Let_def stamp_post_def split: if_splits)

lemma complete_one_InrD:
  assumes "complete_one c env w st = Inr st'"
  shows "posts st' = posts st" "scnt st' = scnt st" "totscnt st' = totscnt st" "flag st' = flag st" "polled st' = fst w # polled st"
    "ccnt st' = (ccnt st)[fst w := (if fill_count (bp c) \<and> ccnt st ! fst w + cq_mod (bp c) > siters st then siters st
       else ccnt st ! fst w + cq_mod (bp c))]"
    "totccnt st' = totccnt st + (if fill_count (bp c) \<and> ccnt st ! fst w + cq_mod (bp c) > siters st then siters st
       else ccnt st ! fst w + cq_mod (bp c)) - ccnt st ! fst w"
    "laddr st' = laddr st" "raddr st' = raddr st" "address_offset st' = address_offset st" "tposted_ix st' = tposted_ix st"
    "test_type (bp c) = ITERATIONS \<Longrightarrow> siters st' = siters st"
    "tcompleted_ix st' = (if noPeak (bp c) then tcompleted_ix st
       else (if totccnt st' > tot_iters c then siters st * bw_num_qps (bp c) - 1 else totccnt st' - 1) # tcompleted_ix st)"
  using assms by (cases w; auto simp: complete_one_def Let_def split: if_splits)+

section \<open>Invariants\<close>

text \<open>An environment whose device answers honestly or reports a failure.\<close>

definition honest_env :: "bw_ctx \<Rightarrow> bw_env \<Rightarrow> bw_env" where
  "honest_env c env = env\<lparr> e_poll := (\<lambda>t st k. case e_poll env t st k of
     None \<Rightarrow> None | Some ws \<Rightarrow> if honest_answer c st (map fst ws) then Some ws else None) \<rparr>"

lemma honest_device_env: "honest_device c (honest_env c env)"
  by (auto simp: honest_device_def honest_env_def split: option.splits if_splits)

lemma honest_env_id: "honest_device c env \<Longrightarrow> honest_env c env = env"
proof -
  assume h: "honest_device c env"
  have "(\<lambda>t st k. case e_poll env t st k of None \<Rightarrow> None | Some ws \<Rightarrow> if honest_answer c st (map fst ws) then Some ws else None) = e_poll env"
  proof (intro ext)
    fix t st k
    show "(case e_poll env t st k of None \<Rightarrow> None | Some ws \<Rightarrow> if honest_answer c st (map fst ws) then Some ws else None) = e_poll env t st k"
      using h by (cases "e_poll env t st k") (auto simp: honest_device_def)
  qed
  then show ?thesis by (simp add: honest_env_def)
qed

lemma bw_core_eqD:
  assumes "bw_core st' = bw_core st"
  shows "scnt st' = scnt st" "ccnt st' = ccnt st" "flag st' = flag st" "laddr st' = laddr st" "raddr st' = raddr st"
    "totscnt st' = totscnt st" "totccnt st' = totccnt st" "siters st' = siters st" "address_offset st' = address_offset st"
    "posts st' = posts st" "polled st' = polled st" "tposted_ix st' = tposted_ix st" "tcompleted_ix st' = tcompleted_ix st"
  using assms by (simp_all add: bw_core_def)

text \<open>The window: what every post has found.\<close>

definition in_window :: "bw_ctx \<Rightarrow> post_event \<Rightarrow> bool" where
  "in_window c e \<longleftrightarrow> pe_scnt e + post_list (bp c) \<le> tx_depth (bp c) + pe_ccnt e \<and>
     (send_rcredit c \<longrightarrow> (of_nat (pe_scnt e + post_list (bp c)) :: u32) - pe_credit e < of_nat (rx_depth (bp c)))"

interpretation window: bw_invariant c "honest_env c env" "\<lambda>st. \<forall>e \<in> set (posts st). in_window c e" for c env
proof unfold_locales
  fix st i st'
  assume "\<forall>e \<in> set (posts st). in_window c e" "can_post c st i" and n: "post_one c (honest_env c env) i st = Next st'"
  then show "\<forall>e \<in> set (posts st'). in_window c e"
    unfolding post_one_NextD(2) [OF n] using post_one_NextD(1) [OF n] by (auto simp: in_window_def can_post_def not_le)
next
  fix st i st'
  assume "\<forall>e \<in> set (posts st). in_window c e"
    and b: "post_one c (honest_env c env) i st = Break st' \<or> post_one c (honest_env c env) i st = Fail st'"
  then show "\<forall>e \<in> set (posts st'). in_window c e" by (simp add: post_one_stopD(1) [OF b])
qed (auto simp: honest_device_env dest: complete_one_InrD bw_core_eqD)

text \<open>
  The signalling schedule for single posts: request \<open>s\<close> of a queue pair is signaled when it completes
  a group of \<open>cq_mod\<close> or is the last one.
\<close>

definition due :: "bw_ctx \<Rightarrow> nat \<Rightarrow> bool" where
  "due c s \<longleftrightarrow> (s + 1) mod cq_mod (bp c) = 0 \<or> test_type (bp c) = ITERATIONS \<and> s + 1 = iters (bp c)"

definition schedulable :: "perftest_parameters \<Rightarrow> bool" where
  "schedulable p \<longleftrightarrow> post_list p = 1 \<and> 1 \<le> cq_mod p \<and> (test_type p = ITERATIONS \<longrightarrow> cq_mod p \<le> iters p)"

definition ready :: "bw_ctx \<Rightarrow> bw_state \<Rightarrow> nat \<Rightarrow> bool" where
  "ready c st i \<longleftrightarrow>
     (cq_mod (bp c) = 1 \<or> scnt st ! i mod cq_mod (bp c) \<noteq> 0 \<or> test_type (bp c) = ITERATIONS \<and> scnt st ! i + 1 = iters (bp c)) \<longrightarrow>
     (test_type (bp c) = ITERATIONS \<longrightarrow> scnt st ! i < iters (bp c)) \<longrightarrow> flag st ! i = due c (scnt st ! i)"

definition shaped :: "bw_ctx \<Rightarrow> bw_state \<Rightarrow> bool" where
  "shaped c st \<longleftrightarrow> length (scnt st) = num_of_qps (bp c) \<and> length (ccnt st) = num_of_qps (bp c) \<and>
     length (flag st) = num_of_qps (bp c) \<and> (test_type (bp c) = ITERATIONS \<longrightarrow> siters st = iters (bp c))"

definition on_schedule :: "bw_ctx \<Rightarrow> bw_state \<Rightarrow> bool" where
  "on_schedule c st \<longleftrightarrow> shaped c st \<and> (schedulable (bp c) \<longrightarrow>
     (\<forall>e \<in> set (posts st). pe_signaled e = due c (pe_scnt e)) \<and>
     (\<forall>i < bw_num_qps (bp c). ready c st i \<and> (test_type (bp c) = ITERATIONS \<longrightarrow> scnt st ! i \<le> iters (bp c)) \<and>
        map pe_scnt (filter (\<lambda>e. pe_qp e = i) (posts st)) = rev [0..<scnt st ! i]))"

lemma bw_num_qps_le: "bw_num_qps p \<le> num_of_qps p"
  by (simp add: bw_num_qps_def)

lemma shaped_post:
  assumes "shaped c st" "post_one c env i st = Next st'"
  shows "shaped c st'"
  using assms(1) unfolding shaped_def post_one_NextD [OF assms(2)] by (simp add: set_signal_def count_post_def)

lemma shaped_stop:
  assumes "shaped c st" "post_one c env i st = Break st' \<or> post_one c env i st = Fail st'"
  shows "shaped c st'"
  using assms(1) post_one_stopD [OF assms(2)] by (auto simp: shaped_def)

lemma shaped_complete:
  assumes "shaped c st" "complete_one c env w st = Inr st'"
  shows "shaped c st'"
  using assms(1) complete_one_InrD [OF assms(2)] by (auto simp: shaped_def)

lemma clear_signal_other: "j \<noteq> i \<Longrightarrow> flag (clear_signal c i st) ! j = flag st ! j"
  by (simp add: clear_signal_def)

lemma clear_signal_unchanged:
  "flag (clear_signal c i st) \<noteq> flag st \<Longrightarrow> scnt st ! i mod cq_mod (bp c) = 0 \<and> cq_mod (bp c) \<noteq> 1 \<and>
     \<not> (scnt st ! i + 1 = siters st \<and> test_type (bp c) = ITERATIONS)"
  by (rule ccontr) (auto simp: clear_signal_def)

lemma posted_flag_due:
  assumes "shaped c st" "schedulable (bp c)" "ready c st i" "i < num_of_qps (bp c)" "can_post c st i"
  shows "flag (clear_signal c i st) ! i = due c (scnt st ! i)"
proof (cases "scnt st ! i mod cq_mod (bp c) = 0 \<and> cq_mod (bp c) > 1 \<and>
         \<not> (scnt st ! i + 1 = siters st \<and> test_type (bp c) = ITERATIONS)")
  case True
  then have "\<not> due c (scnt st ! i)" using assms(1) by (auto simp: due_def shaped_def mod_Suc)
  moreover have cond: "post_list (bp c) = 1 \<and> scnt st ! i mod cq_mod (bp c) = 0 \<and> cq_mod (bp c) > 1 \<and>
         \<not> (scnt st ! i + 1 = siters st \<and> test_type (bp c) = ITERATIONS)"
    using True assms(2) unfolding schedulable_def by blast
  have "\<not> flag (clear_signal c i st) ! i"
    unfolding clear_signal_def if_P [OF cond] using assms(1,4) by (simp add: shaped_def)
  ultimately show ?thesis by blast
next
  case False
  then have f: "flag (clear_signal c i st) = flag st" by (auto simp: clear_signal_def)
  have it: "test_type (bp c) = ITERATIONS \<Longrightarrow> siters st = iters (bp c)" using assms(1) by (simp add: shaped_def)
  have "cq_mod (bp c) = 1 \<or> cq_mod (bp c) > 1" using assms(2) by (auto simp: schedulable_def)
  with False it have 1: "cq_mod (bp c) = 1 \<or> scnt st ! i mod cq_mod (bp c) \<noteq> 0 \<or>
      test_type (bp c) = ITERATIONS \<and> scnt st ! i + 1 = iters (bp c)" by metis
  have 2: "test_type (bp c) = ITERATIONS \<longrightarrow> scnt st ! i < iters (bp c)" using assms(5) it by (auto simp: can_post_def)
  from assms(3) have "flag st ! i = due c (scnt st ! i)" unfolding ready_def using 1 2 by blast
  then show ?thesis unfolding f .
qed

lemma flag_cases:
  "(a \<Longrightarrow> A) \<Longrightarrow> \<not> (L \<and> D) \<Longrightarrow> (a \<or> \<not> C \<or> T \<and> B) \<longrightarrow> (T \<longrightarrow> L) \<longrightarrow> (A \<or> T \<and> B \<or> C \<or> T \<and> D) = (A \<or> T \<and> B)"
  by blast

lemma next_flag_ready:
  assumes "shaped c st" "schedulable (bp c)" "i < num_of_qps (bp c)" "flag (clear_signal c i st) ! i = due c (scnt st ! i)"
    "post_one c env i st = Next st'"
  shows "ready c st' i"
proof -
  let ?s = "scnt st ! i"
  have l: "i < length (scnt st)" "i < length (flag st)" using assms(1,3) by (simp_all add: shaped_def)
  have pl: "post_list (bp c) = 1" using assms(2) by (simp add: schedulable_def)
  have s': "scnt st' ! i = ?s + 1" using post_one_NextD(3) [OF assms(5)] l pl by simp
  have it: "test_type (bp c) = ITERATIONS \<Longrightarrow> siters st = iters (bp c)" using assms(1) by (simp add: shaped_def)
  have f: "flag st' ! i = ((?s + 1) mod cq_mod (bp c) = cq_mod (bp c) - 1 \<or>
      test_type (bp c) = ITERATIONS \<and> ?s + 1 + 1 = iters (bp c) \<or> due c ?s)"
    unfolding post_one_NextD(11) [OF assms(5)]
    using l pl it assms(4) by (auto simp: set_signal_def count_post_def)
  have m: "(?s + 1 + 1) mod cq_mod (bp c) = 0 \<longleftrightarrow> (?s + 1) mod cq_mod (bp c) = cq_mod (bp c) - 1"
    using assms(2) by (auto simp: schedulable_def mod_Suc)
  have one: "cq_mod (bp c) = 1 \<Longrightarrow> (?s + 1) mod cq_mod (bp c) = cq_mod (bp c) - 1" by simp
  have irr: "\<not> (?s + 1 < iters (bp c) \<and> ?s + 1 = iters (bp c))" by simp
  show ?thesis unfolding ready_def s' f due_def m by (rule flag_cases) (use one irr in simp_all)
qed

lemma ready_other:
  assumes "post_one c env i st = Next st'" "j \<noteq> i" "ready c st j"
  shows "ready c st' j"
  using assms(2,3) unfolding ready_def post_one_NextD(3,11) [OF assms(1)]
  by (simp add: set_signal_def count_post_def clear_signal_def)

lemma on_schedule_post:
  assumes I: "on_schedule c st" and p: "can_post c st i" and i: "i < bw_num_qps (bp c)" and n: "post_one c env i st = Next st'"
  shows "on_schedule c st'"
proof -
  have sh: "shaped c st" using I by (simp add: on_schedule_def)
  have iN: "i < num_of_qps (bp c)" using i bw_num_qps_le [of "bp c"] by linarith
  have l: "i < length (scnt st)" using sh iN by (simp add: shaped_def)
  show ?thesis
  proof (cases "schedulable (bp c)")
    case False
    with shaped_post [OF sh n] show ?thesis by (simp add: on_schedule_def)
  next
    case S: True
    then have pl: "post_list (bp c) = 1" by (simp add: schedulable_def)
    from I S have J: "\<forall>e \<in> set (posts st). pe_signaled e = due c (pe_scnt e)"
      "\<And>j. j < bw_num_qps (bp c) \<Longrightarrow> ready c st j"
      "\<And>j. j < bw_num_qps (bp c) \<Longrightarrow> test_type (bp c) = ITERATIONS \<Longrightarrow> scnt st ! j \<le> iters (bp c)"
      "\<And>j. j < bw_num_qps (bp c) \<Longrightarrow> map pe_scnt (filter (\<lambda>e. pe_qp e = j) (posts st)) = rev [0..<scnt st ! j]"
      by (auto simp: on_schedule_def)
    note fl = posted_flag_due [OF sh S J(2) [OF i] iN p]
    have "\<forall>e \<in> set (posts st'). pe_signaled e = due c (pe_scnt e)"
      unfolding post_one_NextD(2) [OF n] using J(1) fl by simp
    moreover have "ready c st' j" if "j < bw_num_qps (bp c)" for j
      using next_flag_ready [OF sh S iN fl n] ready_other [OF n _ J(2) [OF that]] by (cases "j = i") auto
    moreover have "scnt st' ! j \<le> iters (bp c)" if "j < bw_num_qps (bp c)" "test_type (bp c) = ITERATIONS" for j
      using J(3) [OF that] p sh l pl that(2) unfolding post_one_NextD(3) [OF n]
      by (auto simp: nth_list_update can_post_def shaped_def)
    moreover have "map pe_scnt (filter (\<lambda>e. pe_qp e = j) (posts st')) = rev [0..<scnt st' ! j]" if "j < bw_num_qps (bp c)" for j
      using J(4) [OF that] l pl unfolding post_one_NextD(2,3) [OF n] by (auto simp: nth_list_update)
    ultimately show ?thesis using shaped_post [OF sh n] by (simp add: on_schedule_def)
  qed
qed

lemma on_schedule_stop:
  assumes "on_schedule c st" "post_one c env i st = Break st' \<or> post_one c env i st = Fail st'"
  shows "on_schedule c st'"
proof -
  note d = post_one_stopD [OF assms(2)]
  have "ready c st' j" if r: "ready c st j" and sh: "shaped c st" for j
  proof (cases "flag st' = flag st \<or> j \<noteq> i")
    case True
    then have "flag st' ! j = flag st ! j" using d(9) clear_signal_other by metis
    with r show ?thesis by (simp add: ready_def d(2))
  next
    case False
    with d(9) have "flag st' = flag (clear_signal c i st)" "flag (clear_signal c i st) \<noteq> flag st" "j = i" by auto
    then have cond: "scnt st ! i mod cq_mod (bp c) = 0 \<and> cq_mod (bp c) \<noteq> 1 \<and>
        \<not> (scnt st ! i + 1 = siters st \<and> test_type (bp c) = ITERATIONS)"
      using clear_signal_unchanged by blast
    have "test_type (bp c) = ITERATIONS \<longrightarrow> siters st = iters (bp c)" using sh by (simp add: shaped_def)
    with cond have "\<not> (cq_mod (bp c) = 1 \<or> scnt st ! i mod cq_mod (bp c) \<noteq> 0 \<or> test_type (bp c) = ITERATIONS \<and> scnt st ! i + 1 = iters (bp c))"
      by metis
    then show ?thesis unfolding ready_def d(2) \<open>j = i\<close> by blast
  qed
  then show ?thesis using assms(1) shaped_stop [OF _ assms(2)] by (simp add: on_schedule_def d(1,2))
qed

lemma on_schedule_complete:
  assumes "on_schedule c st" "complete_one c env w st = Inr st'"
  shows "on_schedule c st'"
  using assms(1) shaped_complete [OF _ assms(2)] complete_one_InrD [OF assms(2)] by (simp add: on_schedule_def ready_def)

interpretation schedule: bw_invariant c "honest_env c env" "on_schedule c" for c env
proof unfold_locales
  show "honest_device c (honest_env c env)" by (rule honest_device_env)
  fix st st'
  assume "bw_core st' = bw_core st" "on_schedule c st"
  then show "on_schedule c st'" using bw_core_eqD [of st' st] by (simp add: on_schedule_def shaped_def ready_def)
qed (auto dest: on_schedule_post on_schedule_stop on_schedule_complete)

section \<open>Completions and posts add up\<close>

text \<open>How many of the first \<open>s\<close> requests of a queue pair are signaled.\<close>

definition signals_before :: "bw_ctx \<Rightarrow> nat \<Rightarrow> nat" where
  "signals_before c s = s div cq_mod (bp c) + (if s = iters (bp c) \<and> s mod cq_mod (bp c) \<noteq> 0 then 1 else 0)"

lemma due_count:
  assumes "test_type (bp c) = ITERATIONS" "1 \<le> cq_mod (bp c)" "1 \<le> iters (bp c)"
  shows "s \<le> iters (bp c) \<Longrightarrow> sum_list (map (\<lambda>k. if due c k then 1 else 0) [0..<s]) = signals_before c s"
proof (induction s)
  case 0
  then show ?case using assms by (simp add: signals_before_def)
next
  case (Suc s)
  let ?q = "cq_mod (bp c)"
  have IH: "sum_list (map (\<lambda>k. if due c k then 1 else 0) [0..<s]) = s div ?q"
    using Suc by (simp add: signals_before_def)
  have "Suc s div ?q = s div ?q + (if Suc s mod ?q = 0 then 1 else 0)" by (simp add: div_Suc)
  then show ?case using IH assms(1) by (auto simp: signals_before_def due_def)
qed

lemma sum_list_rev_map: "sum_list (map f (rev xs)) = sum_list (map f (xs :: nat list) :: nat list)"
  by (simp add: rev_map [symmetric])

lemma signaled_posts_schedule:
  assumes "on_schedule c st" "schedulable (bp c)" "test_type (bp c) = ITERATIONS" "i < bw_num_qps (bp c)"
  shows "signaled_posts c st i = signals_before c (scnt st ! i)"
proof -
  let ?es = "filter (\<lambda>e. pe_qp e = i) (posts st)"
  from assms have sig: "\<forall>e \<in> set (posts st). pe_signaled e = due c (pe_scnt e)" and num: "map pe_scnt ?es = rev [0..<scnt st ! i]"
    and le: "scnt st ! i \<le> iters (bp c)" by (auto simp: on_schedule_def)
  have "map (signaled_in c) ?es = map (\<lambda>e. if due c (pe_scnt e) then 1 else 0) ?es"
    using sig assms(2) by (intro map_cong) (auto simp: signaled_in_def schedulable_def)
  then have "signaled_posts c st i = sum_list (map (\<lambda>k. if due c k then 1 else 0) (map pe_scnt ?es))"
    by (simp only: signaled_posts_def map_map comp_def)
  also have "\<dots> = sum_list (map (\<lambda>k. if due c k then 1 else 0) [0..<scnt st ! i])" unfolding num by (rule sum_list_rev_map)
  also have "\<dots> = signals_before c (scnt st ! i)"
    using assms(2,3) le by (intro due_count) (auto simp: schedulable_def)
  finally show ?thesis .
qed

definition credited :: "bw_ctx \<Rightarrow> nat \<Rightarrow> nat" where
  "credited c k = (if fill_count (bp c) then min (k * cq_mod (bp c)) (iters (bp c)) else k * cq_mod (bp c))"

definition books :: "bw_ctx \<Rightarrow> bw_state \<Rightarrow> bool" where
  "books c st \<longleftrightarrow> on_schedule c st \<and> (schedulable (bp c) \<and> test_type (bp c) = ITERATIONS \<longrightarrow>
     totscnt st = sum_list (scnt st) \<and> totccnt st = sum_list (ccnt st) \<and>
     (\<forall>i < num_of_qps (bp c). ccnt st ! i = credited c (count_list (polled st) i)) \<and>
     (\<forall>i < num_of_qps (bp c). bw_num_qps (bp c) \<le> i \<longrightarrow> scnt st ! i = 0 \<and> ccnt st ! i = 0) \<and>
     (\<forall>q. count_list (polled st) q \<le> signaled_posts c st q) \<and> (\<forall>q \<in> set (polled st). q < bw_num_qps (bp c)))"

lemma sum_list_add_at: "i < length xs \<Longrightarrow> sum_list (xs[i := xs ! i + d]) = sum_list xs + (d :: nat)"
  by (simp add: sum_list_update)

lemma books_post:
  assumes I: "books c st" and p: "can_post c st i" and i: "i < bw_num_qps (bp c)" and n: "post_one c env i st = Next st'"
  shows "books c st'"
proof (cases "schedulable (bp c) \<and> test_type (bp c) = ITERATIONS")
  case False
  with on_schedule_post [OF _ p i n] I show ?thesis by (auto simp: books_def)
next
  case True
  note d = post_one_NextD [OF n]
  have l: "i < length (scnt st)" using I i bw_num_qps_le [of "bp c"] by (auto simp: books_def on_schedule_def shaped_def)
  have "count_list (polled st) q \<le> signaled_posts c st' q" for q
  proof -
    have "signaled_posts c st q \<le> signaled_posts c st' q" by (simp add: signaled_posts_def d(2))
    moreover have "count_list (polled st) q \<le> signaled_posts c st q" using I True by (simp add: books_def)
    ultimately show ?thesis by linarith
  qed
  moreover have "on_schedule c st'" using on_schedule_post [OF _ p i n] I by (simp add: books_def)
  moreover have "sum_list (scnt st') = sum_list (scnt st) + post_list (bp c)" unfolding d(3) by (rule sum_list_add_at [OF l])
  ultimately show ?thesis using I True i d(3-8) by (auto simp: books_def)
qed

lemma books_stop:
  assumes "books c st" "post_one c env i st = Break st' \<or> post_one c env i st = Fail st'"
  shows "books c st'"
  using assms(1) on_schedule_stop [OF _ assms(2)]
  unfolding books_def signaled_posts_def post_one_stopD(1-8) [OF assms(2)] by blast

lemma credited_step:
  "(if fill_count (bp c) \<and> credited c k + cq_mod (bp c) > iters (bp c) then iters (bp c) else credited c k + cq_mod (bp c)) = credited c (k + 1)"
  by (auto simp: credited_def min_def)

lemma credited_mono: "credited c k \<le> credited c (k + 1)"
  by (auto simp: credited_def min_def)

lemma books_complete:
  assumes I: "books c st" and h: "honest_answer c st [fst w]" and n: "complete_one c env w st = Inr st'"
  shows "books c st'"
proof (cases "schedulable (bp c) \<and> test_type (bp c) = ITERATIONS")
  case False
  with on_schedule_complete [OF _ n] I show ?thesis by (auto simp: books_def)
next
  case True
  note d = complete_one_InrD [OF n]
  let ?q = "fst w" and ?k = "count_list (polled st) (fst w)"
  have q: "?q < bw_num_qps (bp c)" using h by (simp add: honest_answer_def)
  then have qN: "?q < num_of_qps (bp c)" using bw_num_qps_le [of "bp c"] by linarith
  from I have l: "?q < length (ccnt st)" and it: "siters st = iters (bp c)" using qN True
    by (auto simp: books_def on_schedule_def shaped_def)
  have cq: "ccnt st ! ?q = credited c ?k" using I True qN by (simp add: books_def)
  have new: "(if fill_count (bp c) \<and> ccnt st ! ?q + cq_mod (bp c) > siters st then siters st else ccnt st ! ?q + cq_mod (bp c)) = credited c (?k + 1)"
    unfolding cq it by (rule credited_step)
  have c': "ccnt st' = (ccnt st)[?q := credited c (?k + 1)]" using d(6) by (simp only: new)
  have t': "totccnt st' = totccnt st + credited c (?k + 1) - credited c ?k" using d(7) [unfolded new] by (simp only: cq)
  have "sum_list (ccnt st') = sum_list (ccnt st) + credited c (?k + 1) - credited c ?k"
    unfolding c' using l cq by (simp add: sum_list_update)
  then have tot: "totccnt st' = sum_list (ccnt st')" using t' I True by (simp add: books_def)
  have pol: "count_list (polled st') x \<le> signaled_posts c st' x" for x
  proof -
    have "count_list [fst w] x + count_list (polled st) x \<le> signaled_posts c st x" using h unfolding honest_answer_def by blast
    then show ?thesis by (auto simp: d(1,5) signaled_posts_def)
  qed
  have "ccnt st' ! j = credited c (count_list (polled st') j)" if "j < num_of_qps (bp c)" for j
    using that I True l unfolding c' d(5) by (auto simp: books_def nth_list_update)
  moreover have "ccnt st' ! j = 0" if "j < num_of_qps (bp c)" "bw_num_qps (bp c) \<le> j" for j
    using that I True q unfolding c' by (auto simp: books_def nth_list_update)
  ultimately show ?thesis using I True tot pol q on_schedule_complete [OF _ n] d(2,3,5) by (auto simp: books_def)
qed

interpretation bookkeeping: bw_invariant c "honest_env c env" "books c" for c env
proof unfold_locales
  show "honest_device c (honest_env c env)" by (rule honest_device_env)
  fix st st'
  assume e: "bw_core st' = bw_core st" and b: "books c st"
  from schedule.neutral [OF e] b have "on_schedule c st'" by (simp add: books_def)
  with b show "books c st'" unfolding books_def signaled_posts_def bw_core_eqD [OF e] by blast
qed (auto dest: books_post books_stop books_complete)

lemma on_schedule_init: "on_schedule c (bw_init c env)"
proof -
  have "ready c (bw_init c env) i" if "i < bw_num_qps (bp c)" "schedulable (bp c)" for i
  proof -
    have i: "i < num_of_qps (bp c)" using that(1) bw_num_qps_le [of "bp c"] by linarith
    show ?thesis
      using that(2) i by (cases "cq_mod (bp c) = 1") (auto simp: ready_def bw_init_def due_def schedulable_def Let_def)
  qed
  then show ?thesis using bw_num_qps_le [of "bp c"]
    by (auto simp: on_schedule_def shaped_def bw_init_def Let_def)
qed

lemma books_init: "books c (bw_init c env)"
  using on_schedule_init [of c env] by (auto simp: books_def bw_init_def credited_def sum_list_replicate Let_def)

lemma signals_total:
  assumes "1 \<le> cq_mod (bp c)"
  shows "k < signals_before c (iters (bp c)) \<longleftrightarrow> k * cq_mod (bp c) < iters (bp c)"
proof -
  let ?q = "cq_mod (bp c)" and ?n = "iters (bp c)"
  have e: "?n = ?n div ?q * ?q + ?n mod ?q" by simp
  have m: "?n mod ?q < ?q" using assms by simp
  show ?thesis
  proof (cases "?n mod ?q = 0")
    case True
    then have "k * ?q < ?n \<longleftrightarrow> k * ?q < ?n div ?q * ?q" using e by simp
    also have "\<dots> \<longleftrightarrow> k < ?n div ?q" using assms by simp
    finally show ?thesis using True by (simp add: signals_before_def)
  next
    case False
    have "k * ?q < ?n \<longleftrightarrow> k \<le> ?n div ?q"
    proof
      assume "k \<le> ?n div ?q"
      then have "k * ?q \<le> ?n div ?q * ?q" by (rule mult_le_mono1)
      with e False show "k * ?q < ?n" by linarith
    next
      assume "k * ?q < ?n"
      then have "k * ?q div ?q \<le> ?n div ?q" by (intro div_le_mono) simp
      then show "k \<le> ?n div ?q" using assms by simp
    qed
    then show ?thesis using False by (simp add: signals_before_def less_Suc_eq_le)
  qed
qed

lemma signals_before_less:
  assumes "1 \<le> cq_mod (bp c)" "s < iters (bp c)"
  shows "signals_before c s < signals_before c (iters (bp c))"
proof -
  have "s div cq_mod (bp c) * cq_mod (bp c) \<le> s" by simp
  then have "s div cq_mod (bp c) < signals_before c (iters (bp c))"
    unfolding signals_total [OF assms(1)] using assms(2) by linarith
  then show ?thesis using assms(2) by (simp add: signals_before_def)
qed

lemma signals_before_mono:
  assumes "1 \<le> cq_mod (bp c)" "s \<le> iters (bp c)"
  shows "signals_before c s \<le> signals_before c (iters (bp c))"
  using signals_before_less [OF assms(1), of s] assms(2) by (cases "s = iters (bp c)") auto

text \<open>The credit moderation is exact: \<^verbatim>\<open>fill_count\<close> is set when \<open>cq_mod\<close> does not divide the iterations.\<close>

definition fills :: "perftest_parameters \<Rightarrow> bool" where
  "fills p \<longleftrightarrow> fill_count p \<or> iters p mod cq_mod p = 0"

lemma credited_le:
  assumes "fills (bp c)" "1 \<le> cq_mod (bp c)" "k \<le> signals_before c (iters (bp c))"
  shows "credited c k \<le> iters (bp c)"
proof (cases "fill_count (bp c)")
  case False
  with assms(1) have m: "iters (bp c) mod cq_mod (bp c) = 0" by (simp add: fills_def)
  with assms(3) have "k \<le> iters (bp c) div cq_mod (bp c)" by (simp add: signals_before_def)
  then have "k * cq_mod (bp c) \<le> iters (bp c) div cq_mod (bp c) * cq_mod (bp c)" by (rule mult_le_mono1)
  also have "\<dots> \<le> iters (bp c)" by simp
  finally show ?thesis using False by (simp add: credited_def)
qed (simp add: credited_def)

lemma credited_full:
  assumes "1 \<le> cq_mod (bp c)" "iters (bp c) \<le> credited c k"
  shows "signals_before c (iters (bp c)) \<le> k"
  using assms(2) signals_total [OF assms(1), of k] by (auto simp: credited_def not_less split: if_splits)

lemma full_list:
  fixes xs :: "nat list"
  assumes "n \<le> length xs" "\<forall>i < n. xs ! i \<le> m" "\<forall>i < length xs. n \<le> i \<longrightarrow> xs ! i = 0" "n * m \<le> sum_list xs" "i < n"
  shows "xs ! i = m"
proof (rule ccontr)
  assume "xs ! i \<noteq> m"
  have "sum_list xs = (\<Sum>j = 0..<length xs. xs ! j)" by (rule sum_list_sum_nth)
  also have "\<dots> = (\<Sum>j = 0..<n. xs ! j) + (\<Sum>j = n..<length xs. xs ! j)"
    using assms(1) by (subst sum.atLeastLessThan_concat) auto
  also have "(\<Sum>j = n..<length xs. xs ! j) = 0" using assms(3) by simp
  also have "(\<Sum>j = 0..<n. xs ! j) < (\<Sum>j = 0..<n. m)"
    by (rule sum_strict_mono_ex1) (use assms(2,5) \<open>xs ! i \<noteq> m\<close> in \<open>auto intro!: bexI [of _ i] simp: le_neq_trans\<close>)
  finally show False using assms(4) by (simp add: mult.commute)
qed

lemma sum_bounded:
  fixes xs :: "nat list"
  assumes "n \<le> length xs" "\<forall>i < n. xs ! i \<le> m" "\<forall>i < length xs. n \<le> i \<longrightarrow> xs ! i = 0"
  shows "sum_list xs \<le> n * m"
proof -
  have "sum_list xs = (\<Sum>j = 0..<length xs. xs ! j)" by (rule sum_list_sum_nth)
  also have "\<dots> = (\<Sum>j = 0..<n. xs ! j) + (\<Sum>j = n..<length xs. xs ! j)"
    using assms(1) by (subst sum.atLeastLessThan_concat) auto
  also have "(\<Sum>j = n..<length xs. xs ! j) = 0" using assms(3) by simp
  also have "(\<Sum>j = 0..<n. xs ! j) \<le> (\<Sum>j = 0..<n. m)" by (rule sum_mono) (use assms(2) in simp)
  finally show ?thesis by (simp add: mult.commute)
qed

text \<open>When the loop is left, every request has been posted and completed.\<close>

lemma books_done:
  assumes b: "books c st" and p: "schedulable (bp c)" "test_type (bp c) = ITERATIONS" "fills (bp c)"
    and tot: "tot_iters c \<le> totccnt st" and i: "i < bw_num_qps (bp c)"
  shows "scnt st ! i = iters (bp c)" "ccnt st ! i = iters (bp c)" "count_list (polled st) i = signaled_posts c st i"
proof -
  let ?n = "bw_num_qps (bp c)" and ?S = "signals_before c (iters (bp c))"
  have q: "1 \<le> cq_mod (bp c)" using p(1) by (simp add: schedulable_def)
  from b p have os: "on_schedule c st" and t: "totccnt st = sum_list (ccnt st)"
    and cc: "\<And>i. i < num_of_qps (bp c) \<Longrightarrow> ccnt st ! i = credited c (count_list (polled st) i)"
    and z: "\<forall>i < length (ccnt st). ?n \<le> i \<longrightarrow> ccnt st ! i = 0" and len: "length (ccnt st) = num_of_qps (bp c)"
    and k: "\<And>q. count_list (polled st) q \<le> signaled_posts c st q"
    by (auto simp: books_def on_schedule_def shaped_def)
  have sl: "scnt st ! j \<le> iters (bp c)" if "j < ?n" for j using os p that by (auto simp: on_schedule_def)
  have kS: "count_list (polled st) j \<le> signals_before c (scnt st ! j)" if "j < ?n" for j
    using k [of j] signaled_posts_schedule [OF os p(1,2) that] by simp
  have "ccnt st ! j \<le> iters (bp c)" if "j < ?n" for j
  proof -
    have jN: "j < num_of_qps (bp c)" using that bw_num_qps_le [of "bp c"] by linarith
    have "count_list (polled st) j \<le> ?S" using kS [OF that] signals_before_mono [OF q sl [OF that]] by linarith
    with credited_le [OF p(3) q] cc [OF jN] show ?thesis by simp
  qed
  then show c: "ccnt st ! i = iters (bp c)"
    using full_list [of ?n "ccnt st" "iters (bp c)" i] z len bw_num_qps_le [of "bp c"] tot t i p(2) by (simp add: tot_iters_def mult.commute)
  have iN: "i < num_of_qps (bp c)" using i bw_num_qps_le [of "bp c"] by linarith
  have f: "?S \<le> count_list (polled st) i" using credited_full [OF q] c cc [OF iN] by simp
  show s: "scnt st ! i = iters (bp c)"
  proof (rule ccontr)
    assume "scnt st ! i \<noteq> iters (bp c)"
    then have "scnt st ! i < iters (bp c)" using sl [OF i] by simp
    from signals_before_less [OF q this] f kS [OF i] show False by linarith
  qed
  show "count_list (polled st) i = signaled_posts c st i"
    using f kS [OF i] unfolding signaled_posts_schedule [OF os p(1,2) i] s by linarith
qed

lemma bw_loop_exit: "bw_loop inner fuel c env st = Some (Inr s0) \<Longrightarrow> \<not> running c env s0"
proof (induction fuel arbitrary: st)
  case 0
  then show ?case by (subst (asm) bw_loop.simps) (auto split: if_splits)
next
  case (Suc f)
  show ?case
  proof (cases "running c env st")
    case False
    with Suc.prems show ?thesis by (subst (asm) bw_loop.simps) simp
  next
    case True
    with Suc.prems obtain st' where "bw_loop inner f c env st' = Some (Inr s0)"
      by (subst (asm) bw_loop.simps) (auto split: option.splits sum.splits)
    then show ?thesis by (rule Suc.IH)
  qed
qed

section \<open>Properties\<close>

text \<open>A run ends in the state of its loop, up to the final time stamp.\<close>

lemma run_iter_bw_cases:
  assumes "run_iter_bw inner fuel c env = Some r"
  obtains "r = Inl (bw_init c env)"
  | r0 where "bw_loop inner fuel c env (bw_init c env) = Some r0"
      "r = r0 \<or> (\<exists>st. r0 = Inr st \<and> r = Inr (st\<lparr> tcompleted_ix := 0 # tcompleted_ix st \<rparr>))"
  using assms by (auto simp: run_iter_bw_def split: if_splits option.splits sum.splits)

definition final_state :: "bw_state + bw_state \<Rightarrow> bw_state" where
  "final_state r = (case r of Inl st \<Rightarrow> st | Inr st \<Rightarrow> st)"

lemma run_invariant:
  assumes "run_iter_bw inner fuel c env = Some r" "I (bw_init c env)"
    and loop: "\<And>r0. bw_loop inner fuel c env (bw_init c env) = Some r0 \<Longrightarrow> I (final_state r0)"
    and stamp: "\<And>st x. I st \<Longrightarrow> I (st\<lparr> tcompleted_ix := x \<rparr>)"
  shows "I (final_state r)"
  using assms(1)
proof (cases rule: run_iter_bw_cases)
  case 1
  with assms(2) show ?thesis by (simp add: final_state_def)
next
  case (2 r0)
  with loop [OF 2(1)] stamp show ?thesis by (auto simp: final_state_def)
qed

text \<open>Every post of a run was made within the window.\<close>

lemma posts_in_window:
  assumes "honest_device c env" "run_iter_bw inner fuel c env = Some r" "e \<in> set (posts (final_state r))"
  shows "in_window c e"
proof -
  have "\<forall>e \<in> set (posts (final_state r)). in_window c e"
  proof (rule run_invariant [OF assms(2)])
    show "\<forall>e \<in> set (posts (bw_init c env)). in_window c e" by (simp add: bw_init_def Let_def)
    fix r0 assume "bw_loop inner fuel c env (bw_init c env) = Some r0"
    with window.bw_loop_inv [of inner fuel c env "bw_init c env" r0] show "\<forall>e \<in> set (posts (final_state r0)). in_window c e"
      by (simp add: honest_env_id [OF assms(1)] final_state_def bw_init_def Let_def)
  qed simp
  with assms(3) show ?thesis by blast
qed

text \<open>
  C1. Flow control of the sender: whatever a device that completes only posted requests, the receiver and the timers
  do, every request is posted only while the posted and not yet completed requests of its queue pair, the new ones
  included, fit into \<open>tx_depth\<close>, and with receiver credits only while the requests beyond the last
  credit, in 32-bit arithmetic, are fewer than \<open>rx_depth\<close>.
\<close>

theorem send_window_respected:
  assumes "honest_device c env" "run_iter_bw inner fuel c env = Some r" "e \<in> set (posts (final_state r))"
  shows "pe_scnt e + post_list (bp c) \<le> tx_depth (bp c) + pe_ccnt e \<and>
    (send_rcredit c \<longrightarrow> (of_nat (pe_scnt e + post_list (bp c)) :: u32) - pe_credit e < of_nat (rx_depth (bp c)))"
  using posts_in_window [OF assms] by (simp add: in_window_def)

text \<open>
  C7. Completion moderation: with single posts, the requests of a queue pair are posted in order,
  each once, and request number \<open>s\<close> asks for a completion exactly when it ends a group of \<open>cq_mod\<close>
  requests or is the last of the test.
\<close>

theorem signalling_schedule:
  assumes "honest_device c env" "run_iter_bw inner fuel c env = Some r" "schedulable (bp c)" "i < bw_num_qps (bp c)"
  shows "map pe_scnt (filter (\<lambda>e. pe_qp e = i) (rev (posts (final_state r)))) = [0..<scnt (final_state r) ! i] \<and>
    (\<forall>e \<in> set (posts (final_state r)). pe_signaled e \<longleftrightarrow>
       (pe_scnt e + 1) mod cq_mod (bp c) = 0 \<or> test_type (bp c) = ITERATIONS \<and> pe_scnt e + 1 = iters (bp c))"
proof -
  have "on_schedule c (final_state r)"
  proof (rule run_invariant [where I = "on_schedule c", OF assms(2) on_schedule_init])
    fix r0 assume "bw_loop inner fuel c env (bw_init c env) = Some r0"
    with schedule.bw_loop_inv [of inner fuel c env "bw_init c env" r0] on_schedule_init show "on_schedule c (final_state r0)"
      by (simp add: honest_env_id [OF assms(1)] final_state_def)
  qed (simp add: on_schedule_def shaped_def ready_def)
  with assms(3,4) have "map pe_scnt (filter (\<lambda>e. pe_qp e = i) (posts (final_state r))) = rev [0..<scnt (final_state r) ! i]"
    and "\<forall>e \<in> set (posts (final_state r)). pe_signaled e = due c (pe_scnt e)" by (auto simp: on_schedule_def)
  then show ?thesis unfolding due_def by (metis rev_filter rev_map rev_rev_ident)
qed

text \<open>
  C11. A counted bandwidth run that succeeds has sent everything, when requests are posted one at a time, the moderation
  is at most the iterations and a last group that is shorter is counted exactly (\<open>fills\<close>): every queue pair has posted all its
  requests, all of them are accounted as completed, and no completion that the device owes is left in the queue.
\<close>

theorem bw_run_drains_queues:
  assumes "honest_device c env" "run_iter_bw inner fuel c env = Some (Inr st)"
    and "schedulable (bp c)" "test_type (bp c) = ITERATIONS" "fills (bp c)" "i < bw_num_qps (bp c)"
  shows "scnt st ! i = iters (bp c) \<and> ccnt st ! i = iters (bp c) \<and> count_list (polled st) i = signaled_posts c st i"
proof -
  from assms(2) obtain s0 where l: "bw_loop inner fuel c env (bw_init c env) = Some (Inr s0)"
    and st: "st = s0 \<or> st = s0\<lparr> tcompleted_ix := 0 # tcompleted_ix s0 \<rparr>"
    by (cases rule: run_iter_bw_cases) auto
  from bookkeeping.bw_loop_inv [of inner fuel c env "bw_init c env" "Inr s0"] l books_init
  have b: "books c s0" by (simp add: honest_env_id [OF assms(1)])
  have "\<not> running c env s0" using l by (rule bw_loop_exit)
  then have "tot_iters c \<le> totccnt s0" by (simp add: running_def)
  from books_done [OF b assms(3-5) this assms(6)] st show ?thesis by (auto simp: signaled_posts_def)
qed

end
