(* ===== verification/Bw_Progress.thy ===== *)
theory Bw_Progress
  imports Bw_Client
begin

text \<open>
  Termination of \<open>run_iter_bw\<close> for tests with a number of iterations: with a device that, while completions
  are owed, finds one at least once in \<open>d\<close> polls, the loop never deadlocks, completes something in every
  \<open>d\<close> passes, and returns after at most \<open>d * (num_qps * (iters + ceil (iters / cq_mod)) + 1)\<close> passes, each of
  which posts at most \<open>tx_depth\<close> requests per queue pair.
\<close>

section \<open>A fair environment\<close>

definition owed :: "bw_ctx \<Rightarrow> bw_state \<Rightarrow> nat \<Rightarrow> nat" where
  "owed c st q = signaled_posts c st q - count_list (polled st) q"

text \<open>
  While a completion is owed no poll fails, and of \<open>d\<close> polls in a row the last one finds a completion if the others
  did not.
\<close>

definition fair_env :: "nat \<Rightarrow> bw_ctx \<Rightarrow> bw_env \<Rightarrow> bool" where
  "fair_env d c env \<longleftrightarrow> honest_device c env \<and> (\<forall>t. e_post_ok env t) \<and> (\<forall>t. e_notify_ok env t) \<and>
     (\<forall>t st k. books c st \<and> 1 \<le> k \<and> (\<exists>q < bw_num_qps (bp c). 0 < owed c st q) \<longrightarrow>
        (\<exists>ws. e_poll env t st k = Some ws \<and> (d \<le> Suc (empty_polls st) \<longrightarrow> ws \<noteq> []) \<and> (\<forall>w \<in> set ws. snd w)))"

text \<open>The tests considered: counted, single posts, no software pacing, moderation within the window.\<close>

definition plain_test :: "bw_ctx \<Rightarrow> bool" where
  "plain_test c \<longleftrightarrow> schedulable (bp c) \<and> test_type (bp c) = ITERATIONS \<and> fills (bp c) \<and> \<not> send_rcredit c \<and>
     rate_limit_type (bp c) \<noteq> SW_RATE_LIMIT \<and> cq_mod (bp c) \<le> tx_depth (bp c)"

lemma plain_testD:
  assumes "plain_test c"
  shows "schedulable (bp c)" "test_type (bp c) = ITERATIONS" "fills (bp c)" "\<not> send_rcredit c"
    "rate_limit_type (bp c) \<noteq> SW_RATE_LIMIT" "cq_mod (bp c) \<le> tx_depth (bp c)" "post_list (bp c) = 1" "1 \<le> cq_mod (bp c)"
  using assms by (simp_all add: plain_test_def schedulable_def)

section \<open>Posting until every queue pair is blocked\<close>

lemma empty_polls_frame [simp]:
  "empty_polls (count_burst c st) = empty_polls st" "empty_polls (set_signal c i st) = empty_polls st" "empty_polls (count_post c i st) = empty_polls st"
  "empty_polls (move_addresses c i st) = empty_polls st" "empty_polls (next_flow c st) = empty_polls st" "empty_polls (log_post env i st) = empty_polls st"
  "empty_polls (stamp_post c st) = empty_polls st" "empty_polls (clear_signal c i st) = empty_polls st"
  by (simp_all add: count_burst_def set_signal_def count_post_def move_addresses_def next_flow_def log_post_def
      stamp_post_def clear_signal_def Let_def)

lemma dyn_frame [simp]:
  "dyn (count_burst c st) = dyn st" "dyn (set_signal c i st) = dyn st" "dyn (count_post c i st) = dyn st"
  "dyn (move_addresses c i st) = dyn st" "dyn (next_flow c st) = dyn st" "dyn (log_post env i st) = dyn st"
  "dyn (stamp_post c st) = dyn st" "dyn (clear_signal c i st) = dyn st"
  by (simp_all add: count_burst_def set_signal_def count_post_def move_addresses_def next_flow_def log_post_def
      stamp_post_def clear_signal_def Let_def)

lemma post_one_plain:
  assumes "plain_test c" "\<forall>t. e_post_ok env t"
  obtains st' where "post_one c env i st = Next st'" "dyn st' = dyn st" "siters st' = siters st" "empty_polls st' = empty_polls st"
proof -
  note d = plain_testD [OF assms(1)]
  let ?s = "count_burst c (set_signal c i (count_post c i (move_addresses c i (next_flow c (log_post env i (stamp_post c (clear_signal c i st)))))))"
  have "post_one c env i st = Next ?s" using d(2,4) assms(2) by (simp add: post_one_def Let_def)
  moreover have "dyn ?s = dyn st" "empty_polls ?s = empty_polls st"
    by simp_all
  ultimately show ?thesis using that post_one_NextD(7) by blast
qed

text \<open>What posting on one queue pair keeps and reaches.\<close>

definition posted_from :: "bw_ctx \<Rightarrow> nat set \<Rightarrow> bw_state \<Rightarrow> bw_state \<Rightarrow> bool" where
  "posted_from c A st st' \<longleftrightarrow> books c st' \<and> ccnt st' = ccnt st \<and> polled st' = polled st \<and> dyn st' = dyn st \<and> siters st' = siters st \<and>
     empty_polls st' = empty_polls st \<and> totscnt st \<le> totscnt st' \<and> length (scnt st') = length (scnt st) \<and> (\<forall>j. j \<notin> A \<longrightarrow> scnt st' ! j = scnt st ! j)"

lemma post_while_plain:
  assumes p: "plain_test c" "\<forall>t. e_post_ok env t" and i: "i < bw_num_qps (bp c)"
  shows "books c st \<Longrightarrow> tx_depth (bp c) + ccnt st ! i \<le> fuel + scnt st ! i \<Longrightarrow>
    \<exists>st'. post_while fuel c env i st = Some (Inr st') \<and> posted_from c {i} st st' \<and> \<not> can_post c st' i"
proof (induction fuel arbitrary: st)
  case 0
  then have "\<not> can_post c st i" using plain_testD(7) [OF p(1)] by (simp add: can_post_def)
  then show ?case using 0(1) by (subst post_while.simps) (simp add: posted_from_def)
next
  case (Suc f)
  show ?case
  proof (cases "can_post c st i")
    case False
    then show ?thesis using Suc.prems(1) by (subst post_while.simps) (simp add: posted_from_def)
  next
    case True
    obtain st1 where n: "post_one c env i st = Next st1" "dyn st1 = dyn st" "siters st1 = siters st" "empty_polls st1 = empty_polls st"
      by (rule post_one_plain [OF p])
    note d = post_one_NextD [OF n(1)]
    have l: "i < length (scnt st)" using Suc.prems(1) i bw_num_qps_le [of "bp c"] by (auto simp: books_def on_schedule_def shaped_def)
    have b: "books c st1" by (rule books_post [OF Suc.prems(1) True i n(1)])
    have "tx_depth (bp c) + ccnt st1 ! i \<le> f + scnt st1 ! i" using Suc.prems(2) d(3,4) l plain_testD(7) [OF p(1)] by simp
    from Suc.IH [OF b this] obtain st' where
      st': "post_while f c env i st1 = Some (Inr st')" "posted_from c {i} st1 st'" "\<not> can_post c st' i" by blast
    have "posted_from c {i} st st'" using st'(2) d(3-5,8) n(2-4) by (auto simp: posted_from_def)
    with st' True n(1) show ?thesis by (subst post_while.simps) simp
  qed
qed

lemma post_qps_plain:
  assumes p: "plain_test c" "\<forall>t. e_post_ok env t"
  shows "books c st \<Longrightarrow> distinct is \<Longrightarrow> \<forall>i \<in> set is. i < bw_num_qps (bp c) \<and> tx_depth (bp c) + ccnt st ! i \<le> fuel + scnt st ! i \<Longrightarrow>
    \<exists>st'. post_qps fuel c env is st = Some (Inr st') \<and> posted_from c (set is) st st' \<and> (\<forall>i \<in> set is. \<not> can_post c st' i)"
proof (induction "is" arbitrary: st)
  case Nil
  then show ?case by (simp add: posted_from_def)
next
  case (Cons i js)
  have sb: "start_burst c env st = Some st" using plain_testD(5) [OF p(1)] by (simp add: start_burst_def)
  from post_while_plain [OF p, of i st fuel] Cons.prems obtain st1 where
    w: "post_while fuel c env i st = Some (Inr st1)" "posted_from c {i} st st1" "\<not> can_post c st1 i" by auto
  have "\<forall>j \<in> set js. j < bw_num_qps (bp c) \<and> tx_depth (bp c) + ccnt st1 ! j \<le> fuel + scnt st1 ! j"
    using Cons.prems(2,3) w(2) by (auto simp: posted_from_def)
  with Cons.IH [of st1] w(2) Cons.prems(2) obtain st' where
    st': "post_qps fuel c env js st1 = Some (Inr st')" "posted_from c (set js) st1 st'" "\<forall>j \<in> set js. \<not> can_post c st' j"
    by (auto simp: posted_from_def)
  have "\<not> can_post c st' i"
    using w(3) st'(2) Cons.prems(2) plain_testD(5) [OF p(1)] by (auto simp: can_post_def posted_from_def)
  moreover have "posted_from c (set (i # js)) st st'" using w(2) st'(2) by (auto simp: posted_from_def)
  ultimately show ?case using sb w(1) st' by simp
qed

section \<open>No deadlock\<close>

text \<open>When every queue pair is blocked and the test is not over, the device owes a completion.\<close>

lemma blocked_owes:
  assumes b: "books c st" and p: "plain_test c" and tot: "totccnt st < tot_iters c"
    and bl: "\<forall>i < bw_num_qps (bp c). \<not> can_post c st i"
  shows "\<exists>q < bw_num_qps (bp c). 0 < owed c st q"
proof -
  note d = plain_testD [OF p]
  let ?n = "bw_num_qps (bp c)" and ?q = "cq_mod (bp c)"
  from b d(1,2) have os: "on_schedule c st" and t: "totccnt st = sum_list (ccnt st)" and len: "length (ccnt st) = num_of_qps (bp c)"
    and cc: "\<And>i. i < num_of_qps (bp c) \<Longrightarrow> ccnt st ! i = credited c (count_list (polled st) i)"
    and it: "siters st = iters (bp c)"
    by (auto simp: books_def on_schedule_def shaped_def)
  have "\<exists>i < ?n. ccnt st ! i < iters (bp c)"
  proof (rule ccontr)
    assume "\<not> (\<exists>i < ?n. ccnt st ! i < iters (bp c))"
    then have "\<forall>i < ?n. iters (bp c) \<le> ccnt st ! i" by (meson not_less)
    then have "(\<Sum>i = 0..<?n. iters (bp c)) \<le> (\<Sum>i = 0..<?n. ccnt st ! i)" by (intro sum_mono) simp
    also have "\<dots> \<le> (\<Sum>i = 0..<length (ccnt st). ccnt st ! i)"
      using bw_num_qps_le [of "bp c"] len by (intro sum_mono2) auto
    finally show False using tot t d(2) by (simp add: tot_iters_def sum_list_sum_nth mult.commute)
  qed
  then obtain i where i: "i < ?n" "ccnt st ! i < iters (bp c)" by blast
  have iN: "i < num_of_qps (bp c)" using i(1) bw_num_qps_le [of "bp c"] by linarith
  let ?k = "count_list (polled st) i" and ?s = "scnt st ! i"
  have k: "?k * ?q < iters (bp c)" using i(2) cc [OF iN] by (auto simp: credited_def min_def split: if_splits)
  then have ck: "ccnt st ! i = ?k * ?q" using cc [OF iN] by (simp add: credited_def)
  have sl: "?s \<le> iters (bp c)" using os d(1,2) i(1) by (auto simp: on_schedule_def)
  have "?k < signals_before c ?s"
  proof (cases "?s = iters (bp c)")
    case True
    with k show ?thesis using signals_total [OF d(8)] by simp
  next
    case False
    then have "tx_depth (bp c) + ?k * ?q < ?s + 1"
      using bl i(1) sl it ck d(5,7) by (auto simp: can_post_def)
    then have "(?k + 1) * ?q \<le> ?s" using d(6) by (simp add: algebra_simps)
    then have "(?k + 1) * ?q div ?q \<le> ?s div ?q" by (rule div_le_mono)
    then show ?thesis using d(8) by (simp add: signals_before_def)
  qed
  then have "0 < owed c st i" using signaled_posts_schedule [OF os d(1,2) i(1)] by (simp add: owed_def)
  with i(1) show ?thesis by blast
qed

text \<open>Completions never run ahead of the posts.\<close>

lemma credited_within_posts:
  assumes b: "books c st" and p: "schedulable (bp c)" "test_type (bp c) = ITERATIONS" "fills (bp c)" "1 \<le> cq_mod (bp c)"
    and i: "i < bw_num_qps (bp c)"
  shows "ccnt st ! i \<le> scnt st ! i"
proof -
  let ?k = "count_list (polled st) i" and ?s = "scnt st ! i" and ?q = "cq_mod (bp c)"
  from b p(1,2) have os: "on_schedule c st"
    and cc: "\<And>i. i < num_of_qps (bp c) \<Longrightarrow> ccnt st ! i = credited c (count_list (polled st) i)"
    and k: "?k \<le> signaled_posts c st i" by (auto simp: books_def)
  have iN: "i < num_of_qps (bp c)" using i bw_num_qps_le [of "bp c"] by linarith
  have sl: "?s \<le> iters (bp c)" using os p(1,2) i by (auto simp: on_schedule_def)
  have kS: "?k \<le> signals_before c ?s" using k signaled_posts_schedule [OF os p(1,2) i] by simp
  show ?thesis
  proof (cases "?s = iters (bp c)")
    case True
    with credited_le [OF p(3,4)] kS cc [OF iN] show ?thesis by simp
  next
    case False
    then have "?k \<le> ?s div ?q" using kS by (simp add: signals_before_def)
    then have "?k * ?q \<le> ?s div ?q * ?q" by (rule mult_le_mono1)
    also have "\<dots> \<le> ?s" by simp
    finally show ?thesis using cc [OF iN] by (auto simp: credited_def)
  qed
qed

lemma running_unfinished:
  assumes b: "books c st" and p: "plain_test c" and r: "running c env st"
  shows "totccnt st < tot_iters c"
proof (rule ccontr)
  note d = plain_testD [OF p]
  assume "\<not> totccnt st < tot_iters c"
  then have t: "tot_iters c \<le> totccnt st" by simp
  have "totscnt st = sum_list (scnt st)" "length (scnt st) = num_of_qps (bp c)" using b d(1,2) by (auto simp: books_def on_schedule_def shaped_def)
  moreover have "(\<Sum>i = 0..<bw_num_qps (bp c). scnt st ! i) = tot_iters c"
    using books_done(1) [OF b d(1-3) t] d(2) by (simp add: tot_iters_def mult.commute)
  moreover have "(\<Sum>i = 0..<bw_num_qps (bp c). scnt st ! i) \<le> (\<Sum>i = 0..<num_of_qps (bp c). scnt st ! i)"
    using bw_num_qps_le [of "bp c"] by (intro sum_mono2) auto
  ultimately have "tot_iters c \<le> totscnt st" by (simp add: sum_list_sum_nth)
  with t r d(2) show False by (simp add: running_def)
qed

section \<open>One pass makes progress\<close>

lemma complete_all_plain:
  assumes "\<forall>w \<in> set ws. snd w"
  shows "\<exists>st'. complete_all c env ws st = Inr st' \<and> polled st' = rev (map fst ws) @ polled st \<and> totscnt st' = totscnt st \<and> dyn st' = dyn st
    \<and> empty_polls st' = empty_polls st"
  using assms
proof (induction ws arbitrary: st)
  case (Cons w ws)
  obtain st1 where s1: "complete_one c env w st = Inr st1" "polled st1 = fst w # polled st" "totscnt st1 = totscnt st" "dyn st1 = dyn st"
    "empty_polls st1 = empty_polls st"
    using Cons.prems by (cases w) (auto simp: complete_one_def Let_def)
  with Cons.IH [of st1] Cons.prems show ?case by auto
qed simp

definition measure_left :: "bw_ctx \<Rightarrow> bw_state \<Rightarrow> nat" where
  "measure_left c st = (tot_iters c - totscnt st) + (bw_num_qps (bp c) * signals_before c (iters (bp c)) - length (polled st))"

text \<open>The passes that are left: at most \<open>d\<close> for every unit of the measure, less those of the empty polls just made.\<close>

definition passes_left :: "nat \<Rightarrow> bw_ctx \<Rightarrow> bw_state \<Rightarrow> nat" where
  "passes_left d c st = d * measure_left c st + (d - empty_polls st)"

lemma passes_progress:
  assumes "measure_left c st' < measure_left c st" and "empty_polls st < d"
  shows "passes_left d c st' < passes_left d c st"
proof -
  have "Suc (measure_left c st') \<le> measure_left c st" using assms(1) by simp
  then have "d * Suc (measure_left c st') \<le> d * measure_left c st" by (rule mult_le_mono2)
  then show ?thesis using assms(2) by (simp add: passes_left_def)
qed

lemma passes_waiting:
  assumes "measure_left c st' \<le> measure_left c st" and "empty_polls st' = Suc (empty_polls st)" and "empty_polls st < d"
  shows "passes_left d c st' < passes_left d c st"
proof -
  have "d * measure_left c st' \<le> d * measure_left c st" using assms(1) by (rule mult_le_mono2)
  then show ?thesis unfolding passes_left_def using assms(2,3) by linarith
qed

lemma polled_bound:
  assumes b: "books c st" and p: "plain_test c"
  shows "length (polled st) \<le> bw_num_qps (bp c) * signals_before c (iters (bp c))"
proof -
  note d = plain_testD [OF p]
  from b d(1,2) have os: "on_schedule c st" and k: "\<And>q. count_list (polled st) q \<le> signaled_posts c st q"
    and sub: "set (polled st) \<subseteq> {..<bw_num_qps (bp c)}" by (auto simp: books_def)
  have le: "count_list (polled st) q \<le> signals_before c (iters (bp c))" if "q < bw_num_qps (bp c)" for q
  proof -
    have "scnt st ! q \<le> iters (bp c)" using os d(1,2) that by (auto simp: on_schedule_def)
    from signals_before_mono [OF d(8) this] k [of q] signaled_posts_schedule [OF os d(1,2) that] show ?thesis by linarith
  qed
  have "length (polled st) = (\<Sum>q < bw_num_qps (bp c). count_list (polled st) q)" using sum_count_set [OF sub] by simp
  also have "\<dots> \<le> (\<Sum>q < bw_num_qps (bp c). signals_before c (iters (bp c)))" by (rule sum_mono) (use le in simp)
  finally show ?thesis by simp
qed

lemma poll_size_positive:
  assumes "poll_completions ctx device n en = (m, ctx', en')" "1 \<le> curr_size (dstate ctx)"
  shows "1 \<le> curr_size (dstate ctx')"
  using assms by (auto simp: poll_completions_def poll_cq_adaptive_def Let_def split: if_splits)

lemma bw_pass_progress:
  assumes b: "books c st" and p: "plain_test c" and f: "fair_env d c env" and tot: "totccnt st < tot_iters c"
    and k: "1 \<le> curr_size (dstate (dyn st))" and e: "empty_polls st < d" and fuel: "tx_depth (bp c) \<le> fuel"
  shows "\<exists>st'. bw_pass fuel c env st = Some (Inr st') \<and> books c st' \<and> 1 \<le> curr_size (dstate (dyn st')) \<and> empty_polls st' < d \<and>
    passes_left d c st' < passes_left d c st"
proof -
  note d = plain_testD [OF p]
  have ok: "\<forall>t. e_post_ok env t" "\<forall>t. e_notify_ok env t" and hd: "honest_device c env" using f by (simp_all add: fair_env_def)
  note he = honest_env_id [OF hd]
  let ?st0 = "st\<lparr> clk := clk st + 1 \<rparr>"
  have b0: "books c ?st0" by (rule bookkeeping.neutral [OF _ b]) (simp add: bw_core_def)
  have win: "\<forall>i < bw_num_qps (bp c). ccnt st ! i \<le> scnt st ! i" using credited_within_posts [OF b d(1-3,8)] by blast
  from post_qps_plain [OF p ok(1) b0, of "[0..<bw_num_qps (bp c)]" fuel] win fuel obtain st1 where
    q: "post_qps fuel c env [0..<bw_num_qps (bp c)] ?st0 = Some (Inr st1)" "posted_from c {..<bw_num_qps (bp c)} ?st0 st1"
      "\<forall>i < bw_num_qps (bp c). \<not> can_post c st1 i"
    by (force simp: atLeast0LessThan)
  have b1: "books c st1" "totccnt st1 = totccnt st" "dyn st1 = dyn st" "polled st1 = polled st" "totscnt st \<le> totscnt st1" "empty_polls st1 = empty_polls st"
    using q(2) b d(1,2) by (auto simp: posted_from_def books_def)
  have "\<exists>q < bw_num_qps (bp c). 0 < owed c st1 q" by (rule blocked_owes [OF b1(1) p _ q(3)]) (use tot b1(2) in simp)
  with f b1(1) k b1(3) obtain ws where ws: "e_poll env (clk st1) st1 (curr_size (dstate (dyn st1))) = Some ws"
    "d \<le> Suc (empty_polls st1) \<longrightarrow> ws \<noteq> []" "\<forall>w \<in> set ws. snd w"
    unfolding fair_env_def by metis
  obtain n' dyn' en' where pc: "poll_completions (dyn st1) (\<lambda>_. int (length ws)) (totccnt st1) (dyn_en st1) = (n', dyn', en')"
    by (cases "poll_completions (dyn st1) (\<lambda>_. int (length ws)) (totccnt st1) (dyn_en st1)")
  define st2 where "st2 = st1\<lparr> ne := n', dyn := dyn', dyn_en := en', clk := Suc (clk st1), empty_polls := (if ws = [] then Suc (empty_polls st1) else 0) \<rparr>"
  obtain st3 where st3: "complete_all c env ws st2 = Inr st3" "polled st3 = rev (map fst ws) @ polled st2" "totscnt st3 = totscnt st2" "dyn st3 = dyn st2"
    "empty_polls st3 = empty_polls st2"
    using complete_all_plain [OF ws(3)] by blast
  have pp: "poll_phase c env st1 = Inr st3"
    using tot b1(2) ok(2) ws(1) pc st3(1) by (cases "ws = []") (simp_all add: poll_phase_def st2_def)
  then have pass: "bw_pass fuel c env st = Some (Inr st3)" using q(1) by (simp add: bw_pass_def)
  have b3: "books c st3" using bookkeeping.bw_pass_inv [of fuel c env st "Inr st3"] pass b by (simp add: he)
  have len: "length (polled st3) = length ws + length (polled st)" using st3(2) b1(4) by (simp add: st2_def)
  have bound: "length (polled st3) \<le> bw_num_qps (bp c) * signals_before c (iters (bp c))" by (rule polled_bound [OF b3 p])
  have sent: "totscnt st \<le> totscnt st3" using st3(3) b1(5) by (simp add: st2_def)
  have "empty_polls st3 < d \<and> passes_left d c st3 < passes_left d c st"
  proof (cases "ws = []")
    case True
    have "measure_left c st3 \<le> measure_left c st" using len sent True by (simp add: measure_left_def)
    moreover have "empty_polls st3 = Suc (empty_polls st)" using st3(5) b1(6) True by (simp add: st2_def)
    ultimately show ?thesis using passes_waiting [OF _ _ e] ws(2) b1(6) True by force
  next
    case False
    then have "length (polled st) < length (polled st3)" using len by (cases ws) auto
    then have "measure_left c st3 < measure_left c st" using bound sent by (simp add: measure_left_def)
    moreover have "empty_polls st3 = 0" using st3(5) False by (simp add: st2_def)
    ultimately show ?thesis using passes_progress [OF _ e] e by simp
  qed
  moreover have "1 \<le> curr_size (dstate (dyn st3))"
    using poll_size_positive [OF pc] k b1(3) st3(4) by (simp add: st2_def)
  ultimately show ?thesis using pass b3 by blast
qed

lemma bw_loop_returns:
  assumes p: "plain_test c" and f: "fair_env d c env" and fuel: "tx_depth (bp c) \<le> inner"
  shows "books c st \<Longrightarrow> 1 \<le> curr_size (dstate (dyn st)) \<Longrightarrow> empty_polls st < d \<Longrightarrow> passes_left d c st \<le> n \<Longrightarrow>
    \<exists>st'. bw_loop inner n c env st = Some (Inr st')"
proof (induction n arbitrary: st)
  case 0
  show ?case
  proof (cases "running c env st")
    case False
    then show ?thesis by (subst bw_loop.simps) simp
  next
    case True
    from running_unfinished [OF 0(1) p True] bw_pass_progress [OF 0(1) p f _ 0(2,3) fuel] 0(4) show ?thesis by fastforce
  qed
next
  case (Suc n)
  show ?case
  proof (cases "running c env st")
    case False
    then show ?thesis by (subst bw_loop.simps) simp
  next
    case True
    from bw_pass_progress [OF Suc.prems(1) p f running_unfinished [OF Suc.prems(1) p True] Suc.prems(2,3) fuel] obtain st1 where
      s1: "bw_pass inner c env st = Some (Inr st1)" "books c st1" "1 \<le> curr_size (dstate (dyn st1))" "empty_polls st1 < d"
        "passes_left d c st1 < passes_left d c st" by blast
    from Suc.IH [OF s1(2-4)] s1(5) Suc.prems(4) have "\<exists>st'. bw_loop inner n c env st1 = Some (Inr st')" by simp
    with True s1(1) show ?thesis by (subst bw_loop.simps) simp
  qed
qed

section \<open>A device that returns what it owes\<close>

definition owed_list :: "bw_ctx \<Rightarrow> bw_state \<Rightarrow> nat list" where
  "owed_list c st = concat (map (\<lambda>q. replicate (owed c st q) q) [0..<bw_num_qps (bp c)])"

text \<open>It keeps a completion back for \<open>d - 1\<close> polls.\<close>

definition slow_env :: "nat \<Rightarrow> bw_ctx \<Rightarrow> bw_env" where
  "slow_env d c = \<lparr> e_cycles = \<lambda>t. t, e_gap = 0, e_credit = \<lambda>t i. 0, e_dstate = \<lambda>t. START_STATE, e_post_ok = \<lambda>t. True,
     e_notify_ok = \<lambda>t. True,
     e_poll = \<lambda>t st k. if \<forall>q \<in> set (polled st). count_list (polled st) q \<le> signaled_posts c st q
       then Some (if Suc (empty_polls st) < d then [] else map (\<lambda>q. (q, True)) (take (nat k) (owed_list c st))) else None \<rparr>"

abbreviation prompt_env :: "bw_ctx \<Rightarrow> bw_env" where
  "prompt_env \<equiv> slow_env 1"

lemma count_list_replicate: "count_list (replicate n a) b = (if a = b then n else 0)"
  by (induction n) auto

lemma count_list_concat_replicate:
  "count_list (concat (map (\<lambda>q. replicate (f q) q) [0..<n])) x = (if x < n then f x else 0)"
  by (induction n) (auto simp: count_list_append count_list_replicate less_Suc_eq)

lemma count_list_take_le: "count_list (take n xs) x \<le> count_list xs x"
  by (metis append_take_drop_id count_list_append le_add1)

lemma slow_env_fair:
  assumes "plain_test c"
  shows "fair_env d c (slow_env d c)"
proof -
  have "honest_answer c st (take (nat k) (owed_list c st))"
    if "\<forall>q \<in> set (polled st). count_list (polled st) q \<le> signaled_posts c st q" for st k
  proof -
    have le: "count_list (polled st) q \<le> signaled_posts c st q" for q
      using that by (cases "q \<in> set (polled st)") (auto simp: count_list_0_iff)
    have "count_list (take (nat k) (owed_list c st)) q + count_list (polled st) q \<le> signaled_posts c st q" for q
      using count_list_take_le [of "nat k" "owed_list c st" q] le [of q]
      by (simp add: owed_list_def count_list_concat_replicate owed_def split: if_splits)
    moreover have "set (take (nat k) (owed_list c st)) \<subseteq> {..<bw_num_qps (bp c)}"
      using set_take_subset [of "nat k" "owed_list c st"] by (auto simp: owed_list_def split: if_splits)
    ultimately show ?thesis by (auto simp: honest_answer_def)
  qed
  moreover have "honest_answer c st []" if "\<forall>q \<in> set (polled st). count_list (polled st) q \<le> signaled_posts c st q" for st
    using that by (auto simp: honest_answer_def)
  ultimately have "honest_device c (slow_env d c)" by (auto simp: honest_device_def slow_env_def comp_def split: if_splits)
  moreover have "\<exists>ws. e_poll (slow_env d c) t st k = Some ws \<and> (d \<le> Suc (empty_polls st) \<longrightarrow> ws \<noteq> []) \<and> (\<forall>w \<in> set ws. snd w)"
    if "(\<forall>q. count_list (polled st) q \<le> signaled_posts c st q)" "1 \<le> k" "q < bw_num_qps (bp c)" "0 < owed c st q" for t st k q
  proof -
    have "q \<in> set (owed_list c st)" using that(3,4) by (auto simp: owed_list_def)
    then have "take (nat k) (owed_list c st) \<noteq> []" using that(2) by (cases "owed_list c st") auto
    with that(1) show ?thesis by (auto simp: slow_env_def)
  qed
  ultimately show ?thesis
    unfolding fair_env_def using plain_testD(1,2) [OF assms]
    by (intro conjI allI impI) (simp_all add: books_def, simp add: slow_env_def, simp add: slow_env_def, blast)
qed

lemma bw_run_succeeds:
  assumes "plain_test c" "0 < d" "fair_env d c env" "tx_depth (bp c) \<le> inner"
    and "d * (bw_num_qps (bp c) * (iters (bp c) + signals_before c (iters (bp c))) + 1) \<le> fuel"
    and "dynamic_cqe_poll (bp c) \<or> 1 \<le> unat (cqe_poll (bp c))"
  obtains s0 st where "bw_loop inner fuel c env (bw_init c env) = Some (Inr s0)" "run_iter_bw inner fuel c env = Some (Inr st)"
    "st = s0 \<or> st = s0\<lparr> tcompleted_ix := 0 # tcompleted_ix s0 \<rparr>" "books c s0" "tot_iters c \<le> totccnt s0"
proof -
  note d = plain_testD [OF assms(1)]
  have hd: "honest_device c env" using assms(3) by (simp add: fair_env_def)
  have k: "1 \<le> curr_size (dstate (dyn (bw_init c env)))"
  proof -
    have "uint (cqe_poll (bp c)) = int (unat (cqe_poll (bp c)))" by simp
    with assms(6) show ?thesis by (auto simp: bw_init_def init_dyn_poll_ctx_def Let_def simp del: of_nat_unat)
  qed
  have e: "empty_polls (bw_init c env) < d" using assms(2) by (simp add: bw_init_def Let_def)
  have "measure_left c (bw_init c env) = bw_num_qps (bp c) * (iters (bp c) + signals_before c (iters (bp c)))"
    using d(2) by (simp add: measure_left_def bw_init_def tot_iters_def Let_def algebra_simps)
  then have "passes_left d c (bw_init c env) \<le> fuel" using assms(5) by (simp add: passes_left_def bw_init_def Let_def)
  from bw_loop_returns [OF assms(1,3,4) books_init k e this] obtain s0 where
    l: "bw_loop inner fuel c env (bw_init c env) = Some (Inr s0)" by blast
  from bookkeeping.bw_loop_inv [of inner fuel c env "bw_init c env" "Inr s0"] l books_init
  have b: "books c s0" by (simp add: honest_env_id [OF hd])
  have "tot_iters c \<le> totccnt s0" using bw_loop_exit [OF l] by (simp add: running_def)
  with l b that [of s0] d(2) show ?thesis by (auto simp: run_iter_bw_def)
qed

section \<open>Properties\<close>

lemma bw_run_completes:
  assumes "plain_test c" "0 < d" "fair_env d c env" "tx_depth (bp c) \<le> inner"
    and "d * (bw_num_qps (bp c) * (iters (bp c) + signals_before c (iters (bp c))) + 1) \<le> fuel"
    and "dynamic_cqe_poll (bp c) \<or> 1 \<le> unat (cqe_poll (bp c))"
  shows "\<exists>st. run_iter_bw inner fuel c env = Some (Inr st) \<and>
    (\<forall>i < bw_num_qps (bp c). scnt st ! i = iters (bp c) \<and> ccnt st ! i = iters (bp c))"
proof -
  note d = plain_testD [OF assms(1)]
  obtain s0 st where r: "run_iter_bw inner fuel c env = Some (Inr st)" "st = s0 \<or> st = s0\<lparr> tcompleted_ix := 0 # tcompleted_ix s0 \<rparr>"
    and b: "books c s0" "tot_iters c \<le> totccnt s0" by (rule bw_run_succeeds [OF assms])
  from books_done(1,2) [OF b(1) d(1-3) b(2)] r show ?thesis by auto
qed

text \<open>
  C2. Total correctness of a plain bandwidth test (counted, requests posted one at a time, no receiver credits, no software
  pacing, completion moderation within the send queue): with a device that finds an owed completion at least once
  in \<open>d\<close> polls, \<open>run_iter_bw\<close> returns successfully after at most the stated number of passes, and every queue pair has
  sent all its requests and has them completed.
\<close>

theorem bw_run_terminates:
  assumes "plain_test c" "0 < d" "fair_env d c env" "tx_depth (bp c) \<le> inner"
    and "d * (bw_num_qps (bp c) * (iters (bp c) + signals_before c (iters (bp c))) + 1) \<le> fuel"
    and "dynamic_cqe_poll (bp c) \<or> 1 \<le> unat (cqe_poll (bp c))"
  shows "\<exists>st. run_iter_bw inner fuel c env = Some (Inr st) \<and>
    (\<forall>i < bw_num_qps (bp c). scnt st ! i = iters (bp c) \<and> ccnt st ! i = iters (bp c))"
  by (rule bw_run_completes [OF assms])

abbreviation demo_bw :: bw_ctx where
  "demo_bw \<equiv> \<lparr> bp = basic_params, send_rcredit = False, my_addr = \<lambda>_. 4096, rem_addr = \<lambda>_. 8192,
     port_by_qp = \<lambda>_. 0 \<rparr>"

lemma demo_bw_plain: "plain_test demo_bw"
  by (simp add: plain_test_def schedulable_def fills_def basic_params_def)

lemma demo_bw_honest: "honest_device demo_bw (prompt_env demo_bw)"
  using slow_env_fair [OF demo_bw_plain] by (simp add: fair_env_def)

theorem bw_run_terminates_witness:
  "\<exists>st. run_iter_bw 4 27 demo_bw (slow_env 3 demo_bw) = Some (Inr st) \<and> scnt st ! 0 = 5 \<and> ccnt st ! 0 = 5"
  using bw_run_terminates [OF demo_bw_plain _ slow_env_fair [OF demo_bw_plain], of 3 4 27]
  by (simp add: basic_params_def bw_num_qps_def signals_before_def)

lemma demo_bw_run: "\<exists>st. run_iter_bw 4 9 demo_bw (prompt_env demo_bw) = Some (Inr st)"
proof -
  have "1 * (bw_num_qps (bp demo_bw) * (iters (bp demo_bw) + signals_before demo_bw (iters (bp demo_bw))) + 1) \<le> 9"
    "tx_depth (bp demo_bw) \<le> 4" "dynamic_cqe_poll (bp demo_bw) \<or> 1 \<le> unat (cqe_poll (bp demo_bw))"
    by (simp_all add: basic_params_def bw_num_qps_def signals_before_def)
  from bw_run_succeeds [OF demo_bw_plain zero_less_one slow_env_fair [OF demo_bw_plain] this(2,1,3)] show ?thesis by metis
qed

theorem send_window_respected_witness:
  "\<exists>st. run_iter_bw 4 9 demo_bw (prompt_env demo_bw) = Some (Inr st) \<and>
     list_all (\<lambda>e. pe_scnt e + 1 \<le> 4 + pe_ccnt e) (posts st)"
proof -
  from demo_bw_run obtain st where r: "run_iter_bw 4 9 demo_bw (prompt_env demo_bw) = Some (Inr st)" by blast
  from send_window_respected [OF demo_bw_honest r] r show ?thesis
    by (auto simp: final_state_def basic_params_def list_all_iff)
qed

theorem signalling_schedule_witness:
  "\<exists>st. run_iter_bw 4 9 demo_bw (prompt_env demo_bw) = Some (Inr st) \<and>
     list_all (\<lambda>e. pe_signaled e = ((pe_scnt e + 1) mod 2 = 0 \<or> pe_scnt e + 1 = 5)) (posts st)"
proof -
  from demo_bw_run obtain st where r: "run_iter_bw 4 9 demo_bw (prompt_env demo_bw) = Some (Inr st)" by blast
  have "schedulable (bp demo_bw)" "0 < bw_num_qps (bp demo_bw)" by (simp_all add: schedulable_def basic_params_def bw_num_qps_def)
  from signalling_schedule [OF demo_bw_honest r this] r show ?thesis
    by (auto simp: final_state_def basic_params_def list_all_iff)
qed

theorem bw_run_drains_queues_witness:
  "\<exists>st. run_iter_bw 4 9 demo_bw (prompt_env demo_bw) = Some (Inr st) \<and> scnt st ! 0 = 5 \<and> ccnt st ! 0 = 5"
proof -
  from demo_bw_run obtain st where r: "run_iter_bw 4 9 demo_bw (prompt_env demo_bw) = Some (Inr st)" by blast
  from bw_run_drains_queues [OF demo_bw_honest r plain_testD(1-3) [OF demo_bw_plain], of 0] r show ?thesis
    by (auto simp: basic_params_def bw_num_qps_def)
qed

end
