(* ===== verification/Transport.thy ===== *)
theory Transport
  imports Prelude
begin

text \<open>
  The out-of-band transport of \<^verbatim>\<open>src/src/perftest_communication.c\<close>: \<^verbatim>\<open>ethernet_write_data\<close>,
  \<^verbatim>\<open>ethernet_read_data\<close>, \<^verbatim>\<open>rdma_write_data\<close>, \<^verbatim>\<open>rdma_read_data\<close>, the \<^verbatim>\<open>ctx_xchg_data\<close> family, and the chunked
  exchange of \<^verbatim>\<open>src/src/perftest_negotiation.c\<close>.

  A routine that talks to its peer is an interaction tree \<open>'a io\<close>: it either returns or issues one
  operation (a system call or a verbs call) and continues with the answer, which the environment
  chooses.  Failure of an operation is part of the answer.  Two environments give meaning to a tree:
  \<open>performs\<close> replays a fixed list of operations with their answers (whatever the network does), and
  \<open>net_step\<close> runs a client and a server against each other over two byte streams that deliver any
  non-empty part of what is asked for.  The locale \<open>dialogue\<close> is the contract between the two sides of
  a protocol; each exchange is shown to meet it.

  The host is little-endian.
\<close>

section \<open>Bytes of integers in memory\<close>

primrec le_bytes :: "nat \<Rightarrow> nat \<Rightarrow> u8 list" where
  "le_bytes 0 n = []" |
  "le_bytes (Suc k) n = of_nat n # le_bytes k (n div 256)"

primrec le_value :: "u8 list \<Rightarrow> nat" where
  "le_value [] = 0" |
  "le_value (b # bs) = unat b + 256 * le_value bs"

definition u32_bytes :: "u32 \<Rightarrow> u8 list" where "u32_bytes w = le_bytes 4 (unat w)"
definition u64_bytes :: "u64 \<Rightarrow> u8 list" where "u64_bytes w = le_bytes 8 (unat w)"
definition bytes_u32 :: "u8 list \<Rightarrow> u32" where "bytes_u32 bs = of_nat (le_value bs)"
definition bytes_u64 :: "u8 list \<Rightarrow> u64" where "bytes_u64 bs = of_nat (le_value bs)"

definition htonl :: "u32 \<Rightarrow> u32" where "htonl w = bytes_u32 (rev (u32_bytes w))"

definition hton_64 :: "u64 \<Rightarrow> u64" where "hton_64 w = bytes_u64 (rev (u64_bytes w))"

section \<open>Interaction trees\<close>

text \<open>The fields of a work completion the synchronisation path looks at.\<close>

record sync_wc =
  wc_status :: nat
  wc_opcode :: u32
  wc_wr_id :: u64

text \<open>
  \<open>Sys_write m\<close> is \<^verbatim>\<open>write(sockfd, m, size)\<close>: the answer is the number of bytes taken, or \<open>None\<close> for a
  negative result.  \<open>Sys_read n\<close> is \<^verbatim>\<open>read(sockfd, _, n)\<close>: the bytes delivered (none: the peer has
  closed), or \<open>None\<close>.  \<open>Post_send m\<close> is \<^verbatim>\<open>ibv_post_send\<close> of the bytes in \<^verbatim>\<open>buf[0]\<close>.  \<open>Wait_send\<close> and
  \<open>Wait_recv n\<close> are the loops that poll the send and the receive queue until a completion is there;
  the latter also gives the first \<open>n\<close> bytes of \<^verbatim>\<open>buf[0]\<close> at that moment.  \<open>Post_recv\<close> is
  \<^verbatim>\<open>post_one_recv_wqe\<close>.
\<close>

datatype 'a io =
    Return 'a
  | Sys_write "u8 list" "nat option \<Rightarrow> 'a io"
  | Sys_read nat "u8 list option \<Rightarrow> 'a io"
  | Post_send "u8 list" "bool \<Rightarrow> 'a io"
  | Wait_send "sync_wc \<Rightarrow> 'a io"
  | Wait_recv nat "sync_wc \<times> u8 list \<Rightarrow> 'a io"
  | Post_recv "bool \<Rightarrow> 'a io"

primrec io_bind :: "'a io \<Rightarrow> ('a \<Rightarrow> 'b io) \<Rightarrow> 'b io" where
  "io_bind (Return x) f = f x" |
  "io_bind (Sys_write m k) f = Sys_write m (\<lambda>a. io_bind (k a) f)" |
  "io_bind (Sys_read n k) f = Sys_read n (\<lambda>a. io_bind (k a) f)" |
  "io_bind (Post_send m k) f = Post_send m (\<lambda>a. io_bind (k a) f)" |
  "io_bind (Wait_send k) f = Wait_send (\<lambda>a. io_bind (k a) f)" |
  "io_bind (Wait_recv n k) f = Wait_recv n (\<lambda>a. io_bind (k a) f)" |
  "io_bind (Post_recv k) f = Post_recv (\<lambda>a. io_bind (k a) f)"

text \<open>\<^verbatim>\<open>if (call) return failure;\<close> for a call that reports success as \<^term>\<open>True\<close>, or yields data.\<close>

definition or_fail :: "bool io \<Rightarrow> 'b \<Rightarrow> 'b io \<Rightarrow> 'b io" where
  "or_fail p failed k = io_bind p (\<lambda>ok. if ok then k else Return failed)"

definition with_data :: "'a option io \<Rightarrow> 'b \<Rightarrow> ('a \<Rightarrow> 'b io) \<Rightarrow> 'b io" where
  "with_data p failed f = io_bind p (\<lambda>r. case r of None \<Rightarrow> Return failed | Some x \<Rightarrow> f x)"

section \<open>The transport\<close>

lemma shorter_by: "0 < k \<Longrightarrow> 0 < n \<Longrightarrow> n - k < (n :: nat)"
  by simp


text \<open>
  The part of \<^verbatim>\<open>struct perftest_comm\<close> that selects the transport and the side: the client is the side
  that was given a server name.
\<close>

record perftest_comm =
  comm_use_rdma_cm :: bool
  comm_work_rdma_cm :: bool
  servername :: bool

definition is_rdma :: "perftest_comm \<Rightarrow> bool" where
  "is_rdma c \<longleftrightarrow> comm_use_rdma_cm c \<or> comm_work_rdma_cm c"

text \<open>The two socket loops; the state of the loop is what is left of the message.\<close>

function ethernet_write_data :: "u8 list \<Rightarrow> bool io" where
  "ethernet_write_data msg =
     (if msg = [] then Return True
      else Sys_write msg (\<lambda>n. if n = None \<or> n = Some 0 then Return False
                              else ethernet_write_data (drop (the n) msg)))"
  by pat_completeness auto
termination by (relation "measure length") (auto, metis shorter_by length_greater_0_conv neq0_conv)

function ethernet_read_data :: "nat \<Rightarrow> u8 list option io" where
  "ethernet_read_data n =
     (if n = 0 then Return (Some [])
      else Sys_read n (\<lambda>r. if r = None \<or> r = Some [] then Return None
                              else io_bind (ethernet_read_data (n - length (the r)))
                                     (\<lambda>rest. Return (map_option ((@) (the r)) rest))))"
  by pat_completeness auto
termination by (relation "measure id") (auto, metis shorter_by length_greater_0_conv)

declare ethernet_write_data.simps [simp del] ethernet_read_data.simps [simp del]

abbreviation SYNC_SPEC_ID :: u64 where "SYNC_SPEC_ID \<equiv> 5"
abbreviation IBV_WC_SEND :: u32 where "IBV_WC_SEND \<equiv> 0"
abbreviation IBV_WC_RECV :: u32 where "IBV_WC_RECV \<equiv> 128"

definition rdma_write_data :: "u8 list \<Rightarrow> bool io" where
  "rdma_write_data msg =
     Post_send msg (\<lambda>ok. if \<not> ok then Return False
       else Wait_send (\<lambda>w. Return (wc_status w = 0 \<and> wc_opcode w = IBV_WC_SEND \<and> wc_wr_id w = SYNC_SPEC_ID)))"

definition rdma_read_data :: "nat \<Rightarrow> u8 list option io" where
  "rdma_read_data n =
     Wait_recv n (\<lambda>(w, msg). if wc_status w \<noteq> 0 \<or> wc_opcode w AND IBV_WC_RECV = 0 \<or> wc_wr_id w \<noteq> SYNC_SPEC_ID
       then Return None
       else Post_recv (\<lambda>ok. Return (if ok then Some msg else None)))"

text \<open>
  An exchange of a block of the same size on both sides: the client writes first, the server reads
  first.
\<close>

definition ctx_xchg_data_ethernet :: "perftest_comm \<Rightarrow> u8 list \<Rightarrow> u8 list option io" where
  "ctx_xchg_data_ethernet c my_data =
     (if servername c
      then or_fail (ethernet_write_data my_data) None (ethernet_read_data (length my_data))
      else with_data (ethernet_read_data (length my_data)) None
             (\<lambda>rem. or_fail (ethernet_write_data my_data) None (Return (Some rem))))"

definition ctx_xchg_data_rdma :: "perftest_comm \<Rightarrow> u8 list \<Rightarrow> u8 list option io" where
  "ctx_xchg_data_rdma c my_data =
     (if servername c
      then or_fail (rdma_write_data my_data) None (rdma_read_data (length my_data))
      else with_data (rdma_read_data (length my_data)) None
             (\<lambda>rem. or_fail (rdma_write_data my_data) None (Return (Some rem))))"

definition ctx_xchg_data :: "perftest_comm \<Rightarrow> u8 list \<Rightarrow> u8 list option io" where
  "ctx_xchg_data c my_data =
     (if is_rdma c then ctx_xchg_data_rdma c my_data else ctx_xchg_data_ethernet c my_data)"

section \<open>The chunked exchange\<close>

abbreviation KV_BUF_SIZE :: nat where "KV_BUF_SIZE \<equiv> 2048"

function write_data_chunked :: "bool \<Rightarrow> u8 list \<Rightarrow> bool io" where
  "write_data_chunked rdma data =
     (if data = [] then Return True
      else let chunk = take KV_BUF_SIZE data in
        or_fail (if rdma then rdma_write_data chunk else ethernet_write_data chunk) False
          (write_data_chunked rdma (drop KV_BUF_SIZE data)))"
  by pat_completeness auto
termination by (relation "measure (\<lambda>(_, data). length data)") auto

function read_data_chunked :: "bool \<Rightarrow> nat \<Rightarrow> u8 list option io" where
  "read_data_chunked rdma n =
     (if n = 0 then Return (Some [])
      else let chunk = min n KV_BUF_SIZE in
        with_data (if rdma then rdma_read_data chunk else ethernet_read_data chunk) None
          (\<lambda>part. with_data (read_data_chunked rdma (n - chunk)) None (\<lambda>rest. Return (Some (part @ rest)))))"
  by pat_completeness auto
termination by (relation "measure snd") auto

declare write_data_chunked.simps [simp del] read_data_chunked.simps [simp del]

text \<open>
  \<^verbatim>\<open>malloc_ok\<close> says whether the receive buffer of \<^verbatim>\<open>rem_size + 1\<close> bytes can be allocated.  The total
  length travels as a 32-bit number in network order.
\<close>

definition ctx_xchg_data_chunked :: "(nat \<Rightarrow> bool) \<Rightarrow> perftest_comm \<Rightarrow> u8 list \<Rightarrow> u8 list option io" where
  "ctx_xchg_data_chunked malloc_ok c my_data =
     with_data (ctx_xchg_data c (u32_bytes (htonl (of_nat (length my_data))))) None (\<lambda>rem_len.
       let rem_size = unat (htonl (bytes_u32 rem_len)) in
       if \<not> malloc_ok (rem_size + 1) then Return None
       else if servername c
       then or_fail (write_data_chunked (is_rdma c) my_data) None (read_data_chunked (is_rdma c) rem_size)
       else with_data (read_data_chunked (is_rdma c) rem_size) None (\<lambda>rem.
              or_fail (write_data_chunked (is_rdma c) my_data) None (Return (Some rem))))"

section \<open>Replaying a list of operations\<close>

datatype ev =
    Ev_write "u8 list" "nat option"
  | Ev_read nat "u8 list option"
  | Ev_post_send "u8 list" bool
  | Ev_wait_send sync_wc
  | Ev_wait_recv nat sync_wc "u8 list"
  | Ev_post_recv bool

text \<open>
  What the operating system and the verbs library promise of an answer: no more bytes are taken or
  delivered than were asked for.
\<close>

fun answer_ok :: "ev \<Rightarrow> bool" where
  "answer_ok (Ev_write m (Some n)) = (n \<le> length m)" |
  "answer_ok (Ev_read n (Some bs)) = (length bs \<le> n)" |
  "answer_ok (Ev_wait_recv n w bs) = (length bs = n)" |
  "answer_ok _ = True"

text \<open>
  \<open>performs p es x\<close>: \<open>p\<close> issues exactly the operations \<open>es\<close>, each answered lawfully, and returns \<open>x\<close>.
\<close>

primrec performs :: "'a io \<Rightarrow> ev list \<Rightarrow> 'a \<Rightarrow> bool" where
  "performs (Return x) es y = (es = [] \<and> y = x)" |
  "performs (Sys_write m k) es y =
     (case es of Ev_write m' a # es' \<Rightarrow> m' = m \<and> answer_ok (hd es) \<and> performs (k a) es' y | _ \<Rightarrow> False)" |
  "performs (Sys_read n k) es y =
     (case es of Ev_read n' a # es' \<Rightarrow> n' = n \<and> answer_ok (hd es) \<and> performs (k a) es' y | _ \<Rightarrow> False)" |
  "performs (Post_send m k) es y =
     (case es of Ev_post_send m' a # es' \<Rightarrow> m' = m \<and> performs (k a) es' y | _ \<Rightarrow> False)" |
  "performs (Wait_send k) es y = (case es of Ev_wait_send w # es' \<Rightarrow> performs (k w) es' y | _ \<Rightarrow> False)" |
  "performs (Wait_recv n k) es y =
     (case es of Ev_wait_recv n' w bs # es' \<Rightarrow> n' = n \<and> answer_ok (hd es) \<and> performs (k (w, bs)) es' y | _ \<Rightarrow> False)" |
  "performs (Post_recv k) es y = (case es of Ev_post_recv a # es' \<Rightarrow> performs (k a) es' y | _ \<Rightarrow> False)"

text \<open>The bytes that went out and came in.\<close>

fun sent_by :: "ev \<Rightarrow> u8 list" where
  "sent_by (Ev_write m (Some n)) = take n m" |
  "sent_by (Ev_post_send m True) = m" |
  "sent_by _ = []"

fun got_by :: "ev \<Rightarrow> u8 list" where
  "got_by (Ev_read n (Some bs)) = bs" |
  "got_by (Ev_wait_recv n w bs) = bs" |
  "got_by _ = []"

definition sent_bytes :: "ev list \<Rightarrow> u8 list" where "sent_bytes es = concat (map sent_by es)"
definition got_bytes :: "ev list \<Rightarrow> u8 list" where "got_bytes es = concat (map got_by es)"

section \<open>Two peers on a byte stream\<close>

text \<open>
  A client, a server and the bytes in flight from the client and from the server.  A system call that
  can make progress takes or delivers any positive number of bytes, at most what is asked for and, for
  a read, at most what is in flight.
\<close>

type_synonym ('a, 'b) net = "'a io \<times> 'b io \<times> u8 list \<times> u8 list"

inductive net_step :: "('a, 'b) net \<Rightarrow> ('a, 'b) net \<Rightarrow> bool" where
  client_writes: "0 < n \<Longrightarrow> n \<le> length m \<Longrightarrow> net_step (Sys_write m k, q, cs, sc) (k (Some n), q, cs @ take n m, sc)" |
  client_reads: "0 < n \<Longrightarrow> n \<le> r \<Longrightarrow> n \<le> length sc \<Longrightarrow> net_step (Sys_read r k, q, cs, sc) (k (Some (take n sc)), q, cs, drop n sc)" |
  server_writes: "0 < n \<Longrightarrow> n \<le> length m \<Longrightarrow> net_step (p, Sys_write m k, cs, sc) (p, k (Some n), cs, sc @ take n m)" |
  server_reads: "0 < n \<Longrightarrow> n \<le> r \<Longrightarrow> n \<le> length cs \<Longrightarrow> net_step (p, Sys_read r k, cs, sc) (p, k (Some (take n cs)), drop n cs, sc)"

inductive_cases net_step_cases: "net_step (p, q, cs, sc) s'"

text \<open>
  A script is the sequence of bytes of a conversation, each tagged with its sender (\<^term>\<open>True\<close>: the
  client).  \<open>follows me p \<sigma> x\<close>: however the system cuts the transfers into pieces, the side \<open>me\<close> running
  \<open>p\<close> sends and receives exactly the script \<open>\<sigma>\<close> and then returns \<open>x\<close>.
\<close>

type_synonym script = "(bool \<times> u8) list"

definition says :: "bool \<Rightarrow> u8 list \<Rightarrow> script" where
  "says me m = map (Pair me) m"

inductive follows :: "bool \<Rightarrow> 'a io \<Rightarrow> script \<Rightarrow> 'a \<Rightarrow> bool" for me where
  f_done: "follows me (Return x) [] x" |
  f_write: "m \<noteq> [] \<Longrightarrow> (\<And>n. 0 < n \<Longrightarrow> n \<le> length m \<Longrightarrow> follows me (k (Some n)) (says me (drop n m) @ \<sigma>) x) \<Longrightarrow>
     follows me (Sys_write m k) (says me m @ \<sigma>) x" |
  f_read: "bs \<noteq> [] \<Longrightarrow> (\<And>n. 0 < n \<Longrightarrow> n \<le> length bs \<Longrightarrow> follows me (k (Some (take n bs))) (says (\<not> me) (drop n bs) @ \<sigma>) x) \<Longrightarrow>
     follows me (Sys_read (length bs) k) (says (\<not> me) bs @ \<sigma>) x"

inductive_cases follows_Return: "follows me (Return y) \<sigma> x"
inductive_cases follows_Write: "follows me (Sys_write m k) \<sigma> x"
inductive_cases follows_Read: "follows me (Sys_read n k) \<sigma> x"

lemma says_simps [simp]:
  "says me [] = []" "says me (b # bs) = (me, b) # says me bs" "says me (xs @ ys) = says me xs @ says me ys"
  "length (says me bs) = length bs" "says me bs = [] \<longleftrightarrow> bs = []" "[] = says me bs \<longleftrightarrow> bs = []"
  by (auto simp: says_def)

lemma says_split: "n \<le> length m \<Longrightarrow> says me m = says me (take n m) @ says me (drop n m)"
  by (simp flip: says_simps(3))

lemmas f_write_last = f_write [where \<sigma> = "[]", simplified]
lemmas f_read_last = f_read [where \<sigma> = "[]", simplified]

lemma follows_bind:
  assumes "follows me p \<sigma> x" "follows me (f x) \<tau> y" shows "follows me (io_bind p f) (\<sigma> @ \<tau>) y"
  using assms by (induction rule: follows.induct) (auto intro: follows.intros)

lemma follows_or_fail:
  "follows me p \<sigma> True \<Longrightarrow> follows me k \<tau> y \<Longrightarrow> follows me (or_fail p failed k) (\<sigma> @ \<tau>) y"
  unfolding or_fail_def by (rule follows_bind) auto

lemma follows_with_data:
  "follows me p \<sigma> (Some x) \<Longrightarrow> follows me (f x) \<tau> y \<Longrightarrow> follows me (with_data p failed f) (\<sigma> @ \<tau>) y"
  unfolding with_data_def by (rule follows_bind) auto

subsection \<open>The contract of a dialogue\<close>

text \<open>
  A state of the conversation in which one side may be ahead of the other by the bytes in flight:
  \<open>\<sigma>\<close> and \<open>\<tau>\<close> are what the client and the server have yet to say and hear.
\<close>

definition in_step :: "script \<Rightarrow> script \<Rightarrow> 'a \<Rightarrow> 'b \<Rightarrow> ('a, 'b) net \<Rightarrow> bool" where
  "in_step \<sigma> \<tau> x y s \<longleftrightarrow> (case s of (p, q, cs, sc) \<Rightarrow>
     follows True p \<sigma> x \<and> follows False q \<tau> y \<and>
     (\<tau> = says True cs @ \<sigma> \<and> sc = [] \<or> \<sigma> = says False sc @ \<tau> \<and> cs = []))"

lemma says_True_False: "says True m @ \<sigma> = says False sc @ \<tau> \<Longrightarrow> m \<noteq> [] \<Longrightarrow> sc = []"
  by (cases sc; cases m) auto

lemma says_eq_prefix:
  "says b bs @ \<rho> = says b xs @ \<tau> \<Longrightarrow> n \<le> length bs \<Longrightarrow> n \<le> length xs \<Longrightarrow>
   take n xs = take n bs \<and> says b (drop n bs) @ \<rho> = says b (drop n xs) @ \<tau>"
proof (induction n arbitrary: bs xs)
  case (Suc n)
  from Suc.prems obtain c bs' d xs' where "bs = c # bs'" "xs = d # xs'" by (cases bs; cases xs) auto
  with Suc show ?case by auto
qed auto

lemma client_write_in_step:
  assumes ok: "in_step \<sigma> \<tau> x y (Sys_write m k, q, cs, sc)" and n: "0 < n" "n \<le> length m"
  shows "\<exists>\<sigma>'. length \<sigma>' < length \<sigma> \<and> in_step \<sigma>' \<tau> x y (k (Some n), q, cs @ take n m, sc)"
proof -
  from ok have f: "follows True (Sys_write m k) \<sigma> x" and q: "follows False q \<tau> y"
    and c: "\<tau> = says True cs @ \<sigma> \<and> sc = [] \<or> \<sigma> = says False sc @ \<tau> \<and> cs = []" by (auto simp: in_step_def)
  from f obtain \<rho> where \<sigma>: "\<sigma> = says True m @ \<rho>" and m: "m \<noteq> []"
    and k: "follows True (k (Some n)) (says True (drop n m) @ \<rho>) x" using n by (auto elim!: follows_Write)
  from c have c': "\<tau> = says True cs @ \<sigma>" "sc = []" using says_True_False [of m \<rho> sc \<tau>] m by (auto simp: \<sigma>)
  then have "\<tau> = says True (cs @ take n m) @ says True (drop n m) @ \<rho>" using says_split [OF n(2), of True] by (simp add: \<sigma>)
  with k q c'(2) have "in_step (says True (drop n m) @ \<rho>) \<tau> x y (k (Some n), q, cs @ take n m, sc)" by (simp add: in_step_def)
  moreover have "length (says True (drop n m) @ \<rho>) < length \<sigma>" using n by (simp add: \<sigma>)
  ultimately show ?thesis by blast
qed

lemma client_read_in_step:
  assumes ok: "in_step \<sigma> \<tau> x y (Sys_read r k, q, cs, sc)" and n: "0 < n" "n \<le> r" "n \<le> length sc"
  shows "\<exists>\<sigma>'. length \<sigma>' < length \<sigma> \<and> in_step \<sigma>' \<tau> x y (k (Some (take n sc)), q, cs, drop n sc)"
proof -
  from ok n have f: "follows True (Sys_read r k) \<sigma> x" and q: "follows False q \<tau> y"
    and c: "\<sigma> = says False sc @ \<tau>" "cs = []" by (auto simp: in_step_def)
  from f obtain bs \<rho> where \<sigma>: "\<sigma> = says False bs @ \<rho>" "r = length bs"
    and k: "follows True (k (Some (take n bs))) (says False (drop n bs) @ \<rho>) x" using n by (auto elim!: follows_Read)
  from says_eq_prefix [of False bs \<rho> sc \<tau> n] \<sigma> c n
  have e: "take n sc = take n bs" "says False (drop n bs) @ \<rho> = says False (drop n sc) @ \<tau>" by auto
  have "in_step (says False (drop n bs) @ \<rho>) \<tau> x y (k (Some (take n sc)), q, cs, drop n sc)"
    using k q e c(2) by (simp add: in_step_def)
  moreover have "length (says False (drop n bs) @ \<rho>) < length \<sigma>" using n by (simp add: \<sigma>)
  ultimately show ?thesis by blast
qed

text \<open>The two roles are symmetric: exchanging them turns a server step into a client step.\<close>

lemma server_write_in_step:
  assumes ok: "in_step \<sigma> \<tau> x y (p, Sys_write m k, cs, sc)" and n: "0 < n" "n \<le> length m"
  shows "\<exists>\<tau>'. length \<tau>' < length \<tau> \<and> in_step \<sigma> \<tau>' x y (p, k (Some n), cs, sc @ take n m)"
proof -
  from ok have f: "follows False (Sys_write m k) \<tau> y" and p: "follows True p \<sigma> x"
    and c: "\<tau> = says True cs @ \<sigma> \<and> sc = [] \<or> \<sigma> = says False sc @ \<tau> \<and> cs = []" by (auto simp: in_step_def)
  from f obtain \<rho> where \<tau>: "\<tau> = says False m @ \<rho>" and m: "m \<noteq> []"
    and k: "follows False (k (Some n)) (says False (drop n m) @ \<rho>) y" using n by (auto elim!: follows_Write)
  have "cs = []" if "says False m @ \<rho> = says True cs @ \<sigma>" using that m by (cases cs; cases m) auto
  with c have c': "\<sigma> = says False sc @ \<tau>" "cs = []" by (auto simp: \<tau>)
  then have "\<sigma> = says False (sc @ take n m) @ says False (drop n m) @ \<rho>" using says_split [OF n(2), of False] by (simp add: \<tau>)
  with k p c'(2) have "in_step \<sigma> (says False (drop n m) @ \<rho>) x y (p, k (Some n), cs, sc @ take n m)" by (simp add: in_step_def)
  moreover have "length (says False (drop n m) @ \<rho>) < length \<tau>" using n by (simp add: \<tau>)
  ultimately show ?thesis by blast
qed

lemma server_read_in_step:
  assumes ok: "in_step \<sigma> \<tau> x y (p, Sys_read r k, cs, sc)" and n: "0 < n" "n \<le> r" "n \<le> length cs"
  shows "\<exists>\<tau>'. length \<tau>' < length \<tau> \<and> in_step \<sigma> \<tau>' x y (p, k (Some (take n cs)), drop n cs, sc)"
proof -
  from ok n have f: "follows False (Sys_read r k) \<tau> y" and p: "follows True p \<sigma> x"
    and c: "\<tau> = says True cs @ \<sigma>" "sc = []" by (auto simp: in_step_def)
  from f obtain bs \<rho> where \<tau>: "\<tau> = says True bs @ \<rho>" "r = length bs"
    and k: "follows False (k (Some (take n bs))) (says True (drop n bs) @ \<rho>) y" using n by (auto elim!: follows_Read)
  from says_eq_prefix [of True bs \<rho> cs \<sigma> n] \<tau> c n
  have e: "take n cs = take n bs" "says True (drop n bs) @ \<rho> = says True (drop n cs) @ \<sigma>" by auto
  have "in_step \<sigma> (says True (drop n bs) @ \<rho>) x y (p, k (Some (take n cs)), drop n cs, sc)"
    using k p e c(2) by (simp add: in_step_def)
  moreover have "length (says True (drop n bs) @ \<rho>) < length \<tau>" using n by (simp add: \<tau>)
  ultimately show ?thesis by blast
qed

lemma net_step_in_step:
  assumes "net_step s s'" "in_step \<sigma> \<tau> x y s"
  shows "\<exists>\<sigma>' \<tau>'. length \<sigma>' + length \<tau>' < length \<sigma> + length \<tau> \<and> in_step \<sigma>' \<tau>' x y s'"
  using assms
proof cases
  case (client_writes n m k q cs sc)
  with assms client_write_in_step [of \<sigma> \<tau> x y m k q cs sc n] show ?thesis by (metis add_less_mono1)
next
  case (client_reads n r sc k q cs)
  with assms client_read_in_step [of \<sigma> \<tau> x y r k q cs sc n] show ?thesis by (metis add_less_mono1)
next
  case (server_writes n m p k cs sc)
  with assms server_write_in_step [of \<sigma> \<tau> x y p m k cs sc n] show ?thesis by (metis add_strict_left_mono)
next
  case (server_reads n r cs p k sc)
  with assms server_read_in_step [of \<sigma> \<tau> x y p r k cs sc n] show ?thesis by (metis add_strict_left_mono)
qed

text \<open>Nobody waits for bytes that never come.\<close>

lemma in_step_progress:
  assumes ok: "in_step \<sigma> \<tau> x y (p, q, cs, sc)"
  shows "(\<exists>s'. net_step (p, q, cs, sc) s') \<or> p = Return x \<and> q = Return y \<and> cs = [] \<and> sc = []"
proof -
  from ok have p: "follows True p \<sigma> x" and q: "follows False q \<tau> y"
    and c: "\<tau> = says True cs @ \<sigma> \<and> sc = [] \<or> \<sigma> = says False sc @ \<tau> \<and> cs = []" by (auto simp: in_step_def)
  have cw: "\<exists>s'. net_step (p, q, cs, sc) s'" if "p = Sys_write m k" "m \<noteq> []" for m k
    using client_writes [of "length m" m k q cs sc] that by auto
  have cr: "\<exists>s'. net_step (p, q, cs, sc) s'" if "p = Sys_read r k" "0 < r" "sc \<noteq> []" for r k
    using client_reads [of 1 r sc k q cs] that by (cases sc) auto
  have sw: "\<exists>s'. net_step (p, q, cs, sc) s'" if "q = Sys_write m k" "m \<noteq> []" for m k
    using server_writes [of "length m" m p k cs sc] that by auto
  have sr: "\<exists>s'. net_step (p, q, cs, sc) s'" if "q = Sys_read r k" "0 < r" "cs \<noteq> []" for r k
    using server_reads [of 1 r cs p k sc] that by (cases cs) auto
  from p show ?thesis
  proof cases
    case f_done
    with c have t: "\<tau> = says True cs" "sc = []" by auto
    from q show ?thesis
    proof cases
      case f_done with t \<open>p = Return x\<close> show ?thesis by simp
    next
      case (f_write m k' \<rho>') with sw show ?thesis by blast
    next
      case (f_read bs' k' \<rho>')
      with t have "cs \<noteq> []" by (cases bs'; cases cs) auto
      with f_read sr show ?thesis by (metis length_greater_0_conv)
    qed
  next
    case (f_write m k \<rho>)
    with cw show ?thesis by blast
  next
    case (f_read bs k \<rho>)
    show ?thesis
    proof (cases "sc = []")
      case True
      with c f_read have t: "\<tau> = says True cs @ says False bs @ \<rho>" by auto
      from q show ?thesis
      proof cases
        case f_done with t f_read show ?thesis by simp
      next
        case (f_write m k' \<rho>') with sw show ?thesis by blast
      next
        case (f_read bs' k' \<rho>')
        with t \<open>bs \<noteq> []\<close> have "cs \<noteq> []" by (cases bs'; cases bs) auto
        with f_read sr show ?thesis by (metis length_greater_0_conv)
      qed
    next
      case False
      with f_read cr show ?thesis by (metis length_greater_0_conv)
    qed
  qed
qed

locale dialogue =
  fixes client :: "'a io" and server :: "'b io" and \<sigma> :: script and x :: 'a and y :: 'b
  assumes client_follows: "follows True client \<sigma> x"
    and server_follows: "follows False server \<sigma> y"
begin

lemma start_in_step: "in_step \<sigma> \<sigma> x y (client, server, [], [])"
  using client_follows server_follows by (simp add: in_step_def)

lemma after_steps:
  "(net_step ^^ k) (client, server, [], []) s \<Longrightarrow>
   \<exists>\<sigma>' \<tau>'. length \<sigma>' + length \<tau>' + k \<le> 2 * length \<sigma> \<and> in_step \<sigma>' \<tau>' x y s"
proof (induction k arbitrary: s)
  case 0
  then show ?case using start_in_step by (force simp: mult_2)
next
  case (Suc k)
  then obtain t where "(net_step ^^ k) (client, server, [], []) t" and st: "net_step t s" by auto
  with Suc.IH obtain \<sigma>' \<tau>' where l: "length \<sigma>' + length \<tau>' + k \<le> 2 * length \<sigma>" and i: "in_step \<sigma>' \<tau>' x y t" by blast
  from net_step_in_step [OF st i] obtain \<sigma>'' \<tau>''
    where l2: "length \<sigma>'' + length \<tau>'' < length \<sigma>' + length \<tau>'" and i2: "in_step \<sigma>'' \<tau>'' x y s" by blast
  from l l2 have "length \<sigma>'' + length \<tau>'' + Suc k \<le> 2 * length \<sigma>" by linarith
  with i2 show ?case by blast
qed

text \<open>Every run ends, after at most two steps per byte, and a run that cannot go on has ended well.\<close>

lemma completes:
  assumes "(net_step ^^ k) (client, server, [], []) s"
  shows "k \<le> 2 * length \<sigma> \<and> ((\<exists>s'. net_step s s') \<or> s = (Return x, Return y, [], []))"
proof -
  from after_steps [OF assms] obtain \<sigma>' \<tau>'
    where "length \<sigma>' + length \<tau>' + k \<le> 2 * length \<sigma>" and i: "in_step \<sigma>' \<tau>' x y s" by blast
  moreover obtain p q cs sc where s: "s = (p, q, cs, sc)" by (cases s)
  ultimately show ?thesis using in_step_progress [of \<sigma>' \<tau>' x y p q cs sc] by auto
qed

end

section \<open>Byte order\<close>

lemma length_le_bytes [simp]: "length (le_bytes k n) = k"
  by (induction k arbitrary: n) auto

lemma le_value_bytes: "n < 256 ^ k \<Longrightarrow> le_value (le_bytes k n) = n"
proof (induction k arbitrary: n)
  case (Suc k)
  then have "n div 256 < 256 ^ k" by (simp add: less_mult_imp_div_less mult.commute)
  then show ?case using Suc.IH by (simp add: unat_of_nat)
qed simp

lemma le_value_less: "le_value bs < 256 ^ length bs"
proof (induction bs)
  case (Cons b bs)
  have "unat b < 256" using unat_lt_len [of b] by simp
  with Cons show ?case by simp
qed simp

lemma le_bytes_value: "le_bytes (length bs) (le_value bs) = bs"
proof (induction bs)
  case (Cons b bs)
  have b: "unat b < 256" using unat_lt_len [of b] by simp
  have "unat (of_nat (unat b + 256 * le_value bs) :: u8) = unat b"
    unfolding unat_of_nat using b by simp
  then have "(of_nat (unat b + 256 * le_value bs) :: u8) = b" by (rule word_unat_eq_iff [THEN iffD2])
  then show ?case using Cons b by simp
qed simp

lemma bytes_u32_bytes [simp]: "bytes_u32 (u32_bytes w) = w" "length (u32_bytes w) = 4"
  using unat_lt_len [of w] by (simp_all add: bytes_u32_def u32_bytes_def le_value_bytes)

lemma bytes_u64_bytes [simp]: "bytes_u64 (u64_bytes w) = w" "length (u64_bytes w) = 8"
  using unat_lt_len [of w] by (simp_all add: bytes_u64_def u64_bytes_def le_value_bytes)

lemma u32_bytes_of [simp]: "length bs = 4 \<Longrightarrow> u32_bytes (bytes_u32 bs) = bs"
  using le_value_less [of bs] le_bytes_value [of bs] by (simp add: bytes_u32_def u32_bytes_def unat_of_nat)

lemma u64_bytes_of [simp]: "length bs = 8 \<Longrightarrow> u64_bytes (bytes_u64 bs) = bs"
  using le_value_less [of bs] le_bytes_value [of bs] by (simp add: bytes_u64_def u64_bytes_def unat_of_nat)

lemma htonl_htonl [simp]: "htonl (htonl w) = w"
  by (simp add: htonl_def)

lemma hton_64_hton_64 [simp]: "hton_64 (hton_64 w) = w"
  by (simp add: hton_64_def)

lemma u32_bytes_inject [simp]: "u32_bytes v = u32_bytes w \<longleftrightarrow> v = w"
  by (metis bytes_u32_bytes(1))

lemma u64_bytes_inject [simp]: "u64_bytes v = u64_bytes w \<longleftrightarrow> v = w"
  by (metis bytes_u64_bytes(1))

lemma htonl_inject [simp]: "htonl v = htonl w \<longleftrightarrow> v = w"
  by (metis htonl_htonl)

lemma hton_64_inject [simp]: "hton_64 v = hton_64 w \<longleftrightarrow> v = w"
  by (metis hton_64_hton_64)

section \<open>The socket transport follows its script\<close>

lemma ethernet_write_follows: "follows me (ethernet_write_data m) (says me m) True"
proof (induction m rule: length_induct)
  case (1 m)
  show ?case
  proof (cases "m = []")
    case True
    then show ?thesis by (simp add: ethernet_write_data.simps f_done)
  next
    case False
    show ?thesis
      by (subst ethernet_write_data.simps) (use False 1 in \<open>auto intro!: f_write_last\<close>)
  qed
qed

lemma ethernet_read_follows: "follows me (ethernet_read_data (length bs)) (says (\<not> me) bs) (Some bs)"
proof (induction bs rule: length_induct)
  case (1 bs)
  show ?case
  proof (cases "bs = []")
    case True
    then show ?thesis by (simp add: ethernet_read_data.simps f_done)
  next
    case False
    have rest: "follows me (io_bind (ethernet_read_data (length bs - n)) (\<lambda>r. Return (map_option ((@) (take n bs)) r)))
        (says (\<not> me) (drop n bs) @ []) (Some bs)" if "0 < n" "n \<le> length bs" for n
    proof (rule follows_bind)
      show "follows me (ethernet_read_data (length bs - n)) (says (\<not> me) (drop n bs)) (Some (drop n bs))"
        using 1 that by (metis diff_less length_drop less_le_trans)
    qed (simp add: f_done)
    show ?thesis
      by (subst ethernet_read_data.simps) (use False rest in \<open>auto intro!: f_read_last simp: min_absorb2\<close>)
  qed
qed

lemma write_chunked_follows: "follows me (write_data_chunked False data) (says me data) True"
proof (induction data rule: length_induct)
  case (1 data)
  show ?case
  proof (cases "data = []")
    case True
    then show ?thesis by (simp add: write_data_chunked.simps f_done)
  next
    case False
    with 1 have "follows me (write_data_chunked False (drop KV_BUF_SIZE data)) (says me (drop KV_BUF_SIZE data)) True" by auto
    from follows_or_fail [OF ethernet_write_follows [of me "take KV_BUF_SIZE data"] this]
    have "follows me (write_data_chunked False data) (says me (take KV_BUF_SIZE data) @ says me (drop KV_BUF_SIZE data)) True"
      by (subst write_data_chunked.simps) (simp add: False Let_def)
    then show ?thesis by (simp flip: says_simps(3))
  qed
qed

lemma read_chunked_follows: "follows me (read_data_chunked False (length bs)) (says (\<not> me) bs) (Some bs)"
proof (induction bs rule: length_induct)
  case (1 bs)
  show ?case
  proof (cases "bs = []")
    case True
    then show ?thesis by (simp add: read_data_chunked.simps f_done)
  next
    case False
    let ?a = "take KV_BUF_SIZE bs" and ?b = "drop KV_BUF_SIZE bs"
    from 1 False have r: "follows me (read_data_chunked False (length ?b)) (says (\<not> me) ?b) (Some ?b)"
      by (metis length_drop length_greater_0_conv shorter_by zero_less_numeral)
    have r2: "follows me (with_data (read_data_chunked False (length ?b)) None (\<lambda>rest. Return (Some (?a @ rest))))
        (says (\<not> me) ?b @ []) (Some bs)" by (rule follows_with_data [OF r]) (simp add: f_done)
    have "follows me (with_data (ethernet_read_data (length ?a)) None (\<lambda>part.
        with_data (read_data_chunked False (length ?b)) None (\<lambda>rest. Return (Some (part @ rest)))))
        (says (\<not> me) ?a @ says (\<not> me) ?b @ []) (Some bs)"
      by (rule follows_with_data [OF ethernet_read_follows]) (rule r2)
    moreover have "length ?a = min (length bs) KV_BUF_SIZE" "length ?b = length bs - min (length bs) KV_BUF_SIZE" by auto
    ultimately have "follows me (read_data_chunked False (length bs)) (says (\<not> me) ?a @ says (\<not> me) ?b) (Some bs)"
      using False by (subst read_data_chunked.simps) (simp add: Let_def)
    then show ?thesis by (simp flip: says_simps(3))
  qed
qed

lemma xchg_ethernet_client_follows:
  assumes "servername c" "length a = length b"
  shows "follows True (ctx_xchg_data_ethernet c a) (says True a @ says False b) (Some b)"
  using follows_or_fail [OF ethernet_write_follows ethernet_read_follows [of True b]] assms
  by (simp add: ctx_xchg_data_ethernet_def)

lemma xchg_ethernet_server_follows:
  assumes "\<not> servername c" "length a = length b"
  shows "follows False (ctx_xchg_data_ethernet c b) (says True a @ says False b) (Some a)"
proof -
  have "follows False (or_fail (ethernet_write_data b) None (Return (Some a))) (says False b @ []) (Some a)"
    by (rule follows_or_fail [OF ethernet_write_follows]) (rule f_done)
  then have "follows False (with_data (ethernet_read_data (length a)) None (\<lambda>rem.
      or_fail (ethernet_write_data b) None (Return (Some rem)))) (says True a @ says False b @ []) (Some a)"
    by (rule follows_with_data [OF ethernet_read_follows [of False a, simplified]])
  then show ?thesis using assms by (simp add: ctx_xchg_data_ethernet_def)
qed

lemma xchg_client_follows:
  "servername c \<Longrightarrow> \<not> is_rdma c \<Longrightarrow> length a = length b \<Longrightarrow>
   follows True (ctx_xchg_data c a) (says True a @ says False b) (Some b)"
  by (simp add: ctx_xchg_data_def xchg_ethernet_client_follows)

lemma xchg_server_follows:
  "\<not> servername c \<Longrightarrow> \<not> is_rdma c \<Longrightarrow> length a = length b \<Longrightarrow>
   follows False (ctx_xchg_data c b) (says True a @ says False b) (Some a)"
  by (simp add: ctx_xchg_data_def xchg_ethernet_server_follows)

text \<open>The script of a chunked exchange: both lengths, then both payloads.\<close>

definition len_msg :: "u8 list \<Rightarrow> u8 list" where
  "len_msg data = u32_bytes (htonl (of_nat (length data)))"

definition chunked_script :: "u8 list \<Rightarrow> u8 list \<Rightarrow> script" where
  "chunked_script a b = (says True (len_msg a) @ says False (len_msg b)) @ says True a @ says False b"

lemma len_msg_length [simp]: "length (len_msg data) = 4"
  by (simp add: len_msg_def)

lemma len_msg_value: "length data < 2 ^ 32 \<Longrightarrow> unat (htonl (bytes_u32 (len_msg data))) = length data"
  by (simp add: len_msg_def unat_of_nat)

lemma chunked_client_follows:
  assumes c: "servername c" "\<not> is_rdma c" and b: "length b < 2 ^ 32" and m: "m (length b + 1)"
  shows "follows True (ctx_xchg_data_chunked m c a) (chunked_script a b) (Some b)"
  unfolding ctx_xchg_data_chunked_def chunked_script_def len_msg_def [symmetric]
  using follows_or_fail [OF write_chunked_follows read_chunked_follows [of True b, simplified]] c m
  by (intro follows_with_data [OF xchg_client_follows [OF c, of "len_msg a" "len_msg b"]])
     (simp_all add: Let_def len_msg_value [OF b])

lemma chunked_server_follows:
  assumes c: "\<not> servername c" "\<not> is_rdma c" and a: "length a < 2 ^ 32" and m: "m (length a + 1)"
  shows "follows False (ctx_xchg_data_chunked m c b) (chunked_script a b) (Some a)"
proof -
  have "follows False (or_fail (write_data_chunked False b) None (Return (Some a))) (says False b @ []) (Some a)"
    by (rule follows_or_fail [OF write_chunked_follows]) (rule f_done)
  then have "follows False (with_data (read_data_chunked False (length a)) None (\<lambda>rem.
      or_fail (write_data_chunked False b) None (Return (Some rem)))) (says True a @ says False b @ []) (Some a)"
    by (rule follows_with_data [OF read_chunked_follows [of False a, simplified]])
  then show ?thesis
    unfolding ctx_xchg_data_chunked_def chunked_script_def len_msg_def [symmetric] using c m
    by (intro follows_with_data [OF xchg_server_follows [OF c, of "len_msg a" "len_msg b"]])
       (simp_all add: Let_def len_msg_value [OF a])
qed

section \<open>The exchange as a component\<close>

abbreviation client_comm :: perftest_comm where
  "client_comm \<equiv> \<lparr> comm_use_rdma_cm = False, comm_work_rdma_cm = False, servername = True \<rparr>"

abbreviation server_comm :: perftest_comm where
  "server_comm \<equiv> \<lparr> comm_use_rdma_cm = False, comm_work_rdma_cm = False, servername = False \<rparr>"

text \<open>Exchange of one 32-bit number, as used for versions, buffer sizes and lengths.\<close>

definition number_script :: "u32 \<Rightarrow> u32 \<Rightarrow> script" where
  "number_script a b = says True (u32_bytes a) @ says False (u32_bytes b)"

interpretation number: dialogue "ctx_xchg_data client_comm (u32_bytes a)" "ctx_xchg_data server_comm (u32_bytes b)"
  "number_script a b" "Some (u32_bytes b)" "Some (u32_bytes a)" for a b
  by unfold_locales (simp_all add: number_script_def xchg_client_follows xchg_server_follows is_rdma_def)

section \<open>What a result says about the operations\<close>

fun op_failed :: "ev \<Rightarrow> bool" where
  "op_failed (Ev_write m a) = (a = None \<or> a = Some 0)" |
  "op_failed (Ev_read n a) = (a = None \<or> a = Some [])" |
  "op_failed (Ev_post_send m a) = (\<not> a)" |
  "op_failed (Ev_wait_send w) = (wc_status w \<noteq> 0 \<or> wc_opcode w \<noteq> IBV_WC_SEND \<or> wc_wr_id w \<noteq> SYNC_SPEC_ID)" |
  "op_failed (Ev_wait_recv n w bs) = (wc_status w \<noteq> 0 \<or> wc_opcode w AND IBV_WC_RECV = 0 \<or> wc_wr_id w \<noteq> SYNC_SPEC_ID)" |
  "op_failed (Ev_post_recv a) = (\<not> a)"

definition all_well :: "ev list \<Rightarrow> bool" where
  "all_well es \<longleftrightarrow> (\<forall>e \<in> set es. \<not> op_failed e)"

lemma bytes_append [simp]:
  "sent_bytes (es @ fs) = sent_bytes es @ sent_bytes fs" "got_bytes (es @ fs) = got_bytes es @ got_bytes fs"
  "sent_bytes [] = []" "got_bytes [] = []"
  "sent_bytes (e # es) = sent_by e @ sent_bytes es" "got_bytes (e # es) = got_by e @ got_bytes es"
  "all_well (es @ fs) \<longleftrightarrow> all_well es \<and> all_well fs" "all_well []" "all_well (e # es) \<longleftrightarrow> \<not> op_failed e \<and> all_well es"
  by (auto simp: sent_bytes_def got_bytes_def all_well_def)

lemma performs_ops:
  "performs (Sys_write m k) es y \<longleftrightarrow> (\<exists>a es'. es = Ev_write m a # es' \<and> answer_ok (Ev_write m a) \<and> performs (k a) es' y)"
  "performs (Sys_read n k1) es y \<longleftrightarrow> (\<exists>a es'. es = Ev_read n a # es' \<and> answer_ok (Ev_read n a) \<and> performs (k1 a) es' y)"
  "performs (Post_send m k2) es y \<longleftrightarrow> (\<exists>a es'. es = Ev_post_send m a # es' \<and> performs (k2 a) es' y)"
  "performs (Wait_send k3) es y \<longleftrightarrow> (\<exists>w es'. es = Ev_wait_send w # es' \<and> performs (k3 w) es' y)"
  "performs (Wait_recv n k4) es y \<longleftrightarrow> (\<exists>w bs es'. es = Ev_wait_recv n w bs # es' \<and> length bs = n \<and> performs (k4 (w, bs)) es' y)"
  "performs (Post_recv k5) es y \<longleftrightarrow> (\<exists>a es'. es = Ev_post_recv a # es' \<and> performs (k5 a) es' y)"
  by (auto split: list.splits ev.splits)

declare performs.simps(2-7) [simp del]

lemma performs_bind:
  "performs (io_bind p f) es y \<longleftrightarrow> (\<exists>x es1 es2. es = es1 @ es2 \<and> performs p es1 x \<and> performs (f x) es2 y)"
proof (induction p arbitrary: es)
  case (Return x) then show ?case by simp
next
  case (Sys_write m k) show ?case unfolding io_bind.simps performs_ops Sys_write [OF rangeI] by (metis append_Cons)
next
  case (Sys_read n k) show ?case unfolding io_bind.simps performs_ops Sys_read [OF rangeI] by (metis append_Cons)
next
  case (Post_send m k) show ?case unfolding io_bind.simps performs_ops Post_send [OF rangeI] by (metis append_Cons)
next
  case (Wait_send k) show ?case unfolding io_bind.simps performs_ops Wait_send [OF rangeI] by (metis append_Cons)
next
  case (Wait_recv n k) show ?case unfolding io_bind.simps performs_ops Wait_recv [OF rangeI] by (metis append_Cons)
next
  case (Post_recv k) show ?case unfolding io_bind.simps performs_ops Post_recv [OF rangeI] by (metis append_Cons)
qed

text \<open>The contract of a routine that only sends, and of one that only receives.\<close>

definition sends :: "bool io \<Rightarrow> u8 list \<Rightarrow> bool" where
  "sends p m \<longleftrightarrow> (\<forall>es ok. performs p es ok \<longrightarrow> got_bytes es = [] \<and> (ok \<longleftrightarrow> all_well es) \<and> (ok \<longrightarrow> sent_bytes es = m))"

definition receives :: "u8 list option io \<Rightarrow> nat \<Rightarrow> bool" where
  "receives p n \<longleftrightarrow> (\<forall>es r. performs p es r \<longrightarrow> sent_bytes es = [] \<and> (r \<noteq> None \<longleftrightarrow> all_well es) \<and>
     (\<forall>bs. r = Some bs \<longrightarrow> got_bytes es = bs \<and> length bs = n))"

lemma ethernet_write_sends: "sends (ethernet_write_data m) m"
proof (induction m rule: length_induct)
  case (1 m)
  show ?case
  proof (cases "m = []")
    case False
    have "got_bytes es = [] \<and> (ok \<longleftrightarrow> all_well es) \<and> (ok \<longrightarrow> sent_bytes es = m)" if p: "performs (ethernet_write_data m) es ok" for es ok
    proof -
      from p False obtain a es' where es: "es = Ev_write m a # es'" and le: "answer_ok (Ev_write m a)"
        and r: "performs (if a = None \<or> a = Some 0 then Return False else ethernet_write_data (drop (the a) m)) es' ok"
        by (subst (asm) ethernet_write_data.simps) (auto simp: performs_ops)
      show ?thesis
      proof (cases "a = None \<or> a = Some 0")
        case True with r es show ?thesis by auto
      next
        case a: False
        then obtain n where n: "a = Some n" "0 < n" by auto
        with 1 False have "sends (ethernet_write_data (drop n m)) (drop n m)" by auto
        with r n es show ?thesis by (auto simp: sends_def)
      qed
    qed
    then show ?thesis by (simp add: sends_def)
  qed (auto simp: sends_def ethernet_write_data.simps)
qed

lemma ethernet_read_receives: "receives (ethernet_read_data n) n"
proof (induction n rule: less_induct)
  case (less n)
  show ?case
  proof (cases "n = 0")
    case False
    have "sent_bytes es = [] \<and> (r \<noteq> None \<longleftrightarrow> all_well es) \<and> (\<forall>bs. r = Some bs \<longrightarrow> got_bytes es = bs \<and> length bs = n)"
      if p: "performs (ethernet_read_data n) es r" for es r
    proof -
      from p False obtain a es' where es: "es = Ev_read n a # es'" and le: "answer_ok (Ev_read n a)"
        and k: "performs (if a = None \<or> a = Some [] then Return None
            else io_bind (ethernet_read_data (n - length (the a))) (\<lambda>rest. Return (map_option ((@) (the a)) rest))) es' r"
        by (subst (asm) ethernet_read_data.simps) (auto simp: performs_ops)
      show ?thesis
      proof (cases "a = None \<or> a = Some []")
        case True with k es show ?thesis by auto
      next
        case a: False
        then obtain bs where bs: "a = Some bs" "bs \<noteq> []" by auto
        with False less have "receives (ethernet_read_data (n - length bs)) (n - length bs)" by simp
        moreover from k bs obtain rest where "performs (ethernet_read_data (n - length bs)) es' rest"
          and r: "r = map_option ((@) bs) rest" by (auto simp: performs_bind)
        ultimately have *: "sent_bytes es' = []" "rest \<noteq> None \<longleftrightarrow> all_well es'"
            "\<And>cs. rest = Some cs \<Longrightarrow> got_bytes es' = cs \<and> length cs = n - length bs"
          unfolding receives_def by blast+
        show ?thesis
        proof (cases rest)
          case None with * r bs es show ?thesis by simp
        next
          case (Some cs) with * r bs es le show ?thesis by simp
        qed
      qed
    qed
    then show ?thesis by (simp add: receives_def)
  qed (auto simp: receives_def ethernet_read_data.simps)
qed

lemma rdma_write_sends: "sends (rdma_write_data m) m"
  by (auto simp: sends_def rdma_write_data_def performs_ops split: if_splits)

lemma rdma_read_receives: "receives (rdma_read_data n) n"
  by (auto simp: receives_def rdma_read_data_def performs_ops split: if_splits)

lemma exchange_contract:
  assumes w: "sends w mine" and r: "receives rd (length mine)"
    and p: "performs (if cl then or_fail w None rd else with_data rd None (\<lambda>rem. or_fail w None (Return (Some rem)))) es res"
  shows "(res \<noteq> None \<longleftrightarrow> all_well es) \<and>
    (\<forall>rem. res = Some rem \<longrightarrow> sent_bytes es = mine \<and> got_bytes es = rem \<and> length rem = length mine \<and>
      (\<exists>es1 es2. es = es1 @ es2 \<and>
        (if cl then got_bytes es1 = [] \<and> sent_bytes es2 = [] else sent_bytes es1 = [] \<and> got_bytes es2 = [])))"
proof (cases cl)
  case True
  with p obtain ok es1 es2 where es: "es = es1 @ es2" and w1: "performs w es1 ok"
    and k: "performs (if ok then rd else Return None) es2 res" by (auto simp: or_fail_def performs_bind)
  from w w1 have a: "got_bytes es1 = []" "ok \<longleftrightarrow> all_well es1" "ok \<Longrightarrow> sent_bytes es1 = mine" by (auto simp: sends_def)
  show ?thesis
  proof (cases ok)
    case ok: True
    with k r have "sent_bytes es2 = []" "res \<noteq> None \<longleftrightarrow> all_well es2"
      "\<And>bs. res = Some bs \<Longrightarrow> got_bytes es2 = bs \<and> length bs = length mine" by (auto simp: receives_def)
    with a ok es True show ?thesis by auto
  next
    case False with k a es show ?thesis by auto
  qed
next
  case False
  with p obtain g es1 es2 where es: "es = es1 @ es2" and r1: "performs rd es1 g"
    and k: "performs (case g of None \<Rightarrow> Return None | Some rem \<Rightarrow> or_fail w None (Return (Some rem))) es2 res"
    by (auto simp: with_data_def performs_bind)
  from r r1 have a: "sent_bytes es1 = []" "g \<noteq> None \<longleftrightarrow> all_well es1"
    "\<And>bs. g = Some bs \<Longrightarrow> got_bytes es1 = bs \<and> length bs = length mine" by (auto simp: receives_def)
  show ?thesis
  proof (cases g)
    case None with k a es show ?thesis by auto
  next
    case (Some rem)
    with k obtain ok where w2: "performs w es2 ok" and res: "res = (if ok then Some rem else None)"
      by (auto simp: or_fail_def performs_bind split: if_splits)
    from w w2 have "got_bytes es2 = []" "ok \<longleftrightarrow> all_well es2" "ok \<Longrightarrow> sent_bytes es2 = mine" by (auto simp: sends_def)
    with a res es Some False show ?thesis by auto
  qed
qed

text \<open>
   A block exchange (\<^verbatim>\<open>ctx_xchg_data\<close>, over a socket or over RDMA) reports failure exactly when one
  of the operations it issued failed; when it succeeds, the bytes that went out are the caller's block,
  the block it hands back is what came in and has the same length, and the client has sent everything
  before it received anything, the server the other way round.
\<close>

theorem exchange_result_is_genuine:
  assumes "performs (ctx_xchg_data c mine) es res"
  shows "(res \<noteq> None \<longleftrightarrow> all_well es) \<and>
    (\<forall>rem. res = Some rem \<longrightarrow> sent_bytes es = mine \<and> got_bytes es = rem \<and> length rem = length mine \<and>
      (\<exists>es1 es2. es = es1 @ es2 \<and>
        (if servername c then got_bytes es1 = [] \<and> sent_bytes es2 = [] else sent_bytes es1 = [] \<and> got_bytes es2 = [])))"
proof (cases "is_rdma c")
  case True
  with assms exchange_contract [OF rdma_write_sends rdma_read_receives, of "servername c" mine es res]
  show ?thesis by (simp add: ctx_xchg_data_def ctx_xchg_data_rdma_def)
next
  case False
  with assms exchange_contract [OF ethernet_write_sends ethernet_read_receives, of "servername c" mine es res]
  show ?thesis by (simp add: ctx_xchg_data_def ctx_xchg_data_ethernet_def)
qed

theorem exchange_result_is_genuine_witness:
  "performs (ctx_xchg_data client_comm [1, 2])
     [Ev_write [1, 2] (Some 1), Ev_write [2] (Some 1), Ev_read 2 (Some [7]), Ev_read 1 (Some [8])] (Some [7, 8]) \<and>
   sent_bytes [Ev_write [1, 2] (Some 1), Ev_write [2] (Some 1), Ev_read 2 (Some [7]), Ev_read 1 (Some [8])] = [1, 2]"
proof -
  have p: "performs (ctx_xchg_data client_comm [1, 2])
     [Ev_write [1, 2] (Some 1), Ev_write [2] (Some 1), Ev_read 2 (Some [7]), Ev_read 1 (Some [8])] (Some [7, 8])"
    by (simp add: ctx_xchg_data_def is_rdma_def ctx_xchg_data_ethernet_def or_fail_def
        ethernet_write_data.simps ethernet_read_data.simps performs_ops)
  with exchange_result_is_genuine [OF p] show ?thesis by blast
qed

lemma client_exchange_starts: "mine \<noteq> [] \<Longrightarrow> ctx_xchg_data client_comm mine \<noteq> Return r"
  by (simp add: ctx_xchg_data_def is_rdma_def ctx_xchg_data_ethernet_def or_fail_def ethernet_write_data.simps [of mine])

lemma client_chunked_starts: "ctx_xchg_data_chunked m client_comm mine \<noteq> Return r"
proof -
  have "u32_bytes w \<noteq> []" for w using bytes_u32_bytes(2) [of w] by (metis list.size(3) zero_neq_numeral)
  then show ?thesis
    by (simp add: ctx_xchg_data_chunked_def ctx_xchg_data_def is_rdma_def ctx_xchg_data_ethernet_def with_data_def
        or_fail_def ethernet_write_data.simps [of "u32_bytes _"])
qed

text \<open>
   Two peers that exchange blocks of one size over a socket never wait for each other in vain: however
  the stream cuts the transfers, every run ends after at most two steps per byte, and when it cannot go
  on both sides have returned with the other's block and nothing is left in the stream.
\<close>

theorem exchange_completes:
  assumes "servername c" "\<not> servername s" "\<not> is_rdma c" "\<not> is_rdma s" "length a = length b"
    and "(net_step ^^ k) (ctx_xchg_data c a, ctx_xchg_data s b, [], []) st"
  shows "k \<le> 2 * (length a + length b) \<and>
    ((\<exists>st'. net_step st st') \<or> st = (Return (Some b), Return (Some a), [], []))"
proof -
  have "dialogue (ctx_xchg_data c a) (ctx_xchg_data s b) (says True a @ says False b) (Some b) (Some a)"
    using assms by (intro dialogue.intro xchg_client_follows xchg_server_follows)
  from dialogue.completes [OF this assms(6)] show ?thesis by simp
qed

theorem exchange_completes_witness:
  "\<exists>st'. net_step (ctx_xchg_data client_comm [1, 2], ctx_xchg_data server_comm [8, 9], [], []) st'"
proof -
  let ?s = "(ctx_xchg_data client_comm [1, 2], ctx_xchg_data server_comm [8, 9], [], []) :: (u8 list option, u8 list option) net"
  have "(net_step ^^ 0) ?s ?s" by simp
  from exchange_completes [OF _ _ _ _ _ this]
  have "(\<exists>st'. net_step ?s st') \<or> ?s = (Return (Some [8, 9]), Return (Some [1, 2]), [], [])"
    by (simp add: is_rdma_def)
  with client_exchange_starts [of "[1, 2]"] show ?thesis by auto
qed

text \<open>
  C32.  The chunked exchange of \<^verbatim>\<open>perftest_negotiation.c\<close> carries payloads of any two lengths below
  \<^term>\<open>2 ^ 32\<close>, also when they differ and span many chunks: every run of the two peers ends, and a run that
  cannot go on has delivered each payload, whole, to the other side.
\<close>

theorem chunked_exchange_completes:
  assumes "servername c" "\<not> servername s" "\<not> is_rdma c" "\<not> is_rdma s"
    and "length a < 2 ^ 32" "length b < 2 ^ 32" "malloc_c (length b + 1)" "malloc_s (length a + 1)"
    and "(net_step ^^ k) (ctx_xchg_data_chunked malloc_c c a, ctx_xchg_data_chunked malloc_s s b, [], []) st"
  shows "k \<le> 2 * (8 + length a + length b) \<and>
    ((\<exists>st'. net_step st st') \<or> st = (Return (Some b), Return (Some a), [], []))"
proof -
  have "dialogue (ctx_xchg_data_chunked malloc_c c a) (ctx_xchg_data_chunked malloc_s s b) (chunked_script a b) (Some b) (Some a)"
    using assms by (intro dialogue.intro chunked_client_follows chunked_server_follows)
  from dialogue.completes [OF this assms(9)] show ?thesis by (simp add: chunked_script_def)
qed

theorem chunked_exchange_completes_witness:
  "\<exists>st'. net_step (ctx_xchg_data_chunked (\<lambda>_. True) client_comm (replicate 3000 1),
     ctx_xchg_data_chunked (\<lambda>_. True) server_comm [5], [], []) st'"
proof -
  let ?s = "(ctx_xchg_data_chunked (\<lambda>_. True) client_comm (replicate 3000 1),
     ctx_xchg_data_chunked (\<lambda>_. True) server_comm [5], [], []) :: (u8 list option, u8 list option) net"
  have "(net_step ^^ 0) ?s ?s" by simp
  from chunked_exchange_completes [OF _ _ _ _ _ _ _ _ this]
  have "(\<exists>st'. net_step ?s st') \<or> ?s = (Return (Some [5]), Return (Some (replicate 3000 1)), [], [])"
    by (simp add: is_rdma_def)
  with client_chunked_starts show ?thesis by blast
qed

end
