(* ===== verification/Negotiation.thy ===== *)
theory Negotiation
  imports Transport C_Strings
begin

text \<open>
  Negotiation of the test parameters between client and server:
  \<^verbatim>\<open>src/src/perftest_negotiation.c\<close> and \<^verbatim>\<open>src/src/perftest_negotiation.h\<close>.  Each side describes its
  parameters in a table, sends them (as a text \<^verbatim>\<open>name=hexbytes;...\<close> to a peer of version 6.30 or later, as a
  fixed C structure to 6.28 and 6.29, not at all to older ones), stores what it receives in the same
  table and compares.

  The pointers of a table entry to a field of the local and of the remote parameters become the bytes
  of these fields in memory.  Integers and enumerations keep their C width.  A read outside an array
  or an allocated block is the error value \<open>Overread\<close>.  Whether the program was built with mlx5 direct
  verbs is the argument \<open>dv\<close>.
\<close>

section \<open>Data\<close>

datatype neg_error = Neg_FAILURE | Overread

datatype CompareType = CT_INT | CT_UINT64 | CT_NONE

datatype compare_func = Cmp_compare | Cmp_max_qp_rd_atom | Cmp_mlx5dv

text \<open>The fields of \<^verbatim>\<open>struct perftest_parameters\<close> that take part in the negotiation.\<close>

record negotiating_user =
  u_test_method :: u32
  u_connection_type :: u32
  u_verb :: u32
  u_tst :: u32
  u_atomicType :: u32
  u_test_type :: u32
  u_report_fmt :: u32
  u_size :: u64
  u_iters :: u64
  u_aes_xts :: u32
  u_num_of_qps :: u32
  u_duration :: u32
  u_use_rdma_cm :: u32
  u_use_write_with_imm :: u32
  u_no_enhanced_reorder :: u32
  u_sig_offload :: u32
  u_data_validation :: u32
  u_tx_depth :: u32
  u_duplex :: u32
  u_out_reads :: int
  u_rem_version :: string

text \<open>What the device reports: \<^verbatim>\<open>max_qp_rd_atom\<close>, its vendor, and its direct-verbs mask if it has one.\<close>

record negotiating_device =
  dev_max_qp_rd_atom :: u32
  dev_mlnx :: bool
  dev_dv_mask :: "u64 option"

record perftest_parameters_negotiate =
  n_test_method :: u32
  n_connection_type :: u32
  n_verb :: u32
  n_tst :: u32
  n_atomicType :: u32
  n_test_type :: u32
  n_report_fmt :: u32
  n_size :: u64
  n_iters :: u64
  n_aes_xts :: u32
  n_num_of_qps :: u32
  n_duration :: u32
  n_use_rdma_cm :: u32
  n_use_write_with_imm :: u32
  n_no_enhanced_reorder :: u32
  n_sig_offload :: u32
  n_data_validation :: u32
  n_tx_depth :: u32
  n_duplex :: u32
  n_max_qp_rd_atom :: u32
  n_mlx5dv_comp_mask :: u64

record perftest_parameters_negotiate_legacy =
  l_test_method :: u32
  l_connection_type :: u32
  l_verb :: u32
  l_tst :: u32
  l_atomicType :: u32
  l_test_type :: u32
  l_report_fmt :: u32
  l_size :: u64
  l_iters :: u64
  l_aes_xts :: u32
  l_num_of_qps :: u32
  l_duration :: u32
  l_use_rdma_cm :: u32
  l_use_write_with_imm :: u32
  l_no_enhanced_reorder :: u32
  l_sig_offload :: u32
  l_data_validation :: u32
  l_max_qp_rd_atom :: u32
  l_mlx5dv_comp_mask :: u64

record CompareFunction =
  cf_func :: compare_func
  cf_name :: string
  local_value :: "u8 list"
  remote_value :: "u8 list"
  cf_type :: CompareType
  cf_cond :: bool
  received :: bool
  return_values :: "string list option"

definition value_size :: "CompareFunction \<Rightarrow> nat" where
  "value_size cf = length (local_value cf)"

section \<open>The table\<close>

text \<open>Filling in the local parameters, in network byte order.\<close>

definition local_params :: "bool \<Rightarrow> negotiating_user \<Rightarrow> negotiating_device \<Rightarrow> perftest_parameters_negotiate" where
  "local_params dv u d = \<lparr>
      n_test_method = htonl (u_test_method u), n_connection_type = htonl (u_connection_type u), n_verb = htonl (u_verb u),
      n_tst = htonl (u_tst u), n_atomicType = htonl (u_atomicType u), n_test_type = htonl (u_test_type u),
      n_report_fmt = htonl (u_report_fmt u), n_size = hton_64 (u_size u), n_iters = hton_64 (u_iters u),
      n_aes_xts = htonl (u_aes_xts u), n_num_of_qps = htonl (u_num_of_qps u), n_duration = htonl (u_duration u),
      n_use_rdma_cm = htonl (u_use_rdma_cm u), n_use_write_with_imm = htonl (u_use_write_with_imm u), n_no_enhanced_reorder = htonl (u_no_enhanced_reorder u),
      n_sig_offload = htonl (u_sig_offload u), n_data_validation = htonl (u_data_validation u), n_tx_depth = htonl (u_tx_depth u),
      n_duplex = htonl (u_duplex u), n_max_qp_rd_atom = htonl (dev_max_qp_rd_atom d), n_mlx5dv_comp_mask = (if dv \<and> dev_mlnx d then (case dev_dv_mask d of None \<Rightarrow> 0 | Some m \<Rightarrow> hton_64 m) else 0) \<rparr>"

definition entry_int :: "compare_func \<Rightarrow> string \<Rightarrow> u32 \<Rightarrow> string list option \<Rightarrow> bool \<Rightarrow> CompareFunction" where
  "entry_int f nm v values c = \<lparr> cf_func = f, cf_name = nm, local_value = u32_bytes v, remote_value = replicate 4 0,
     cf_type = CT_INT, cf_cond = c, received = False, return_values = values \<rparr>"

definition entry_u64 :: "compare_func \<Rightarrow> string \<Rightarrow> u64 \<Rightarrow> bool \<Rightarrow> CompareFunction" where
  "entry_u64 f nm v c = \<lparr> cf_func = f, cf_name = nm, local_value = u64_bytes v, remote_value = replicate 8 0,
     cf_type = CT_UINT64, cf_cond = c, received = False, return_values = None \<rparr>"

abbreviation DC_value :: u32 where "DC_value \<equiv> 5"

definition compare_functions :: "bool \<Rightarrow> negotiating_user \<Rightarrow> negotiating_device \<Rightarrow> CompareFunction list" where
  "compare_functions dv u d = (let lp = local_params dv u d in
     [
      entry_int Cmp_compare ''test_method'' (n_test_method lp) (Some [''RUN_REGULAR'', ''RUN_ALL'', ''RUN_INFINITELY'']) True,
      entry_int Cmp_compare ''connection_type'' (n_connection_type lp) (Some [''RC'', ''UC'', ''UD'', ''RawEth'', ''XRC'', ''DC'', ''SRD'']) True,
      entry_int Cmp_compare ''verb'' (n_verb lp) (Some [''SEND'', ''SEND_IMM'', ''WRITE'', ''WRITE_IMM'', ''READ'', ''ATOMIC'']) True,
      entry_int Cmp_compare ''tst'' (n_tst lp) (Some [''LAT'', ''BW'', ''LAT_BY_BW'', ''FS_RATE'']) True,
      entry_int Cmp_compare ''atomicType'' (n_atomicType lp) (Some [''CMP_AND_SWAP'', ''FETCH_AND_ADD'']) True,
      entry_int Cmp_compare ''test_type'' (n_test_type lp) (Some [''ITERATIONS'', ''DURATION'']) True,
      entry_int Cmp_compare ''report_fmt'' (n_report_fmt lp) (Some [''GBS'', ''MBS'']) True,
      entry_u64 Cmp_compare ''size'' (n_size lp) True,
      entry_u64 Cmp_compare ''iters'' (n_iters lp) True,
      entry_int Cmp_compare ''aes_xts'' (n_aes_xts lp) (Some [''OFF'', ''ON'']) True,
      entry_int Cmp_compare ''duplex'' (n_duplex lp) (Some [''OFF'', ''ON'']) True,
      entry_int Cmp_compare ''num_of_qps'' (n_num_of_qps lp) None True,
      entry_int Cmp_compare ''duration'' (n_duration lp) None True,
      entry_int Cmp_compare ''use_rdma_cm'' (n_use_rdma_cm lp) (Some [''OFF'', ''ON'']) True,
      entry_int Cmp_compare ''use_write_with_imm'' (n_use_write_with_imm lp) (Some [''OFF'', ''ON'']) True,
      entry_int Cmp_compare ''no_enhanced_reorder'' (n_no_enhanced_reorder lp) (Some [''OFF'', ''ON'']) True,
      entry_int Cmp_compare ''sig_offload'' (n_sig_offload lp) (Some [''OFF'', ''ON'']) True,
      entry_int Cmp_compare ''data_validation'' (n_data_validation lp) (Some [''OFF'', ''ON'']) True,
      entry_int Cmp_compare ''tx_depth'' (n_tx_depth lp) None True,
      entry_int Cmp_max_qp_rd_atom ''max_qp_rd_atom'' (n_max_qp_rd_atom lp) None (u_connection_type u \<noteq> DC_value)] @
     (if dv then [entry_u64 Cmp_mlx5dv ''mlx5dv_comp_mask'' (n_mlx5dv_comp_mask lp) (dev_mlnx d)] else []))"

section \<open>The legacy wire format\<close>

fun mark_received :: "string \<Rightarrow> CompareFunction list \<Rightarrow> CompareFunction list" where
  "mark_received nm [] = []" |
  "mark_received nm (cf # cfs) =
     (if cf_name cf = nm then cf\<lparr> received := True \<rparr> # cfs else cf # mark_received nm cfs)"

text \<open>Storing into the field of the remote parameters that an entry points to.\<close>

definition store_remote :: "string \<Rightarrow> u8 list \<Rightarrow> CompareFunction list \<Rightarrow> CompareFunction list" where
  "store_remote nm bs = map (\<lambda>cf. if cf_name cf = nm then cf\<lparr> remote_value := bs \<rparr> else cf)"

definition pack_legacy :: "perftest_parameters_negotiate \<Rightarrow> perftest_parameters_negotiate_legacy" where
  "pack_legacy lp = \<lparr>
      l_test_method = n_test_method lp, l_connection_type = n_connection_type lp, l_verb = n_verb lp,
      l_tst = n_tst lp, l_atomicType = n_atomicType lp, l_test_type = n_test_type lp,
      l_report_fmt = n_report_fmt lp, l_size = n_size lp, l_iters = n_iters lp,
      l_aes_xts = n_aes_xts lp, l_num_of_qps = n_num_of_qps lp, l_duration = n_duration lp,
      l_use_rdma_cm = n_use_rdma_cm lp, l_use_write_with_imm = n_use_write_with_imm lp, l_no_enhanced_reorder = n_no_enhanced_reorder lp,
      l_sig_offload = n_sig_offload lp, l_data_validation = n_data_validation lp, l_max_qp_rd_atom = htonl (n_max_qp_rd_atom lp),
      l_mlx5dv_comp_mask = n_mlx5dv_comp_mask lp \<rparr>"

text \<open>
  The structure in memory.  Seven 4-byte fields are followed by 4 bytes of padding; \<open>pre\<close> and \<open>post\<close> are
  the bytes of \<^verbatim>\<open>struct ibv_device_attr\<close> (of libibverbs) before and after its member \<^verbatim>\<open>max_qp_rd_atom\<close>, with
  the padding that follows.  All of it is cleared by \<^verbatim>\<open>memset\<close>.
\<close>

definition legacy_bytes :: "bool \<Rightarrow> nat \<Rightarrow> nat \<Rightarrow> perftest_parameters_negotiate_legacy \<Rightarrow> u8 list" where
  "legacy_bytes dv pre post l =
     u32_bytes (l_test_method l) @ u32_bytes (l_connection_type l) @ u32_bytes (l_verb l) @ u32_bytes (l_tst l) @ u32_bytes (l_atomicType l) @ u32_bytes (l_test_type l) @ u32_bytes (l_report_fmt l) @
     replicate 4 0 @ u64_bytes (l_size l) @ u64_bytes (l_iters l) @
     u32_bytes (l_aes_xts l) @ u32_bytes (l_num_of_qps l) @ u32_bytes (l_duration l) @ u32_bytes (l_use_rdma_cm l) @ u32_bytes (l_use_write_with_imm l) @ u32_bytes (l_no_enhanced_reorder l) @ u32_bytes (l_sig_offload l) @ u32_bytes (l_data_validation l) @
     replicate pre 0 @ u32_bytes (l_max_qp_rd_atom l) @ replicate post 0 @
     (if dv then u64_bytes (l_mlx5dv_comp_mask l) else [])"

definition read_legacy :: "bool \<Rightarrow> nat \<Rightarrow> nat \<Rightarrow> u8 list \<Rightarrow> perftest_parameters_negotiate_legacy" where
  "read_legacy dv pre post bs = \<lparr>
      l_test_method = bytes_u32 (take 4 (drop 0 bs)), l_connection_type = bytes_u32 (take 4 (drop 4 bs)),
      l_verb = bytes_u32 (take 4 (drop 8 bs)), l_tst = bytes_u32 (take 4 (drop 12 bs)),
      l_atomicType = bytes_u32 (take 4 (drop 16 bs)), l_test_type = bytes_u32 (take 4 (drop 20 bs)),
      l_report_fmt = bytes_u32 (take 4 (drop 24 bs)), l_size = bytes_u64 (take 8 (drop 32 bs)),
      l_iters = bytes_u64 (take 8 (drop 40 bs)), l_aes_xts = bytes_u32 (take 4 (drop 48 bs)),
      l_num_of_qps = bytes_u32 (take 4 (drop 52 bs)), l_duration = bytes_u32 (take 4 (drop 56 bs)),
      l_use_rdma_cm = bytes_u32 (take 4 (drop 60 bs)), l_use_write_with_imm = bytes_u32 (take 4 (drop 64 bs)),
      l_no_enhanced_reorder = bytes_u32 (take 4 (drop 68 bs)), l_sig_offload = bytes_u32 (take 4 (drop 72 bs)),
      l_data_validation = bytes_u32 (take 4 (drop 76 bs)), l_max_qp_rd_atom = bytes_u32 (take 4 (drop (80 + pre) bs)),
      l_mlx5dv_comp_mask = (if dv then bytes_u64 (take 8 (drop (84 + pre + post) bs)) else 0) \<rparr>"

definition legacy_fields :: "bool \<Rightarrow> perftest_parameters_negotiate_legacy \<Rightarrow> (string \<times> u8 list) list" where
  "legacy_fields dv r =
     [(''test_method'', u32_bytes (l_test_method r)), (''connection_type'', u32_bytes (l_connection_type r)),
      (''verb'', u32_bytes (l_verb r)), (''tst'', u32_bytes (l_tst r)),
      (''atomicType'', u32_bytes (l_atomicType r)), (''test_type'', u32_bytes (l_test_type r)),
      (''report_fmt'', u32_bytes (l_report_fmt r)), (''size'', u64_bytes (l_size r)),
      (''iters'', u64_bytes (l_iters r)), (''aes_xts'', u32_bytes (l_aes_xts r)),
      (''num_of_qps'', u32_bytes (l_num_of_qps r)), (''duration'', u32_bytes (l_duration r)),
      (''use_rdma_cm'', u32_bytes (l_use_rdma_cm r)), (''use_write_with_imm'', u32_bytes (l_use_write_with_imm r)),
      (''no_enhanced_reorder'', u32_bytes (l_no_enhanced_reorder r)), (''sig_offload'', u32_bytes (l_sig_offload r)),
      (''data_validation'', u32_bytes (l_data_validation r)), (''max_qp_rd_atom'', u32_bytes (htonl (l_max_qp_rd_atom r)))] @
     (if dv then [(''mlx5dv_comp_mask'', u64_bytes (l_mlx5dv_comp_mask r))] else [])"

definition unpack_legacy :: "bool \<Rightarrow> perftest_parameters_negotiate_legacy \<Rightarrow> CompareFunction list \<Rightarrow> CompareFunction list" where
  "unpack_legacy dv r cfs = fold (\<lambda>(nm, bs) t. mark_received nm (store_remote nm bs t)) (legacy_fields dv r) cfs"

definition negotiate_params_legacy ::
    "bool \<Rightarrow> nat \<Rightarrow> nat \<Rightarrow> perftest_comm \<Rightarrow> perftest_parameters_negotiate \<Rightarrow> CompareFunction list \<Rightarrow> (neg_error + CompareFunction list) io" where
  "negotiate_params_legacy dv pre post c lp cfs =
     with_data (ctx_xchg_data c (legacy_bytes dv pre post (pack_legacy lp))) (Inl Neg_FAILURE)
       (\<lambda>bs. Return (Inr (unpack_legacy dv (read_legacy dv pre post bs) cfs)))"

section \<open>The text format\<close>

abbreviation NUL :: char where "NUL \<equiv> char_of (0 :: nat)"

definition byte_of_char :: "char \<Rightarrow> u8" where "byte_of_char c = of_nat (of_char c)"
definition char_of_byte :: "u8 \<Rightarrow> char" where "char_of_byte b = char_of (unat b)"

text \<open>\<^verbatim>\<open>"%02x"\<close> of a byte.\<close>

definition hex2 :: "u8 \<Rightarrow> string" where
  "hex2 b = [digit_char (unat b div 16), digit_char (unat b mod 16)]"

text \<open>The pieces one entry is printed in, one \<^verbatim>\<open>snprintf\<close> each.\<close>

definition kv_pieces :: "CompareFunction \<Rightarrow> string list" where
  "kv_pieces cf = [cf_name cf @ ''='' ] @ map hex2 (local_value cf) @ ['';'']"

definition kv_local_size :: "CompareFunction list \<Rightarrow> nat" where
  "kv_local_size cfs =
     sum_list (map (\<lambda>cf. length (cf_name cf) + length ''='' + value_size cf * 2 + length '';'') cfs) + 1"

text \<open>
  \<^verbatim>\<open>off += snprintf(local_str + off, local_size - off, piece)\<close> on the characters written so far and \<^verbatim>\<open>off\<close>:
  at most \<^verbatim>\<open>local_size - off - 1\<close> characters are stored, the full length is added to \<^verbatim>\<open>off\<close>.
\<close>

definition snprintf_at :: "nat \<Rightarrow> string \<Rightarrow> string \<times> nat \<Rightarrow> string \<times> nat" where
  "snprintf_at local_size piece = (\<lambda>(str, off). (str @ take (local_size - off - 1) piece, off + length piece))"

definition kv_build :: "CompareFunction list \<Rightarrow> string \<times> nat" where
  "kv_build cfs = fold (snprintf_at (kv_local_size cfs)) (concat (map kv_pieces cfs)) ([], 0)"

text \<open>
  \<^verbatim>\<open>strtok_r(_, ";", _)\<close> on the memory from the save pointer on: the token, and the memory from its
  terminator on.
\<close>

definition strtok :: "string \<Rightarrow> (string \<times> string) option" where
  "strtok mem = (case dropWhile (\<lambda>c. c = CHR '';'') mem of
       [] \<Rightarrow> None
     | c # s \<Rightarrow> if c = NUL then None
        else Some (takeWhile (\<lambda>c. c \<noteq> CHR '';'' \<and> c \<noteq> NUL) (c # s), dropWhile (\<lambda>c. c \<noteq> CHR '';'' \<and> c \<noteq> NUL) (c # s)))"

datatype scan = Scan_overread | Scan_nomatch | Scan_val u8

text \<open>
  \<^verbatim>\<open>sscanf(_, "%2hhx", &byte)\<close>: white space is skipped, then an optional sign and hexadecimal digits
  are taken, two characters in all; a bare \<^verbatim>\<open>0x\<close> does not match.
\<close>

definition sscanf_2hhx :: "string \<Rightarrow> scan" where
  "sscanf_2hhx mem = (case dropWhile c_isspace mem of
       [] \<Rightarrow> Scan_overread
     | c # s \<Rightarrow>
        let sgn = (c = CHR ''-'' \<or> c = CHR ''+'');
            item = (if sgn then take 1 s else take 2 (c # s));
            ds = takeWhile (is_digit 16) item;
            v = of_nat (digits_value 16 ds) :: u8
        in if ds = [] \<or> item = ''0x'' \<or> item = ''0X'' then Scan_nomatch
           else Scan_val (if c = CHR ''-'' then - v else v))"

text \<open>
  The loop over the bytes of a value: the bytes stored before the first conversion that fails;
  \<open>None\<close> when it reads past the received block.
\<close>

primrec hex_bytes :: "nat \<Rightarrow> string \<Rightarrow> u8 list option" where
  "hex_bytes 0 mem = Some []" |
  "hex_bytes (Suc n) mem =
     (case sscanf_2hhx mem of
        Scan_overread \<Rightarrow> None
      | Scan_nomatch \<Rightarrow> Some []
      | Scan_val b \<Rightarrow> map_option ((#) b) (hex_bytes n (drop 2 mem)))"

fun kv_store :: "string \<Rightarrow> string \<Rightarrow> CompareFunction list \<Rightarrow> neg_error + CompareFunction list" where
  "kv_store key hex [] = Inr []" |
  "kv_store key hex (cf # cfs) =
     (if cf_name cf = key
      then case hex_bytes (value_size cf) hex of
             None \<Rightarrow> Inl Overread
           | Some bs \<Rightarrow> Inr (cf\<lparr> remote_value := bs @ drop (length bs) (remote_value cf),
                                received := received cf \<or> length bs = value_size cf \<rparr> # cfs)
      else map_sum id ((#) cf) (kv_store key hex cfs))"

text \<open>\<open>after\<close> is the memory behind the token's terminator.\<close>

definition kv_token :: "string \<Rightarrow> string \<Rightarrow> CompareFunction list \<Rightarrow> neg_error + CompareFunction list" where
  "kv_token tok after cfs =
     (if CHR ''='' \<in> set tok
      then kv_store (takeWhile (\<lambda>c. c \<noteq> CHR ''='') tok) (tl (dropWhile (\<lambda>c. c \<noteq> CHR ''='') tok) @ NUL # after) cfs
      else Inr cfs)"

lemma strtok_shorter: "strtok mem = Some (tok, r) \<Longrightarrow> r \<noteq> [] \<Longrightarrow> length r - Suc 0 < length mem"
proof -
  assume a: "strtok mem = Some (tok, r)" "r \<noteq> []"
  then obtain s where s: "s = dropWhile (\<lambda>c. c = CHR '';'') mem" and "r = dropWhile (\<lambda>c. c \<noteq> CHR '';'' \<and> c \<noteq> NUL) s"
    by (auto simp: strtok_def split: list.splits if_splits)
  then have "length r \<le> length s" by (simp add: length_dropWhile_le)
  moreover have "length s \<le> length mem" unfolding s by (rule length_dropWhile_le)
  ultimately show ?thesis using a(2) by (cases r) auto
qed

function kv_parse :: "string \<Rightarrow> CompareFunction list \<Rightarrow> neg_error + CompareFunction list" where
  "kv_parse mem cfs =
     (case strtok mem of
        None \<Rightarrow> Inr cfs
      | Some (tok, r) \<Rightarrow>
          (case kv_token tok (tl r) cfs of
             Inl e \<Rightarrow> Inl e
           | Inr cfs' \<Rightarrow> if r \<noteq> [] \<and> hd r = CHR '';'' then kv_parse (tl r) cfs' else Inr cfs'))"
  by pat_completeness auto
termination by (relation "measure (length \<circ> fst)") (auto intro: strtok_shorter)

declare kv_parse.simps [simp del]

text \<open>The received block is extended by the terminating zero.\<close>

definition negotiate_params_kv_string ::
    "(nat \<Rightarrow> bool) \<Rightarrow> perftest_comm \<Rightarrow> CompareFunction list \<Rightarrow> (neg_error + CompareFunction list) io" where
  "negotiate_params_kv_string malloc_ok c cfs =
     (if \<not> malloc_ok (kv_local_size cfs) then Return (Inl Neg_FAILURE)
      else let (local_str, off) = kv_build cfs in
        with_data (ctx_xchg_data_chunked malloc_ok c (map byte_of_char (take off local_str))) (Inl Neg_FAILURE)
          (\<lambda>bs. Return (kv_parse (map char_of_byte bs @ [NUL]) cfs)))"

section \<open>Comparing\<close>

text \<open>A C \<^verbatim>\<open>int\<close> converted to \<^verbatim>\<open>uint64_t\<close>.\<close>

definition u64_of_int32 :: "u32 \<Rightarrow> u64" where "u64_of_int32 w = scast w"

definition compare :: "CompareFunction \<Rightarrow> neg_error + unit" where
  "compare cf =
     (case (case cf_type cf of
              CT_UINT64 \<Rightarrow> Some (hton_64 (bytes_u64 (local_value cf)), hton_64 (bytes_u64 (remote_value cf)))
            | CT_INT \<Rightarrow> Some (u64_of_int32 (htonl (bytes_u32 (local_value cf))), u64_of_int32 (htonl (bytes_u32 (remote_value cf))))
            | CT_NONE \<Rightarrow> None) of
        None \<Rightarrow> Inl Neg_FAILURE
      | Some (l, r) \<Rightarrow>
          if l = r then Inr ()
          else case return_values cf of
                 None \<Rightarrow> Inl Neg_FAILURE
               | Some values \<Rightarrow>
                   if unat l < length values \<and> unat r < length values then Inl Neg_FAILURE else Inl Overread)"

definition compare_max_qp_rd_atom :: "CompareFunction \<Rightarrow> negotiating_user \<Rightarrow> negotiating_user" where
  "compare_max_qp_rd_atom cf u =
     (let remote = sint (htonl (bytes_u32 (remote_value cf)))
      in if u_out_reads u > remote then u\<lparr> u_out_reads := remote \<rparr> else u)"

text \<open>\<open>ooo\<close> is the library's mask for out-of-order receives, 0 when the library does not have it.\<close>

definition compare_mlx5dv :: "u64 \<Rightarrow> CompareFunction \<Rightarrow> negotiating_user \<Rightarrow> negotiating_user" where
  "compare_mlx5dv ooo cf u =
     (if u_no_enhanced_reorder u \<noteq> 1 \<and>
         hton_64 (bytes_u64 (local_value cf)) AND ooo \<noteq> hton_64 (bytes_u64 (remote_value cf)) AND ooo
      then u\<lparr> u_no_enhanced_reorder := 1 \<rparr> else u)"

definition compare_one :: "u64 \<Rightarrow> CompareFunction \<Rightarrow> negotiating_user \<Rightarrow> neg_error + negotiating_user" where
  "compare_one ooo cf u =
     (case cf_func cf of
        Cmp_compare \<Rightarrow> map_sum id (\<lambda>_. u) (compare cf)
      | Cmp_max_qp_rd_atom \<Rightarrow> Inr (compare_max_qp_rd_atom cf u)
      | Cmp_mlx5dv \<Rightarrow> Inr (compare_mlx5dv ooo cf u))"

fun compare_all :: "u64 \<Rightarrow> CompareFunction list \<Rightarrow> negotiating_user \<Rightarrow> neg_error + negotiating_user" where
  "compare_all ooo [] u = Inr u" |
  "compare_all ooo (cf # cfs) u =
     (if \<not> received cf \<or> \<not> cf_cond cf then compare_all ooo cfs u
      else case compare_one ooo cf u of Inl e \<Rightarrow> Inl e | Inr u' \<Rightarrow> compare_all ooo cfs u')"

section \<open>The entry point\<close>

text \<open>
  \<^verbatim>\<open>atof(rem_version)\<close> against a bound given in hundredths.  A version is an unsigned decimal numeral
  \<open>n / 10 ^ k\<close>; decimals this short keep their order as \<^verbatim>\<open>double\<close>s.
\<close>

definition version_num :: "string \<Rightarrow> nat \<times> nat" where
  "version_num s =
     (let i = takeWhile c_isdigit s; r = dropWhile c_isdigit s;
          f = (case r of [] \<Rightarrow> [] | c # t \<Rightarrow> if c = CHR ''.'' then takeWhile c_isdigit t else [])
      in (digits_value 10 (i @ f), length f))"

definition version_less :: "string \<Rightarrow> nat \<Rightarrow> bool" where
  "version_less s v \<longleftrightarrow> fst (version_num s) * 100 < v * 10 ^ snd (version_num s)"

definition version_le :: "string \<Rightarrow> nat \<Rightarrow> bool" where
  "version_le s v \<longleftrightarrow> fst (version_num s) * 100 \<le> v * 10 ^ snd (version_num s)"

abbreviation NEGOTIATION_VERSION :: u32 where "NEGOTIATION_VERSION \<equiv> 0"

text \<open>
  The surroundings of one side: build options, layout of \<^verbatim>\<open>struct ibv_device_attr\<close>, success of
  \<^verbatim>\<open>malloc\<close> and the answer of \<^verbatim>\<open>ibv_query_device\<close> (\<open>None\<close> when the query fails).
\<close>

record negotiation_env =
  env_dv :: bool
  env_ooo :: u64
  env_pre :: nat
  env_post :: nat
  env_malloc :: "nat \<Rightarrow> bool"
  env_device :: "negotiating_device option"

definition finish_negotiation ::
    "u64 \<Rightarrow> negotiating_user \<Rightarrow> (neg_error + CompareFunction list) io \<Rightarrow> (neg_error + negotiating_user) io" where
  "finish_negotiation ooo u p = io_bind p (\<lambda>r. case r of Inl e \<Rightarrow> Return (Inl e) | Inr cfs \<Rightarrow> Return (compare_all ooo cfs u))"

definition negotiate_params :: "negotiation_env \<Rightarrow> perftest_comm \<Rightarrow> negotiating_user \<Rightarrow> (neg_error + negotiating_user) io" where
  "negotiate_params E c u =
     (if version_less (u_rem_version u) 628 then Return (Inr u)
      else case env_device E of
        None \<Rightarrow> Return (Inl Neg_FAILURE)
      | Some d \<Rightarrow>
          (let cfs = compare_functions (env_dv E) u d in
           if version_le (u_rem_version u) 629
           then finish_negotiation (env_ooo E) u
                  (negotiate_params_legacy (env_dv E) (env_pre E) (env_post E) c (local_params (env_dv E) u d) cfs)
           else with_data (ctx_xchg_data c (u32_bytes (htonl NEGOTIATION_VERSION))) (Inl Neg_FAILURE)
                  (\<lambda>v. if htonl (bytes_u32 v) \<noteq> NEGOTIATION_VERSION then Return (Inr u)
                       else finish_negotiation (env_ooo E) u (negotiate_params_kv_string (env_malloc E) c cfs))))"

section \<open>Printing the table\<close>

lemma char_byte [simp]: "char_of_byte (byte_of_char c) = c" "map (char_of_byte \<circ> byte_of_char) t = t"
proof -
  show "char_of_byte (byte_of_char c) = c" for c
    unfolding char_of_byte_def byte_of_char_def unat_of_nat by simp
  then show "map (char_of_byte \<circ> byte_of_char) t = t" by (simp add: map_idI)
qed

definition kv_string :: "CompareFunction list \<Rightarrow> string" where
  "kv_string cfs = concat (map (\<lambda>cf. cf_name cf @ ''='' @ concat (map hex2 (local_value cf)) @ '';'') cfs)"

lemma length_hex2 [simp]: "length (hex2 b) = 2"
  by (simp add: hex2_def)

lemma length_concat_hex2 [simp]: "length (concat (map hex2 bs)) = 2 * length bs"
  by (induction bs) auto

lemma kv_string_simps [simp]:
  "kv_string [] = []"
  "kv_string (cf # cfs) = cf_name cf @ CHR ''='' # concat (map hex2 (local_value cf)) @ CHR '';'' # kv_string cfs"
  by (simp_all add: kv_string_def)

lemma kv_local_size_length: "kv_local_size cfs = length (kv_string cfs) + 1"
  by (induction cfs) (auto simp: kv_local_size_def value_size_def)

lemma concat_pieces: "concat (concat (map kv_pieces cfs)) = kv_string cfs"
  by (induction cfs) (auto simp: kv_pieces_def)

lemma snprintf_fits:
  "length str = off \<Longrightarrow> off + length (concat ps) < n \<Longrightarrow>
   fold (snprintf_at n) ps (str, off) = (str @ concat ps, off + length (concat ps))"
proof (induction ps arbitrary: str off)
  case (Cons p ps)
  then show ?case using Cons.IH [of "str @ p" "off + length p"] by (simp add: snprintf_at_def)
qed simp

lemma kv_build_eq: "kv_build cfs = (kv_string cfs, length (kv_string cfs))"
  using snprintf_fits [of "[]" 0 "concat (map kv_pieces cfs)" "kv_local_size cfs"]
  by (simp add: kv_build_def kv_local_size_length concat_pieces)

section \<open>Parsing a printed table\<close>

lemma NUL_distinct [simp]: "CHR '';'' \<noteq> NUL" "CHR ''='' \<noteq> NUL" "NUL \<noteq> CHR '';''" "NUL \<noteq> CHR ''=''"
  "NUL \<noteq> CHR ''x''" "NUL \<noteq> CHR ''X''"
  by (simp_all add: char_of_def)

lemma hex_digit_char:
  assumes "d < 16"
  shows "digit_char d \<notin> {CHR '';'', CHR ''='', NUL, CHR ''x'', CHR ''X'', CHR ''-'', CHR ''+''}" "\<not> c_isspace (digit_char d)"
proof -
  have "digit_val (digit_char d) = Some d" using assms by (rule digit_val_digit_char)
  moreover have "digit_val (CHR '';'') = None" "digit_val (CHR ''='') = None" "digit_val NUL = None"
    "digit_val (CHR ''x'') = Some 33" "digit_val (CHR ''X'') = Some 33" "digit_val (CHR ''-'') = None" "digit_val (CHR ''+'') = None"
    by (simp_all add: digit_val_def)
  ultimately show "digit_char d \<notin> {CHR '';'', CHR ''='', NUL, CHR ''x'', CHR ''X'', CHR ''-'', CHR ''+''}" using assms by auto
  show "\<not> c_isspace (digit_char d)" using assms digit_not_space [of 16] is_digit_digit_char [of d 16] by blast
qed

lemma unat_byte_digits: "unat (b :: u8) div 16 < 16" "unat b mod 16 < 16"
  using unat_lt_len [of b] by auto

lemma sscanf_hex2: "sscanf_2hhx (hex2 b @ mem) = Scan_val b"
proof -
  let ?h = "unat b div 16" and ?l = "unat b mod 16"
  note d = unat_byte_digits [of b]
  have "is_digit 16 (digit_char ?h)" "is_digit 16 (digit_char ?l)" using d by (simp_all add: is_digit_digit_char)
  moreover have "digits_value 16 [digit_char ?h, digit_char ?l] = unat b"
    using d by (simp add: digits_value_def digit_val_digit_char)
  ultimately show ?thesis
    using hex_digit_char [OF d(1)] hex_digit_char [OF d(2)] by (simp add: sscanf_2hhx_def hex2_def Let_def)
qed

lemma hex_bytes_print: "hex_bytes (length bs) (concat (map hex2 bs) @ mem) = Some bs"
proof (induction bs)
  case (Cons b bs)
  have "drop 2 (hex2 b @ concat (map hex2 bs) @ mem) = concat (map hex2 bs) @ mem" by simp
  then show ?case using Cons by (simp add: sscanf_hex2)
qed simp

text \<open>What an entry learns from a peer's entry of the same name; other entries are left alone.\<close>

definition learn :: "CompareFunction \<Rightarrow> CompareFunction list \<Rightarrow> CompareFunction list" where
  "learn p = map (\<lambda>cf. if cf_name cf = cf_name p then cf\<lparr> remote_value := local_value p, received := True \<rparr> else cf)"

definition table_ok :: "CompareFunction list \<Rightarrow> bool" where
  "table_ok cfs \<longleftrightarrow> distinct (map cf_name cfs) \<and> (\<forall>cf \<in> set cfs. length (remote_value cf) = value_size cf)"

definition name_ok :: "CompareFunction \<Rightarrow> bool" where
  "name_ok cf \<longleftrightarrow> cf_name cf \<noteq> [] \<and> set (cf_name cf) \<inter> {CHR ''='', CHR '';'', NUL} = {}"

definition sizes_agree :: "CompareFunction list \<Rightarrow> CompareFunction list \<Rightarrow> bool" where
  "sizes_agree ps cfs \<longleftrightarrow> (\<forall>p \<in> set ps. \<forall>cf \<in> set cfs. cf_name p = cf_name cf \<longrightarrow> value_size p = value_size cf)"

lemma kv_store_learn:
  assumes "table_ok cfs" "\<forall>cf \<in> set cfs. cf_name cf = cf_name p \<longrightarrow> value_size cf = value_size p"
  shows "kv_store (cf_name p) (concat (map hex2 (local_value p)) @ mem) cfs = Inr (learn p cfs)"
  using assms
proof (induction cfs)
  case (Cons cf cfs)
  have tail: "learn p cfs = cfs" if "cf_name cf = cf_name p"
    using Cons.prems(1) that by (auto simp: learn_def table_ok_def intro!: map_idI) (metis imageI)
  have IH: "kv_store (cf_name p) (concat (map hex2 (local_value p)) @ mem) cfs = Inr (learn p cfs)"
    using Cons by (auto simp: table_ok_def)
  show ?case
  proof (cases "cf_name cf = cf_name p")
    case True
    then have sz: "value_size cf = length (local_value p)" "length (remote_value cf) = value_size cf"
      using Cons.prems by (auto simp: value_size_def table_ok_def)
    with True tail show ?thesis by (simp add: hex_bytes_print) (simp add: learn_def)
  next
    case False
    with IH show ?thesis by (simp add: learn_def)
  qed
qed (simp add: learn_def)

lemma hex_text_clean: "set (concat (map hex2 bs)) \<inter> {CHR ''='', CHR '';'', NUL} = {}"
proof -
  have "set (hex2 b) \<inter> {CHR ''='', CHR '';'', NUL} = {}" for b
    using hex_digit_char(1) [OF unat_byte_digits(1) [of b]] hex_digit_char(1) [OF unat_byte_digits(2) [of b]]
    by (auto simp: hex2_def)
  then show ?thesis by auto
qed

lemma kv_token_printed:
  assumes "name_ok p" "table_ok cfs" "\<forall>cf \<in> set cfs. cf_name cf = cf_name p \<longrightarrow> value_size cf = value_size p"
  shows "kv_token (cf_name p @ CHR ''='' # concat (map hex2 (local_value p))) after cfs = Inr (learn p cfs)"
proof -
  have "takeWhile (\<lambda>c. c \<noteq> CHR ''='') (cf_name p @ CHR ''='' # t) = cf_name p"
    "dropWhile (\<lambda>c. c \<noteq> CHR ''='') (cf_name p @ CHR ''='' # t) = CHR ''='' # t" for t
    using assms(1) by (auto simp: name_ok_def takeWhile_append dropWhile_append)
  with kv_store_learn [OF assms(2,3)] show ?thesis by (simp add: kv_token_def)
qed

lemma strtok_printed:
  assumes "name_ok p"
  shows "strtok (cf_name p @ CHR ''='' # concat (map hex2 bs) @ CHR '';'' # mem) =
    Some (cf_name p @ CHR ''='' # concat (map hex2 bs), CHR '';'' # mem)"
proof -
  from assms obtain c t where n: "cf_name p = c # t" and c: "c \<noteq> CHR '';''" "c \<noteq> NUL" by (cases "cf_name p") (auto simp: name_ok_def)
  let ?tok = "cf_name p @ CHR ''='' # concat (map hex2 bs)" and ?P = "\<lambda>c. c \<noteq> CHR '';'' \<and> c \<noteq> NUL"
  have ok: "\<forall>c \<in> set ?tok. ?P c" using assms hex_text_clean [of bs] by (auto simp: name_ok_def)
  have "takeWhile ?P (?tok @ CHR '';'' # mem) = ?tok" "dropWhile ?P (?tok @ CHR '';'' # mem) = CHR '';'' # mem"
    using takeWhile_append2 [of ?tok ?P "CHR '';'' # mem"] dropWhile_append2 [of ?tok ?P "CHR '';'' # mem"] ok by auto
  then show ?thesis using c by (simp add: strtok_def n)
qed

lemma learn_keeps: "table_ok cfs \<Longrightarrow> \<forall>cf \<in> set cfs. cf_name cf = cf_name p \<longrightarrow> value_size cf = value_size p \<Longrightarrow>
   table_ok (learn p cfs)" "map cf_name (learn p cfs) = map cf_name cfs" "map value_size (learn p cfs) = map value_size cfs"
  by (auto simp: table_ok_def learn_def value_size_def comp_def if_distrib cong: if_cong)

lemma sizes_agree_learn: "sizes_agree ps (learn p cfs) \<longleftrightarrow> sizes_agree ps cfs"
proof -
  have "map (\<lambda>c. (cf_name c, value_size c)) (learn p cfs) = map (\<lambda>c. (cf_name c, value_size c)) cfs"
    by (simp add: learn_def value_size_def)
  moreover have "sizes_agree ps cs \<longleftrightarrow> (\<forall>p \<in> set ps. \<forall>x \<in> set (map (\<lambda>c. (cf_name c, value_size c)) cs). cf_name p = fst x \<longrightarrow> value_size p = snd x)" for cs
    by (simp add: sizes_agree_def)
  ultimately show ?thesis by presburger
qed

lemma kv_parse_printed:
  "list_all name_ok ps \<Longrightarrow> table_ok cfs \<Longrightarrow> sizes_agree ps cfs \<Longrightarrow>
   kv_parse (kv_string ps @ [NUL]) cfs = Inr (fold learn ps cfs)"
proof (induction ps arbitrary: cfs)
  case Nil
  then show ?case by (simp add: kv_parse.simps strtok_def)
next
  case (Cons p ps)
  then have p: "name_ok p" "\<forall>cf \<in> set cfs. cf_name cf = cf_name p \<longrightarrow> value_size cf = value_size p"
    by (auto simp: sizes_agree_def)
  have "kv_parse (kv_string ps @ [NUL]) (learn p cfs) = Inr (fold learn ps (learn p cfs))"
    using Cons.prems p by (intro Cons.IH learn_keeps(1)) (simp_all add: sizes_agree_learn, simp add: sizes_agree_def)
  then show ?case
    using strtok_printed [OF p(1), of "local_value p" "kv_string ps @ [NUL]"]
      kv_token_printed [OF p(1) Cons.prems(2) p(2), of "kv_string ps @ [NUL]"]
    by (subst kv_parse.simps) simp
qed

text \<open>When the two tables have the same names, every entry learns the peer's value of the same position.\<close>

definition heard :: "CompareFunction \<Rightarrow> CompareFunction \<Rightarrow> CompareFunction" where
  "heard cf p = cf\<lparr> remote_value := local_value p, received := True \<rparr>"

lemma heard_simps [simp]:
  "cf_name (heard cf p) = cf_name cf" "cf_func (heard cf p) = cf_func cf" "cf_cond (heard cf p) = cf_cond cf"
  "received (heard cf p)" "local_value (heard cf p) = local_value cf" "remote_value (heard cf p) = local_value p"
  by (simp_all add: heard_def)

lemma learn_append: "learn p (xs @ ys) = learn p xs @ learn p ys"
  by (simp add: learn_def)

lemma learn_other: "cf_name p \<notin> cf_name ` set cfs \<Longrightarrow> learn p cfs = cfs"
  by (auto simp: learn_def intro!: map_idI) (metis imageI)

lemma fold_learn_skip:
  "\<forall>p \<in> set ps. cf_name p \<notin> cf_name ` set ms \<Longrightarrow> fold learn ps (ms @ xs) = ms @ fold learn ps xs"
  by (induction ps arbitrary: xs) (simp_all add: learn_append learn_other)

lemma fold_learn_Cons: "cf_name cf \<notin> cf_name ` set ps \<Longrightarrow> fold learn ps (cf # cfs) = cf # fold learn ps cfs"
proof (induction ps arbitrary: cfs)
  case (Cons p ps)
  then have "learn p (cf # cfs) = cf # learn p cfs" by (auto simp: learn_def)
  with Cons show ?case by simp
qed simp

lemma fold_learn_zip:
  "map cf_name cfs = map cf_name ps \<Longrightarrow> distinct (map cf_name ps) \<Longrightarrow> fold learn ps cfs = map2 heard cfs ps"
proof (induction ps arbitrary: cfs)
  case (Cons p ps)
  then obtain cf cfs' where c: "cfs = cf # cfs'" "cf_name cf = cf_name p" "map cf_name cfs' = map cf_name ps" by auto
  then have "cf_name p \<notin> cf_name ` set cfs'" using Cons.prems(2) by (metis distinct.simps(2) list.set_map list.simps(9))
  then have "learn p cfs = heard cf p # cfs'" using learn_other [of p cfs'] c by (simp add: learn_def heard_def)
  moreover have "fold learn ps (heard cf p # cfs') = heard cf p # fold learn ps cfs'"
    by (rule fold_learn_Cons) (use Cons.prems(2) c in \<open>auto simp: heard_def\<close>)
  ultimately show ?case using Cons c by simp
qed simp

lemma fold_learn_append:
  "cf_name ` set ps \<inter> cf_name ` set ys = {} \<Longrightarrow> fold learn ps (xs @ ys) = fold learn ps xs @ ys"
proof (induction ps arbitrary: xs)
  case (Cons p ps)
  then have "learn p (xs @ ys) = learn p xs @ ys" using learn_other [of p ys] by (auto simp: learn_def)
  with Cons show ?case by (simp add: Int_Un_distrib2)
qed simp

lemma fold_learn_unknown:
  "cf_name ` set ps \<inter> cf_name ` set cfs = {} \<Longrightarrow> fold learn ps cfs = cfs"
proof (induction ps)
  case (Cons p ps)
  then show ?case using learn_other [of p cfs] by auto
qed simp

lemma fold_learn_find:
  "distinct (map cf_name ps) \<Longrightarrow>
   fold learn ps cs = map (\<lambda>cf. case find (\<lambda>p. cf_name p = cf_name cf) ps of None \<Rightarrow> cf | Some p \<Rightarrow> heard cf p) cs"
proof (induction ps arbitrary: cs)
  case (Cons p ps)
  let ?f = "\<lambda>ps cf. case find (\<lambda>p. cf_name p = cf_name cf) ps of None \<Rightarrow> cf | Some p \<Rightarrow> heard cf p"
  have gone: "find (\<lambda>q. cf_name q = cf_name p) ps = None" using Cons.prems by (auto simp: find_None_iff) (metis imageI)
  have "learn p cs = map (\<lambda>cf. if cf_name cf = cf_name p then heard cf p else cf) cs" by (simp add: learn_def heard_def)
  then have "fold learn (p # ps) cs = map (\<lambda>cf. ?f ps (if cf_name cf = cf_name p then heard cf p else cf)) cs"
    using Cons by (simp add: comp_def)
  moreover have "?f ps (if cf_name cf = cf_name p then heard cf p else cf) = ?f (p # ps) cf" for cf
  proof (cases "cf_name cf = cf_name p")
    case True
    have "cf_name (heard cf p) = cf_name cf" by (simp add: heard_def)
    with True gone show ?thesis by simp
  qed auto
  ultimately show ?case by presburger
qed simp

text \<open>
  C31.  A received text is read back entry by entry: when the peer prints a table with proper names, whose
  values have the sizes this side expects, every entry of a name the peer printed holds the peer's value
  and is marked as received, and the others are untouched.  Nothing is read outside the received block.
\<close>

theorem kv_text_roundtrip:
  assumes "list_all name_ok ps" "table_ok cfs" "sizes_agree ps cfs" "distinct (map cf_name ps)"
  shows "\<exists>cfs'. kv_parse (map char_of_byte (map byte_of_char (fst (kv_build ps))) @ [NUL]) cfs = Inr cfs' \<and>
    length cfs' = length cfs \<and>
    (\<forall>i < length cfs. case find (\<lambda>p. cf_name p = cf_name (cfs ! i)) ps of
        None \<Rightarrow> cfs' ! i = cfs ! i
      | Some p \<Rightarrow> cfs' ! i = (cfs ! i)\<lparr> remote_value := local_value p, received := True \<rparr>)"
proof -
  show ?thesis
    using kv_parse_printed [OF assms(1-3)] fold_learn_find [OF assms(4), of cfs]
    by (auto simp: kv_build_eq heard_def split: option.splits)
qed

section \<open>The table of the program\<close>

definition param_names :: "string list" where
  "param_names = [''test_method'', ''connection_type'', ''verb'', ''tst'', ''atomicType'', ''test_type'', ''report_fmt'', ''size'', ''iters'', ''aes_xts'', ''duplex'', ''num_of_qps'', ''duration'', ''use_rdma_cm'', ''use_write_with_imm'', ''no_enhanced_reorder'', ''sig_offload'', ''data_validation'', ''tx_depth'', ''max_qp_rd_atom'']"

definition common_table :: "bool \<Rightarrow> negotiating_user \<Rightarrow> negotiating_device \<Rightarrow> CompareFunction list" where
  "common_table dv u d = take 20 (compare_functions dv u d)"

definition dv_table :: "bool \<Rightarrow> negotiating_user \<Rightarrow> negotiating_device \<Rightarrow> CompareFunction list" where
  "dv_table dv u d = (if dv then [entry_u64 Cmp_mlx5dv ''mlx5dv_comp_mask'' (n_mlx5dv_comp_mask (local_params dv u d)) (dev_mlnx d)] else [])"

lemma compare_functions_split: "compare_functions dv u d = common_table dv u d @ dv_table dv u d"
  by (simp add: common_table_def compare_functions_def dv_table_def Let_def)

lemma entry_simps [simp]:
  "cf_name (entry_int f nm v vs c) = nm" "cf_name (entry_u64 f nm w c) = nm"
  "value_size (entry_int f nm v vs c) = 4" "value_size (entry_u64 f nm w c) = 8"
  "local_value (entry_int f nm v vs c) = u32_bytes v" "local_value (entry_u64 f nm w c) = u64_bytes w"
  "length (remote_value (entry_int f nm v vs c)) = 4" "length (remote_value (entry_u64 f nm w c)) = 8"
  "cf_func (entry_int f nm v vs c) = f" "cf_func (entry_u64 f nm w c) = f"
  "cf_type (entry_int f nm v vs c) = CT_INT" "cf_type (entry_u64 f nm w c) = CT_UINT64"
  "cf_cond (entry_int f nm v vs c) = c" "cf_cond (entry_u64 f nm w c) = c"
  by (simp_all add: entry_int_def entry_u64_def value_size_def)

lemma common_names: "map cf_name (common_table dv u d) = param_names"
  by (simp add: common_table_def compare_functions_def param_names_def Let_def)

lemma dv_names: "map cf_name (dv_table dv u d) = (if dv then [''mlx5dv_comp_mask''] else [])"
  by (simp add: dv_table_def)

lemma param_names_distinct: "distinct (''mlx5dv_comp_mask'' # param_names)"
  unfolding param_names_def by simp

lemma param_names_clean:
  "list_all (\<lambda>n. n \<noteq> [] \<and> set n \<inter> {CHR ''='', CHR '';'', NUL} = {}) (''mlx5dv_comp_mask'' # param_names)"
  unfolding param_names_def by (simp add: char_of_def)

text \<open>The size of a value depends on its name only.\<close>

definition size_of_name :: "string \<Rightarrow> nat" where
  "size_of_name n = (if n = ''size'' \<or> n = ''iters'' \<or> n = ''mlx5dv_comp_mask'' then 8 else 4)"

lemma table_sizes: "list_all (\<lambda>cf. value_size cf = size_of_name (cf_name cf) \<and> length (remote_value cf) = value_size cf) (compare_functions dv u d)"
  by (simp add: compare_functions_def size_of_name_def Let_def)

lemma table_names: "map cf_name (compare_functions dv u d) = param_names @ (if dv then [''mlx5dv_comp_mask''] else [])"
  by (simp add: compare_functions_split common_names dv_names)

lemma table_distinct: "distinct (map cf_name (compare_functions dv u d))"
  using param_names_distinct by (simp add: table_names)

lemma table_is_ok: "table_ok (compare_functions dv u d)"
  using table_sizes [of dv u d] table_distinct by (simp add: table_ok_def list_all_iff)

lemma table_names_ok: "list_all name_ok (compare_functions dv u d)"
proof -
  have "list_all (\<lambda>n. n \<noteq> [] \<and> set n \<inter> {CHR ''='', CHR '';'', NUL} = {}) (map cf_name (compare_functions dv u d))"
    using param_names_clean by (simp add: table_names)
  then show ?thesis by (simp add: name_ok_def list_all_iff)
qed

lemma tables_agree_on_sizes: "sizes_agree (compare_functions dv u d) (compare_functions dv' v e)"
  using table_sizes [of dv u d] table_sizes [of dv' v e] by (simp add: sizes_agree_def list_all_iff)

lemma table_exchange:
  "fold learn (compare_functions dv' v e) (compare_functions dv u d) =
   map2 heard (common_table dv u d) (common_table dv' v e) @ fold learn (dv_table dv' v e) (dv_table dv u d)"
proof -
  let ?A = "common_table dv u d" and ?B = "common_table dv' v e" and ?X = "dv_table dv u d" and ?Y = "dv_table dv' v e"
  have n: "cf_name ` set ?A = set param_names" "cf_name ` set ?B = set param_names"
    by (metis common_names list.set_map)+
  define key where "key = ''mlx5dv_comp_mask''"
  have x: "cf_name ` set ?X \<subseteq> {key}" "cf_name ` set ?Y \<subseteq> {key}" by (auto simp: dv_table_def key_def)
  have new: "key \<notin> set param_names" using param_names_distinct by (simp add: key_def)
  have "fold learn ?B (?A @ ?X) = fold learn ?B ?A @ ?X" using n x new by (intro fold_learn_append) blast
  moreover have "fold learn ?B ?A = map2 heard ?A ?B" by (rule fold_learn_zip) (use param_names_distinct in \<open>simp_all add: common_names\<close>)
  moreover have "fold learn ?Y (map2 heard ?A ?B @ ?X) = map2 heard ?A ?B @ fold learn ?Y ?X"
  proof -
    have "cf_name ` set (map2 heard ?A ?B) \<subseteq> set param_names"
      unfolding n(1) [symmetric] by (auto dest: set_zip_leftD)
    then have "cf_name p \<notin> cf_name ` set (map2 heard ?A ?B)" if "p \<in> set ?Y" for p using x(2) new that by blast
    then show ?thesis by (intro fold_learn_skip) blast
  qed
  ultimately show ?thesis by (simp add: compare_functions_split)
qed

section \<open>The verdict\<close>

text \<open>The parameters both sides must have in common.\<close>

definition agreed :: "negotiating_user \<Rightarrow> negotiating_user \<Rightarrow> bool" where
  "agreed u v \<longleftrightarrow>
     u_test_method u = u_test_method v \<and> u_connection_type u = u_connection_type v \<and> u_verb u = u_verb v \<and>
     u_tst u = u_tst v \<and> u_atomicType u = u_atomicType v \<and> u_test_type u = u_test_type v \<and>
     u_report_fmt u = u_report_fmt v \<and> u_size u = u_size v \<and> u_iters u = u_iters v \<and>
     u_aes_xts u = u_aes_xts v \<and> u_duplex u = u_duplex v \<and> u_num_of_qps u = u_num_of_qps v \<and>
     u_duration u = u_duration v \<and> u_use_rdma_cm u = u_use_rdma_cm v \<and> u_use_write_with_imm u = u_use_write_with_imm v \<and>
     u_no_enhanced_reorder u = u_no_enhanced_reorder v \<and> u_sig_offload u = u_sig_offload v \<and> u_data_validation u = u_data_validation v \<and>
     u_tx_depth u = u_tx_depth v"

lemma u64_of_int32_inject [simp]: "u64_of_int32 v = u64_of_int32 w \<longleftrightarrow> v = w"
proof -
  have "(scast (u64_of_int32 x) :: u32) = x" for x
    unfolding u64_of_int32_def by (rule scast_up_scast_id) (simp add: is_up)
  then show ?thesis by metis
qed

lemma compare_heard [simp]:
  "compare (heard (entry_int f n v vs c) (entry_int f' n' v' vs' c')) = Inr () \<longleftrightarrow> v = v'"
  "compare (heard (entry_u64 f n w c) (entry_u64 f' n' w' c')) = Inr () \<longleftrightarrow> w = w'"
  by (simp_all add: compare_def heard_def entry_int_def entry_u64_def split: option.split)

lemma compare_all_append:
  "compare_all ooo (xs @ ys) u = (case compare_all ooo xs u of Inl e \<Rightarrow> Inl e | Inr u' \<Rightarrow> compare_all ooo ys u')"
  by (induction xs arbitrary: u) (auto split: sum.splits)

lemma compare_all_generic:
  "\<forall>cf \<in> set cfs. received cf \<and> cf_cond cf \<and> cf_func cf = Cmp_compare \<Longrightarrow>
   (compare_all ooo cfs u = Inr u' \<longleftrightarrow> u' = u \<and> (\<forall>cf \<in> set cfs. compare cf = Inr ()))"
proof (induction cfs)
  case (Cons cf cfs)
  then show ?case by (cases "compare cf") (auto simp: compare_one_def)
qed auto

lemma generic_verdict:
  "compare_all ooo (take 19 (map2 heard (common_table dv u d) (common_table dv' v e))) w = Inr u' \<longleftrightarrow> u' = w \<and> agreed u v"
  by (subst compare_all_generic)
     (auto simp: common_table_def compare_functions_def local_params_def agreed_def Let_def)

lemma last_common:
  "drop 19 (map2 heard (common_table dv u d) (common_table dv' v e)) =
   [heard (entry_int Cmp_max_qp_rd_atom ''max_qp_rd_atom'' (htonl (dev_max_qp_rd_atom d)) None (u_connection_type u \<noteq> DC_value))
     (entry_int Cmp_max_qp_rd_atom ''max_qp_rd_atom'' (htonl (dev_max_qp_rd_atom e)) None (u_connection_type v \<noteq> DC_value))]"
  by (simp add: common_table_def compare_functions_def local_params_def Let_def)

text \<open>The number of outstanding reads after a successful negotiation.\<close>

definition clamped_reads :: "negotiating_user \<Rightarrow> negotiating_device \<Rightarrow> int" where
  "clamped_reads u e = (if u_connection_type u = DC_value then u_out_reads u
     else min (u_out_reads u) (sint (dev_max_qp_rd_atom e)))"

lemma compare_mlx5dv_cases: "\<exists>b. compare_mlx5dv ooo cf w = (if b then w\<lparr> u_no_enhanced_reorder := 1 \<rparr> else w)"
  unfolding compare_mlx5dv_def by (rule exI, rule refl)

lemma dv_part:
  "\<exists>b. compare_all ooo (fold learn (dv_table dv' v e) (dv_table dv u d)) w = Inr (if b then w\<lparr> u_no_enhanced_reorder := 1 \<rparr> else w)"
proof -
  have one: "\<exists>b. compare_all ooo [cf] w = Inr (if b then w\<lparr> u_no_enhanced_reorder := 1 \<rparr> else w)" if "cf_func cf = Cmp_mlx5dv" for cf
  proof (cases "received cf \<and> cf_cond cf")
    case True
    with that have "compare_all ooo [cf] w = Inr (compare_mlx5dv ooo cf w)" by (simp add: compare_one_def)
    moreover obtain b where "compare_mlx5dv ooo cf w = (if b then w\<lparr> u_no_enhanced_reorder := 1 \<rparr> else w)"
      using compare_mlx5dv_cases [of ooo cf w] by blast
    ultimately show ?thesis by (intro exI [of _ b]) simp
  next
    case False
    then have "compare_all ooo [cf] w = Inr (if False then w\<lparr> u_no_enhanced_reorder := 1 \<rparr> else w)" by auto
    then show ?thesis by blast
  qed
  show ?thesis
  proof (cases dv)
    case False
    then have "fold learn (dv_table dv' v e) (dv_table dv u d) = []" by (simp add: dv_table_def learn_def)
    then have "compare_all ooo (fold learn (dv_table dv' v e) (dv_table dv u d)) w = Inr (if False then w\<lparr> u_no_enhanced_reorder := 1 \<rparr> else w)" by simp
    then show ?thesis by blast
  next
    case True
    then obtain cf where "fold learn (dv_table dv' v e) (dv_table dv u d) = [cf]" "cf_func cf = Cmp_mlx5dv"
      by (cases dv') (simp_all add: dv_table_def learn_def)
    with one show ?thesis by metis
  qed
qed

lemma table_verdict:
  "\<exists>reorder. compare_all ooo (fold learn (compare_functions dv' v e) (compare_functions dv u d)) u =
     (if agreed u v then Inr (u\<lparr> u_out_reads := clamped_reads u e, u_no_enhanced_reorder := reorder \<rparr>)
      else Inl (projl (compare_all ooo (fold learn (compare_functions dv' v e) (compare_functions dv u d)) u)))"
proof -
  let ?C = "map2 heard (common_table dv u d) (common_table dv' v e)" and ?D = "fold learn (dv_table dv' v e) (dv_table dv u d)"
  have split: "compare_all ooo (fold learn (compare_functions dv' v e) (compare_functions dv u d)) u =
      compare_all ooo (take 19 ?C @ drop 19 ?C @ ?D) u"
    unfolding table_exchange append_assoc [symmetric] append_take_drop_id by (rule refl)
  show ?thesis
  proof (cases "agreed u v")
    case True
    let ?w = "u\<lparr> u_out_reads := clamped_reads u e \<rparr>"
    have "compare_all ooo (drop 19 ?C) u = Inr ?w"
      by (auto simp: last_common compare_one_def compare_max_qp_rd_atom_def clamped_reads_def Let_def)
    with True generic_verdict [of ooo dv u d dv' v e u u] dv_part [of ooo dv' v e dv u d ?w] split
    obtain b where "compare_all ooo (fold learn (compare_functions dv' v e) (compare_functions dv u d)) u =
        Inr (if b then ?w\<lparr> u_no_enhanced_reorder := 1 \<rparr> else ?w)" by (auto simp: compare_all_append)
    moreover have "?w = ?w\<lparr> u_no_enhanced_reorder := u_no_enhanced_reorder u \<rparr>" by simp
    ultimately show ?thesis using True by (metis (full_types))
  next
    case False
    then have "\<forall>u'. compare_all ooo (take 19 ?C) u \<noteq> Inr u'" by (simp add: generic_verdict)
    then obtain err where "compare_all ooo (take 19 ?C) u = Inl err" by (cases "compare_all ooo (take 19 ?C) u") auto
    with split False show ?thesis by (simp add: compare_all_append)
  qed
qed

section \<open>Two peers negotiate\<close>

definition payload :: "bool \<Rightarrow> negotiating_user \<Rightarrow> negotiating_device \<Rightarrow> u8 list" where
  "payload dv u d = map byte_of_char (kv_string (compare_functions dv u d))"

lemma payload_length: "length (payload dv u d) \<le> 600"
proof -
  have "kv_local_size (compare_functions dv u d) \<le> 600"
    by (simp add: kv_local_size_def compare_functions_def Let_def)
  then show ?thesis by (simp add: payload_def kv_local_size_length)
qed

lemma parse_payload:
  "kv_parse (map char_of_byte (payload dv' v e) @ [NUL]) (compare_functions dv u d) =
   Inr (fold learn (compare_functions dv' v e) (compare_functions dv u d))"
  using kv_parse_printed [OF table_names_ok table_is_ok tables_agree_on_sizes, of dv' v e dv u d] by (simp add: payload_def)

lemma kv_string_follows:
  assumes "m (kv_local_size (compare_functions dv u d))"
    and "follows me (ctx_xchg_data_chunked m c (payload dv u d)) \<sigma> (Some (payload dv' v e))"
  shows "follows me (negotiate_params_kv_string m c (compare_functions dv u d)) \<sigma>
    (Inr (fold learn (compare_functions dv' v e) (compare_functions dv u d)))"
proof -
  have "follows me (with_data (ctx_xchg_data_chunked m c (payload dv u d)) (Inl Neg_FAILURE)
      (\<lambda>bs. Return (kv_parse (map char_of_byte bs @ [NUL]) (compare_functions dv u d)))) (\<sigma> @ [])
      (Inr (fold learn (compare_functions dv' v e) (compare_functions dv u d)))"
    by (rule follows_with_data [OF assms(2)]) (simp add: parse_payload [symmetric] f_done)
  with assms(1) show ?thesis by (simp add: negotiate_params_kv_string_def kv_build_eq payload_def)
qed

lemma finish_follows:
  "follows me p \<sigma> (Inr cfs) \<Longrightarrow> follows me (finish_negotiation ooo u p) \<sigma> (compare_all ooo cfs u)"
  unfolding finish_negotiation_def
  by (rule follows_bind [where \<tau> = "[]" and x = "Inr cfs", simplified]) (simp_all add: f_done)

text \<open>A peer of version 6.30 or later, with working memory allocation and device query.\<close>

definition modern_peer :: "negotiation_env \<Rightarrow> negotiating_device \<Rightarrow> negotiating_user \<Rightarrow> bool" where
  "modern_peer E d u \<longleftrightarrow> env_device E = Some d \<and> \<not> version_le (u_rem_version u) 629 \<and> (\<forall>n \<le> 601. env_malloc E n)"

definition negotiation_script :: "bool \<Rightarrow> negotiating_user \<Rightarrow> negotiating_device \<Rightarrow> bool \<Rightarrow> negotiating_user \<Rightarrow> negotiating_device \<Rightarrow> script" where
  "negotiation_script dv u d dv' v e =
     (says True (u32_bytes (htonl NEGOTIATION_VERSION)) @ says False (u32_bytes (htonl NEGOTIATION_VERSION))) @
     chunked_script (payload dv u d) (payload dv' v e)"

lemma version_le_less: "\<not> version_le s 629 \<Longrightarrow> \<not> version_less s 628"
  by (auto simp: version_le_def version_less_def)

lemma negotiate_modern_follows:
  assumes "modern_peer E d u" "env_dv E = dv"
    and x: "follows me (ctx_xchg_data c (u32_bytes (htonl NEGOTIATION_VERSION))) \<sigma> (Some (u32_bytes (htonl NEGOTIATION_VERSION)))"
    and k: "follows me (ctx_xchg_data_chunked (env_malloc E) c (payload dv u d)) \<tau> (Some (payload dv' v e))"
  shows "follows me (negotiate_params E c u) (\<sigma> @ \<tau>)
    (compare_all (env_ooo E) (fold learn (compare_functions dv' v e) (compare_functions dv u d)) u)"
proof -
  have "kv_local_size (compare_functions dv u d) \<le> 601"
    using payload_length [of dv u d] by (simp add: kv_local_size_length payload_def)
  with assms(1) have "env_malloc E (kv_local_size (compare_functions dv u d))" by (simp add: modern_peer_def)
  from finish_follows [OF kv_string_follows [OF this k], of "env_ooo E" u]
  have "follows me (with_data (ctx_xchg_data c (u32_bytes (htonl NEGOTIATION_VERSION))) (Inl Neg_FAILURE)
      (\<lambda>w. if htonl (bytes_u32 w) \<noteq> NEGOTIATION_VERSION then Return (Inr u)
           else finish_negotiation (env_ooo E) u (negotiate_params_kv_string (env_malloc E) c (compare_functions dv u d)))) (\<sigma> @ \<tau>)
      (compare_all (env_ooo E) (fold learn (compare_functions dv' v e) (compare_functions dv u d)) u)"
    by (intro follows_with_data [OF x]) simp
  then show ?thesis using assms(1,2) version_le_less by (simp add: negotiate_params_def modern_peer_def Let_def)
qed

lemma negotiation_dialogue:
  assumes "modern_peer E d u" "modern_peer F e v" "servername c" "\<not> servername s" "\<not> is_rdma c" "\<not> is_rdma s"
  shows "dialogue (negotiate_params E c u) (negotiate_params F s v)
    (negotiation_script (env_dv E) u d (env_dv F) v e)
    (compare_all (env_ooo E) (fold learn (compare_functions (env_dv F) v e) (compare_functions (env_dv E) u d)) u)
    (compare_all (env_ooo F) (fold learn (compare_functions (env_dv E) u d) (compare_functions (env_dv F) v e)) v)"
proof -
  note lu = payload_length [of "env_dv E" u d] and lv = payload_length [of "env_dv F" v e]
  have big: "600 < (2 :: nat) ^ 32" by simp
  from lv big assms have c: "follows True (ctx_xchg_data_chunked (env_malloc E) c (payload (env_dv E) u d))
      (chunked_script (payload (env_dv E) u d) (payload (env_dv F) v e)) (Some (payload (env_dv F) v e))"
    by (intro chunked_client_follows) (auto simp: modern_peer_def)
  from lu big assms have s: "follows False (ctx_xchg_data_chunked (env_malloc F) s (payload (env_dv F) v e))
      (chunked_script (payload (env_dv E) u d) (payload (env_dv F) v e)) (Some (payload (env_dv E) u d))"
    by (intro chunked_server_follows) (auto simp: modern_peer_def)
  show ?thesis unfolding negotiation_script_def
    by (intro dialogue.intro negotiate_modern_follows [OF assms(1) refl xchg_client_follows c]
        negotiate_modern_follows [OF assms(2) refl xchg_server_follows s]) (use assms in simp_all)
qed

text \<open>
  C3.  Two peers of version 6.30 or later that negotiate over a socket always come to an end, and to the
  same verdict: both succeed when the nineteen compared parameters are equal, and neither does
  otherwise.  On success each side has lowered its number of outstanding reads to what the other's
  device supports (except for DC), and changed nothing else but the out-of-order receive setting.
\<close>

theorem negotiation_reaches_agreement:
  assumes "modern_peer E d u" "modern_peer F e v" "servername c" "\<not> servername s" "\<not> is_rdma c" "\<not> is_rdma s"
    and run: "(net_step ^^ k) (negotiate_params E c u, negotiate_params F s v, [], []) st"
  shows "k \<le> 2 * (16 + length (payload (env_dv E) u d) + length (payload (env_dv F) v e)) \<and>
    ((\<exists>st'. net_step st st') \<or>
     (if agreed u v
      then \<exists>a b. st = (Return (Inr (u\<lparr> u_out_reads := clamped_reads u e, u_no_enhanced_reorder := a \<rparr>)),
                        Return (Inr (v\<lparr> u_out_reads := clamped_reads v d, u_no_enhanced_reorder := b \<rparr>)), [], [])
      else \<exists>a b. st = (Return (Inl a), Return (Inl b), [], [])))"
proof -
  have len: "length (negotiation_script (env_dv E) u d (env_dv F) v e) = 16 + length (payload (env_dv E) u d) + length (payload (env_dv F) v e)"
    by (simp add: negotiation_script_def chunked_script_def)
  have sym: "agreed v u \<longleftrightarrow> agreed u v" by (auto simp: agreed_def)
  note fin = dialogue.completes [OF negotiation_dialogue [OF assms(1-6)] run, unfolded len]
  show ?thesis
    using fin table_verdict [of "env_ooo E" "env_dv F" v e "env_dv E" u d]
      table_verdict [of "env_ooo F" "env_dv E" u d "env_dv F" v e]
    by (auto simp: sym split: if_splits)
qed

text \<open>A run of the protocol on concrete parameters.\<close>

definition demo_user :: negotiating_user where
  "demo_user = \<lparr> u_test_method = 0, u_connection_type = 0, u_verb = 2, u_tst = 1, u_atomicType = 1, u_test_type = 0,
     u_report_fmt = 1, u_size = 65536, u_iters = 5000, u_aes_xts = 0, u_num_of_qps = 1, u_duration = 0,
     u_use_rdma_cm = 0, u_use_write_with_imm = 0, u_no_enhanced_reorder = 0, u_sig_offload = 0, u_data_validation = 0,
     u_tx_depth = 128, u_duplex = 0, u_out_reads = 16, u_rem_version = ''6.30'' \<rparr>"

definition demo_device :: negotiating_device where
  "demo_device = \<lparr> dev_max_qp_rd_atom = 8, dev_mlnx = False, dev_dv_mask = None \<rparr>"

definition demo_env :: negotiation_env where
  "demo_env = \<lparr> env_dv = False, env_ooo = 0, env_pre = 100, env_post = 100, env_malloc = (\<lambda>_. True), env_device = Some demo_device \<rparr>"

lemma demo_modern: "modern_peer demo_env demo_device demo_user"
  by (simp add: modern_peer_def demo_env_def demo_user_def version_le_def version_num_def c_isdigit_def digits_value_def
      digit_val_def Let_def)

theorem negotiation_reaches_agreement_witness:
  "\<exists>st'. net_step (negotiate_params demo_env client_comm demo_user, negotiate_params demo_env server_comm demo_user, [], []) st'"
proof -
  let ?s = "(negotiate_params demo_env client_comm demo_user, negotiate_params demo_env server_comm demo_user, [], []) ::
    (neg_error + negotiating_user, neg_error + negotiating_user) net"
  have run: "(net_step ^^ 0) ?s ?s" by simp
  have "u32_bytes w \<noteq> []" for w using bytes_u32_bytes(2) [of w] by (metis list.size(3) zero_neq_numeral)
  then have "negotiate_params demo_env client_comm demo_user \<noteq> Return r" for r
    using demo_modern version_le_less [of "u_rem_version demo_user"]
    by (simp add: negotiate_params_def modern_peer_def Let_def with_data_def ctx_xchg_data_def is_rdma_def
        ctx_xchg_data_ethernet_def or_fail_def ethernet_write_data.simps [of "u32_bytes _"])
  then show ?thesis
    using negotiation_reaches_agreement [OF demo_modern demo_modern _ _ _ _ run] by (auto simp: is_rdma_def split: if_splits)
qed

text \<open>The round trip on the program's own tables.\<close>

theorem kv_text_roundtrip_witness:
  "\<exists>cfs'. kv_parse (map char_of_byte (map byte_of_char (fst (kv_build (compare_functions True demo_user demo_device)))) @ [NUL])
     (compare_functions False demo_user demo_device) = Inr cfs' \<and> length cfs' = 20"
proof -
  have "length (compare_functions False demo_user demo_device) = 20" by (simp add: compare_functions_def Let_def)
  with kv_text_roundtrip [OF table_names_ok table_is_ok tables_agree_on_sizes table_distinct,
      of True demo_user demo_device False demo_user demo_device]
  show ?thesis by (metis (no_types, lifting))
qed

text \<open>
   A peer can make the negotiation read outside its memory: a value with an odd number of digits at
  the end of the text makes the scan of its next byte start behind the received block, whatever the
  local parameters are.
\<close>

theorem odd_value_reads_past_block:
  "kv_parse (map char_of_byte (map byte_of_char ''size=0'') @ [NUL]) (compare_functions dv u d) = Inl Overread"
proof -
  have tok: "strtok (''size=0'' @ [NUL]) = Some (''size=0'', [NUL])"
    by (simp add: strtok_def char_of_def)
  have "sscanf_2hhx (CHR ''0'' # [NUL]) = Scan_val 0"
    by (simp add: sscanf_2hhx_def c_isspace_def is_digit_def digit_val_def digits_value_def Let_def)
  moreover have "sscanf_2hhx [] = Scan_overread" by (simp add: sscanf_2hhx_def)
  ultimately have "hex_bytes (Suc (Suc n)) (CHR ''0'' # [NUL]) = None" for n by simp
  moreover have "8 = Suc (Suc 6)" by simp
  ultimately have hex: "hex_bytes 8 (CHR ''0'' # [NUL]) = None" by metis
  have "kv_store ''size'' (CHR ''0'' # [NUL]) (compare_functions dv u d) = Inl Overread"
    using hex by (simp add: compare_functions_def Let_def)
  then have "kv_token ''size=0'' [] (compare_functions dv u d) = Inl Overread" by (simp add: kv_token_def)
  with tok show ?thesis by (subst kv_parse.simps) simp
qed

section \<open>The legacy path\<close>

lemma drop_u32 [simp]: "drop (4 + n) (u32_bytes w @ r) = drop n r" "drop 4 (u32_bytes w @ r) = r" "take 4 (u32_bytes w @ r) = u32_bytes w"
  "drop (8 + n) (u64_bytes x @ r) = drop n r" "drop 8 (u64_bytes x @ r) = r" "take 8 (u64_bytes x @ r) = u64_bytes x"
  by simp_all

text \<open>The structure is read back from memory at the offsets it was written to.\<close>

lemma read_legacy_bytes:
  assumes "dv \<or> l_mlx5dv_comp_mask l = 0"
  shows "read_legacy dv pre post (legacy_bytes dv pre post l) = l"
proof -
  show ?thesis using assms unfolding read_legacy_def legacy_bytes_def
    by (cases l) (auto simp: drop_append add.commute [of pre])
qed

lemma mark_store_learn:
  "distinct (map cf_name cfs) \<Longrightarrow> mark_received (cf_name p) (store_remote (cf_name p) (local_value p) cfs) = learn p cfs"
proof (induction cfs)
  case (Cons cf cfs)
  show ?case
  proof (cases "cf_name cf = cf_name p")
    case True
    with Cons.prems have "cf_name p \<notin> cf_name ` set cfs" by auto
    then have "store_remote (cf_name p) (local_value p) cfs = cfs" "learn p cfs = cfs"
      by (auto simp: store_remote_def learn_other intro!: map_idI) (metis imageI)
    with True show ?thesis by (simp add: store_remote_def learn_def)
  next
    case False
    with Cons show ?thesis by (simp add: store_remote_def learn_def)
  qed
qed (simp add: store_remote_def learn_def)

lemma unpack_learn:
  "legacy_fields dv r = map (\<lambda>p. (cf_name p, local_value p)) ps \<Longrightarrow> distinct (map cf_name cfs) \<Longrightarrow>
   unpack_legacy dv r cfs = fold learn ps cfs"
proof -
  have "fold (\<lambda>(nm, bs) t. mark_received nm (store_remote nm bs t)) (map (\<lambda>p. (cf_name p, local_value p)) qs) cs = fold learn qs cs"
    if "distinct (map cf_name cs)" for qs cs using that
    by (induction qs arbitrary: cs) (simp_all add: mark_store_learn learn_keeps(2))
  then show "legacy_fields dv r = map (\<lambda>p. (cf_name p, local_value p)) ps \<Longrightarrow> distinct (map cf_name cfs) \<Longrightarrow>
   unpack_legacy dv r cfs = fold learn ps cfs" by (simp add: unpack_legacy_def)
qed

text \<open>
   Over the frozen structure of versions 6.28 and 6.29 every entry learns exactly what it would learn
  from the text format, except \<open>tx_depth\<close> and \<open>duplex\<close>, which that structure does not carry: they stay
  marked as not received and are never compared.
\<close>

theorem legacy_roundtrip:
  "unpack_legacy dv (read_legacy dv pre post (legacy_bytes dv pre post (pack_legacy (local_params dv v e)))) (compare_functions dv u d) =
   fold learn (filter (\<lambda>p. cf_name p \<noteq> ''tx_depth'' \<and> cf_name p \<noteq> ''duplex'') (compare_functions dv v e)) (compare_functions dv u d)"
proof -
  have "dv \<or> l_mlx5dv_comp_mask (pack_legacy (local_params dv v e)) = 0" by (simp add: pack_legacy_def local_params_def)
  then have r: "read_legacy dv pre post (legacy_bytes dv pre post (pack_legacy (local_params dv v e))) = pack_legacy (local_params dv v e)"
    by (rule read_legacy_bytes)
  have "legacy_fields dv (pack_legacy (local_params dv v e)) = map (\<lambda>p. (cf_name p, local_value p))
      (filter (\<lambda>p. cf_name p \<noteq> ''tx_depth'' \<and> cf_name p \<noteq> ''duplex'') (compare_functions dv v e))"
    by (simp add: legacy_fields_def pack_legacy_def compare_functions_def Let_def)
  then show ?thesis unfolding r by (rule unpack_learn) (rule table_distinct)
qed

end
