(* ===== verification/Key_Exchange.thy ===== *)
theory Key_Exchange
  imports Transport C_Strings
begin

text \<open>
  The exchange of connection data between the peers: \<^verbatim>\<open>ethernet_write_keys\<close>, \<^verbatim>\<open>ethernet_read_keys\<close>,
  \<^verbatim>\<open>rdma_write_keys\<close>, \<^verbatim>\<open>rdma_read_keys\<close> and \<^verbatim>\<open>ctx_hand_shake\<close> of \<^verbatim>\<open>src/src/perftest_communication.c\<close>, with
  \<^verbatim>\<open>struct pingpong_dest\<close> of \<^verbatim>\<open>src/src/perftest_resources.h\<close>.

  Over a socket the data travel as text of fixed-width hexadecimal fields separated by colons, over
  RDMA as a C structure in network byte order (the build with \<^verbatim>\<open>HAVE_ENDIAN\<close>).  Writes past the message
  buffer and the reader's scratch buffer, reads past the received bytes, and the use of a null pointer
  are error values.
\<close>

section \<open>Data\<close>

record pingpong_dest =
  lid :: u32
  out_reads :: u32
  qpn :: u32
  psn :: u32
  rkey :: u32
  vaddr :: u64
  tail_markers_vaddr :: u64
  gid_raw :: "u8 list"
  srqn :: u32
  gid_index :: int

datatype key_error = Key_fail | Key_overflow | Key_overread | Key_null

definition sbind :: "'e + 'a \<Rightarrow> ('a \<Rightarrow> 'e + 'b) \<Rightarrow> 'e + 'b" where
  "sbind r f = (case r of Inl e \<Rightarrow> Inl e | Inr x \<Rightarrow> f x)"

lemma sbind_simps [simp]: "sbind (Inl e) f = Inl e" "sbind (Inr x) f = f x"
  by (simp_all add: sbind_def)

abbreviation KEY_MSG_SIZE :: nat where "KEY_MSG_SIZE \<equiv> 59"
abbreviation KEY_MSG_SIZE_GID :: nat where "KEY_MSG_SIZE_GID \<equiv> 108"
abbreviation KEY_MSG_SIZE_DV :: nat where "KEY_MSG_SIZE_DV \<equiv> 76"
abbreviation KEY_MSG_SIZE_GID_DV :: nat where "KEY_MSG_SIZE_GID_DV \<equiv> 125"

definition msg_size :: "bool \<Rightarrow> bool \<Rightarrow> nat" where
  "msg_size dv gid = (if gid then if dv then KEY_MSG_SIZE_GID_DV else KEY_MSG_SIZE_GID
                      else if dv then KEY_MSG_SIZE_DV else KEY_MSG_SIZE)"

section \<open>Writing\<close>

abbreviation NUL_char :: char where "NUL_char \<equiv> char_of (0 :: nat)"

text \<open>\<^verbatim>\<open>"%0<w>x"\<close>: at least \<open>w\<close> digits.\<close>

definition hex_pad :: "nat \<Rightarrow> nat \<Rightarrow> string" where
  "hex_pad w v = (let h = print_base 16 v in replicate (w - length h) (CHR ''0'') @ h)"

text \<open>The fields of a message with their widths, as \<^verbatim>\<open>KEY_PRINT_FMT\<close> and its variants list them.\<close>

definition key_fields :: "bool \<Rightarrow> bool \<Rightarrow> pingpong_dest \<Rightarrow> (nat \<times> nat) list" where
  "key_fields dv gid d =
     [(4, unat (lid d)), (4, unat (out_reads d)), (6, unat (qpn d)), (6, unat (psn d)), (8, unat (rkey d)), (16, unat (vaddr d))] @
     (if dv then [(16, unat (tail_markers_vaddr d))] else []) @
     (if gid then map (\<lambda>b. (2, unat b)) (gid_raw d) else []) @ [(8, unat (srqn d))]"

text \<open>Fields separated by colons; the formats with a GID have a colon at the end, too.\<close>

fun print_fields :: "(nat \<times> nat) list \<Rightarrow> string" where
  "print_fields [] = []" |
  "print_fields [(w, v)] = hex_pad w v" |
  "print_fields ((w, v) # f # fs) = hex_pad w v @ CHR '':'' # print_fields (f # fs)"

definition key_text :: "bool \<Rightarrow> bool \<Rightarrow> pingpong_dest \<Rightarrow> string" where
  "key_text dv gid d = print_fields (key_fields dv gid d) @ (if gid then '':'' else [])"

definition text_bytes :: "string \<Rightarrow> u8 list" where "text_bytes s = map (\<lambda>c. of_nat (of_char c)) s"
definition bytes_text :: "u8 list \<Rightarrow> string" where "bytes_text bs = map (\<lambda>b. char_of (unat b)) bs"

text \<open>
  \<^verbatim>\<open>sprintf\<close> into the message buffer, then one \<^verbatim>\<open>write\<close> of the whole buffer.  No field is printed with
  fewer digits than its width, so the text never leaves bytes of the buffer unset.
\<close>

definition ethernet_write_keys :: "bool \<Rightarrow> pingpong_dest \<Rightarrow> (key_error + unit) io" where
  "ethernet_write_keys dv d =
     (let gid = (gid_index d \<noteq> -1); text = key_text dv gid d; msg = text_bytes (text @ [NUL_char]) in
      if length msg > msg_size dv gid then Return (Inl Key_overflow)
      else Sys_write msg (\<lambda>n. Return (if n = Some (length msg) then Inr () else Inl Key_fail)))"

section \<open>Reading without a GID\<close>

text \<open>
  \<^verbatim>\<open>%<w>x\<close> of \<^verbatim>\<open>sscanf\<close>: the value and the memory behind it; \<open>Some None\<close> when nothing matches, \<open>None\<close> when
  the memory ends first.
\<close>

definition sscanf_x :: "nat \<Rightarrow> string \<Rightarrow> (int \<times> string) option option" where
  "sscanf_x w mem = (case dropWhile c_isspace mem of
       [] \<Rightarrow> None
     | c # s \<Rightarrow>
        let (neg, t, k) = (if c = CHR ''-'' \<or> c = CHR ''+'' then (c = CHR ''-'', s, w - 1) else (False, c # s, w));
            (t', k') = (if 2 \<le> k \<and> (take 2 t = ''0x'' \<or> take 2 t = ''0X'') then (drop 2 t, k - 2) else (t, k));
            ds = takeWhile (is_digit 16) (take k' t');
            v = int (digits_value 16 ds)
        in Some (if ds = [] then None else Some (if neg then - v else v, drop (length ds) t')))"

text \<open>The conversions of a format of hexadecimal fields separated by colons: the values stored.\<close>

fun scan_fields :: "nat list \<Rightarrow> string \<Rightarrow> int list option" where
  "scan_fields [] mem = Some []" |
  "scan_fields (w # ws) mem =
     (case sscanf_x w mem of
        None \<Rightarrow> None
      | Some None \<Rightarrow> Some []
      | Some (Some (v, rest)) \<Rightarrow>
          if ws = [] then Some [v]
          else case rest of [] \<Rightarrow> None | c # r \<Rightarrow> if c = CHR '':'' then map_option ((#) v) (scan_fields ws r) else Some [v])"

definition read_plain :: "bool \<Rightarrow> string \<Rightarrow> pingpong_dest \<Rightarrow> key_error + pingpong_dest" where
  "read_plain dv mem d =
     (case scan_fields (if dv then [4, 4, 6, 6, 8, 16, 16, 8] else [4, 4, 6, 6, 8, 16, 8]) mem of
        None \<Rightarrow> Inl Key_overread
      | Some vs \<Rightarrow>
          if length vs \<noteq> (if dv then 8 else 7) then Inl Key_fail
          else let d' = d\<lparr> lid := word_of_int (vs ! 0), out_reads := word_of_int (vs ! 1), qpn := word_of_int (vs ! 2),
                   psn := word_of_int (vs ! 3), rkey := word_of_int (vs ! 4), vaddr := word_of_int (vs ! 5) \<rparr>
               in Inr (if dv then d'\<lparr> tail_markers_vaddr := word_of_int (vs ! 6), srqn := word_of_int (vs ! 7) \<rparr>
                       else d'\<lparr> srqn := word_of_int (vs ! 6) \<rparr>))"

section \<open>Reading with a GID\<close>

abbreviation TMP_SIZE :: nat where "TMP_SIZE \<equiv> 120"

text \<open>
  \<^verbatim>\<open>term = strpbrk(pstr, ":")\<close>, copy to \<^verbatim>\<open>tmp\<close>, and the move of \<^verbatim>\<open>pstr\<close> behind the colon.
\<close>

definition colon_field :: "string \<Rightarrow> key_error + (string \<times> string)" where
  "colon_field mem =
     (let f = takeWhile (\<lambda>c. c \<noteq> CHR '':'' \<and> c \<noteq> NUL_char) mem in
      case drop (length f) mem of
        [] \<Rightarrow> Inl Key_overread
      | c # r \<Rightarrow> if c = NUL_char then Inl Key_null
                 else if length f \<ge> TMP_SIZE then Inl Key_overflow else Inr (f, r))"

primrec colon_fields :: "nat \<Rightarrow> string \<Rightarrow> key_error + (string list \<times> string)" where
  "colon_fields 0 mem = Inr ([], mem)" |
  "colon_fields (Suc n) mem =
     sbind (colon_field mem) (\<lambda>(f, r). sbind (colon_fields n r) (\<lambda>(fs, r'). Inr (f # fs, r')))"

text \<open>\<^verbatim>\<open>strtol\<close>, \<^verbatim>\<open>strtoll\<close> and \<^verbatim>\<open>strtoul\<close>, \<^verbatim>\<open>strtoull\<close> of base 16 (0 when there is no digit).\<close>

definition hex_signed :: "string \<Rightarrow> int" where
  "hex_signed s = (case strtol 16 s of None \<Rightarrow> 0 | Some (v, _) \<Rightarrow> v)"

abbreviation ULONG_MAX :: int where "ULONG_MAX \<equiv> 18446744073709551615"

definition hex_unsigned :: "string \<Rightarrow> u64" where
  "hex_unsigned s = (case strtoint 16 s of None \<Rightarrow> 0
     | Some (v, _) \<Rightarrow> if \<bar>v\<bar> > ULONG_MAX then word_of_int ULONG_MAX else word_of_int v)"

text \<open>
  The last byte of the GID is converted from a copy of everything that is left; the reader then moves
  three characters on, two digits and the colon.
\<close>

definition read_gid :: "bool \<Rightarrow> string \<Rightarrow> pingpong_dest \<Rightarrow> key_error + pingpong_dest" where
  "read_gid dv mem d =
     sbind (colon_fields (if dv then 22 else 21) mem) (\<lambda>(fs, m).
       let k = (if dv then 7 else 6); tmp = takeWhile (\<lambda>c. c \<noteq> NUL_char) m in
       if length tmp = length m then Inl Key_overread
       else if length tmp \<ge> TMP_SIZE then Inl Key_overflow
       else sbind (colon_field (drop 3 m)) (\<lambda>(f, _).
         Inr (d\<lparr> lid := word_of_int (hex_signed (fs ! 0)), out_reads := word_of_int (hex_signed (fs ! 1)),
                qpn := word_of_int (hex_signed (fs ! 2)), psn := word_of_int (hex_signed (fs ! 3)),
                rkey := ucast (hex_unsigned (fs ! 4)), vaddr := hex_unsigned (fs ! 5),
                tail_markers_vaddr := (if dv then hex_unsigned (fs ! 6) else tail_markers_vaddr d),
                gid_raw := map (\<lambda>s. word_of_int (hex_signed s)) (drop k fs @ [tmp]),
                srqn := ucast (hex_unsigned f) \<rparr>)))"

definition ethernet_read_keys :: "bool \<Rightarrow> pingpong_dest \<Rightarrow> (key_error + pingpong_dest) io" where
  "ethernet_read_keys dv rem =
     (let gid = (gid_index rem \<noteq> -1); n = msg_size dv gid in
      Sys_read n (\<lambda>r. Return (case r of
          None \<Rightarrow> Inl Key_fail
        | Some bs \<Rightarrow> if length bs \<noteq> n then Inl Key_fail
            else if gid then read_gid dv (bytes_text bs) rem else read_plain dv (bytes_text bs) rem)))"

section \<open>The structure on the RDMA path\<close>

text \<open>
  The bytes of the structure: the fields in network order, four bytes of padding (\<open>pad\<close>, never
  initialised) before the first 8-byte field, the GID as it is.
\<close>

definition dest_bytes :: "u8 list \<Rightarrow> pingpong_dest \<Rightarrow> u8 list" where
  "dest_bytes pad d = u32_bytes (htonl (lid d)) @ u32_bytes (htonl (out_reads d)) @ u32_bytes (htonl (qpn d)) @
     u32_bytes (htonl (psn d)) @ u32_bytes (htonl (rkey d)) @ pad @ u64_bytes (hton_64 (vaddr d)) @
     u64_bytes (hton_64 (tail_markers_vaddr d)) @ gid_raw d @ u32_bytes (htonl (srqn d)) @
     u32_bytes (htonl (word_of_int (gid_index d)))"

abbreviation DEST_SIZE :: nat where "DEST_SIZE \<equiv> 64"

definition dest_of_bytes :: "u8 list \<Rightarrow> pingpong_dest" where
  "dest_of_bytes bs = \<lparr> lid = htonl (bytes_u32 (take 4 bs)), out_reads = htonl (bytes_u32 (take 4 (drop 4 bs))),
     qpn = htonl (bytes_u32 (take 4 (drop 8 bs))), psn = htonl (bytes_u32 (take 4 (drop 12 bs))),
     rkey = htonl (bytes_u32 (take 4 (drop 16 bs))), vaddr = hton_64 (bytes_u64 (take 8 (drop 24 bs))),
     tail_markers_vaddr = hton_64 (bytes_u64 (take 8 (drop 32 bs))), gid_raw = take 16 (drop 40 bs),
     srqn = htonl (bytes_u32 (take 4 (drop 56 bs))), gid_index = sint (htonl (bytes_u32 (take 4 (drop 60 bs)))) \<rparr>"

definition rdma_write_keys :: "u8 list \<Rightarrow> pingpong_dest \<Rightarrow> (key_error + unit) io" where
  "rdma_write_keys pad d =
     Post_send (dest_bytes pad d) (\<lambda>ok. if \<not> ok then Return (Inl Key_fail)
       else Wait_send (\<lambda>w. Return (if wc_status w \<noteq> 0 \<or> wc_opcode w \<noteq> IBV_WC_SEND \<or> wc_wr_id w \<noteq> SYNC_SPEC_ID
                                   then Inl Key_fail else Inr ())))"

definition rdma_read_keys :: "(key_error + pingpong_dest) io" where
  "rdma_read_keys =
     Wait_recv DEST_SIZE (\<lambda>(w, bs). if wc_status w \<noteq> 0 \<or> wc_opcode w AND IBV_WC_RECV = 0 \<or> wc_wr_id w \<noteq> SYNC_SPEC_ID
       then Return (Inl Key_fail)
       else Post_recv (\<lambda>ok. Return (if ok then Inr (dest_of_bytes bs) else Inl Key_fail)))"

section \<open>The handshake\<close>

definition ctx_hand_shake :: "perftest_comm \<Rightarrow> bool \<Rightarrow> u8 list \<Rightarrow> pingpong_dest \<Rightarrow> pingpong_dest \<Rightarrow> (key_error + pingpong_dest) io" where
  "ctx_hand_shake c dv pad my rem0 =
     (let rem = rem0\<lparr> gid_index := gid_index my \<rparr>;
          wr = (if is_rdma c then rdma_write_keys pad my else ethernet_write_keys dv my);
          rd = (if is_rdma c then rdma_read_keys else ethernet_read_keys dv rem)
      in if servername c
         then io_bind wr (\<lambda>r. case r of Inl e \<Rightarrow> Return (Inl e) | Inr _ \<Rightarrow> rd)
         else io_bind rd (\<lambda>r. case r of Inl e \<Rightarrow> Return (Inl e)
                | Inr d \<Rightarrow> io_bind wr (\<lambda>w. Return (case w of Inl e \<Rightarrow> Inl e | Inr _ \<Rightarrow> Inr d))))"

section \<open>Fixed-width hexadecimal fields\<close>

text \<open>A field that is as wide as its width.\<close>

definition fits :: "nat \<times> nat \<Rightarrow> bool" where
  "fits = (\<lambda>(w, v). 2 \<le> w \<and> w \<le> 16 \<and> v < 16 ^ w)"

lemma print_base_16_length: "v < 16 ^ w \<Longrightarrow> 0 < w \<Longrightarrow> length (print_base 16 v) \<le> w"
proof (induction w arbitrary: v)
  case (Suc w)
  show ?case
  proof (cases "v < 16")
    case False
    with Suc.prems have "v div 16 < 16 ^ w" by (simp add: less_mult_imp_div_less mult.commute)
    moreover have "0 < w" using False Suc.prems by (cases w) auto
    ultimately show ?thesis using Suc.IH False by (subst print_base.simps) simp
  qed (simp add: print_base.simps)
qed simp

lemma digits_value_zeros: "digits_value b (replicate n (CHR ''0'') @ ds) = digits_value b ds"
proof -
  have "foldl (\<lambda>n c. n * b + the (digit_val c)) 0 (replicate n (CHR ''0'')) = 0"
    by (induction n) (simp_all add: digit_val_def)
  then show ?thesis by (simp add: digits_value_def)
qed

lemma hex_pad_facts:
  assumes "fits (w, v)"
  shows "length (hex_pad w v) = w" "\<forall>c \<in> set (hex_pad w v). is_digit 16 c" "digits_value 16 (hex_pad w v) = v"
proof -
  from assms have w: "v < 16 ^ w" "0 < w" by (auto simp: fits_def)
  show "length (hex_pad w v) = w" using print_base_16_length [OF w] by (simp add: hex_pad_def Let_def)
  show "digits_value 16 (hex_pad w v) = v"
    by (simp add: hex_pad_def Let_def digits_value_zeros print_base_digits)
  have "is_digit 16 (CHR ''0'')" by (simp add: is_digit_def digit_val_def)
  then show "\<forall>c \<in> set (hex_pad w v). is_digit 16 c"
    using print_base_digits(2) [of 16 v] by (auto simp: hex_pad_def Let_def)
qed

lemma digit_not_special:
  "is_digit 16 c \<Longrightarrow> c \<noteq> CHR '':'' \<and> c \<noteq> NUL_char \<and> c \<noteq> CHR ''x'' \<and> c \<noteq> CHR ''X''"
  by (auto simp: is_digit_def digit_val_def)

lemma hex_pad_two:
  assumes "fits (w, v)" obtains a b r where "hex_pad w v = a # b # r" "is_digit 16 a" "is_digit 16 b"
proof -
  have "2 \<le> length (hex_pad w v)" using hex_pad_facts(1) [OF assms] assms by (simp add: fits_def)
  then obtain a b r where "hex_pad w v = a # b # r" by (cases "hex_pad w v" rule: remdups_adj.cases) auto
  with hex_pad_facts(2) [OF assms] that show thesis by auto
qed

lemma sscanf_hex_pad:
  assumes "fits (w, v)" shows "sscanf_x w (hex_pad w v @ rest) = Some (Some (int v, rest))"
proof -
  obtain a b r where h: "hex_pad w v = a # b # r" and d: "is_digit 16 a" "is_digit 16 b" using hex_pad_two [OF assms] .
  have tw: "takeWhile (is_digit 16) (a # b # r) = a # b # r" using hex_pad_facts(2) [OF assms] by (simp add: h takeWhile_eq_all_conv)
  have len: "length r + 2 = w" using hex_pad_facts(1) [OF assms] by (simp add: h)
  have tk: "take w (a # b # r @ rest) = a # b # r" using len by (auto simp flip: len)
  have dv: "digits_value 16 (a # b # r) = v" using hex_pad_facts(3) [OF assms] by (simp add: h)
  show ?thesis
    using digit_not_space [OF d(1)] digit_not_sign [OF d(1)] digit_not_special [OF d(2)] tw dv
    by (simp add: sscanf_x_def h Let_def tk)
qed

lemma strtoint_hex_pad:
  assumes "fits (w, v)" "rest = [] \<or> \<not> is_digit 16 (hd rest)"
  shows "strtoint 16 (hex_pad w v @ rest) = Some (int v, rest)"
proof -
  obtain a b r where h: "hex_pad w v = a # b # r" and d: "is_digit 16 a" "is_digit 16 b" using hex_pad_two [OF assms(1)] .
  have "strip_prefix 16 (hex_pad w v @ rest) = (16, hex_pad w v @ rest)"
    using digit_not_special [OF d(2)] by (auto simp: strip_prefix_def h split: list.split)
  then show ?thesis using strtoint_digits [of "hex_pad w v" 16 rest] hex_pad_facts [OF assms(1)] assms(2) by (simp add: h)
qed

lemma hex_signed_pad:
  assumes "fits (w, v)" "int v \<le> LONG_MAX" "rest = [] \<or> \<not> is_digit 16 (hd rest)"
  shows "hex_signed (hex_pad w v @ rest) = int v"
  using assms by (simp add: hex_signed_def strtol_def strtoint_hex_pad)

lemma ucast_u32_u64 [simp]: "(ucast (ucast w :: u64) :: u32) = w" for w :: u32
  by (rule ucast_up_ucast_id) (simp add: is_up)

lemma hex_signed_pad0: "fits (w, v) \<Longrightarrow> w \<le> 8 \<Longrightarrow> hex_signed (hex_pad w v) = int v"
proof -
  assume a: "fits (w, v)" "w \<le> 8"
  have "(16 :: nat) ^ w \<le> 16 ^ 8" using a by (intro power_increasing) simp_all
  moreover have "v < 16 ^ w" using a by (simp add: fits_def)
  ultimately have "v < 16 ^ 8" by (rule less_le_trans [rotated])
  with hex_signed_pad [OF a(1), of "[]"] show ?thesis by simp
qed

lemma hex_unsigned_pad:
  assumes "fits (w, v)" shows "hex_unsigned (hex_pad w v) = of_nat v"
proof -
  have "(16 :: nat) ^ w \<le> 16 ^ 16" using assms by (intro power_increasing) (simp_all add: fits_def)
  moreover have "v < 16 ^ w" using assms by (simp add: fits_def)
  ultimately have "v < 16 ^ 16" by (rule less_le_trans [rotated])
  then show ?thesis using strtoint_hex_pad [OF assms, of "[]"] by (simp add: hex_unsigned_def)
qed

lemma colon_hex_pad: "fits (w, v) \<Longrightarrow> colon_field (hex_pad w v @ CHR '':'' # r) = Inr (hex_pad w v, r)"
proof -
  assume a: "fits (w, v)"
  let ?P = "\<lambda>c. c \<noteq> CHR '':'' \<and> c \<noteq> NUL_char"
  have "\<forall>c \<in> set (hex_pad w v). ?P c" using hex_pad_facts(2) [OF a] digit_not_special by blast
  then have "takeWhile ?P (hex_pad w v @ CHR '':'' # r) = hex_pad w v" by (simp add: takeWhile_append2)
  moreover have "length (hex_pad w v) < TMP_SIZE" "CHR '':'' \<noteq> NUL_char" using hex_pad_facts(1) [OF a] a by (simp_all add: fits_def char_of_def)
  ultimately show ?thesis by (simp add: colon_field_def Let_def)
qed

text \<open>A list of fields, each followed by a colon.\<close>

definition colons :: "(nat \<times> nat) list \<Rightarrow> string" where
  "colons fs = concat (map (\<lambda>(w, v). hex_pad w v @ '':'') fs)"

lemma colons_simps [simp]: "colons [] = []" "colons ((w, v) # fs) = hex_pad w v @ CHR '':'' # colons fs" "colons (fs @ gs) = colons fs @ colons gs"
  by (simp_all add: colons_def)

lemma print_fields_colons: "gs \<noteq> [] \<Longrightarrow> print_fields (fs @ gs) = colons fs @ print_fields gs"
proof (induction fs)
  case (Cons f fs)
  then show ?case by (cases f; cases "fs @ gs") auto
qed simp

lemma print_fields_end: "fs \<noteq> [] \<Longrightarrow> print_fields fs @ '':'' = colons fs"
  by (induction fs rule: print_fields.induct) auto

lemma colon_fields_print:
  "list_all fits fs \<Longrightarrow> colon_fields (length fs) (colons fs @ m) = Inr (map (\<lambda>(w, v). hex_pad w v) fs, m)"
  by (induction fs) (auto simp: colon_hex_pad)

lemma scan_fields_print:
  "list_all fits fs \<Longrightarrow> scan_fields (map fst fs) (print_fields fs @ m) = Some (map (int \<circ> snd) fs)"
proof (induction fs rule: print_fields.induct)
  case (3 w v f fs)
  then show ?case by (simp add: sscanf_hex_pad [of w v])
qed (simp_all add: sscanf_hex_pad)

section \<open>The handshake delivers the keys\<close>

text \<open>The fields that have fewer digits than their type are in the range of their digits.\<close>

definition keys_fit :: "pingpong_dest \<Rightarrow> bool" where
  "keys_fit d \<longleftrightarrow> unat (lid d) < 16 ^ 4 \<and> unat (out_reads d) < 16 ^ 4 \<and> unat (qpn d) < 16 ^ 6 \<and> unat (psn d) < 16 ^ 6 \<and>
     length (gid_raw d) = 16"

lemma key_fields_fit: "keys_fit d \<Longrightarrow> list_all fits (key_fields dv gid d)"
  using unat_lt_len [of "rkey d"] unat_lt_len [of "srqn d"] unat_lt_len [of "vaddr d"] unat_lt_len [of "tail_markers_vaddr d"]
    unat_lt_len [where 'a = 8]
  by (auto simp: keys_fit_def key_fields_def fits_def list_all_iff)

lemma length_colons: "list_all fits fs \<Longrightarrow> length (colons fs) = sum_list (map (Suc \<circ> fst) fs)"
  by (induction fs) (auto simp: hex_pad_facts)

lemma length_print_fields: "list_all fits fs \<Longrightarrow> fs \<noteq> [] \<Longrightarrow> length (print_fields fs) + 1 = sum_list (map (Suc \<circ> fst) fs)"
  using print_fields_end [of fs] length_colons [of fs] by (metis length_append_singleton Suc_eq_plus1)

lemma length_key_text:
  assumes "keys_fit d" shows "length (key_text dv gid d) + 1 = msg_size dv gid"
proof -
  have "key_fields dv gid d \<noteq> []" by (simp add: key_fields_def)
  from length_print_fields [OF key_fields_fit [OF assms] this]
  have "length (print_fields (key_fields dv gid d)) + 1 = sum_list (map (Suc \<circ> fst) (key_fields dv gid d))" .
  moreover have "sum_list (map (Suc \<circ> fst) (key_fields dv gid d)) + (if gid then 1 else 0) = msg_size dv gid"
    using assms by (simp add: key_fields_def msg_size_def keys_fit_def comp_def sum_list_triv)
  ultimately show ?thesis by (cases gid) (simp_all add: key_text_def)
qed

lemma bytes_text_bytes [simp]: "bytes_text (text_bytes s) = s" "length (text_bytes s) = length s"
proof -
  have "char_of (unat (of_nat (of_char c) :: u8)) = c" for c unfolding unat_of_nat by simp
  then show "bytes_text (text_bytes s) = s" by (simp add: bytes_text_def text_bytes_def map_idI)
qed (simp add: text_bytes_def)

text \<open>What the reader makes of the peer's data.\<close>

definition received_keys :: "bool \<Rightarrow> pingpong_dest \<Rightarrow> pingpong_dest \<Rightarrow> pingpong_dest" where
  "received_keys dv peer rem = rem\<lparr> lid := lid peer, out_reads := out_reads peer, qpn := qpn peer, psn := psn peer,
     rkey := rkey peer, vaddr := vaddr peer,
     tail_markers_vaddr := (if dv then tail_markers_vaddr peer else tail_markers_vaddr rem),
     gid_raw := (if gid_index rem = -1 then gid_raw rem else gid_raw peer), srqn := srqn peer \<rparr>"

lemma read_plain_text:
  assumes "keys_fit peer" "gid_index rem = -1"
  shows "read_plain dv (key_text dv False peer @ [NUL_char]) rem = Inr (received_keys dv peer rem)"
proof -
  have w: "map fst (key_fields dv False peer) = (if dv then [4, 4, 6, 6, 8, 16, 16, 8] else [4, 4, 6, 6, 8, 16, 8])"
    by (simp add: key_fields_def)
  from scan_fields_print [OF key_fields_fit [OF assms(1)], of dv False "[NUL_char]"]
  have "scan_fields (if dv then [4, 4, 6, 6, 8, 16, 16, 8] else [4, 4, 6, 6, 8, 16, 8]) (key_text dv False peer @ [NUL_char]) =
      Some (map (int \<circ> snd) (key_fields dv False peer))" unfolding w by (simp add: key_text_def)
  then show ?thesis unfolding read_plain_def using assms(2)
    by (simp add: key_fields_def received_keys_def del: scan_fields.simps)
qed

lemma read_gid_text:
  assumes k: "keys_fit peer" and g: "gid_index rem \<noteq> -1"
  shows "read_gid dv (key_text dv True peer @ [NUL_char]) rem = Inr (received_keys dv peer rem)"
proof -
  from k obtain raw b where raw: "gid_raw peer = raw @ [b]" "length raw = 15"
    by (cases "gid_raw peer" rule: rev_cases) (auto simp: keys_fit_def)
  define head :: "(nat \<times> nat) list" where "head = [(4, unat (lid peer)), (4, unat (out_reads peer)), (6, unat (qpn peer)), (6, unat (psn peer)),
      (8, unat (rkey peer)), (16, unat (vaddr peer))] @ (if dv then [(16, unat (tail_markers_vaddr peer))] else [])"
  define hd15 where "hd15 = head @ map (\<lambda>b. (2, unat b)) raw"
  have kf: "key_fields dv True peer = hd15 @ [(2, unat b), (8, unat (srqn peer))]"
    by (simp add: key_fields_def hd15_def head_def raw)
  have fit: "list_all fits hd15" "fits (2, unat b)" "fits (8, unat (srqn peer))"
    using key_fields_fit [OF k, of dv True] by (simp_all add: kf)
  have len: "length hd15 = (if dv then 22 else 21)" by (simp add: hd15_def head_def raw)
  let ?m = "hex_pad 2 (unat b) @ CHR '':'' # hex_pad 8 (unat (srqn peer)) @ CHR '':'' # [NUL_char]"
  have txt_eq: "key_text dv True peer @ [NUL_char] = colons hd15 @ ?m"
    using print_fields_end [of "key_fields dv True peer"] by (simp add: key_text_def kf)
  have cf: "colon_fields (if dv then 22 else 21) (colons hd15 @ ?m) = Inr (map (\<lambda>(w, v). hex_pad w v) hd15, ?m)"
    using colon_fields_print [OF fit(1), of ?m] by (simp add: len)
  have m3: "drop 3 ?m = hex_pad 8 (unat (srqn peer)) @ CHR '':'' # [NUL_char]" using hex_pad_facts(1) [OF fit(2)] by simp
  have tmp: "takeWhile (\<lambda>c. c \<noteq> NUL_char) ?m = hex_pad 2 (unat b) @ CHR '':'' # hex_pad 8 (unat (srqn peer)) @ '':''"
    using hex_pad_facts(2) [OF fit(2)] hex_pad_facts(2) [OF fit(3)] digit_not_special
    by (subst takeWhile_append2, blast) (simp add: takeWhile_append2 char_of_def)
  have len_tmp: "length (hex_pad 2 (unat b) @ CHR '':'' # hex_pad 8 (unat (srqn peer)) @ '':'') = 12"
    using hex_pad_facts(1) [OF fit(2)] hex_pad_facts(1) [OF fit(3)] by simp
  have sb: "hex_signed (hex_pad 2 (unat b) @ CHR '':'' # hex_pad 8 (unat (srqn peer)) @ '':'') = int (unat b)"
  proof (rule hex_signed_pad [OF fit(2)])
    have "unat b < 256" using unat_lt_len [of b] by simp
    then show "int (unat b) \<le> LONG_MAX" by linarith
  qed (simp add: is_digit_def digit_val_def)
  define fs where "fs = map (\<lambda>(w, v). hex_pad w v) hd15"
  have fs: "fs = map (\<lambda>(w, v). hex_pad w v) head @ map (\<lambda>b. hex_pad 2 (unat b)) raw" by (simp add: fs_def hd15_def)
  have raw_ok: "map (\<lambda>s. word_of_int (hex_signed s)) (map (\<lambda>b. hex_pad 2 (unat b)) raw) = raw"
    using fit(1) by (auto simp: hd15_def list_all_iff hex_signed_pad0 intro!: map_idI)
  have "list_all fits head" using fit(1) by (simp add: hd15_def)
  note nums = this [unfolded head_def]
  show ?thesis unfolding txt_eq read_gid_def cf sbind_simps prod.case fs_def [symmetric] Let_def tmp m3 colon_hex_pad [OF fit(3)]
    using len_tmp sb raw_ok nums g hex_unsigned_pad [OF fit(3)]
    by (cases dv) (simp_all add: fs head_def hex_signed_pad0 hex_unsigned_pad received_keys_def raw)
qed

lemma read_keys_text:
  assumes "keys_fit peer" "gid_index peer = -1 \<longleftrightarrow> gid_index rem = -1"
  shows "(if gid_index rem \<noteq> -1 then read_gid dv (key_text dv (gid_index peer \<noteq> -1) peer @ [NUL_char]) rem
      else read_plain dv (key_text dv (gid_index peer \<noteq> -1) peer @ [NUL_char]) rem) = Inr (received_keys dv peer rem)"
  using read_plain_text [OF assms(1), of rem dv] read_gid_text [OF assms(1), of rem dv] assms(2) by simp

lemma dest_roundtrip:
  assumes "length pad = 4" "length (gid_raw d) = 16" "- 2147483648 \<le> gid_index d" "gid_index d < 2147483648"
  shows "dest_of_bytes (dest_bytes pad d) = d" "length (dest_bytes pad d) = DEST_SIZE"
proof -
  have "sint (word_of_int (gid_index d) :: u32) = gid_index d" using assms(3,4) by (simp add: signed_of_int signed_take_bit_int_eq_self)
  then show "dest_of_bytes (dest_bytes pad d) = d" using assms by (simp add: dest_of_bytes_def dest_bytes_def)
qed (use assms in \<open>simp add: dest_bytes_def\<close>)

text \<open>The message one side puts on the socket.\<close>

definition key_msg :: "bool \<Rightarrow> pingpong_dest \<Rightarrow> u8 list" where
  "key_msg dv d = text_bytes (key_text dv (gid_index d \<noteq> -1) d @ [NUL_char])"

definition good_send :: sync_wc where "good_send = \<lparr> wc_status = 0, wc_opcode = IBV_WC_SEND, wc_wr_id = SYNC_SPEC_ID \<rparr>"
definition good_recv :: sync_wc where "good_recv = \<lparr> wc_status = 0, wc_opcode = IBV_WC_RECV, wc_wr_id = SYNC_SPEC_ID \<rparr>"

lemma write_keys_performs:
  "keys_fit d \<Longrightarrow> performs (ethernet_write_keys dv d) [Ev_write (key_msg dv d) (Some (length (key_msg dv d)))] (Inr ())"
  using length_key_text [of d dv "gid_index d \<noteq> -1"] by (simp add: ethernet_write_keys_def key_msg_def Let_def performs_ops)

lemma read_keys_performs:
  assumes "keys_fit peer" "gid_index peer = -1 \<longleftrightarrow> gid_index rem = -1"
  shows "performs (ethernet_read_keys dv rem) [Ev_read (length (key_msg dv peer)) (Some (key_msg dv peer))] (Inr (received_keys dv peer rem))"
proof -
  have "length (key_msg dv peer) = msg_size dv (gid_index rem \<noteq> -1)"
    using length_key_text [OF assms(1), of dv "gid_index peer \<noteq> -1"] assms(2) by (simp add: key_msg_def)
  then show ?thesis using read_keys_text [OF assms, of dv] assms(2)
    by (cases "gid_index rem = -1") (simp_all add: ethernet_read_keys_def performs_ops Let_def key_msg_def)
qed

lemma performs_seq:
  "performs p es1 x \<Longrightarrow> performs (f x) es2 y \<Longrightarrow> performs (io_bind p f) (es1 @ es2) y"
  by (auto simp: performs_bind)

text \<open>The handshake over a socket that carries each message whole.\<close>

lemma hand_shake_socket:
  assumes fit: "keys_fit my" "keys_fit peer" and mode: "gid_index peer = -1 \<longleftrightarrow> gid_index my = -1" and sock: "\<not> is_rdma c"
  shows "performs (ctx_hand_shake c dv pad my rem)
     (if servername c
      then [Ev_write (key_msg dv my) (Some (length (key_msg dv my))), Ev_read (length (key_msg dv peer)) (Some (key_msg dv peer))]
      else [Ev_read (length (key_msg dv peer)) (Some (key_msg dv peer)), Ev_write (key_msg dv my) (Some (length (key_msg dv my)))])
     (Inr (received_keys dv peer (rem\<lparr> gid_index := gid_index my \<rparr>)))"
proof -
  let ?rem = "rem\<lparr> gid_index := gid_index my \<rparr>"
  have w: "performs (ethernet_write_keys dv my) [Ev_write (key_msg dv my) (Some (length (key_msg dv my)))] (Inr ())"
    by (rule write_keys_performs [OF fit(1)])
  have r: "performs (ethernet_read_keys dv ?rem) [Ev_read (length (key_msg dv peer)) (Some (key_msg dv peer))] (Inr (received_keys dv peer ?rem))"
    by (rule read_keys_performs [OF fit(2)]) (simp add: mode)
  show ?thesis
  proof (cases "servername c")
    case True
    then show ?thesis using sock performs_seq [OF w, where f = "\<lambda>r. case r of Inl e \<Rightarrow> Return (Inl e) | Inr _ \<Rightarrow> ethernet_read_keys dv ?rem"] r
      by (simp add: ctx_hand_shake_def Let_def)
  next
    case srv: False
    have "performs (io_bind (ethernet_write_keys dv my) (\<lambda>w. Return (case w of Inl e \<Rightarrow> Inl e | Inr _ \<Rightarrow> Inr (received_keys dv peer ?rem))))
        ([Ev_write (key_msg dv my) (Some (length (key_msg dv my)))] @ []) (Inr (received_keys dv peer ?rem))"
      by (rule performs_seq [OF w]) simp
    then show ?thesis using sock srv performs_seq [OF r, where f = "\<lambda>r. case r of Inl e \<Rightarrow> Return (Inl e)
        | Inr d \<Rightarrow> io_bind (ethernet_write_keys dv my) (\<lambda>w. Return (case w of Inl e \<Rightarrow> Inl e | Inr _ \<Rightarrow> Inr d))"]
      by (simp add: ctx_hand_shake_def Let_def)
  qed
qed

text \<open>
  C16.  When the operations succeed and the socket carries each message whole, the handshake hands each
  side exactly the peer's connection data: local identifier, outstanding reads, queue pair and packet
  numbers, remote key, addresses, GID (if one is used) and shared receive queue, whatever their values,
  as long as identifier and queue-pair numbers have no more digits than the format gives them.
\<close>

theorem hand_shake_delivers_keys:
  assumes fit: "keys_fit my" "keys_fit peer" and mode: "gid_index peer = -1 \<longleftrightarrow> gid_index my = -1"
    and pad: "length pad = 4" "length pad' = 4" and idx: "- 2147483648 \<le> gid_index peer" "gid_index peer < 2147483648"
  shows "if is_rdma c
    then performs (ctx_hand_shake c dv pad my rem)
           (if servername c
            then [Ev_post_send (dest_bytes pad my) True, Ev_wait_send good_send, Ev_wait_recv 64 good_recv (dest_bytes pad' peer), Ev_post_recv True]
            else [Ev_wait_recv 64 good_recv (dest_bytes pad' peer), Ev_post_recv True, Ev_post_send (dest_bytes pad my) True, Ev_wait_send good_send])
           (Inr peer)
    else performs (ctx_hand_shake c dv pad my rem)
           (if servername c
            then [Ev_write (key_msg dv my) (Some (length (key_msg dv my))), Ev_read (length (key_msg dv peer)) (Some (key_msg dv peer))]
            else [Ev_read (length (key_msg dv peer)) (Some (key_msg dv peer)), Ev_write (key_msg dv my) (Some (length (key_msg dv my)))])
           (Inr (received_keys dv peer (rem\<lparr> gid_index := gid_index my \<rparr>)))"
proof (cases "is_rdma c")
  case True
  have peer: "dest_of_bytes (dest_bytes pad' peer) = peer" "length (dest_bytes pad' peer) = DEST_SIZE"
    using dest_roundtrip [OF pad(2) _ idx] fit(2) by (simp_all add: keys_fit_def)
  with True show ?thesis
    by (simp add: ctx_hand_shake_def rdma_write_keys_def rdma_read_keys_def performs_ops good_send_def good_recv_def Let_def) blast
next
  case False
  then show ?thesis using hand_shake_socket [OF fit mode False, where dv = dv and pad = pad and rem = rem] by simp
qed

definition demo_dest :: pingpong_dest where
  "demo_dest = \<lparr> lid = 1, out_reads = 16, qpn = 1234, psn = 77, rkey = 0xdeadbeef, vaddr = 0x7f0012345678, tail_markers_vaddr = 0,
     gid_raw = replicate 16 0xfe, srqn = 0, gid_index = 3 \<rparr>"

theorem hand_shake_delivers_keys_witness:
  "performs (ctx_hand_shake client_comm False [0, 0, 0, 0] demo_dest demo_dest)
     [Ev_write (key_msg False demo_dest) (Some (length (key_msg False demo_dest))),
      Ev_read (length (key_msg False demo_dest)) (Some (key_msg False demo_dest))]
     (Inr (received_keys False demo_dest demo_dest))"
proof -
  have fit: "keys_fit demo_dest" by (simp add: keys_fit_def demo_dest_def)
  have same: "demo_dest\<lparr> gid_index := gid_index demo_dest \<rparr> = demo_dest" by simp
  show ?thesis
    using hand_shake_delivers_keys [OF fit fit, where c = client_comm and pad = "[0, 0, 0, 0]" and pad' = "[0, 0, 0, 0]" and dv = False and rem = demo_dest]
    by (simp add: same is_rdma_def) (simp add: demo_dest_def)
qed

end
