(* ===== verification/Port_Setup.thy ===== *)
theory Port_Setup
  imports Params Negotiation Key_Exchange
begin

text \<open>
  Choosing the port's addressing and sizes before a test: selection of a GID, agreement on the MTU and
  on the system data, and the exchange of bandwidth reports
  (\<^verbatim>\<open>src/src/perftest_communication.c\<close>; \<^verbatim>\<open>set_mtu\<close>, \<^verbatim>\<open>set_eth_mtu\<close> and \<^verbatim>\<open>ctx_set_out_reads\<close> of
  \<^verbatim>\<open>src/src/perftest_parameters.c\<close>).  What the device and the port report are arguments.

  Versions are compared as \<^verbatim>\<open>float\<close>s with \<^verbatim>\<open>double\<close> constants in \<^verbatim>\<open>check_mtu\<close> and \<^verbatim>\<open>xchg_bw_reports\<close>: the
  \<^verbatim>\<open>float\<close> nearest to each of the bounds 5.1, 5.31 and 5.33 lies below it, so \<^verbatim>\<open>>=\<close> there is the strict
  comparison of two-decimal versions.
\<close>

section \<open>Choosing a GID\<close>

definition s6_addr32 :: "u8 list \<Rightarrow> nat \<Rightarrow> u32" where
  "s6_addr32 a i = bytes_u32 (take 4 (drop (4 * i) a))"

definition ipv6_addr_v4mapped :: "u8 list \<Rightarrow> bool" where
  "ipv6_addr_v4mapped a \<longleftrightarrow>
     ((s6_addr32 a 0 OR s6_addr32 a 1) OR (s6_addr32 a 2 XOR htonl 0x0000ffff)) = 0 \<or>
     (s6_addr32 a 0 = htonl 0xff0e0000 \<and> (s6_addr32 a 1 OR (s6_addr32 a 2 XOR htonl 0x0000ffff)) = 0)"

definition is_gid_link_local :: "u8 list \<Rightarrow> bool \<Rightarrow> bool" where
  "is_gid_link_local a is_ipv4 \<longleftrightarrow>
     (if is_ipv4 then a ! 12 = 0xa9 \<and> a ! 13 = 0xfe else a ! 0 = 0xfe \<and> a ! 1 AND 0xc0 = 0x80)"

datatype gid_type = ROCE_V1 | ROCE_V2 | OTHER_GID_TYPE

definition find_roce_version_rate :: "gid_type \<Rightarrow> int" where
  "find_roce_version_rate t =
     (case find (\<lambda>(ty, rate). ty = t) [(ROCE_V1, 1), (ROCE_V2, 2)] of Some (_, rate) \<Rightarrow> rate | None \<Rightarrow> -1)"

abbreviation GID_SCORE_ROCE_MAX :: int where "GID_SCORE_ROCE_MAX \<equiv> 9"
abbreviation GID_SCORE_GLOBAL_SCOPE :: int where "GID_SCORE_GLOBAL_SCOPE \<equiv> 10"
abbreviation GID_SCORE_ADDR_FAMILY :: int where "GID_SCORE_ADDR_FAMILY \<equiv> 100"

text \<open>
  \<open>gid\<close> is the answer of \<^verbatim>\<open>ibv_query_gid\<close>, \<open>ty\<close> that of the query for the GID's type (\<open>None\<close> when the query
  fails or the build has no such query).
\<close>

definition roce_part :: "gid_type option \<Rightarrow> int" where
  "roce_part ty = (let roce_rate = (case ty of None \<Rightarrow> 0 | Some t \<Rightarrow> find_roce_version_rate t)
     in if roce_rate > 0 then (if roce_rate < GID_SCORE_ROCE_MAX then roce_rate else GID_SCORE_ROCE_MAX) else 0)"

definition compute_gid_score :: "u8 list option \<Rightarrow> gid_type option \<Rightarrow> bool \<Rightarrow> int" where
  "compute_gid_score gid ty prefer_ipv6 =
     (case gid of
        None \<Rightarrow> -1
      | Some a \<Rightarrow>
          if a = replicate 16 0 then -1
          else let is_ipv4 = ipv6_addr_v4mapped a in
            (if (prefer_ipv6 \<and> \<not> is_ipv4) \<or> (\<not> prefer_ipv6 \<and> is_ipv4) then GID_SCORE_ADDR_FAMILY else 0) +
            (if \<not> is_gid_link_local a is_ipv4 then GID_SCORE_GLOBAL_SCOPE else 0) + roce_part ty)"

text \<open>The loop over the table: the state is \<^verbatim>\<open>best_index\<close> and \<^verbatim>\<open>best_score\<close>.\<close>

definition gid_step :: "(nat \<Rightarrow> int) \<Rightarrow> nat \<Rightarrow> int \<times> int \<Rightarrow> int \<times> int" where
  "gid_step score i = (\<lambda>(best_index, best_score).
     if score i > best_score then (int i, score i) else (best_index, best_score))"

definition get_best_gid_index :: "(nat \<Rightarrow> u8 list option) \<Rightarrow> (nat \<Rightarrow> gid_type option) \<Rightarrow> bool \<Rightarrow> nat \<Rightarrow> int" where
  "get_best_gid_index gid ty ipv6 gid_tbl_len =
     fst (fold (gid_step (\<lambda>i. compute_gid_score (gid i) (ty i) ipv6)) [0..<gid_tbl_len] (-1, -1))"

definition validate_gid_index :: "int \<Rightarrow> int \<Rightarrow> bool" where
  "validate_gid_index idx gid_tbl_len \<longleftrightarrow> \<not> (idx < 0 \<or> gid_tbl_len \<le> 0 \<or> idx \<ge> gid_tbl_len)"

definition ctx_check_gid_compatibility :: "pingpong_dest \<Rightarrow> pingpong_dest \<Rightarrow> bool" where
  "ctx_check_gid_compatibility my rem \<longleftrightarrow> ipv6_addr_v4mapped (gid_raw my) = ipv6_addr_v4mapped (gid_raw rem)"

section \<open>The MTU\<close>

abbreviation IBV_MTU_256 :: int where "IBV_MTU_256 \<equiv> 1"
abbreviation IBV_MTU_2048 :: int where "IBV_MTU_2048 \<equiv> 4"
abbreviation IBV_MTU_4096 :: int where "IBV_MTU_4096 \<equiv> 5"

definition valid_mtu_size :: "int \<Rightarrow> bool" where
  "valid_mtu_size m \<longleftrightarrow> \<not> (m < IBV_MTU_256 \<or> m > IBV_MTU_4096)"

definition MTU_SIZE :: "int \<Rightarrow> nat" where
  "MTU_SIZE m = 2 ^ nat (7 + m)"

text \<open>What the port and the device report; \<open>None\<close> where a query fails.\<close>

record port_env =
  active_mtu :: "int option"
  is_connectx3 :: bool
  port_max_msg :: "nat option"
  have_srd :: bool
  have_srd_read :: bool
  have_srd_write :: bool
  efa_attr :: "(bool \<times> bool \<times> nat) option"

text \<open>The parameters read and set here; the \<^verbatim>\<open>mtu\<close> is what the user asked for, 0 for none.\<close>

record mtu_user =
  m_connection_type :: connection_type
  m_verb :: VerbType
  m_test_method :: ctx_test_method
  m_req_size :: bool
  m_size :: nat
  m_mtu :: int
  m_curr_mtu :: int
  m_dont_xchg_versions :: bool
  m_rem_version :: string

datatype setup_error = Setup_exit | Setup_FAILURE

definition set_mtu :: "port_env \<Rightarrow> int \<Rightarrow> setup_error + int" where
  "set_mtu P user_mtu =
     (case active_mtu P of
        None \<Rightarrow> Inl Setup_exit
      | Some active \<Rightarrow>
          if user_mtu = 0
          then Inr (if active = IBV_MTU_4096 \<and> is_connectx3 P then IBV_MTU_2048 else active)
          else let cmtu = (case map_of [(256, 1), (512, 2), (1024, 3), (2048, 4), (4096, 5)] user_mtu of Some m \<Rightarrow> m | None \<Rightarrow> active)
               in Inr (if cmtu > active then active else cmtu))"

definition set_eth_mtu :: "mtu_user \<Rightarrow> mtu_user option" where
  "set_eth_mtu u =
     (let u1 = (if m_mtu u = 0 then u\<lparr> m_mtu := 1518 \<rparr> else u) in
      if 64 \<le> m_mtu u1 \<and> m_mtu u1 \<le> 9600 then Some (u1\<lparr> m_curr_mtu := m_mtu u1 \<rparr>) else None)"

text \<open>
  The number travels as text: \<^verbatim>\<open>sprintf(cur, "%d", curr_mtu)\<close> into four bytes, of which two are sent to a peer
  after 5.31 and four to an older one (\<open>junk\<close>: the bytes of \<^verbatim>\<open>cur\<close> that are not initialised).
\<close>

definition mtu_msg :: "bool \<Rightarrow> u8 list \<Rightarrow> int \<Rightarrow> u8 list" where
  "mtu_msg short junk m = (let t = text_bytes (print_dec (nat m) @ [NUL_char]) in
     if short then take 2 (t @ junk) else take 4 (t @ junk))"

definition parse_mtu :: "u8 list \<Rightarrow> int" where
  "parse_mtu bs = (case strtol 10 (takeWhile (\<lambda>c. c \<noteq> NUL_char) (bytes_text bs)) of None \<Rightarrow> 0 | Some (v, _) \<Rightarrow> int_of_long v)"

definition choose_mtu :: "int \<Rightarrow> int \<Rightarrow> int" where
  "choose_mtu curr_mtu rem_mtu = (if valid_mtu_size rem_mtu \<and> curr_mtu > rem_mtu then rem_mtu else curr_mtu)"

text \<open>Fitting the message size: the size is reduced, or the test refused when the user asked for it.\<close>

definition limit_size :: "nat \<Rightarrow> mtu_user \<Rightarrow> setup_error + mtu_user" where
  "limit_size limit u =
     (if m_size u > limit
      then if m_test_method u = RUN_ALL \<or> \<not> m_req_size u then Inr (u\<lparr> m_size := limit \<rparr>) else Inl Setup_FAILURE
      else Inr u)"

abbreviation RAWETH_MIN_MSG_SIZE :: nat where "RAWETH_MIN_MSG_SIZE \<equiv> 64"

definition check_srd_size :: "port_env \<Rightarrow> mtu_user \<Rightarrow> setup_error + mtu_user" where
  "check_srd_size P u =
     (if m_verb u = SEND \<or> m_verb u = SEND_IMM
      then (case port_max_msg P of None \<Rightarrow> Inl Setup_exit | Some n \<Rightarrow> limit_size n u)
      else if m_verb u = READ \<or> m_verb u = WRITE \<or> m_verb u = WRITE_IMM
      then (if \<not> have_srd P then Inl Setup_exit
            else case efa_attr P of
              None \<Rightarrow> Inl Setup_exit
            | Some (caps_read, caps_write, max_rdma_size) \<Rightarrow>
                if m_verb u = READ \<and> (\<not> have_srd_read P \<or> \<not> caps_read) then Inl Setup_exit
                else if (m_verb u = WRITE \<or> m_verb u = WRITE_IMM) \<and> (\<not> have_srd_write P \<or> \<not> caps_write) then Inl Setup_exit
                else limit_size max_rdma_size u)
      else Inr u)"

definition check_size :: "port_env \<Rightarrow> mtu_user \<Rightarrow> setup_error + mtu_user" where
  "check_size P u =
     (if m_connection_type u = UD \<and> m_size u > MTU_SIZE (m_curr_mtu u) then limit_size (MTU_SIZE (m_curr_mtu u)) u
      else if m_connection_type u = RawEth
      then Inr (if int (m_size u) > m_curr_mtu u then u\<lparr> m_size := nat (m_curr_mtu u) \<rparr>
                else if m_size u < RAWETH_MIN_MSG_SIZE then u\<lparr> m_size := RAWETH_MIN_MSG_SIZE \<rparr> else u)
      else if m_connection_type u = SRD then check_srd_size P u
      else Inr u)"

definition check_mtu :: "port_env \<Rightarrow> perftest_comm \<Rightarrow> u8 list \<Rightarrow> mtu_user \<Rightarrow> (setup_error + mtu_user) io" where
  "check_mtu P c junk u =
     (if m_connection_type u = RawEth
      then Return (case set_eth_mtu u of None \<Rightarrow> Inl Setup_FAILURE | Some u' \<Rightarrow> check_size P u')
      else case set_mtu P (m_mtu u) of
        Inl e \<Rightarrow> Return (Inl e)
      | Inr cmtu \<Rightarrow>
          if \<not> m_dont_xchg_versions u \<and> \<not> version_le (m_rem_version u) 510
          then with_data (ctx_xchg_data c (mtu_msg (\<not> version_le (m_rem_version u) 531) junk cmtu)) (Inl Setup_exit)
                 (\<lambda>rem. Return (check_size P (u\<lparr> m_curr_mtu := choose_mtu cmtu (parse_mtu rem) \<rparr>)))
          else Return (check_size P (u\<lparr> m_curr_mtu := cmtu \<rparr>)))"

section \<open>System data\<close>

record sys_user =
  s_cycle_buffer :: int
  s_cache_line_size :: int
  s_rem_version :: string
  s_dont_xchg_versions :: bool
  s_use_rdma_cm :: bool
  s_comm_buff_size :: int

definition int_msg :: "int \<Rightarrow> u8 list" where "int_msg v = u32_bytes (htonl (word_of_int v))"
definition msg_int :: "u8 list \<Rightarrow> int" where "msg_int bs = sint (htonl (bytes_u32 bs))"

definition take_max :: "int \<Rightarrow> int \<Rightarrow> sys_user \<Rightarrow> sys_user" where
  "take_max rem_cycle rem_cache u =
     (let u1 = u\<lparr> s_cycle_buffer := (if rem_cycle > s_cycle_buffer u then rem_cycle else s_cycle_buffer u),
                 s_cache_line_size := (if rem_cache > s_cache_line_size u then rem_cache else s_cache_line_size u) \<rparr>
      in if s_use_rdma_cm u1 then u1\<lparr> s_comm_buff_size := s_cycle_buffer u1 \<rparr> else u1)"

text \<open>\<^verbatim>\<open>None\<close> is the exit on a failed exchange.\<close>

definition check_sys_data :: "perftest_comm \<Rightarrow> sys_user \<Rightarrow> sys_user option io" where
  "check_sys_data c u =
     (if version_less (s_rem_version u) 532 then Return (Some u)
      else if s_dont_xchg_versions u then Return (Some (take_max (msg_int (replicate 4 0)) (msg_int (replicate 4 0)) u))
      else with_data (ctx_xchg_data c (int_msg (s_cycle_buffer u))) None (\<lambda>a.
             with_data (ctx_xchg_data c (int_msg (s_cache_line_size u))) None (\<lambda>b.
               Return (Some (take_max (msg_int a) (msg_int b) u)))))"

section \<open>Bandwidth reports\<close>

text \<open>A \<^verbatim>\<open>double\<close> is its bit pattern: the exchange only moves and swaps its bytes.\<close>

record bw_report_data =
  rep_size :: u64
  rep_iters :: u64
  rep_bw_peak :: u64
  rep_bw_avg :: u64
  rep_bw_avg_p1 :: u64
  rep_bw_avg_p2 :: u64
  rep_msgRate_avg :: u64
  rep_msgRate_avg_p1 :: u64
  rep_msgRate_avg_p2 :: u64

text \<open>A sequence of block exchanges, each ended by \<^verbatim>\<open>exit(1)\<close> (\<open>None\<close>) on failure.\<close>

primrec xchg_blocks :: "perftest_comm \<Rightarrow> u8 list list \<Rightarrow> u8 list list option io" where
  "xchg_blocks c [] = Return (Some [])" |
  "xchg_blocks c (b # bs) =
     with_data (ctx_xchg_data c b) None (\<lambda>r. with_data (xchg_blocks c bs) None (\<lambda>rs. Return (Some (r # rs))))"

text \<open>
  The blocks sent, in order.  To a peer of version 5.33 or older the iteration count is swapped as a C
  \<^verbatim>\<open>int\<close> and only the low four bytes of the field travel.
\<close>

definition report_blocks :: "bool \<Rightarrow> bool \<Rightarrow> bw_report_data \<Rightarrow> u8 list list" where
  "report_blocks old per_port r =
     [u64_bytes (hton_64 (rep_size r)),
      (if old then take 4 (u64_bytes (scast (htonl (ucast (rep_iters r))))) else u64_bytes (hton_64 (rep_iters r))),
      u64_bytes (hton_64 (rep_bw_peak r)), u64_bytes (hton_64 (rep_bw_avg r)), u64_bytes (hton_64 (rep_msgRate_avg r))] @
     (if per_port then [u64_bytes (hton_64 (rep_bw_avg_p1 r)), u64_bytes (hton_64 (rep_msgRate_avg_p1 r)),
        u64_bytes (hton_64 (rep_bw_avg_p2 r)), u64_bytes (hton_64 (rep_msgRate_avg_p2 r))] else [])"

text \<open>
  What the peer's blocks leave in \<^verbatim>\<open>rem_bw_rep\<close>.  The per-port fields are swapped even when they were not
  exchanged; of the iteration count an old peer sets the low four bytes only.
\<close>

definition store_report :: "bool \<Rightarrow> bool \<Rightarrow> u8 list list \<Rightarrow> bw_report_data \<Rightarrow> bw_report_data" where
  "store_report old per_port bs r =
     \<lparr> rep_size = hton_64 (bytes_u64 (bs ! 0)),
       rep_iters = (if old then scast (htonl (ucast (bytes_u64 (bs ! 1 @ drop 4 (u64_bytes (rep_iters r))))))
                    else hton_64 (bytes_u64 (bs ! 1))),
       rep_bw_peak = hton_64 (bytes_u64 (bs ! 2)), rep_bw_avg = hton_64 (bytes_u64 (bs ! 3)),
       rep_bw_avg_p1 = hton_64 (if per_port then bytes_u64 (bs ! 5) else rep_bw_avg_p1 r),
       rep_bw_avg_p2 = hton_64 (if per_port then bytes_u64 (bs ! 7) else rep_bw_avg_p2 r),
       rep_msgRate_avg = hton_64 (bytes_u64 (bs ! 4)),
       rep_msgRate_avg_p1 = hton_64 (if per_port then bytes_u64 (bs ! 6) else rep_msgRate_avg_p1 r),
       rep_msgRate_avg_p2 = hton_64 (if per_port then bytes_u64 (bs ! 8) else rep_msgRate_avg_p2 r) \<rparr>"

definition xchg_bw_reports :: "perftest_comm \<Rightarrow> bool \<Rightarrow> string \<Rightarrow> bw_report_data \<Rightarrow> bw_report_data \<Rightarrow> bw_report_data option io" where
  "xchg_bw_reports c per_port remote_version my rem =
     (let old = version_le remote_version 533 in
      with_data (xchg_blocks c (report_blocks old per_port my)) None (\<lambda>bs. Return (Some (store_report old per_port bs rem))))"

section \<open>The best GID\<close>

text \<open>The score orders entries by address family, then scope, then RoCE version.\<close>

definition rank :: "u8 list \<Rightarrow> gid_type option \<Rightarrow> bool \<Rightarrow> int \<times> int \<times> int" where
  "rank a ty ipv6 = (of_bool (ipv6 \<noteq> ipv6_addr_v4mapped a), of_bool (\<not> is_gid_link_local a (ipv6_addr_v4mapped a)), roce_part ty)"

lemma roce_part_range: "0 \<le> roce_part ty \<and> roce_part ty \<le> 2"
  by (cases ty) (auto simp: roce_part_def find_roce_version_rate_def Let_def split: gid_type.splits)

lemma score_of_rank:
  "a \<noteq> replicate 16 0 \<Longrightarrow> compute_gid_score (Some a) ty ipv6 = (case rank a ty ipv6 of (f, s, r) \<Rightarrow> 100 * f + 10 * s + r)"
  by (auto simp: compute_gid_score_def rank_def Let_def)

lemma score_range: "compute_gid_score gid ty ipv6 = -1 \<or> 0 \<le> compute_gid_score gid ty ipv6"
  using roce_part_range [of ty] by (auto simp: compute_gid_score_def Let_def split: option.split)

text \<open>What the loop has found after looking at the first \<open>n\<close> entries.\<close>

definition best_so_far :: "(nat \<Rightarrow> int) \<Rightarrow> nat \<Rightarrow> int \<times> int \<Rightarrow> bool" where
  "best_so_far score n = (\<lambda>(i, b). (i = -1 \<and> b = -1 \<and> (\<forall>j < n. score j \<le> -1)) \<or>
     (\<exists>k < n. i = int k \<and> b = score k \<and> -1 < b \<and> (\<forall>j < n. score j \<le> score k) \<and> (\<forall>j < k. score j < score k)))"

lemma best_so_far_fold: "best_so_far score n (fold (gid_step score) [0..<n] (-1, -1))"
proof (induction n)
  case (Suc n)
  obtain i b where ib: "fold (gid_step score) [0..<n] (-1, -1) = (i, b)" by fastforce
  with Suc have inv: "best_so_far score n (i, b)" by simp
  have step: "fold (gid_step score) [0..<Suc n] (-1, -1) = (if score n > b then (int n, score n) else (i, b))"
    by (simp add: ib) (simp add: gid_step_def)
  have "best_so_far score (Suc n) (if score n > b then (int n, score n) else (i, b))"
  proof (cases "score n > b")
    case True
    with inv have "\<forall>j < n. score j < score n" "-1 < score n" by (force simp: best_so_far_def)+
    with True show ?thesis by (auto simp: best_so_far_def less_Suc_eq intro: less_imp_le)
  next
    case False
    with inv show ?thesis by (auto simp: best_so_far_def less_Suc_eq)
  qed
  then show ?case unfolding step .
qed (simp add: best_so_far_def)

text \<open>
   Automatic GID selection returns the first entry of the table with the highest score, and -1 exactly
  when no entry can be used (every query fails or every GID is empty); scores compare first by the
  preferred address family, then by global scope, then by RoCE version.
\<close>

theorem best_gid_is_first_best:
  "(let score = \<lambda>i. compute_gid_score (gid i) (ty i) ipv6; r = get_best_gid_index gid ty ipv6 n in
     (r = -1 \<and> (\<forall>i < n. gid i = None \<or> gid i = Some (replicate 16 0))) \<or>
     (\<exists>k < n. r = int k \<and> (\<exists>a. gid k = Some a \<and> a \<noteq> replicate 16 0) \<and>
        (\<forall>i < n. score i \<le> score k) \<and> (\<forall>i < k. score i < score k))) \<and>
   (\<forall>a b t s. a \<noteq> replicate 16 0 \<longrightarrow> b \<noteq> replicate 16 0 \<longrightarrow>
     (compute_gid_score (Some a) t ipv6 < compute_gid_score (Some b) s ipv6 \<longleftrightarrow>
      (case (rank a t ipv6, rank b s ipv6) of ((f, g, r), (f', g', r')) \<Rightarrow> f < f' \<or> f = f' \<and> (g < g' \<or> g = g' \<and> r < r'))))"
proof -
  define score where "score = (\<lambda>i. compute_gid_score (gid i) (ty i) ipv6)"
  have used: "score i \<le> -1 \<longleftrightarrow> gid i = None \<or> gid i = Some (replicate 16 0)" for i
    using roce_part_range [of "ty i"] by (auto simp: score_def compute_gid_score_def Let_def split: option.split)
  have "best_so_far score n (fold (gid_step score) [0..<n] (-1, -1))" by (rule best_so_far_fold)
  moreover have "get_best_gid_index gid ty ipv6 n = fst (fold (gid_step score) [0..<n] (-1, -1))"
    by (simp add: get_best_gid_index_def score_def)
  ultimately have "(get_best_gid_index gid ty ipv6 n = -1 \<and> (\<forall>i < n. gid i = None \<or> gid i = Some (replicate 16 0))) \<or>
     (\<exists>k < n. get_best_gid_index gid ty ipv6 n = int k \<and> (\<exists>a. gid k = Some a \<and> a \<noteq> replicate 16 0) \<and>
        (\<forall>i < n. score i \<le> score k) \<and> (\<forall>i < k. score i < score k))"
    using used by (auto simp: best_so_far_def split: prod.splits) (metis linorder_not_le not_None_eq)+
  moreover have "compute_gid_score (Some a) t ipv6 < compute_gid_score (Some b) s ipv6 \<longleftrightarrow>
      (case (rank a t ipv6, rank b s ipv6) of ((f, g, r), (f', g', r')) \<Rightarrow> f < f' \<or> f = f' \<and> (g < g' \<or> g = g' \<and> r < r'))"
    if "a \<noteq> replicate 16 0" "b \<noteq> replicate 16 0" for a b t s
    using that roce_part_range [of t] roce_part_range [of s] by (auto simp: score_of_rank rank_def)
  ultimately show ?thesis by (simp add: score_def Let_def)
qed

theorem best_gid_is_first_best_witness:
  "get_best_gid_index (\<lambda>i. if i = 1 then Some ([0, 0, 0, 0, 0, 0, 0, 0, 0, 0, 0xff, 0xff, 10, 0, 0, 1]) else None) (\<lambda>_. Some ROCE_V2) False 2 = 1"
proof -
  let ?gid = "\<lambda>i :: nat. if i = 1 then Some ([0, 0, 0, 0, 0, 0, 0, 0, 0, 0, 0xff, 0xff, 10, 0, 0, 1] :: u8 list) else None"
  have z: "?gid 1 \<noteq> Some (replicate 16 0)" by (simp add: numeral_eq_Suc)
  have one: "(1 :: nat) < 2" by simp
  note best = best_gid_is_first_best [of ?gid "\<lambda>_. Some ROCE_V2" False 2, unfolded Let_def, THEN conjunct1]
  from best show ?thesis
  proof (elim disjE conjE exE)
    assume none: "\<forall>i < 2. ?gid i = None \<or> ?gid i = Some (replicate 16 0)"
    from none [rule_format, OF one] z show ?thesis by auto
  next
    fix k a assume "get_best_gid_index ?gid (\<lambda>_. Some ROCE_V2) False 2 = int k" "?gid k = Some a"
    then show ?thesis by (cases "k = 1") auto
  qed
qed

section \<open>Agreeing on the MTU\<close>

lemma mtu_text:
  assumes "valid_mtu_size m"
  shows "length (mtu_msg True junk m) = 2" "parse_mtu (mtu_msg True junk m) = m"
proof -
  define k where "k = nat m"
  then have k: "m = int k" "k < 10" using assms by (auto simp: valid_mtu_size_def)
  have p: "print_dec k = [digit_char k]" using k by (simp add: print_dec_def print_base.simps)
  have msg: "mtu_msg True junk m = text_bytes ([digit_char k] @ [NUL_char])" using k p by (simp add: mtu_msg_def text_bytes_def)
  then show "length (mtu_msg True junk m) = 2" by simp
  have "digit_char k \<noteq> NUL_char" using hex_digit_char(1) [of k] k by simp
  then show "parse_mtu (mtu_msg True junk m) = m"
    using strtol_print_dec [of k "[]"] p k int_of_long_id [of "int k"] unfolding msg parse_mtu_def bytes_text_bytes by simp
qed

lemma choose_mtu_min: "valid_mtu_size b \<Longrightarrow> choose_mtu a b = min a b"
  by (auto simp: choose_mtu_def)

text \<open>The sides of the exchange in \<^verbatim>\<open>check_mtu\<close>.\<close>

definition mtu_peer :: "port_env \<Rightarrow> mtu_user \<Rightarrow> int \<Rightarrow> bool" where
  "mtu_peer P u a \<longleftrightarrow> m_connection_type u \<noteq> RawEth \<and> \<not> m_dont_xchg_versions u \<and> \<not> version_le (m_rem_version u) 531 \<and>
     set_mtu P (m_mtu u) = Inr a \<and> valid_mtu_size a"

lemma check_mtu_follows:
  assumes p: "mtu_peer P u a" and b: "valid_mtu_size b"
    and x: "follows me (ctx_xchg_data c (mtu_msg True junk a)) \<sigma> (Some (mtu_msg True junk' b))"
  shows "follows me (check_mtu P c junk u) \<sigma> (check_size P (u\<lparr> m_curr_mtu := min a b \<rparr>))"
proof -
  have "follows me (with_data (ctx_xchg_data c (mtu_msg True junk a)) (Inl Setup_exit)
      (\<lambda>rem. Return (check_size P (u\<lparr> m_curr_mtu := choose_mtu a (parse_mtu rem) \<rparr>)))) (\<sigma> @ [])
      (check_size P (u\<lparr> m_curr_mtu := min a b \<rparr>))"
    by (rule follows_with_data [OF x]) (simp add: mtu_text [OF b] choose_mtu_min [OF b] f_done)
  moreover have "\<not> version_le (m_rem_version u) 510" using p by (auto simp: mtu_peer_def version_le_def)
  ultimately show ?thesis using p by (simp add: check_mtu_def mtu_peer_def)
qed

lemma set_mtu_active:
  "set_mtu P m = Inr a \<Longrightarrow> active_mtu P = Some act \<Longrightarrow> a \<le> act"
  by (auto simp: set_mtu_def Let_def split: if_splits)

lemma check_mtu_dialogue:
  assumes "mtu_peer P u a" "mtu_peer Q v b" "servername c" "\<not> servername s" "\<not> is_rdma c" "\<not> is_rdma s"
  shows "dialogue (check_mtu P c junk u) (check_mtu Q s junk' v) (says True (mtu_msg True junk a) @ says False (mtu_msg True junk' b))
      (check_size P (u\<lparr> m_curr_mtu := min a b \<rparr>)) (check_size Q (v\<lparr> m_curr_mtu := min b a \<rparr>))"
proof -
  have ab: "valid_mtu_size a" "valid_mtu_size b" using assms(1,2) by (simp_all add: mtu_peer_def)
  have len: "length (mtu_msg True junk a) = length (mtu_msg True junk' b)" using mtu_text(1) ab by simp
  show ?thesis
    by (intro dialogue.intro check_mtu_follows [OF assms(1) ab(2) xchg_client_follows [OF assms(3,5) len]]
        check_mtu_follows [OF assms(2) ab(1) xchg_server_follows [OF assms(4,6) len]])
qed

lemma check_size_mtu: "check_size P u = Inr u' \<Longrightarrow> m_curr_mtu u' = m_curr_mtu u"
  by (auto simp: check_size_def check_srd_size_def limit_size_def Let_def split: if_splits option.splits sum.splits)

text \<open>
  C19.  Two peers that agree on the MTU before a test both end up with the smaller of the two sides' MTUs,
  each of which is at most its port's active MTU, and then fit the message size to it; the exchange
  never blocks.
\<close>

theorem peers_agree_on_mtu:
  assumes "mtu_peer P u a" "mtu_peer Q v b" "servername c" "\<not> servername s" "\<not> is_rdma c" "\<not> is_rdma s"
    and run: "(net_step ^^ k) (check_mtu P c junk u, check_mtu Q s junk' v, [], []) st"
  shows "k \<le> 8 \<and> ((\<exists>st'. net_step st st') \<or>
      st = (Return (check_size P (u\<lparr> m_curr_mtu := min a b \<rparr>)), Return (check_size Q (v\<lparr> m_curr_mtu := min a b \<rparr>)), [], [])) \<and>
    (\<forall>act. active_mtu P = Some act \<longrightarrow> a \<le> act) \<and> (\<forall>act. active_mtu Q = Some act \<longrightarrow> b \<le> act)"
proof -
  have ab: "valid_mtu_size a" "valid_mtu_size b" using assms(1,2) by (simp_all add: mtu_peer_def)
  from dialogue.completes [OF check_mtu_dialogue [OF assms(1-6)] run] show ?thesis
    using set_mtu_active assms(1,2) by (auto simp: mtu_text ab mtu_peer_def min.commute)
qed

definition demo_port :: port_env where
  "demo_port = \<lparr> active_mtu = Some 3, is_connectx3 = False, port_max_msg = None, have_srd = False, have_srd_read = False,
     have_srd_write = False, efa_attr = None \<rparr>"

definition demo_mtu :: mtu_user where
  "demo_mtu = \<lparr> m_connection_type = UD, m_verb = SEND, m_test_method = RUN_REGULAR, m_req_size = False, m_size = 65536, m_mtu = 4096,
     m_curr_mtu = 0, m_dont_xchg_versions = False, m_rem_version = ''6.30'' \<rparr>"

theorem peers_agree_on_mtu_witness:
  "\<exists>st'. net_step (check_mtu demo_port client_comm [0, 0] demo_mtu, check_mtu demo_port server_comm [0, 0] demo_mtu, [], []) st'"
proof -
  let ?s = "(check_mtu demo_port client_comm [0, 0] demo_mtu, check_mtu demo_port server_comm [0, 0] demo_mtu, [], []) ::
    (setup_error + mtu_user, setup_error + mtu_user) net"
  have run: "(net_step ^^ 0) ?s ?s" by simp
  have peer: "mtu_peer demo_port demo_mtu 3"
    by (simp add: mtu_peer_def demo_port_def demo_mtu_def set_mtu_def valid_mtu_size_def version_le_def version_num_def
        c_isdigit_def digits_value_def digit_val_def Let_def)
  then have x: "check_mtu demo_port client_comm [0, 0] demo_mtu = with_data (ctx_xchg_data client_comm (mtu_msg True [0, 0] 3)) (Inl Setup_exit)
      (\<lambda>rem. Return (check_size demo_port (demo_mtu\<lparr> m_curr_mtu := choose_mtu 3 (parse_mtu rem) \<rparr>)))"
    by (auto simp: check_mtu_def mtu_peer_def version_le_def)
  have "mtu_msg True [0, 0] 3 \<noteq> []" using mtu_text(1) [of 3 "[0, 0]"] by (auto simp: valid_mtu_size_def)
  then have "check_mtu demo_port client_comm [0, 0] demo_mtu \<noteq> Return r" for r
    by (simp add: x with_data_def ctx_xchg_data_def is_rdma_def ctx_xchg_data_ethernet_def or_fail_def ethernet_write_data.simps [of "mtu_msg _ _ _"])
  then show ?thesis using peers_agree_on_mtu [OF peer peer _ _ _ _ run] by (auto simp: is_rdma_def)
qed

section \<open>Exchanging the reports\<close>

definition blocks_script :: "u8 list list \<Rightarrow> u8 list list \<Rightarrow> script" where
  "blocks_script as bs = concat (map2 (\<lambda>a b. says True a @ says False b) as bs)"

lemma blocks_client_follows:
  "servername c \<Longrightarrow> \<not> is_rdma c \<Longrightarrow> map length as = map length bs \<Longrightarrow>
   follows True (xchg_blocks c as) (blocks_script as bs) (Some bs)"
proof (induction as arbitrary: bs)
  case (Cons a as)
  then obtain b bs' where bs: "bs = b # bs'" "length a = length b" "map length as = map length bs'" by auto
  with Cons have IH: "follows True (xchg_blocks c as) (blocks_script as bs') (Some bs')" by simp
  have "follows True (with_data (xchg_blocks c as) None (\<lambda>rs. Return (Some (b # rs)))) (blocks_script as bs' @ []) (Some bs)"
    by (rule follows_with_data [OF IH]) (simp add: bs f_done)
  then have "follows True (xchg_blocks c (a # as)) ((says True a @ says False b) @ blocks_script as bs' @ []) (Some bs)"
    unfolding xchg_blocks.simps by (rule follows_with_data [OF xchg_client_follows [OF Cons.prems(1,2) bs(2)]])
  then show ?case by (simp add: bs blocks_script_def)
qed (simp add: blocks_script_def f_done)

lemma blocks_server_follows:
  "\<not> servername c \<Longrightarrow> \<not> is_rdma c \<Longrightarrow> map length as = map length bs \<Longrightarrow>
   follows False (xchg_blocks c bs) (blocks_script as bs) (Some as)"
proof (induction as arbitrary: bs)
  case (Cons a as)
  then obtain b bs' where bs: "bs = b # bs'" "length a = length b" "map length as = map length bs'" by auto
  with Cons have IH: "follows False (xchg_blocks c bs') (blocks_script as bs') (Some as)" by simp
  have "follows False (with_data (xchg_blocks c bs') None (\<lambda>rs. Return (Some (a # rs)))) (blocks_script as bs' @ []) (Some (a # as))"
    by (rule follows_with_data [OF IH]) (simp add: f_done)
  then have "follows False (xchg_blocks c bs) ((says True a @ says False b) @ blocks_script as bs' @ []) (Some (a # as))"
    unfolding bs(1) xchg_blocks.simps by (rule follows_with_data [OF xchg_server_follows [OF Cons.prems(1,2) bs(2)]])
  then show ?case by (simp add: bs blocks_script_def)
qed (simp add: blocks_script_def f_done)

lemma report_blocks_lengths: "map length (report_blocks old pp a) = map length (report_blocks old pp b)"
  by (simp add: report_blocks_def)

definition reports_script :: "bool \<Rightarrow> bool \<Rightarrow> bw_report_data \<Rightarrow> bw_report_data \<Rightarrow> script" where
  "reports_script old pp a b = blocks_script (report_blocks old pp a) (report_blocks old pp b)"

lemma reports_follow:
  assumes "follows me (xchg_blocks c (report_blocks (version_le ver 533) pp my)) \<sigma> (Some (report_blocks (version_le ver 533) pp peer))"
  shows "follows me (xchg_bw_reports c pp ver my rem) \<sigma> (Some (store_report (version_le ver 533) pp (report_blocks (version_le ver 533) pp peer) rem))"
  unfolding xchg_bw_reports_def Let_def
  using follows_with_data [OF assms, where \<tau> = "[]" and f = "\<lambda>bs. Return (Some (store_report (version_le ver 533) pp bs rem))" and failed = None] by (simp add: f_done)

interpretation reports: dialogue "xchg_bw_reports client_comm pp ver a ra" "xchg_bw_reports server_comm pp ver b rb"
  "reports_script (version_le ver 533) pp a b"
  "Some (store_report (version_le ver 533) pp (report_blocks (version_le ver 533) pp b) ra)"
  "Some (store_report (version_le ver 533) pp (report_blocks (version_le ver 533) pp a) rb)" for pp ver a b ra rb
  unfolding reports_script_def
  by unfold_locales (rule reports_follow, rule blocks_client_follows blocks_server_follows; simp add: is_rdma_def report_blocks_lengths)+

lemma store_new_report: "store_report False True (report_blocks False True peer) rem = peer"
  by (cases peer) (simp add: store_report_def report_blocks_def)

text \<open>
   Two peers of versions after 5.33 that exchange per-port bandwidth reports each end up with the
  other's report, bit for bit, after finitely many steps and without blocking.
\<close>

theorem reports_are_exchanged:
  assumes "\<not> version_le ver 533"
    and "(net_step ^^ k) (xchg_bw_reports client_comm True ver a ra, xchg_bw_reports server_comm True ver b rb, [], []) st"
  shows "k \<le> 288 \<and> ((\<exists>st'. net_step st st') \<or> st = (Return (Some b), Return (Some a), [], []))"
proof -
  have "length (reports_script False True a b) = 144" by (simp add: reports_script_def blocks_script_def report_blocks_def)
  with reports.completes [OF assms(2)] assms(1) show ?thesis by (simp add: store_new_report)
qed

definition demo_report :: bw_report_data where
  "demo_report = \<lparr> rep_size = 65536, rep_iters = 5000, rep_bw_peak = 0, rep_bw_avg = 0x40f86a0000000000, rep_bw_avg_p1 = 0,
     rep_bw_avg_p2 = 0, rep_msgRate_avg = 0x3ff0000000000000, rep_msgRate_avg_p1 = 0, rep_msgRate_avg_p2 = 0 \<rparr>"

theorem reports_are_exchanged_witness:
  "\<exists>st'. net_step (xchg_bw_reports client_comm True ''6.30'' demo_report demo_report,
     xchg_bw_reports server_comm True ''6.30'' demo_report demo_report, [], []) st'"
proof -
  let ?s = "(xchg_bw_reports client_comm True ''6.30'' demo_report demo_report,
     xchg_bw_reports server_comm True ''6.30'' demo_report demo_report, [], []) :: (bw_report_data option, bw_report_data option) net"
  have run: "(net_step ^^ 0) ?s ?s" by simp
  have new: "\<not> version_le ''6.30'' 533"
    by (simp add: version_le_def version_num_def c_isdigit_def digits_value_def digit_val_def Let_def)
  have "u64_bytes w \<noteq> []" for w using bytes_u64_bytes(2) [of w] by (metis list.size(3) zero_neq_numeral)
  then have "xchg_bw_reports client_comm True ''6.30'' demo_report demo_report \<noteq> Return r" for r
    by (simp add: xchg_bw_reports_def report_blocks_def with_data_def ctx_xchg_data_def is_rdma_def ctx_xchg_data_ethernet_def or_fail_def
        ethernet_write_data.simps [of "u64_bytes _"] Let_def)
  then show ?thesis using reports_are_exchanged [OF new run] by auto
qed

end
