(* ===== verification/Alarms.thy ===== *)
theory Alarms
  imports Params
begin

text \<open>
  The alarm handlers of \<^verbatim>\<open>src/src/perftest_resources.c\<close>: \<open>catch_alarm\<close>, which takes a timed test through
  its phases, and \<open>check_alive\<close>, the watchdog of a receiver, with the code that arms them
  (\<open>set_on_first_rx_packet\<close>, the heads of \<open>run_iter_bw\<close> and \<open>run_iter_bw_server\<close>).

  \<^verbatim>\<open>alarm (n)\<close> replaces the pending alarm by one in \<open>n\<close> seconds, and cancels it for \<open>n = 0\<close>; its argument is
  unsigned.  The pending alarm is a component of the state, and a clock in seconds delivers it.
\<close>

section \<open>Timed tests\<close>

record timed_run =
  phase :: DurationStates
  tposted0 :: nat
  tcompleted0 :: nat
  cpu_samples :: "nat list"
  pending :: "nat option"

definition alarm_arg :: "int \<Rightarrow> nat option" where
  "alarm_arg n = (let u = nat (n mod 2 ^ 32) in if u = 0 then None else Some u)"

function catch_alarm :: "perftest_parameters \<Rightarrow> nat \<Rightarrow> timed_run \<Rightarrow> timed_run" where
  "catch_alarm p now st =
     (case phase st of
        START_STATE \<Rightarrow> st\<lparr> phase := SAMPLE_STATE, cpu_samples := cpu_samples st @ [1], tposted0 := now,
                           pending := alarm_arg (int (duration p) - 2 * int (margin p)) \<rparr>
      | SAMPLE_STATE \<Rightarrow>
          (let st1 = st\<lparr> phase := STOP_SAMPLE_STATE, tcompleted0 := now, cpu_samples := cpu_samples st @ [2] \<rparr>
           in if margin p > 0 then st1\<lparr> pending := alarm_arg (int (margin p)) \<rparr> else catch_alarm p now st1)
      | STOP_SAMPLE_STATE \<Rightarrow> st\<lparr> phase := END_STATE \<rparr>
      | END_STATE \<Rightarrow> st)"
  by pat_completeness auto
termination
  by (relation "measure (\<lambda>(p, now, st). if phase st = SAMPLE_STATE then 1 else 0)") auto

declare catch_alarm.simps [simp del]

text \<open>The start of a timed test, at the first message of a receiver and at the head of a sender's loop.\<close>

definition start_timed :: "perftest_parameters \<Rightarrow> nat \<Rightarrow> timed_run \<Rightarrow> timed_run" where
  "start_timed p now st =
     (let st1 = st\<lparr> phase := START_STATE \<rparr>
      in if margin p > 0 then st1\<lparr> pending := alarm_arg (int (margin p)) \<rparr> else catch_alarm p now st1)"

text \<open>One second passes: a pending alarm comes nearer, and is delivered when its time has come.\<close>

definition second :: "perftest_parameters \<Rightarrow> nat \<Rightarrow> timed_run \<Rightarrow> timed_run" where
  "second p now st =
     (case pending st of
        None \<Rightarrow> st
      | Some n \<Rightarrow> if n \<le> 1 then catch_alarm p now (st\<lparr> pending := None \<rparr>) else st\<lparr> pending := Some (n - 1) \<rparr>)"

fun seconds :: "perftest_parameters \<Rightarrow> nat \<Rightarrow> nat \<Rightarrow> timed_run \<Rightarrow> timed_run" where
  "seconds p t0 0 st = st" |
  "seconds p t0 (Suc k) st = second p (t0 + Suc k) (seconds p t0 k st)"

lemma alarm_arg_small [simp]: "0 < n \<Longrightarrow> n < 2 ^ 32 \<Longrightarrow> alarm_arg (int n) = Some n"
  by (simp add: alarm_arg_def Let_def)

text \<open>The phase after \<open>k\<close> seconds, with the pending alarm, as a function of the time alone.\<close>

definition at_second :: "perftest_parameters \<Rightarrow> nat \<Rightarrow> timed_run \<Rightarrow> nat \<Rightarrow> timed_run" where
  "at_second p t0 st k =
     (let m = margin p; d = duration p in
      if k < m then st\<lparr> phase := START_STATE, pending := Some (m - k) \<rparr>
      else if k < d - m then
        st\<lparr> phase := SAMPLE_STATE, tposted0 := t0 + m, cpu_samples := cpu_samples st @ [1], pending := Some (d - m - k) \<rparr>
      else st\<lparr> phase := if k < d then STOP_SAMPLE_STATE else END_STATE, tposted0 := t0 + m, tcompleted0 := t0 + (d - m),
              cpu_samples := cpu_samples st @ [1, 2], pending := if k < d then Some (d - k) else None \<rparr>)"

lemma alarm_arg_sample:
  assumes "2 * margin p < duration p" "duration p < 2 ^ 32"
  shows "alarm_arg (int (duration p) - 2 * int (margin p)) = Some (duration p - 2 * margin p)"
proof -
  have "int (duration p) - 2 * int (margin p) = int (duration p - 2 * margin p)" using assms by simp
  with assms show ?thesis by (metis alarm_arg_small less_imp_diff_less zero_less_diff)
qed

lemma start_timed_at:
  assumes "2 * margin p < duration p" "duration p < 2 ^ 32"
  shows "start_timed p t0 st = at_second p t0 st 0"
  using assms by (simp add: start_timed_def at_second_def catch_alarm.simps alarm_arg_sample Let_def)

lemma second_at:
  assumes "2 * margin p < duration p" "duration p < 2 ^ 32"
  shows "second p (t0 + Suc k) (at_second p t0 st k) = at_second p t0 st (Suc k)"
proof -
  consider "Suc k < margin p" | "Suc k = margin p" | "margin p \<le> k" "Suc k < duration p - margin p" | "Suc k = duration p - margin p" "margin p \<le> k"
    | "duration p - margin p \<le> k" "Suc k < duration p" | "Suc k = duration p" "duration p - margin p \<le> k" | "duration p \<le> k" by linarith
  then show ?thesis
  proof cases
    case 2
    with assms show ?thesis by (simp add: second_def at_second_def catch_alarm.simps alarm_arg_sample Let_def)
  next
    case 4
    with assms show ?thesis
      by (cases "margin p = 0") (simp_all add: second_def at_second_def catch_alarm.simps Let_def)
  qed (use assms in \<open>simp_all add: second_def at_second_def catch_alarm.simps Let_def\<close>)
qed

lemma seconds_at:
  assumes "2 * margin p < duration p" "duration p < 2 ^ 32"
  shows "seconds p t0 k (start_timed p t0 st) = at_second p t0 st k"
  by (induction k) (simp_all add: start_timed_at [OF assms] second_at [OF assms, simplified])

text \<open>
  A timed test whose duration exceeds twice its margin always ends: \<open>k\<close> seconds after its start it is
  warming up for \<open>k < margin\<close>, sampling up to \<open>duration - margin\<close>, cooling down up to \<open>duration\<close> and
  over from then on, with both time stamps taken at the borders of the sampling and no alarm left.
\<close>

lemma timed_phases:
  assumes "2 * margin p < duration p" "duration p < 2 ^ 32" "st' = seconds p t0 k (start_timed p t0 st)"
  shows "phase st' = (if k < margin p then START_STATE else if k < duration p - margin p then SAMPLE_STATE
      else if k < duration p then STOP_SAMPLE_STATE else END_STATE) \<and>
    (duration p - margin p \<le> k \<longrightarrow> tposted0 st' = t0 + margin p \<and> tcompleted0 st' = t0 + (duration p - margin p)) \<and>
    (duration p \<le> k \<longrightarrow> pending st' = None)"
  using assms by (auto simp: seconds_at at_second_def Let_def)

section \<open>The watchdog of a receiver\<close>

record check_alive_data =
  current_totrcnt :: int
  last_totrcnt :: int
  g_total_iters :: int
  to_exit :: bool
  is_events :: bool

text \<open>Conversion of a 64-bit counter to \<^verbatim>\<open>int\<close>.\<close>

definition as_int :: "nat \<Rightarrow> int" where
  "as_int n = (int n + 2 ^ 31) mod 2 ^ 32 - 2 ^ 31"

lemma as_int_small [simp]: "n < 2 ^ 31 \<Longrightarrow> as_int n = int n"
  by (simp add: as_int_def)

text \<open>What the handler does next: arm itself again in 60 seconds, stop watching, or end the process.\<close>

datatype watch = Rearm | Quiet | Exit_failure

definition check_alive :: "check_alive_data \<Rightarrow> check_alive_data \<times> watch" where
  "check_alive d =
     (if current_totrcnt d > last_totrcnt d then (d\<lparr> last_totrcnt := current_totrcnt d \<rparr>, Rearm)
      else if current_totrcnt d = last_totrcnt d \<and> current_totrcnt d < g_total_iters d then
        (if is_events d then (d, Exit_failure) else (d\<lparr> to_exit := True \<rparr>, Quiet))
      else (d, Quiet))"

definition arm_watchdog :: "bool \<Rightarrow> nat \<Rightarrow> check_alive_data \<Rightarrow> check_alive_data" where
  "arm_watchdog events tot d = d\<lparr> is_events := events, g_total_iters := as_int tot \<rparr>"

definition note_received :: "nat \<Rightarrow> check_alive_data \<Rightarrow> check_alive_data" where
  "note_received rcnt d = d\<lparr> current_totrcnt := as_int rcnt \<rparr>"

definition disarm_watchdog :: "check_alive_data \<Rightarrow> check_alive_data" where
  "disarm_watchdog d = d\<lparr> last_totrcnt := 0 \<rparr>"

text \<open>
  \<open>k\<close> messages arrive after \<open>rcnt\<close> others: the count is noted at each of them, and at nothing else, so
  that without a message it keeps the value it had, be it of an earlier run.
\<close>

fun note_messages :: "nat \<Rightarrow> nat \<Rightarrow> check_alive_data \<Rightarrow> check_alive_data" where
  "note_messages rcnt 0 d = d" |
  "note_messages rcnt (Suc k) d = note_messages (Suc rcnt) k (note_received (Suc rcnt) d)"

lemma note_messages_eq: "note_messages rcnt k d = (if k = 0 then d else note_received (rcnt + k) d)"
  by (induction k arbitrary: rcnt d) (auto simp: note_received_def)

text \<open>
  The watchdog over the numbers of messages that arrive before each of its firings, 60 seconds apart,
  from a run that has received \<open>rcnt\<close>; the result is the final state and the number of firings that happened.
\<close>

fun watch_run :: "nat \<Rightarrow> nat list \<Rightarrow> check_alive_data \<Rightarrow> check_alive_data \<times> watch \<times> nat" where
  "watch_run rcnt [] d = (d, Rearm, 0)" |
  "watch_run rcnt (k # ks) d =
     (case check_alive (note_messages rcnt k d) of
        (d', Rearm) \<Rightarrow> (case watch_run (rcnt + k) ks d' of (e, w, n) \<Rightarrow> (e, w, Suc n))
      | (d', w) \<Rightarrow> (d', w, 1))"

lemma watch_progress:
  "\<forall>k \<in> set ks. 0 < k \<Longrightarrow> l + sum_list ks < 2 ^ 31 \<Longrightarrow> last_totrcnt d = int l \<Longrightarrow>
   watch_run l (ks @ ss) d = (case watch_run (l + sum_list ks) ss
       (if ks = [] then d else d\<lparr> current_totrcnt := int (l + sum_list ks), last_totrcnt := int (l + sum_list ks) \<rparr>) of
     (e, w, n) \<Rightarrow> (e, w, length ks + n))"
proof (induction ks arbitrary: l d)
  case (Cons k ks)
  let ?d = "d\<lparr> current_totrcnt := int (l + k), last_totrcnt := int (l + k) \<rparr>"
  have "check_alive (note_messages l k d) = (?d, Rearm)"
    using Cons.prems by (simp add: check_alive_def note_messages_eq note_received_def)
  with Cons.IH [of "l + k" ?d] Cons.prems show ?case by (simp add: add.assoc split: prod.splits)
qed (simp split: prod.splits)

lemma watch_stalled:
  assumes "last_totrcnt d = int r" "current_totrcnt d = int r" "r < tot" "tot < 2 ^ 31" "g_total_iters d = as_int tot"
  shows "watch_run r [0] d = (if is_events d then (d, Exit_failure, 1) else (d\<lparr> to_exit := True \<rparr>, Quiet, 1))"
  using assms by (simp add: check_alive_def)

text \<open>
  A run resets only the last count (\<open>disarm_watchdog\<close>).  After a message size that received all its messages,
  the next one with as many that receives none is not detected: the first firing takes the count
  of the earlier size for progress, the second finds it not short of the total, and the alarm is not set again.
\<close>

lemma watchdog_blind_after_earlier_size:
  assumes "0 < tot" "tot < 2 ^ 31"
  shows "\<exists>e. watch_run 0 (0 # 0 # ks) (arm_watchdog ev tot (disarm_watchdog (note_messages 0 tot d))) = (e, Quiet, 2) \<and>
    to_exit e = to_exit d"
  using assms by (simp add: check_alive_def note_messages_eq note_received_def arm_watchdog_def disarm_watchdog_def)

text \<open>
  A test of \<open>2 ^ 31\<close> messages or more is not watched: its total is negative as an \<^verbatim>\<open>int\<close>, so that a stalled
  receiver is never told to exit, and the alarm is not set again.
\<close>

lemma watchdog_blind_to_large_tests:
  assumes "2 ^ 31 \<le> tot" "tot < 2 ^ 32" "r < 2 ^ 31"
  shows "check_alive (note_received r (arm_watchdog ev tot d)) =
    (if last_totrcnt d < int r then (note_received r (arm_watchdog ev tot d)\<lparr> last_totrcnt := int r \<rparr>, Rearm)
     else (note_received r (arm_watchdog ev tot d), Quiet))"
proof -
  have "(int tot + 2147483648) mod 4294967296 = int tot - 2147483648"
    using assms minus_mod_self2 [of "int tot + 2147483648" 4294967296] by simp
  then have "as_int tot < 0" using assms by (simp add: as_int_def)
  with assms(3) show ?thesis by (auto simp: check_alive_def note_received_def arm_watchdog_def)
qed

section \<open>Properties\<close>

text \<open>
  C28. The watchdog stops a stalled receiver, for totals below \<open>2 ^ 31\<close> and in a run whose last count is reset
  (\<open>last_totrcnt d = 0\<close>): as long as messages have arrived before every firing it arms itself again, and at the
  first firing before which none arrived, with the total not reached, it makes the loop exit, or ends the process
  when the receiver waits for events.  For a run that receives nothing at all this needs the current count
  to be 0, that is, a first message size: see \<open>watchdog_blind_after_earlier_size\<close>.
\<close>

theorem watchdog_detects_stall:
  assumes "\<forall>k \<in> set ks. 0 < k" "sum_list ks < tot" "tot < 2 ^ 31" "last_totrcnt d = 0"
    and "current_totrcnt d = 0 \<or> ks \<noteq> []"
  shows "fst (snd (watch_run 0 ks (arm_watchdog ev tot d))) = Rearm \<and>
    (\<exists>e. watch_run 0 (ks @ 0 # ss) (arm_watchdog ev tot d) =
      (e, if ev then Exit_failure else Quiet, length ks + 1) \<and> (to_exit e \<longleftrightarrow> to_exit d \<or> \<not> ev))"
proof -
  let ?d = "arm_watchdog ev tot d" and ?r = "sum_list ks"
  let ?e = "if ks = [] then ?d else ?d\<lparr> current_totrcnt := int ?r, last_totrcnt := int ?r \<rparr>"
  have run: "watch_run 0 (ks @ ss) ?d = (case watch_run ?r ss ?e of (e, w, n) \<Rightarrow> (e, w, length ks + n))" for ss
    using watch_progress [of ks 0 ?d ss] assms by (simp add: arm_watchdog_def)
  have "watch_run ?r [0] ?e = (if ev then (?e, Exit_failure, 1) else (?e\<lparr> to_exit := True \<rparr>, Quiet, 1))"
    using watch_stalled [of ?e ?r tot] assms by (auto simp: arm_watchdog_def)
  moreover have "watch_run ?r (0 # ss) ?e = watch_run ?r [0] ?e"
    using calculation by (auto split: prod.splits watch.splits if_splits)
  ultimately show ?thesis using run [of "0 # ss"] run [of "[]"] by (simp add: arm_watchdog_def)
qed

theorem watchdog_detects_stall_witness:
  "fst (snd (watch_run 0 [10, 20, 0] (arm_watchdog False 100
     \<lparr> current_totrcnt = 50, last_totrcnt = 0, g_total_iters = 50, to_exit = False, is_events = False \<rparr>))) = Quiet"
  using watchdog_detects_stall [of "[10, 20]" 100
     "\<lparr> current_totrcnt = 50, last_totrcnt = 0, g_total_iters = 50, to_exit = False, is_events = False \<rparr>" False "[]"]
  by (auto simp del: watch_run.simps)

end
