(* ===== verification/Bw_Server.thy ===== *)
theory Bw_Server
  imports Bw_Client Alarms
begin

text \<open>
  Model of \<open>run_iter_bw_server\<close> in \<^verbatim>\<open>src/src/perftest_resources.c\<close>, the receiver of the bandwidth tests of
  the send verbs, with the credits it returns to the sender (\<open>ctx_alloc_credit\<close>, \<open>ctx_set_credit_wqes\<close>,
  \<open>clean_scq_credit\<close>).  The alarm handlers that drive a timed test and the watchdog are in theory
  \<open>Alarms\<close>; their effects on this loop are the environment's \<open>r_dstate\<close> and \<open>r_to_exit\<close>.

  As for the sender, what the loop observes is an environment indexed by a clock: results of polling
  the two completion queues, of posting, the state of a timed test, and the flag of the watchdog.
  Beside the program's variables the state keeps the trace of the credits that were posted
  (\<open>credit_log\<close>, newest first): the queue pair, the count written, and the number of receive requests
  posted on it by then.
\<close>

section \<open>State\<close>

text \<open>A receive completion; the immediate data are in host byte order.\<close>

record srv_wc =
  w_qp :: nat
  w_index :: nat
  w_ok :: bool
  w_with_imm :: bool
  w_imm :: u32

record srv_state =
  rcnt :: nat
  rcnt_for_qp :: "nat list"
  unused_recv_for_qp :: "nat list"
  posted_per_qp :: "nat list"
  scredit_for_qp :: "int list"
  tot_scredit :: int
  r_iters :: nat
  r_iters_per_port :: "nat list"
  firstRx :: bool
  recv_flows_index :: nat
  recv_flows_burst :: nat
  address_flows_offset :: nat
  recv_addr :: "nat \<Rightarrow> u64"
  ctrl_buf :: "u32 list"
  r_dyn :: dyn_poll_ctx
  r_dyn_en :: bool
  r_ne :: int
  r_clk :: nat
  credit_log :: "(nat \<times> nat \<times> nat) list"

record srv_env =
  r_notify_ok :: "nat \<Rightarrow> bool"
  r_dstate :: "nat \<Rightarrow> DurationStates"
  r_poll :: "nat \<Rightarrow> srv_state \<Rightarrow> int \<Rightarrow> srv_wc list option"
  r_post_recv_ok :: "nat \<Rightarrow> bool"
  r_post_send_ok :: "nat \<Rightarrow> bool"
  r_send_poll :: "nat \<Rightarrow> srv_state \<Rightarrow> (nat \<times> bool) list option"
  r_to_exit :: "nat \<Rightarrow> bool"

record srv_ctx =
  sp :: perftest_parameters
  r_send_rcredit :: bool
  ctx_rposted :: nat
  imm_verifiable :: bool
  rx_buffer_addr :: "nat \<Rightarrow> u64"
  r_recv_addr0 :: "nat \<Rightarrow> u64"
  r_port_by_qp :: "nat \<Rightarrow> nat"

text \<open>Ways a run can fail; \<open>Srv_division\<close> is a division by zero.\<close>

datatype srv_error = Srv_FAILURE | Srv_15 | Srv_division

section \<open>Credits\<close>

text \<open>\<open>ctx_alloc_credit\<close>: a credit is due after every \<open>credit_cnt\<close> messages; the control buffer is cleared.\<close>

definition credit_cnt :: "perftest_parameters \<Rightarrow> nat" where
  "credit_cnt p = rx_depth p div 3"

definition ctx_alloc_credit :: "perftest_parameters \<Rightarrow> u64 \<Rightarrow> u32 list \<times> u64 list" where
  "ctx_alloc_credit p base =
     (replicate (2 * num_of_qps p) 0, map (\<lambda>i. base + of_nat (num_of_qps p * 4) + of_nat (i * 4)) [0..<num_of_qps p])"

text \<open>\<open>ctx_set_credit_wqes\<close>: source address, identifier and destination of the credit write of each queue pair.\<close>

record credit_wr =
  cw_addr :: u64
  cw_length :: nat
  cw_wr_id :: u64
  cw_remote_addr :: u64

definition ctx_set_credit_wqes :: "perftest_parameters \<Rightarrow> u64 \<Rightarrow> (nat \<Rightarrow> u64) \<Rightarrow> credit_wr list" where
  "ctx_set_credit_wqes p base rem_vaddr =
     map (\<lambda>i. \<lparr> cw_addr = base + of_nat (i * 4), cw_length = 4, cw_wr_id = build_wr_id (of_nat i) (of_nat i), cw_remote_addr = rem_vaddr i \<rparr>)
       [0..<num_of_qps p]"

text \<open>Send completions of credit writes taken while waiting for room in the send queue.\<close>

fun take_send_wcs :: "(nat \<times> bool) list \<Rightarrow> srv_state \<Rightarrow> (srv_error \<times> srv_state) + srv_state" where
  "take_send_wcs [] st = Inr st" |
  "take_send_wcs ((q, ok) # ws) st =
     (if \<not> ok then Inl (Srv_FAILURE, st)
      else take_send_wcs ws (st\<lparr> scredit_for_qp := (scredit_for_qp st)[q := scredit_for_qp st ! q - 1], tot_scredit := tot_scredit st - 1 \<rparr>))"

text \<open>\<open>None\<close>: the fuel is used up.\<close>

fun wait_send_room :: "nat \<Rightarrow> srv_ctx \<Rightarrow> srv_env \<Rightarrow> nat \<Rightarrow> srv_state \<Rightarrow> ((srv_error \<times> srv_state) + srv_state) option" where
  "wait_send_room fuel c env q st =
     (if scredit_for_qp st ! q \<noteq> int (tx_depth (sp c)) then Some (Inr st)
      else case fuel of
             0 \<Rightarrow> None
           | Suc f \<Rightarrow>
               (case r_send_poll env (r_clk st) st of
                  None \<Rightarrow> Some (Inl (Srv_FAILURE, st))
                | Some ws \<Rightarrow>
                    (case take_send_wcs ws (st\<lparr> r_clk := r_clk st + 1 \<rparr>) of
                       Inl e \<Rightarrow> Some (Inl e)
                     | Inr st' \<Rightarrow> wait_send_room f c env q st')))"

declare wait_send_room.simps [simp del]

definition post_credit :: "srv_env \<Rightarrow> nat \<Rightarrow> srv_state \<Rightarrow> (srv_error \<times> srv_state) + srv_state" where
  "post_credit env q st =
     (if \<not> r_post_send_ok env (r_clk st) then Inl (Srv_FAILURE, st)
      else Inr (st\<lparr> scredit_for_qp := (scredit_for_qp st)[q := scredit_for_qp st ! q + 1], tot_scredit := tot_scredit st + 1,
                   credit_log := (q, rcnt_for_qp st ! q, posted_per_qp st ! q) # credit_log st, r_clk := r_clk st + 1 \<rparr>))"

definition send_credit :: "nat \<Rightarrow> srv_ctx \<Rightarrow> srv_env \<Rightarrow> nat \<Rightarrow> srv_state \<Rightarrow> ((srv_error \<times> srv_state) + srv_state) option" where
  "send_credit fuel c env q st =
     (if \<not> r_send_rcredit c then Some (Inr st)
      else if credit_cnt (sp c) = 0 then Some (Inl (Srv_division, st))
      else if (rcnt_for_qp st ! q mod rx_depth (sp c)) mod credit_cnt (sp c) \<noteq> 0 then Some (Inr st)
      else (case wait_send_room fuel c env q (st\<lparr> ctrl_buf := (ctrl_buf st)[q := of_nat (rcnt_for_qp st ! q)] \<rparr>) of
              None \<Rightarrow> None
            | Some (Inl e) \<Rightarrow> Some (Inl e)
            | Some (Inr st') \<Rightarrow> Some (post_credit env q st')))"

section \<open>One received message\<close>

definition check_message :: "srv_ctx \<Rightarrow> srv_wc \<Rightarrow> bool" where
  "check_message c w \<longleftrightarrow> w_ok w \<and>
     (verb (sp c) = SEND_IMM \<or> verb (sp c) = WRITE_IMM \<longrightarrow>
        w_with_imm w \<and> (imm_verifiable c \<longrightarrow> w_imm w = htobe32 DEF_IMM))"

definition count_message :: "srv_ctx \<Rightarrow> srv_env \<Rightarrow> nat \<Rightarrow> srv_state \<Rightarrow> srv_state" where
  "count_message c env q st =
     (let st1 = st\<lparr> rcnt_for_qp := (rcnt_for_qp st)[q := rcnt_for_qp st ! q + 1], rcnt := rcnt st + 1,
                   unused_recv_for_qp := (unused_recv_for_qp st)[q := unused_recv_for_qp st ! q + 1], r_clk := r_clk st + 1 \<rparr>
      in if test_type (sp c) = DURATION \<and> r_dstate env (r_clk st) = SAMPLE_STATE
         then st1\<lparr> r_iters_per_port := (if report_per_port (sp c)
                     then (r_iters_per_port st1)[r_port_by_qp c q := r_iters_per_port st1 ! r_port_by_qp c q + 1] else r_iters_per_port st1),
                   r_iters := r_iters st1 + 1 \<rparr>
         else st1)"

definition recv_due :: "srv_ctx \<Rightarrow> srv_state \<Rightarrow> nat \<Rightarrow> bool" where
  "recv_due c st q \<longleftrightarrow>
     (test_type (sp c) = DURATION \<or> posted_per_qp st ! q + recv_post_list (sp c) \<le> r_iters st) \<and>
     unused_recv_for_qp st ! q \<ge> recv_post_list (sp c) \<and> \<not> use_unsolicited_write (sp c)"

definition next_recv_flow :: "srv_ctx \<Rightarrow> srv_state \<Rightarrow> srv_state" where
  "next_recv_flow c st =
     (if flows (sp c) \<noteq> DEF_FLOWS then
        (if recv_flows_burst st + 1 = flows_burst (sp c) then
           (let ix = (if recv_flows_index st + 1 = flows (sp c) then 0 else recv_flows_index st + 1);
                offs = ix * ctx_cycle_buffer (sp c)
            in st\<lparr> recv_flows_burst := 0, recv_flows_index := ix, address_flows_offset := offs,
                  recv_addr := (recv_addr st)(0 := r_recv_addr0 c 0 + of_nat offs) \<rparr>)
         else st\<lparr> recv_flows_burst := recv_flows_burst st + 1 \<rparr>)
      else st)"

definition move_recv_addr :: "srv_ctx \<Rightarrow> srv_wc \<Rightarrow> srv_state \<Rightarrow> srv_state" where
  "move_recv_addr c w st =
     (if SIZE (connection_type (sp c)) (up_size (sp c)) (machine (sp c) = SERVER) \<le> ctx_cycle_buffer (sp c) div 2 \<and> recv_post_list (sp c) = 1
      then st\<lparr> recv_addr := (recv_addr st)(w_index w := increase_addr (recv_addr st (w_index w)) (up_size (sp c)) (posted_per_qp st ! w_qp w)
                 (rx_buffer_addr c (w_qp w) + of_nat (address_flows_offset st)) (cache_line_size (sp c)) (ctx_cycle_buffer (sp c))) \<rparr>
      else st)"

definition repost_recv :: "srv_ctx \<Rightarrow> srv_env \<Rightarrow> srv_wc \<Rightarrow> srv_state \<Rightarrow> (srv_error \<times> srv_state) + srv_state" where
  "repost_recv c env w st =
     (let q = w_qp w in
      if \<not> recv_due c st q then Inr st
      else if \<not> r_post_recv_ok env (r_clk st) then Inl (if use_srq (sp c) then Srv_FAILURE else Srv_15, st)
      else let st1 = st\<lparr> unused_recv_for_qp := (unused_recv_for_qp st)[q := unused_recv_for_qp st ! q - recv_post_list (sp c)], r_clk := r_clk st + 1 \<rparr>;
               st2 = move_recv_addr c w (next_recv_flow c st1)
           in Inr (st2\<lparr> posted_per_qp := (posted_per_qp st2)[q := posted_per_qp st2 ! q + recv_post_list (sp c)] \<rparr>))"

definition receive_one :: "nat \<Rightarrow> srv_ctx \<Rightarrow> srv_env \<Rightarrow> srv_wc \<Rightarrow> srv_state \<Rightarrow> ((srv_error \<times> srv_state) + srv_state) option" where
  "receive_one fuel c env w st =
     (if \<not> check_message c w then Some (Inl (Srv_FAILURE, st))
      else case repost_recv c env w (count_message c env (w_qp w) st) of
             Inl e \<Rightarrow> Some (Inl e)
           | Inr st' \<Rightarrow> send_credit fuel c env (w_qp w) st')"

fun receive_all :: "nat \<Rightarrow> srv_ctx \<Rightarrow> srv_env \<Rightarrow> srv_wc list \<Rightarrow> srv_state \<Rightarrow> ((srv_error \<times> srv_state) + srv_state) option" where
  "receive_all fuel c env [] st = Some (Inr st)" |
  "receive_all fuel c env (w # ws) st =
     (case receive_one fuel c env w st of
        None \<Rightarrow> None
      | Some (Inl e) \<Rightarrow> Some (Inl e)
      | Some (Inr st') \<Rightarrow> receive_all fuel c env ws st')"

section \<open>The loops\<close>

text \<open>
  The first message of a timed test clears the count of iterations (\<open>set_on_first_rx_packet\<close>; the alarm
  it sets acts through \<open>r_dstate\<close>).
\<close>

definition set_on_first_rx_packet :: "srv_ctx \<Rightarrow> srv_state \<Rightarrow> srv_state" where
  "set_on_first_rx_packet c st =
     (if firstRx st then (if test_type (sp c) = DURATION then st\<lparr> r_iters := 0 \<rparr> else st)\<lparr> firstRx := False \<rparr> else st)"

text \<open>The inner \<^verbatim>\<open>do ... while (ne > 0)\<close>; the result \<open>Inr (st, b)\<close> tells whether it ended with \<open>ne = 0\<close>.\<close>

fun drain_recv :: "nat \<Rightarrow> nat \<Rightarrow> srv_ctx \<Rightarrow> srv_env \<Rightarrow> srv_state \<Rightarrow> ((srv_error \<times> srv_state) + srv_state \<times> bool) option" where
  "drain_recv wait fuel c env st =
     (if test_type (sp c) = DURATION \<and> r_dstate env (r_clk st) = END_STATE then Some (Inr (st\<lparr> r_clk := r_clk st + 1 \<rparr>, r_ne st = 0))
      else case fuel of
             0 \<Rightarrow> None
           | Suc f \<Rightarrow>
               (let ans = r_poll env (r_clk st) st (curr_size (dstate (r_dyn st)));
                    n = (case ans of None \<Rightarrow> -1 | Some ws \<Rightarrow> int (length ws));
                    (n', dyn', en') = poll_completions (r_dyn st) (\<lambda>_. n) (rcnt st) (r_dyn_en st);
                    st1 = st\<lparr> r_ne := n', r_dyn := dyn', r_dyn_en := en', r_clk := r_clk st + 1 \<rparr>
                in (case ans of
                      None \<Rightarrow> Some (Inl (Srv_FAILURE, st1))
                    | Some [] \<Rightarrow> Some (Inr (st1, True))
                    | Some ws \<Rightarrow>
                        (case receive_all wait c env ws (set_on_first_rx_packet c st1) of
                           None \<Rightarrow> None
                         | Some (Inl e) \<Rightarrow> Some (Inl e)
                         | Some (Inr st2) \<Rightarrow> drain_recv wait f c env st2))))"

declare drain_recv.simps [simp del]

definition srv_tot_iters :: "srv_ctx \<Rightarrow> nat" where
  "srv_tot_iters c = iters (sp c) * num_of_qps (sp c)"

definition srv_running :: "srv_ctx \<Rightarrow> srv_env \<Rightarrow> srv_state \<Rightarrow> bool" where
  "srv_running c env st \<longleftrightarrow> rcnt st < srv_tot_iters c \<or> (test_type (sp c) = DURATION \<and> r_dstate env (r_clk st) \<noteq> END_STATE)"

fun srv_loop :: "nat \<Rightarrow> nat \<Rightarrow> nat \<Rightarrow> srv_ctx \<Rightarrow> srv_env \<Rightarrow> srv_state \<Rightarrow> ((srv_error \<times> srv_state) + srv_state) option" where
  "srv_loop wait inner fuel c env st =
     (if \<not> srv_running c env st then Some (Inr st)
      else case fuel of
             0 \<Rightarrow> None
           | Suc f \<Rightarrow>
               (if use_event (sp c) \<and> \<not> r_notify_ok env (r_clk st) then Some (Inl (Srv_FAILURE, st))
                else case drain_recv wait inner c env (st\<lparr> r_clk := r_clk st + 1 \<rparr>) of
                       None \<Rightarrow> None
                     | Some (Inl e) \<Rightarrow> Some (Inl e)
                     | Some (Inr (st1, idle)) \<Rightarrow>
                         if idle \<and> r_to_exit env (r_clk st1) then Some (Inl (Srv_FAILURE, st1))
                         else srv_loop wait inner f c env (st1\<lparr> r_clk := r_clk st1 + 1 \<rparr>)))"

declare srv_loop.simps [simp del]

definition srv_init :: "srv_ctx \<Rightarrow> srv_state" where
  "srv_init c = (let n = num_of_qps (sp c) in
     \<lparr> rcnt = 0, rcnt_for_qp = replicate n 0, unused_recv_for_qp = replicate n 0, posted_per_qp = replicate n (ctx_rposted c),
       scredit_for_qp = replicate n 0, tot_scredit = 0, r_iters = iters (sp c), r_iters_per_port = [0, 0], firstRx = True,
       recv_flows_index = 0, recv_flows_burst = 0, address_flows_offset = 0, recv_addr = r_recv_addr0 c, ctrl_buf = replicate (2 * n) 0,
       r_dyn = init_dyn_poll_ctx (sp c), r_dyn_en = dynamic_cqe_poll (sp c), r_ne = 0, r_clk = 0, credit_log = [] \<rparr>)"

text \<open>
  \<open>clean_scq_credit\<close>: the outstanding credit writes are waited for.  The result is its success.
\<close>

fun all_ok :: "(nat \<times> bool) list \<Rightarrow> bool" where
  "all_ok ws = list_all snd ws"

fun clean_scq_credit :: "nat \<Rightarrow> srv_env \<Rightarrow> nat \<Rightarrow> int \<Rightarrow> srv_state \<Rightarrow> bool option" where
  "clean_scq_credit fuel env t send_cnt st =
     (if send_cnt = 0 then Some True
      else case fuel of
             0 \<Rightarrow> None
           | Suc f \<Rightarrow>
               (case r_send_poll env t st of
                  None \<Rightarrow> Some False
                | Some ws \<Rightarrow>
                    if \<not> all_ok ws then Some False
                    else if send_cnt - int (length ws) > 0 then clean_scq_credit f env (t + 1) (send_cnt - int (length ws)) st
                    else Some True))"

declare clean_scq_credit.simps [simp del]

definition run_iter_bw_server :: "nat \<Rightarrow> nat \<Rightarrow> nat \<Rightarrow> nat \<Rightarrow> srv_ctx \<Rightarrow> srv_env \<Rightarrow> ((srv_error \<times> srv_state) + srv_state) option" where
  "run_iter_bw_server wait inner fuel clean c env =
     (case srv_loop wait inner fuel c env (srv_init c) of
        None \<Rightarrow> None
      | Some (Inl (Srv_division, st)) \<Rightarrow> Some (Inl (Srv_division, st))
      | Some r \<Rightarrow>
          let st = (case r of Inl (_, st) \<Rightarrow> st | Inr st \<Rightarrow> st) in
          if \<not> r_send_rcredit c then Some r
          else (case clean_scq_credit clean env (r_clk st) (tot_scredit st) st of
                  None \<Rightarrow> None
                | Some ok \<Rightarrow> Some (if ok then r else Inl (Srv_FAILURE, st))))"

section \<open>Accounting of the receive requests\<close>

text \<open>
  The receive queue of \<open>q\<close> is as full as the program keeps it: fewer than \<open>recv_post_list\<close> consumed requests
  wait to be posted again, or enough for the rest of the test are posted already.
\<close>

definition ring_full :: "srv_ctx \<Rightarrow> nat \<Rightarrow> nat \<Rightarrow> bool" where
  "ring_full c pst unused \<longleftrightarrow> unused < recv_post_list (sp c) \<or>
     test_type (sp c) = ITERATIONS \<and> iters (sp c) < pst + recv_post_list (sp c) \<or> use_unsolicited_write (sp c)"

definition log_entry_ok :: "srv_ctx \<Rightarrow> nat list \<Rightarrow> nat \<times> nat \<times> nat \<Rightarrow> bool" where
  "log_entry_ok c rs = (\<lambda>(q, r, pst). q < num_of_qps (sp c) \<and> r \<le> rs ! q \<and>
     (\<exists>unused. pst + unused = ctx_rposted c + r \<and> ring_full c pst unused))"

definition srv_books :: "srv_ctx \<Rightarrow> srv_state \<Rightarrow> bool" where
  "srv_books c st \<longleftrightarrow>
     length (rcnt_for_qp st) = num_of_qps (sp c) \<and> length (unused_recv_for_qp st) = num_of_qps (sp c) \<and>
     length (posted_per_qp st) = num_of_qps (sp c) \<and>
     (\<forall>q < num_of_qps (sp c). posted_per_qp st ! q + unused_recv_for_qp st ! q = ctx_rposted c + rcnt_for_qp st ! q) \<and>
     rcnt st = sum_list (rcnt_for_qp st) \<and> (\<forall>x \<in> set (scredit_for_qp st). x \<le> int (tx_depth (sp c))) \<and>
     (test_type (sp c) = ITERATIONS \<longrightarrow> r_iters st = iters (sp c)) \<and>
     list_all (log_entry_ok c (rcnt_for_qp st)) (credit_log st)"

definition srv_full :: "srv_ctx \<Rightarrow> srv_state \<Rightarrow> bool" where
  "srv_full c st \<longleftrightarrow> (\<forall>q < num_of_qps (sp c). ring_full c (posted_per_qp st ! q) (unused_recv_for_qp st ! q))"

text \<open>The part of the state these facts are about.\<close>

definition srv_core :: "srv_state \<Rightarrow> nat \<times> nat list \<times> nat list \<times> nat list \<times> int list \<times> nat \<times> (nat \<times> nat \<times> nat) list" where
  "srv_core st = (rcnt st, rcnt_for_qp st, unused_recv_for_qp st, posted_per_qp st, scredit_for_qp st, r_iters st, credit_log st)"

lemma books_core: "srv_core st' = srv_core st \<Longrightarrow> srv_books c st' = srv_books c st \<and> srv_full c st' = srv_full c st"
  by (simp add: srv_core_def srv_books_def srv_full_def)

lemma srv_core_neutral [simp]:
  "srv_core (st\<lparr> r_clk := t \<rparr>) = srv_core st" "srv_core (st\<lparr> ctrl_buf := b \<rparr>) = srv_core st"
  "srv_core (next_recv_flow c st) = srv_core st" "srv_core (move_recv_addr c w st) = srv_core st"
  by (simp_all add: srv_core_def next_recv_flow_def move_recv_addr_def Let_def)

lemma log_entry_grows:
  "log_entry_ok c rs e \<Longrightarrow> q < length rs \<Longrightarrow> log_entry_ok c (rs[q := rs ! q + 1]) e"
  by (cases e; cases "fst e = q") (auto simp: log_entry_ok_def nth_list_update)

lemma count_message_books:
  assumes "srv_books c st" "q < num_of_qps (sp c)"
  shows "srv_books c (count_message c env q st)"
proof -
  have "sum_list ((rcnt_for_qp st)[q := rcnt_for_qp st ! q + 1]) = sum_list (rcnt_for_qp st) + 1"
    using assms by (simp add: srv_books_def sum_list_update)
  moreover have "list_all (log_entry_ok c ((rcnt_for_qp st)[q := rcnt_for_qp st ! q + 1])) (credit_log st)"
    using assms log_entry_grows by (fastforce simp: srv_books_def list_all_iff)
  ultimately show ?thesis using assms
    by (auto simp: srv_books_def count_message_def Let_def nth_list_update)
qed

text \<open>After a message has been counted on \<open>q\<close>, the other queues are as full as before.\<close>

lemma count_message_full:
  "srv_full c st \<Longrightarrow> p < num_of_qps (sp c) \<Longrightarrow> p \<noteq> q \<Longrightarrow>
   ring_full c (posted_per_qp (count_message c env q st) ! p) (unused_recv_for_qp (count_message c env q st) ! p)"
  by (simp add: srv_full_def count_message_def Let_def)

lemma repost_recv_books:
  assumes b: "srv_books c st" and q: "w_qp w < num_of_qps (sp c)" and r: "repost_recv c env w st = Inr st'"
  shows "srv_books c st'"
proof (cases "recv_due c st (w_qp w)")
  case True
  let ?q = "w_qp w" and ?k = "recv_post_list (sp c)"
  define st1 where "st1 = st\<lparr> unused_recv_for_qp := (unused_recv_for_qp st)[?q := unused_recv_for_qp st ! ?q - ?k], r_clk := r_clk st + 1 \<rparr>"
  define st2 where "st2 = move_recv_addr c w (next_recv_flow c st1)"
  have core: "srv_core st2 = srv_core st1" by (simp add: st2_def)
  from True r have st': "st' = st2\<lparr> posted_per_qp := (posted_per_qp st2)[?q := posted_per_qp st2 ! ?q + ?k] \<rparr>"
    by (auto simp: repost_recv_def Let_def st1_def st2_def split: if_splits)
  have "?k \<le> unused_recv_for_qp st ! ?q" using True by (simp add: recv_due_def)
  with b q core show ?thesis unfolding st'
    by (auto simp: srv_books_def srv_core_def st1_def nth_list_update)
next
  case False
  with r b show ?thesis by (simp add: repost_recv_def Let_def)
qed

lemma repost_recv_full:
  assumes b: "srv_books c st" and q: "w_qp w < num_of_qps (sp c)" and r: "repost_recv c env w st = Inr st'"
    and others: "\<And>p. p < num_of_qps (sp c) \<Longrightarrow> p \<noteq> w_qp w \<Longrightarrow> ring_full c (posted_per_qp st ! p) (unused_recv_for_qp st ! p)"
    and few: "ring_full c (posted_per_qp st ! w_qp w) (unused_recv_for_qp st ! w_qp w - 1)"
    and k: "0 < recv_post_list (sp c)"
  shows "srv_full c st'"
proof (cases "recv_due c st (w_qp w)")
  case True
  let ?q = "w_qp w" and ?k = "recv_post_list (sp c)"
  define st1 where "st1 = st\<lparr> unused_recv_for_qp := (unused_recv_for_qp st)[?q := unused_recv_for_qp st ! ?q - ?k], r_clk := r_clk st + 1 \<rparr>"
  define st2 where "st2 = move_recv_addr c w (next_recv_flow c st1)"
  have core: "srv_core st2 = srv_core st1" by (simp add: st2_def)
  from True r have st': "st' = st2\<lparr> posted_per_qp := (posted_per_qp st2)[?q := posted_per_qp st2 ! ?q + ?k] \<rparr>"
    by (auto simp: repost_recv_def Let_def st1_def st2_def split: if_splits)
  have fresh: "ring_full c (posted_per_qp st ! ?q + ?k) (unused_recv_for_qp st ! ?q - ?k)"
    using few k True b by (auto simp: ring_full_def recv_due_def srv_books_def)
  show ?thesis unfolding st' srv_full_def
  proof (intro allI impI)
    fix p assume "p < num_of_qps (sp c)"
    with fresh others [of p] b q core show "ring_full c (posted_per_qp (st2\<lparr> posted_per_qp := (posted_per_qp st2)[?q := posted_per_qp st2 ! ?q + ?k] \<rparr>) ! p)
        (unused_recv_for_qp (st2\<lparr> posted_per_qp := (posted_per_qp st2)[?q := posted_per_qp st2 ! ?q + ?k] \<rparr>) ! p)"
      by (cases "p = ?q") (auto simp: srv_books_def srv_core_def st1_def)
  qed
next
  case False
  with r have st': "st' = st" by (simp add: repost_recv_def Let_def)
  have "ring_full c (posted_per_qp st ! w_qp w) (unused_recv_for_qp st ! w_qp w)"
    using False b by (cases "test_type (sp c)") (auto simp: recv_due_def ring_full_def srv_books_def)
  with others show ?thesis unfolding st' srv_full_def by metis
qed

text \<open>Waiting for send completions changes nothing but the count of outstanding credit writes, which only falls.\<close>

definition same_receive_side :: "srv_state \<Rightarrow> srv_state \<Rightarrow> bool" where
  "same_receive_side st st' \<longleftrightarrow> rcnt st' = rcnt st \<and> rcnt_for_qp st' = rcnt_for_qp st \<and> unused_recv_for_qp st' = unused_recv_for_qp st \<and>
     posted_per_qp st' = posted_per_qp st \<and> r_iters st' = r_iters st \<and> credit_log st' = credit_log st \<and>
     length (scredit_for_qp st') = length (scredit_for_qp st) \<and>
     (\<forall>b. (\<forall>x \<in> set (scredit_for_qp st). x \<le> b) \<longrightarrow> (\<forall>x \<in> set (scredit_for_qp st'). x \<le> b))"

lemma same_side_books: "same_receive_side st st' \<Longrightarrow> srv_books c st \<Longrightarrow> srv_books c st'"
  by (simp add: same_receive_side_def srv_books_def)

lemma same_side_full: "same_receive_side st st' \<Longrightarrow> srv_full c st \<Longrightarrow> srv_full c st'"
  by (simp add: same_receive_side_def srv_full_def)

lemma same_side_trans: "same_receive_side a b \<Longrightarrow> same_receive_side b d \<Longrightarrow> same_receive_side a d"
  by (simp add: same_receive_side_def)

lemma update_smaller: "\<forall>x \<in> set xs. x \<le> (b :: int) \<Longrightarrow> \<forall>x \<in> set (xs[q := xs ! q - 1]). x \<le> b"
  by (cases "q < length xs") (force simp: set_conv_nth nth_list_update list_update_beyond)+

lemma same_side_send: "same_receive_side st (st\<lparr> scredit_for_qp := (scredit_for_qp st)[q := scredit_for_qp st ! q - 1], tot_scredit := n \<rparr>)"
  using update_smaller [of "scredit_for_qp st"] by (simp add: same_receive_side_def)

lemma same_side_clk: "same_receive_side st (st\<lparr> r_clk := t \<rparr>)" "same_receive_side st (st\<lparr> ctrl_buf := b \<rparr>)"
  by (simp_all add: same_receive_side_def)

text \<open>The state in which a step ends, whether it failed or not.\<close>

fun end_state :: "((srv_error \<times> srv_state) + srv_state) \<Rightarrow> srv_state" where
  "end_state (Inl (e, st)) = st" | "end_state (Inr st) = st"

lemma take_send_same: "same_receive_side st (end_state (take_send_wcs ws st))"
proof (induction ws st rule: take_send_wcs.induct)
  case (2 q ok ws st)
  let ?s = "st\<lparr> scredit_for_qp := (scredit_for_qp st)[q := scredit_for_qp st ! q - 1], tot_scredit := tot_scredit st - 1 \<rparr>"
  show ?case
  proof (cases ok)
    case True
    with 2 have "same_receive_side ?s (end_state (take_send_wcs ws ?s))" by simp
    from same_side_trans [OF same_side_send this] True show ?thesis by simp
  qed (simp add: same_receive_side_def)
qed (simp add: same_receive_side_def)

lemma wait_send_same: "wait_send_room fuel c env q st = Some r \<Longrightarrow> same_receive_side st (end_state r)"
proof (induction fuel arbitrary: st)
  case 0
  then show ?case by (subst (asm) wait_send_room.simps) (auto simp: same_receive_side_def split: if_splits)
next
  case (Suc f)
  show ?case
  proof (cases "scredit_for_qp st ! q \<noteq> int (tx_depth (sp c))")
    case True
    with Suc.prems show ?thesis by (subst (asm) wait_send_room.simps) (auto simp: same_receive_side_def)
  next
    case False
    let ?s = "st\<lparr> r_clk := r_clk st + 1 \<rparr>"
    show ?thesis
    proof (cases "r_send_poll env (r_clk st) st")
      case None
      with False Suc.prems show ?thesis by (subst (asm) wait_send_room.simps) (auto simp: same_receive_side_def)
    next
      case (Some ws)
      have a: "same_receive_side st (end_state (take_send_wcs ws ?s))"
        by (rule same_side_trans [OF same_side_clk(1) take_send_same])
      from False Some Suc.prems
      have "(case take_send_wcs ws ?s of Inl e \<Rightarrow> Some (Inl e) | Inr st' \<Rightarrow> wait_send_room f c env q st') = Some r"
        by (subst (asm) wait_send_room.simps) simp
      with a Suc.IH same_side_trans show ?thesis by (cases "take_send_wcs ws ?s") fastforce+
    qed
  qed
qed

lemma wait_send_room_left: "wait_send_room fuel c env q st = Some (Inr st') \<Longrightarrow> scredit_for_qp st' ! q \<noteq> int (tx_depth (sp c))"
proof (induction fuel arbitrary: st)
  case 0
  then show ?case by (subst (asm) wait_send_room.simps) (auto split: if_splits)
next
  case (Suc f)
  from Suc.prems show ?case
    by (subst (asm) wait_send_room.simps) (auto split: if_splits option.splits sum.splits dest: Suc.IH)
qed

lemma post_credit_books:
  assumes b: "srv_books c st" and f: "srv_full c st" and q: "q < num_of_qps (sp c)"
    and len: "length (scredit_for_qp st) = num_of_qps (sp c)" and room: "scredit_for_qp st ! q \<noteq> int (tx_depth (sp c))"
    and r: "post_credit env q st = Inr st'"
  shows "srv_books c st' \<and> srv_full c st' \<and> length (scredit_for_qp st') = num_of_qps (sp c)"
proof -
  from r have st': "st' = st\<lparr> scredit_for_qp := (scredit_for_qp st)[q := scredit_for_qp st ! q + 1], tot_scredit := tot_scredit st + 1,
      credit_log := (q, rcnt_for_qp st ! q, posted_per_qp st ! q) # credit_log st, r_clk := r_clk st + 1 \<rparr>"
    by (simp add: post_credit_def split: if_splits)
  have "scredit_for_qp st ! q \<le> int (tx_depth (sp c))" using b len q by (auto simp: srv_books_def)
  then have "\<forall>x \<in> set ((scredit_for_qp st)[q := scredit_for_qp st ! q + 1]). x \<le> int (tx_depth (sp c))"
    using b room len q by (force simp: srv_books_def set_conv_nth nth_list_update)
  moreover have "log_entry_ok c (rcnt_for_qp st) (q, rcnt_for_qp st ! q, posted_per_qp st ! q)"
    using b f q by (auto simp: log_entry_ok_def srv_books_def srv_full_def)
  ultimately show ?thesis using b f len by (simp add: st' srv_books_def srv_full_def)
qed

definition srv_ok :: "srv_ctx \<Rightarrow> srv_state \<Rightarrow> bool" where
  "srv_ok c st \<longleftrightarrow> srv_books c st \<and> srv_full c st \<and> length (scredit_for_qp st) = num_of_qps (sp c)"

lemma same_side_ok: "same_receive_side st st' \<Longrightarrow> srv_ok c st \<Longrightarrow> srv_ok c st'"
  by (auto simp: srv_ok_def intro: same_side_books same_side_full) (simp add: same_receive_side_def)

text \<open>A step keeps the accounts: a successful one all of them, a failed one those of the requests.\<close>

definition keeps :: "srv_ctx \<Rightarrow> ((srv_error \<times> srv_state) + srv_state) option \<Rightarrow> bool" where
  "keeps c r \<longleftrightarrow> (\<forall>x. r = Some x \<longrightarrow> srv_books c (end_state x) \<and> (\<forall>st. x = Inr st \<longrightarrow> srv_ok c st))"

lemma send_credit_keeps:
  assumes ok: "srv_ok c st" and q: "q < num_of_qps (sp c)"
  shows "keeps c (send_credit fuel c env q st)"
proof -
  have b: "srv_books c st" using ok by (simp add: srv_ok_def)
  let ?s = "st\<lparr> ctrl_buf := (ctrl_buf st)[q := of_nat (rcnt_for_qp st ! q)] \<rparr>"
  have wait: "keeps c (case wait_send_room fuel c env q ?s of None \<Rightarrow> None | Some (Inl e) \<Rightarrow> Some (Inl e) | Some (Inr st') \<Rightarrow> Some (post_credit env q st'))"
  proof (cases "wait_send_room fuel c env q ?s")
    case (Some r)
    have same: "same_receive_side st (end_state r)" by (rule same_side_trans [OF same_side_clk(2) wait_send_same [OF Some]])
    show ?thesis
    proof (cases r)
      case (Inl e)
      with Some same same_side_books [OF _ b] show ?thesis by (cases e) (auto simp: keeps_def)
    next
      case (Inr st')
      with same have ok': "srv_ok c st'" using same_side_ok [OF _ ok] by simp
      have room: "scredit_for_qp st' ! q \<noteq> int (tx_depth (sp c))" using wait_send_room_left Some Inr by blast
      show ?thesis
      proof (cases "post_credit env q st'")
        case (Inl e)
        then have "snd e = st'" by (auto simp: post_credit_def split: if_splits)
        with Some Inr Inl ok' show ?thesis by (cases e) (auto simp: keeps_def srv_ok_def)
      next
        case i: (Inr st'')
        with post_credit_books [OF _ _ q _ room i] ok' have "srv_ok c st''" by (simp add: srv_ok_def)
        with Some Inr i show ?thesis by (auto simp: keeps_def srv_ok_def)
      qed
    qed
  qed (simp add: keeps_def)
  show ?thesis using wait ok b unfolding send_credit_def by (auto simp: keeps_def)
qed

lemma repost_scredit: "repost_recv c env w st = Inr st' \<Longrightarrow> scredit_for_qp st' = scredit_for_qp st"
proof -
  assume r: "repost_recv c env w st = Inr st'"
  have f: "scredit_for_qp (next_recv_flow c s) = scredit_for_qp s" "scredit_for_qp (move_recv_addr c w s) = scredit_for_qp s" for s
    by (simp_all add: next_recv_flow_def move_recv_addr_def Let_def)
  from r show ?thesis by (auto simp: repost_recv_def f Let_def split: if_splits)
qed

lemma count_scredit [simp]: "scredit_for_qp (count_message c env q st) = scredit_for_qp st"
  by (simp add: count_message_def Let_def)

lemma receive_one_keeps:
  assumes ok: "srv_ok c st" and q: "w_qp w < num_of_qps (sp c)" and k: "0 < recv_post_list (sp c)"
  shows "keeps c (receive_one fuel c env w st)"
proof -
  let ?s = "count_message c env (w_qp w) st"
  have b: "srv_books c ?s" using ok q by (simp add: srv_ok_def count_message_books)
  have len: "length (unused_recv_for_qp st) = num_of_qps (sp c)" using ok by (simp add: srv_ok_def srv_books_def)
  have few: "ring_full c (posted_per_qp ?s ! w_qp w) (unused_recv_for_qp ?s ! w_qp w - 1)"
    using ok q len by (simp add: srv_ok_def srv_full_def count_message_def Let_def)
  show ?thesis
  proof (cases "repost_recv c env w ?s")
    case (Inl e)
    then have "snd e = ?s" by (auto simp: repost_recv_def Let_def split: if_splits)
    with Inl b ok show ?thesis by (cases e) (auto simp: keeps_def receive_one_def srv_ok_def)
  next
    case (Inr st')
    have full: "srv_full c st" using ok by (simp add: srv_ok_def)
    have "srv_full c st'" by (rule repost_recv_full [OF b q Inr count_message_full [OF full] few k])
    moreover have "scredit_for_qp st' = scredit_for_qp st" using repost_scredit [OF Inr] by simp
    ultimately have "srv_ok c st'" using repost_recv_books [OF b q Inr] ok by (simp add: srv_ok_def)
    from send_credit_keeps [OF this q] Inr ok show ?thesis by (auto simp: receive_one_def keeps_def srv_ok_def)
  qed
qed


lemma receive_all_keeps:
  "srv_ok c st \<Longrightarrow> list_all (\<lambda>w. w_qp w < num_of_qps (sp c)) ws \<Longrightarrow> 0 < recv_post_list (sp c) \<Longrightarrow> keeps c (receive_all fuel c env ws st)"
proof (induction ws arbitrary: st)
  case Nil
  then show ?case by (simp add: keeps_def srv_ok_def)
next
  case (Cons w ws)
  then have one: "keeps c (receive_one fuel c env w st)" by (intro receive_one_keeps) simp_all
  show ?case
  proof (cases "receive_one fuel c env w st")
    case (Some x)
    show ?thesis
    proof (cases x)
      case (Inr st')
      with Some one have "srv_ok c st'" by (simp add: keeps_def)
      with Cons Some Inr show ?thesis by simp
    qed (use Some one in \<open>simp add: keeps_def\<close>)
  qed (simp add: keeps_def)
qed

text \<open>The device reports only completions of the program's own queue pairs.\<close>

definition own_qps :: "srv_ctx \<Rightarrow> srv_env \<Rightarrow> bool" where
  "own_qps c env \<longleftrightarrow> (\<forall>t st k ws. r_poll env t st k = Some ws \<longrightarrow> list_all (\<lambda>w. w_qp w < num_of_qps (sp c)) ws)"

lemma ok_core: "srv_core st' = srv_core st \<Longrightarrow> srv_ok c st \<Longrightarrow> srv_ok c st'"
  using books_core [of st' st c] by (simp add: srv_ok_def srv_core_def)

lemma first_packet_ok: "srv_ok c st \<Longrightarrow> srv_ok c (set_on_first_rx_packet c st)"
  by (auto simp: set_on_first_rx_packet_def srv_ok_def srv_books_def srv_full_def)

text \<open>The inner loop keeps the accounts.\<close>

definition drain_keeps :: "srv_ctx \<Rightarrow> ((srv_error \<times> srv_state) + srv_state \<times> bool) option \<Rightarrow> bool" where
  "drain_keeps c r \<longleftrightarrow> (case r of Some (Inl (e, st)) \<Rightarrow> srv_books c st | Some (Inr (st, b)) \<Rightarrow> srv_ok c st | None \<Rightarrow> True)"

lemma drain_keeps_simps [simp]:
  "drain_keeps c None" "drain_keeps c (Some (Inl (e, st))) = srv_books c st" "drain_keeps c (Some (Inr (st, b))) = srv_ok c st"
  by (simp_all add: drain_keeps_def)

lemma drain_recv_keeps:
  assumes own: "own_qps c env" and k: "0 < recv_post_list (sp c)"
  shows "srv_ok c st \<Longrightarrow> drain_keeps c (drain_recv wait fuel c env st)"
proof (induction fuel arbitrary: st)
  case 0
  have "srv_ok c (st\<lparr> r_clk := r_clk st + 1 \<rparr>)" by (rule ok_core [OF _ 0]) simp
  then show ?case by (subst drain_recv.simps) simp
next
  case (Suc f)
  show ?case
  proof (cases "test_type (sp c) = DURATION \<and> r_dstate env (r_clk st) = END_STATE")
    case True
    have "srv_ok c (st\<lparr> r_clk := r_clk st + 1 \<rparr>)" by (rule ok_core [OF _ Suc.prems]) simp
    with True show ?thesis by (subst drain_recv.simps) simp
  next
    case False
    define ans where "ans = r_poll env (r_clk st) st (curr_size (dstate (r_dyn st)))"
    obtain n' dyn' en' where p: "poll_completions (r_dyn st) (\<lambda>_. case ans of None \<Rightarrow> -1 | Some ws \<Rightarrow> int (length ws)) (rcnt st) (r_dyn_en st) = (n', dyn', en')"
      by (metis prod_cases3)
    define st1 where "st1 = st\<lparr> r_ne := n', r_dyn := dyn', r_dyn_en := en', r_clk := r_clk st + 1 \<rparr>"
    have ok1: "srv_ok c st1" unfolding st1_def by (rule ok_core [OF _ Suc.prems]) (simp add: srv_core_def)
    have step: "drain_recv wait (Suc f) c env st =
      (case ans of None \<Rightarrow> Some (Inl (Srv_FAILURE, st1)) | Some [] \<Rightarrow> Some (Inr (st1, True))
        | Some ws \<Rightarrow> (case receive_all wait c env ws (set_on_first_rx_packet c st1) of
             None \<Rightarrow> None | Some (Inl e) \<Rightarrow> Some (Inl e) | Some (Inr st2) \<Rightarrow> drain_recv wait f c env st2))"
      using False p unfolding st1_def by (subst drain_recv.simps) (auto simp: ans_def [symmetric] Let_def simp del: receive_all.simps split: option.split list.split)
    show ?thesis
    proof (cases ans)
      case None
      with step ok1 show ?thesis by (simp add: srv_ok_def)
    next
      case (Some ws)
      from own Some have "list_all (\<lambda>w. w_qp w < num_of_qps (sp c)) ws" unfolding own_qps_def ans_def by blast
      from receive_all_keeps [OF first_packet_ok [OF ok1] this k]
      have all: "keeps c (receive_all wait c env ws (set_on_first_rx_packet c st1))" .
      show ?thesis
      proof (cases ws)
        case Nil
        with Some step ok1 show ?thesis by simp
      next
        case (Cons a b)
        with Some step have eq: "drain_recv wait (Suc f) c env st =
          (case receive_all wait c env ws (set_on_first_rx_packet c st1) of
             None \<Rightarrow> None | Some (Inl e) \<Rightarrow> Some (Inl e) | Some (Inr st2) \<Rightarrow> drain_recv wait f c env st2)"
          by (simp del: receive_all.simps)
        show ?thesis unfolding eq using all Suc.IH
          by (auto simp: keeps_def simp del: receive_all.simps split: option.splits sum.splits)
      qed
    qed
  qed
qed

lemma srv_loop_keeps:
  assumes own: "own_qps c env" and k: "0 < recv_post_list (sp c)"
  shows "srv_ok c st \<Longrightarrow> keeps c (srv_loop wait inner fuel c env st)"
proof (induction fuel arbitrary: st)
  case 0
  then show ?case by (subst srv_loop.simps) (simp add: keeps_def srv_ok_def)
next
  case (Suc f)
  have tick: "srv_ok c s \<Longrightarrow> srv_ok c (s\<lparr> r_clk := t \<rparr>)" for s t by (erule ok_core [rotated]) simp
  from drain_recv_keeps [OF own k tick [OF Suc.prems]]
  have d: "drain_keeps c (drain_recv wait inner c env (st\<lparr> r_clk := r_clk st + 1 \<rparr>))" .
  have leaf: "keeps c (Some (Inl (e, s)))" if "srv_books c s" for e s using that by (simp add: keeps_def)
  have fin: "keeps c (Some (Inr s))" if "srv_ok c s" for s using that by (simp add: keeps_def srv_ok_def)
  have rest: "keeps c (case drain_recv wait inner c env (st\<lparr> r_clk := r_clk st + 1 \<rparr>) of
                       None \<Rightarrow> None
                     | Some (Inl e) \<Rightarrow> Some (Inl e)
                     | Some (Inr (st1, idle)) \<Rightarrow>
                         if idle \<and> r_to_exit env (r_clk st1) then Some (Inl (Srv_FAILURE, st1))
                         else srv_loop wait inner f c env (st1\<lparr> r_clk := r_clk st1 + 1 \<rparr>))"
  proof (cases "drain_recv wait inner c env (st\<lparr> r_clk := r_clk st + 1 \<rparr>)")
    case (Some x)
    show ?thesis
    proof (cases x)
      case (Inl e)
      with Some d show ?thesis by (cases e) (simp add: leaf)
    next
      case (Inr y)
      then obtain st1 idle where y: "y = (st1, idle)" by (cases y)
      with Inr Some d have "srv_ok c st1" by simp
      with Some Inr y Suc.IH [OF tick] leaf show ?thesis by (simp add: srv_ok_def)
    qed
  qed (simp add: keeps_def)
  have "srv_books c st" using Suc.prems by (simp add: srv_ok_def)
  with rest leaf fin [OF Suc.prems] show ?case by (subst srv_loop.simps) simp
qed

lemma srv_init_ok: "0 < recv_post_list (sp c) \<Longrightarrow> srv_ok c (srv_init c)"
  by (auto simp: srv_ok_def srv_books_def srv_full_def srv_init_def ring_full_def Let_def sum_list_replicate)

lemma srv_loop_exit: "srv_loop wait inner fuel c env st = Some (Inr st') \<Longrightarrow> \<not> srv_running c env st'"
proof (induction fuel arbitrary: st)
  case 0
  then show ?case by (subst (asm) srv_loop.simps) (auto split: if_splits)
next
  case (Suc f)
  from Suc.prems show ?case
    by (subst (asm) srv_loop.simps) (auto split: if_splits option.splits sum.splits dest: Suc.IH)
qed

text \<open>A run ends in the state of its loop; waiting for the last credit writes can only turn success into failure.\<close>

lemma run_server_cases:
  assumes "run_iter_bw_server wait inner fuel clean c env = Some r"
  obtains r0 where "srv_loop wait inner fuel c env (srv_init c) = Some r0" "r = r0 \<or> r = Inl (Srv_FAILURE, end_state r0)"
proof -
  from assms obtain r0 where l: "srv_loop wait inner fuel c env (srv_init c) = Some r0"
    by (auto simp: run_iter_bw_server_def split: option.splits)
  moreover have "(case r0 of Inl (_, st) \<Rightarrow> st | Inr st \<Rightarrow> st) = end_state r0" by (cases r0) auto
  ultimately have "r = r0 \<or> r = Inl (Srv_FAILURE, end_state r0)"
    using assms by (auto simp: run_iter_bw_server_def Let_def split: option.splits sum.splits srv_error.splits if_splits)
  with l that show ?thesis by blast
qed

lemma run_server_keeps:
  assumes "own_qps c env" "0 < recv_post_list (sp c)" "run_iter_bw_server wait inner fuel clean c env = Some r"
  shows "srv_books c (end_state r)"
  using assms(3)
proof (cases rule: run_server_cases)
  case (1 r0)
  from srv_loop_keeps [OF assms(1,2) srv_init_ok [OF assms(2)], of wait inner fuel] 1(1)
  have "srv_books c (end_state r0)" by (simp add: keeps_def)
  with 1(2) show ?thesis by auto
qed

lemma run_server_done:
  assumes "own_qps c env" "0 < recv_post_list (sp c)" "run_iter_bw_server wait inner fuel clean c env = Some (Inr st)"
  shows "srv_ok c st \<and> srv_tot_iters c \<le> rcnt st"
  using assms(3)
proof (cases rule: run_server_cases)
  case (1 r0)
  then have l: "srv_loop wait inner fuel c env (srv_init c) = Some (Inr st)" by simp
  with srv_loop_keeps [OF assms(1,2) srv_init_ok [OF assms(2)], of wait inner fuel] have "srv_ok c st" by (simp add: keeps_def)
  with srv_loop_exit [OF l] show ?thesis by (simp add: srv_running_def)
qed

text \<open>
  With fewer than three receive requests the interval between credits is zero, and the first message
  divides by it.
\<close>

lemma small_rx_depth_divides_by_zero:
  assumes "r_send_rcredit c" "rx_depth (sp c) < 3" "check_message c w"
    and "repost_recv c env w (count_message c env (w_qp w) st) = Inr st'"
  shows "receive_one fuel c env w st = Some (Inl (Srv_division, st'))"
  using assms by (simp add: receive_one_def send_credit_def credit_cnt_def)

section \<open>Properties\<close>

text \<open>
  C9. Accounts of the receiver: whatever the device reports about its queue pairs, and however the run
  ends, every receive request is posted or waiting to be posted again, every message is counted once, no
  queue pair has more than \<open>tx_depth\<close> credit writes outstanding, and every credit that was returned was
  backed by posted requests.  A run that succeeds has received all its messages and leaves fewer than
  \<open>recv_post_list\<close> requests of a queue pair unposted, unless the test needs no more of them.
\<close>

theorem receive_queues_accounted:
  assumes "own_qps c env" "0 < recv_post_list (sp c)" "run_iter_bw_server wait inner fuel clean c env = Some r"
  shows "rcnt (end_state r) = sum_list (rcnt_for_qp (end_state r)) \<and>
    (\<forall>q < num_of_qps (sp c). posted_per_qp (end_state r) ! q + unused_recv_for_qp (end_state r) ! q =
       ctx_rposted c + rcnt_for_qp (end_state r) ! q) \<and>
    (\<forall>x \<in> set (scredit_for_qp (end_state r)). x \<le> int (tx_depth (sp c))) \<and>
    list_all (log_entry_ok c (rcnt_for_qp (end_state r))) (credit_log (end_state r)) \<and>
    (\<forall>st. r = Inr st \<longrightarrow> srv_tot_iters c \<le> rcnt st \<and>
       (\<forall>q < num_of_qps (sp c). ring_full c (posted_per_qp st ! q) (unused_recv_for_qp st ! q)))"
proof -
  have "srv_ok c st \<and> srv_tot_iters c \<le> rcnt st" if "r = Inr st" for st
    using run_server_done [OF assms(1,2)] assms(3) that by blast
  then have "\<forall>st. r = Inr st \<longrightarrow> srv_tot_iters c \<le> rcnt st \<and> srv_full c st" by (simp add: srv_ok_def)
  with run_server_keeps [OF assms] show ?thesis unfolding srv_books_def srv_full_def by blast
qed

text \<open>A receiver of two messages over one queue pair, which return a credit each.\<close>

definition demo_server :: srv_ctx where
  "demo_server = \<lparr> sp = basic_params\<lparr> verb := SEND, machine := SERVER, rx_depth := 3, iters := 2 \<rparr>, r_send_rcredit = True, ctx_rposted = 3,
     imm_verifiable = False, rx_buffer_addr = \<lambda>_. 4096, r_recv_addr0 = \<lambda>_. 4096, r_port_by_qp = \<lambda>_. 0 \<rparr>"

definition demo_messages :: srv_env where
  "demo_messages = \<lparr> r_notify_ok = \<lambda>_. True, r_dstate = \<lambda>_. START_STATE,
     r_poll = \<lambda>t st k. Some (if rcnt st < 2 then [\<lparr> w_qp = 0, w_index = 0, w_ok = True, w_with_imm = False, w_imm = 0 \<rparr>] else []),
     r_post_recv_ok = \<lambda>_. True, r_post_send_ok = \<lambda>_. True, r_send_poll = \<lambda>t st. Some [(0, True)], r_to_exit = \<lambda>_. False \<rparr>"

lemma demo_server_own: "own_qps demo_server demo_messages"
  by (auto simp: own_qps_def demo_server_def demo_messages_def basic_params_def split: if_splits)

lemma demo_server_run:
  "(case run_iter_bw_server 5 5 5 5 demo_server demo_messages of Some (Inr st) \<Rightarrow> (rcnt st, credit_log st) | _ \<Rightarrow> (0, [])) = (2, [(0, 2, 3), (0, 1, 3)])"
  by code_simp

theorem receive_queues_accounted_witness:
  "\<exists>st. run_iter_bw_server 5 5 5 5 demo_server demo_messages = Some (Inr st) \<and> posted_per_qp st ! 0 + unused_recv_for_qp st ! 0 = 3 + rcnt_for_qp st ! 0"
proof -
  from demo_server_run obtain st where r: "run_iter_bw_server 5 5 5 5 demo_server demo_messages = Some (Inr st)"
    by (auto split: option.splits sum.splits)
  from receive_queues_accounted [OF demo_server_own _ r] r show ?thesis
    by (simp add: demo_server_def basic_params_def)
qed

end
