(* ===== verification/Credit_Flow.thy ===== *)
theory Credit_Flow
  imports Bw_Server
begin

text \<open>
  The sender of \<open>Bw_Client\<close> and the receiver of \<open>Bw_Server\<close> together: receiver credits, on transports
  where a message that finds no receive request is lost.
\<close>

section \<open>Credits and the sender's window\<close>

text \<open>
  A credit the sender may read: the initial zero, with the requests posted before the test, or a count
  the receiver has written, with the requests posted by then.
\<close>

definition credit_source :: "srv_ctx \<Rightarrow> ((srv_error \<times> srv_state) + srv_state) \<Rightarrow> nat \<Rightarrow> nat \<Rightarrow> nat \<Rightarrow> bool" where
  "credit_source c res q r pst \<longleftrightarrow> r = 0 \<and> pst = ctx_rposted c \<or> (q, r, pst) \<in> set (credit_log (end_state res))"

lemma credit_source_backed:
  assumes "own_qps c env" "0 < recv_post_list (sp c)" "run_iter_bw_server wait inner fuel clean c env = Some res"
    and "\<not> use_unsolicited_write (sp c)" "credit_source c res q r pst"
  shows "ctx_rposted c + r < pst + recv_post_list (sp c) \<or> test_type (sp c) = ITERATIONS \<and> iters (sp c) < pst + recv_post_list (sp c)"
  using assms(5) unfolding credit_source_def
proof (elim disjE)
  assume "(q, r, pst) \<in> set (credit_log (end_state res))"
  with run_server_keeps [OF assms(1-3)] have "log_entry_ok c (rcnt_for_qp (end_state res)) (q, r, pst)"
    by (auto simp: srv_books_def list_all_iff)
  with assms(4) show ?thesis by (auto simp: log_entry_ok_def ring_full_def)
qed (use assms(2) in simp)

text \<open>The 32-bit window test of the sender, read as natural numbers.\<close>

lemma window_exact:
  assumes "(of_nat n :: u32) - of_nat r < of_nat d" "r \<le> n" "n < 2 ^ 32" "d < 2 ^ 32"
  shows "n < d + r"
proof -
  have "unat ((of_nat n :: u32) - of_nat r) = n - r"
    using assms(2,3) by (simp add: unat_sub_exact unat_of_nat)
  with assms show ?thesis by (simp add: word_less_nat_alt unat_of_nat)
qed

text \<open>
  C10. Receiver credits bound how far the sender can run ahead of the receiver: whenever the sender posts on the strength of a
  credit the receiver wrote, the messages sent by then exceed the receive requests posted by then by at most
  \<open>recv_post_list - 2 + rx_depth mod recv_post_list\<close>, or enough requests for the whole test are posted.  With single receives
  the messages are therefore always fewer than the requests.  (Both sides use the same \<open>rx_depth\<close>, the receiver neither a
  shared receive queue nor unsolicited writes, and the counts stay below \<open>2 ^ 32\<close>.)
\<close>

theorem credits_prevent_overrun:
  assumes "honest_device c env" "run_iter_bw inner fuel c env = Some r" "e \<in> set (posts (final_state r))" "send_rcredit c"
    and "own_qps sc senv" "0 < recv_post_list (sp sc)" "run_iter_bw_server wait inner' fuel' clean sc senv = Some res"
    and "rx_depth (sp sc) = rx_depth (bp c)" "rx_depth (bp c) < 2 ^ 32" "ctx_rposted sc = rposted (sp sc)"
    and "\<not> use_srq (sp sc)" "\<not> use_unsolicited_write (sp sc)"
    and "credit_source sc res (pe_qp e) n pst" "pe_credit e = of_nat n" "n \<le> pe_scnt e" "pe_scnt e + post_list (bp c) < 2 ^ 32"
  shows "pe_scnt e + post_list (bp c) + 2 \<le> pst + recv_post_list (sp sc) + rx_depth (bp c) mod recv_post_list (sp sc) \<or>
    test_type (sp sc) = ITERATIONS \<and> iters (sp sc) < pst + recv_post_list (sp sc)"
proof -
  let ?k = "recv_post_list (sp sc)" and ?d = "rx_depth (bp c)"
  have "(of_nat (pe_scnt e + post_list (bp c)) :: u32) - pe_credit e < of_nat ?d"
    using posts_in_window [OF assms(1-3)] assms(4) by (simp add: in_window_def)
  with assms(9,14-16) have w: "pe_scnt e + post_list (bp c) < ?d + n" by (intro window_exact) simp_all
  have "rposted (sp sc) + ?d mod ?k = ?d"
    using assms(8,11) by (simp add: rposted_def size_per_qp_def)
  with w assms(10) credit_source_backed [OF assms(5-7,12,13)] show ?thesis by linarith
qed

text \<open>A test whose messages exceed half the cycle buffer, so that addresses stay fixed.\<close>

definition demo_sender :: bw_ctx where
  "demo_sender = \<lparr> bp = basic_params\<lparr> verb := SEND, rx_depth := 3, iters := 9, tx_depth := 2, up_size := 3, cycle_buffer := 2 \<rparr>, send_rcredit = True,
     my_addr = \<lambda>_. 4096, rem_addr = \<lambda>_. 8192, port_by_qp = \<lambda>_. 0 \<rparr>"

definition demo_receiver :: srv_ctx where
  "demo_receiver = demo_server\<lparr> sp := (sp demo_server)\<lparr> iters := 9, up_size := 3, cycle_buffer := 2 \<rparr> \<rparr>"

text \<open>Devices that break down: the sender's at the first poll, the receiver's after one message.\<close>

definition demo_device :: bw_env where
  "demo_device = \<lparr> e_cycles = \<lambda>t. t, e_gap = 0, e_credit = \<lambda>t i. 1, e_dstate = \<lambda>t. START_STATE, e_post_ok = \<lambda>t. True,
     e_notify_ok = \<lambda>t. True, e_poll = \<lambda>t st k. None \<rparr>"

definition demo_breakdown :: srv_env where
  "demo_breakdown = demo_messages\<lparr> r_poll := \<lambda>t st k. if rcnt st = 0 then r_poll demo_messages t st k else None \<rparr>"

lemma demo_sender_run:
  "(case run_iter_bw 4 4 demo_sender demo_device of Some (Inl st) \<Rightarrow> map (\<lambda>e. (pe_qp e, pe_scnt e, pe_credit e)) (posts st) | _ \<Rightarrow> []) =
   [(0, 1, 1), (0, 0, 1)]"
  by code_simp

lemma demo_receiver_run:
  "(case run_iter_bw_server 5 5 5 5 demo_receiver demo_breakdown of Some (Inl (e, st)) \<Rightarrow> credit_log st | _ \<Rightarrow> []) = [(0, 1, 4)]"
  by code_simp

lemma demo_receiver_own: "own_qps demo_receiver demo_breakdown"
  by (auto simp: own_qps_def demo_receiver_def demo_server_def demo_breakdown_def demo_messages_def basic_params_def split: if_splits)

theorem credits_prevent_overrun_witness:
  "\<exists>st e. run_iter_bw 4 4 demo_sender demo_device = Some (Inl st) \<and> e \<in> set (posts st) \<and> pe_scnt e = 1 \<and> pe_scnt e + 1 + 2 \<le> (4 :: nat) + 1"
proof -
  from demo_sender_run obtain st where r: "run_iter_bw 4 4 demo_sender demo_device = Some (Inl st)"
    and p: "map (\<lambda>e. (pe_qp e, pe_scnt e, pe_credit e)) (posts st) = [(0, 1, 1), (0, 0, 1)]"
    by (auto split: option.splits sum.splits)
  from p obtain e where e: "e \<in> set (posts st)" "pe_qp e = 0" "pe_scnt e = 1" "pe_credit e = 1" by (cases "posts st") auto
  from demo_receiver_run obtain er sst where s: "run_iter_bw_server 5 5 5 5 demo_receiver demo_breakdown = Some (Inl (er, sst))"
    and l: "credit_log sst = [(0, 1, 4)]" by (auto split: option.splits sum.splits prod.splits)
  have h: "honest_device demo_sender demo_device" by (simp add: honest_device_def demo_device_def)
  have src: "credit_source demo_receiver (Inl (er, sst)) (pe_qp e) 1 4" using l e by (simp add: credit_source_def)
  have "pe_scnt e + 1 + 2 \<le> 4 + 1"
    using credits_prevent_overrun [OF h r _ _ demo_receiver_own _ s _ _ _ _ _ src] e
    by (simp add: final_state_def demo_sender_def demo_receiver_def demo_server_def basic_params_def rposted_def size_per_qp_def del: e)
  with r e show ?thesis by blast
qed

end
