(* ===== verification/Options.thy ===== *)
theory Options
  imports Complex_Main Bw_Progress Validator_Placement Validation_Common Alarms
begin

text \<open>
  Model of \<open>force_dependecies\<close> in \<^verbatim>\<open>src/src/perftest_parameters.c\<close>, which every test calls after its command
  line was read: it adapts the parameters to each other and ends the process when they do not go together.

  The function is a sequence of blocks that work on one structure; each block is a definition that
  maps the options to the adapted options, or to \<open>None\<close> when the process exits with status 1 (or
  divides by zero: zero flows), and
  \<open>force_dependecies\<close> runs them in the order of the code.  What the preprocessor and the machine decide is
  the record \<open>build_config\<close>.  The rate limit, a \<^verbatim>\<open>double\<close>, is a rational number: the code compares it with zero
  and multiplies it by powers of two.  Messages that are printed are left out.
\<close>

section \<open>Options\<close>

datatype memory_type = MEMORY_HOST | MEMORY_MMAP | MEMORY_CUDA | MEMORY_MUSA | MEMORY_ROCM | MEMORY_NEURON | MEMORY_HL
  | MEMORY_MLU | MEMORY_OPENCL | MEMORY_DM | MEMORY_SYSTEM_DMABUF

datatype gpu_touch_type = GPU_NO_TOUCH | GPU_TOUCH_ONCE | GPU_TOUCH_INFINITE

datatype verbosity_level = FULL_VERBOSITY | OUTPUT_BW | OUTPUT_MR | OUTPUT_LAT

datatype rate_limiter_units = MEGA_BYTE_PS | GIGA_BIT_PS | PACKET_PS

text \<open>
  The members of \<^verbatim>\<open>struct perftest_parameters\<close> that only the dependencies read.  The members \<open>margin\<close> and
  \<open>inline_size\<close> of the structure, which hold -1 until they are set, are \<open>margin_arg\<close> and \<open>inline_arg\<close> here.
\<close>

record perftest_options = perftest_parameters +
  margin_arg :: int
  inline_arg :: int
  req_cq_mod :: bool
  output_level :: verbosity_level
  connectionless :: bool
  use_mcg :: bool
  data_validation :: bool
  opt_validation_mode :: validation_mode
  validation_chunk_size :: u32
  validation_chunks_per_qp :: int
  memory_type :: memory_type
  has_payload_modification :: bool
  gpu_touch :: gpu_touch_type
  aes_block_size :: nat
  sig_offload :: bool
  dualport :: bool
  link_type :: int
  link_type2 :: int
  cpu_util :: bool
  cpu_util_enable :: bool
  use_rdma_cm :: bool
  use_gid_user :: bool
  is_source_mac :: bool
  is_dest_mac :: bool
  raw_mcast :: bool
  is_server_port :: bool
  is_client_port :: bool
  is_server_ip :: bool
  is_client_ip :: bool
  tcp :: bool
  opt_gid_index :: int
  tos :: int
  hop_limit :: int
  use_old_post_send :: bool
  log_dci_streams :: nat
  log_active_dci_streams :: nat
  aes_xts :: bool
  has_kek_path :: bool
  has_data_enc_key_app_path :: bool
  has_credentials_path :: bool
  encrypt_on_tx :: bool
  sig_before :: bool
  sl :: nat
  srq_exists :: bool
  typical_pkt_size :: int
  rate_limit :: rat
  rate_limit_str :: string
  rate_units :: rate_limiter_units
  valid_hw_rate_limit_index :: int
  latency_gap :: int
  scatter_to_cqe_disabled :: bool
  use_cc_unprotected :: bool
  use_odp :: bool
  use_hugepages :: bool
  use_data_direct :: bool
  use_cuda_pcie_mapping :: bool
  use_eq_num :: bool
  congest_type :: bool
  use_write_with_imm :: bool
  use_cqe_poll :: bool
  processing_hints :: int
  tph_mem_type :: int
  cpu_id :: int
  numa_node :: int
  disable_numa :: bool
  cpu_affinity_count :: nat

text \<open>
  The build and the machine: the macros of the preprocessor, whether the CPU has the vector
  instructions the build uses, whether \<^verbatim>\<open>setenv\<close> succeeds, and the constants of two libraries.
\<close>

record build_config =
  HAVE_AES_XTS :: bool
  HAVE_SIG_OFFLOAD :: bool
  HAVE_IBV_WR_API :: bool
  HAVE_DCS :: bool
  HAVE_SRD_QP_SL :: bool
  HAVE_CC_UNPROTECTED_ALLOC :: bool
  HAVE_HNSDV :: bool
  HAVE_REG_MR_EX :: bool
  host_validation_runtime_supported :: bool
  setenv_ok :: bool
  mlx5dv_block_size :: "nat \<Rightarrow> nat"
  ibv_rate :: "nat \<Rightarrow> int"

type_synonym 'o step = "'o \<Rightarrow> 'o option"

text \<open>A row of checks: the process exits when one of them fires.\<close>

definition checks :: "bool list \<Rightarrow> 'o step" where
  "checks bs o' = (if list_ex (\<lambda>b. b) bs then None else Some o')"

fun run_steps :: "'o step list \<Rightarrow> 'o step" where
  "run_steps [] x = Some x" |
  "run_steps (f # fs) x = (case f x of None \<Rightarrow> None | Some y \<Rightarrow> run_steps fs y)"

definition has_recv_comp :: "VerbType \<Rightarrow> bool" where
  "has_recv_comp v \<longleftrightarrow> v = SEND \<or> v = SEND_IMM \<or> v = WRITE_IMM"

section \<open>Depths and moderation\<close>

definition rdma_rx_depth :: "perftest_options \<Rightarrow> perftest_options" where
  "rdma_rx_depth p = (if verb p = WRITE then p\<lparr> rx_depth := 1 \<rparr> else p)"

definition cap_tx_depth :: "perftest_options \<Rightarrow> perftest_options" where
  "cap_tx_depth p = (if tx_depth p > iters p then p\<lparr> tx_depth := iters p \<rparr> else p)"

definition cap_rx_depth :: "perftest_options \<Rightarrow> perftest_options" where
  "cap_rx_depth p = (if has_recv_comp (verb p) \<and> rx_depth p > iters p then p\<lparr> rx_depth := iters p \<rparr> else p)"

definition ud_rx_depth :: "perftest_options \<Rightarrow> perftest_options" where
  "ud_rx_depth p =
     (if connection_type p = UD \<or> connection_type p = UC then
        (let p1 = (if use_srq p \<and> iters p \<le> 100 then p\<lparr> rx_depth := 100 \<rparr> else p)
         in if rx_depth p1 = 512 then p1\<lparr> rx_depth := (if iters p1 < 16000 then iters p1 else 16000) \<rparr> else p1)
      else p)"

definition set_depths :: "perftest_options step" where
  "set_depths p =
     (let p1 = rdma_rx_depth p in
      Some (if test_method p1 \<noteq> RUN_INFINITELY \<and> test_type p1 = ITERATIONS then ud_rx_depth (cap_rx_depth (cap_tx_depth p1)) else p1))"

definition large_message_cq_mod :: "perftest_options step" where
  "large_message_cq_mod p =
     Some (if up_size p > 8192 \<and> connection_type p \<noteq> UD \<and> test_method p \<noteq> RUN_ALL \<and> \<not> use_event p \<and> \<not> req_cq_mod p
           then p\<lparr> cq_mod := 1 \<rparr> else p)"

definition force_sw_rate :: "perftest_options \<Rightarrow> perftest_options" where
  "force_sw_rate p = (if tst p = LAT_BY_BW \<and> rate_limit_type p = DISABLE_RATE_LIMIT then p\<lparr> rate_limit_type := SW_RATE_LIMIT \<rparr> else p)"

definition cap_moderation :: "perftest_options \<Rightarrow> perftest_options" where
  "cap_moderation p = (if cq_mod p > tx_depth p then p\<lparr> cq_mod := tx_depth p \<rparr> else p)"

definition no_inline :: "perftest_options \<Rightarrow> perftest_options" where
  "no_inline p = (if verb p = READ \<or> verb p = ATOMIC then p\<lparr> inline_arg := 0 \<rparr> else p)"

definition all_sizes :: "perftest_options \<Rightarrow> perftest_options" where
  "all_sizes p = (if test_method p = RUN_ALL then p\<lparr> up_size := 8388608 \<rparr> else p)"

definition cap_cq_mod :: "perftest_options step" where
  "cap_cq_mod p = Some (all_sizes (no_inline (cap_moderation (force_sw_rate p))))"

definition basic_checks :: "perftest_options step" where
  "basic_checks p = checks
     [verb p = ATOMIC \<and> up_size p \<noteq> 8,
      use_srq p \<and> verb p \<noteq> SEND \<and> verb p \<noteq> SEND_IMM,
      connectionless p \<and> (machine p \<noteq> SERVER \<or> \<not> use_mcg p \<or> tst p \<noteq> BW \<or> connection_type p \<noteq> UD \<or> test_method p \<noteq> RUN_INFINITELY)] p"

section \<open>Data validation\<close>

definition validation_checks :: "build_config \<Rightarrow> perftest_options \<Rightarrow> bool list" where
  "validation_checks b p =
     [memory_type p \<noteq> MEMORY_CUDA \<and> memory_type p \<noteq> MEMORY_HOST,
      memory_type p = MEMORY_HOST \<and> \<not> host_validation_runtime_supported b,
      verb p \<noteq> WRITE \<and> verb p \<noteq> READ,
      tst p \<noteq> BW, post_list p > 1, test_method p = RUN_INFINITELY, connection_type p \<noteq> RC, mr_per_qp p,
      has_payload_modification p, test_method p = RUN_ALL, gpu_touch p \<noteq> GPU_NO_TOUCH, use_null_mr p,
      test_type p = ITERATIONS \<and> iters p < 32, tx_depth p < 32]"

text \<open>The chunk size is \<open>None\<close> only when the derivation would divide by zero, that is never with \<open>tx_depth\<close> at least 32.\<close>

definition validation_deps :: "build_config \<Rightarrow> perftest_options step" where
  "validation_deps b p =
     (if \<not> data_validation p then Some p
      else case checks (validation_checks b p) (p\<lparr> opt_validation_mode := if verb p = READ then VALIDATION_MODE_READ else VALIDATION_MODE_WRITE \<rparr>) of
             None \<Rightarrow> None
           | Some p1 \<Rightarrow>
               (case derive_validation_chunk_size (of_nat (up_size p1)) (of_nat (tx_depth p1)) of
                  None \<Rightarrow> None
                | Some vcs \<Rightarrow>
                    let p2 = p1\<lparr> validation_chunk_size := vcs \<rparr>;
                        chunk_bytes = of_nat (up_size p2) * ucast vcs
                    in Some (p2\<lparr> validation_chunks_per_qp := derive_validation_chunks_per_qp chunk_bytes (int (num_of_qps p2)) (verb p2 = READ) \<rparr>)))"

section \<open>Queues, ports and lists\<close>

definition srq_deps :: "perftest_options step" where
  "srq_deps p =
     (if connection_type p = XRC \<and> work_rdma_cm p then None
      else let p1 = (if connection_type p = XRC then p\<lparr> use_xrc := True, use_srq := True \<rparr> else p);
               p2 = (if connection_type p1 = DC \<and> \<not> use_srq p1 then p1\<lparr> use_srq := True \<rparr> else p1);
               p3 = (if connection_type p2 = DC \<and> rx_depth p2 < num_of_qps p2 then p2\<lparr> rx_depth := num_of_qps p2 \<rparr> else p2)
           in checks [use_srq p3 \<and> (verb p3 = SEND \<or> verb p3 = SEND_IMM) \<and> num_of_qps p3 > rx_depth p3] p3)"

definition offload_deps :: "build_config \<Rightarrow> perftest_options step" where
  "offload_deps b p =
     (let p1 = (if HAVE_AES_XTS b
                then p\<lparr> aes_block_size := mlx5dv_block_size b (if aes_block_size p \<in> {520, 4048, 4096, 4160} then aes_block_size p else 512) \<rparr>
                else p)
      in checks [HAVE_SIG_OFFLOAD b \<and> sig_offload p1 \<and> connection_type p1 \<noteq> RC,
                 HAVE_SIG_OFFLOAD b \<and> sig_offload p1 \<and> up_size p1 mod 512 \<noteq> 0] p1)"

definition dualport_deps :: "perftest_options step" where
  "dualport_deps p =
     (if \<not> dualport p then Some p
      else let p1 = p\<lparr> num_of_qps := num_of_qps p * 2 \<rparr>
           in checks [tst p1 \<noteq> BW, use_mcg p1] (if link_type p1 \<noteq> -2 then p1\<lparr> link_type2 := link_type p1 \<rparr> else p1))"

definition post_list_deps :: "perftest_options step" where
  "post_list_deps p =
     (if post_list p > 1 then
        (if tst p = BW \<or> tst p = LAT_BY_BW then
           (if test_type p = ITERATIONS \<and> iters p mod post_list p \<noteq> 0 then None
            else if \<not> req_cq_mod p then Some (p\<lparr> cq_mod := post_list p \<rparr>)
            else checks [post_list p mod cq_mod p \<noteq> 0] p)
         else None)
      else Some p)"

definition recv_post_list_deps :: "perftest_options step" where
  "recv_post_list_deps p =
     checks [recv_post_list p > 1 \<and> (if tst p = BW \<or> tst p = LAT_BY_BW then test_type p = ITERATIONS \<and> iters p mod recv_post_list p \<noteq> 0 else True)] p"

definition duration_deps :: "perftest_options step" where
  "duration_deps p =
     (if test_type p = DURATION
      then checks [use_event p, test_method p = RUN_ALL]
             ((p\<lparr> iters := 0, noPeak := True \<rparr>)\<lparr> cpu_util_enable := cpu_util p \<or> cpu_util_enable p \<rparr>)
      else Some p)"

section \<open>Raw Ethernet\<close>

definition flow_rules_force_dependecies :: "perftest_options step" where
  "flow_rules_force_dependecies p =
     (if flows p \<noteq> DEF_FLOWS
      then checks [\<not> is_server_port p, test_type p = ITERATIONS \<and> iters p div (flows p * flows_burst p) < 1, tst p = FS_RATE, duplex p] p
      else checks [flows_burst p > 1] p)"

definition raw_eth_checks :: "perftest_options \<Rightarrow> bool list" where
  "raw_eth_checks p =
     [test_method p = RUN_ALL, use_rdma_cm p \<or> work_rdma_cm p, use_gid_user p, memory_type p = MEMORY_MMAP, machine p = UNCHOSEN,
      \<not> is_source_mac p, \<not> is_dest_mac p \<and> (tst p = LAT \<or> machine p = CLIENT \<and> \<not> raw_mcast p),
      is_server_port p \<and> \<not> is_client_port p \<or> \<not> is_server_port p \<and> is_client_port p,
      is_server_port p \<and> (\<not> is_server_ip p \<or> \<not> is_client_ip p), tcp p \<and> \<not> is_server_port p]"

definition mac_fwd_deps :: "perftest_options step" where
  "mac_fwd_deps p =
     (let p1 = (if \<not> duplex p \<and> mac_fwd p then p\<lparr> duplex := True \<rparr> else p);
          p2 = (if mac_fwd p1 \<and> cq_mod p1 \<ge> rx_depth p1
                then p1\<lparr> cq_mod := (if rx_depth p1 < tx_depth p1 then rx_depth p1 else tx_depth p1) \<rparr> else p1)
      in checks [raw_mcast p2 \<and> duplex p2] p2)"

definition raw_eth_deps :: "perftest_options step" where
  "raw_eth_deps p =
     (if connection_type p = RawEth
      then run_steps [\<lambda>p. checks (raw_eth_checks p) p, mac_fwd_deps, flow_rules_force_dependecies] (p\<lparr> use_old_post_send := True \<rparr>)
      else Some p)"

section \<open>Connections\<close>

definition cm_deps :: "perftest_options step" where
  "cm_deps p0 =
     (let p = (if use_mcg p0 \<and> opt_gid_index p0 = -1 then p0\<lparr> opt_gid_index := 0 \<rparr> else p0) in
      case (if work_rdma_cm p
            then checks [connection_type p = UC, use_mcg p, dualport p] (p\<lparr> use_rdma_cm := True \<rparr>)
            else checks [tos p \<noteq> -1 \<and> connection_type p \<noteq> RawEth] p) of
        None \<Rightarrow> None
      | Some p1 \<Rightarrow> checks [hop_limit p1 \<noteq> 64 \<and> connection_type p1 \<noteq> RawEth] p1)"

definition mcg_deps :: "perftest_options step" where
  "mcg_deps p =
     (if use_mcg p then checks [duplex p, num_of_qps p > 1] (p\<lparr> connection_type := UD \<rparr>) else Some p)"

definition server_peak :: "perftest_options step" where
  "server_peak p = Some (if has_recv_comp (verb p) \<and> tst p = BW \<and> machine p = SERVER \<and> \<not> duplex p then p\<lparr> noPeak := True \<rparr> else p)"

definition infinite_deps :: "perftest_options step" where
  "infinite_deps p =
     (if test_method p = RUN_INFINITELY
      then checks [use_event p, tst p = LAT, duplex p \<and> has_recv_comp (verb p), rate_limit_type p \<noteq> DISABLE_RATE_LIMIT]
             (p\<lparr> noPeak := True, test_type := DURATION \<rparr>)
      else Some p)"

definition post_send_deps :: "build_config \<Rightarrow> perftest_options step" where
  "post_send_deps b p =
     (let p1 = (if \<not> use_old_post_send p \<and> \<not> HAVE_IBV_WR_API b then p\<lparr> use_old_post_send := True \<rparr> else p)
      in checks [connection_type p1 = DC \<and> use_old_post_send p1, connection_type p1 = DC \<and> work_rdma_cm p1] p1)"

definition dci_checks :: "build_config \<Rightarrow> perftest_options \<Rightarrow> bool list" where
  "dci_checks b p =
     [log_dci_streams p \<noteq> 0 \<and> (\<not> HAVE_DCS b \<or> connection_type p \<noteq> DC),
      log_active_dci_streams p > 0 \<and> (\<not> HAVE_DCS b \<or> connection_type p \<noteq> DC \<or> log_dci_streams p = 0)]"

definition aes_checks :: "build_config \<Rightarrow> perftest_options \<Rightarrow> bool list" where
  "aes_checks b p =
     (if aes_xts p
      then [\<not> HAVE_AES_XTS b, connection_type p \<noteq> RC, \<not> has_kek_path p, \<not> has_data_enc_key_app_path p, \<not> has_credentials_path p,
            use_old_post_send p, work_rdma_cm p, tst p = LAT \<and> (verb p = WRITE \<or> verb p = WRITE_IMM),
            int (up_size p) \<le> inline_arg p, sig_offload p]
      else [encrypt_on_tx p, sig_before p, has_credentials_path p, has_kek_path p, has_data_enc_key_app_path p])"

definition srd_deps :: "build_config \<Rightarrow> perftest_options step" where
  "srd_deps b p =
     (if connection_type p = SRD then checks [work_rdma_cm p, \<not> HAVE_SRD_QP_SL b \<and> sl p \<noteq> 0] (p\<lparr> cq_mod := 1 \<rparr>) else Some p)"

definition unsolicited_checks :: "perftest_options \<Rightarrow> bool list" where
  "unsolicited_checks p =
     [use_unsolicited_write p \<and> connection_type p \<noteq> SRD, use_unsolicited_write p \<and> verb p \<noteq> WRITE_IMM, use_event p \<and> verb p = WRITE]"

definition srq_exists_deps :: "perftest_options step" where
  "srq_exists_deps p =
     Some (if use_srq p \<and> (tst p = LAT \<or> machine p = SERVER \<or> duplex p) \<or> use_xrc p then p\<lparr> srq_exists := True \<rparr> else p)"

section \<open>Rate limits\<close>

definition burst_deps :: "perftest_options step" where
  "burst_deps p =
     (if burst_size p > 0 \<and> rate_limit_type p = DISABLE_RATE_LIMIT \<and> tst p \<noteq> LAT_BY_BW then None
      else let p1 = (if burst_size p = 0 \<and> rate_limit_type p \<noteq> PP_RATE_LIMIT then p\<lparr> burst_size := tx_depth p \<rparr> else p)
           in checks [typical_pkt_size p1 \<noteq> 0 \<and> rate_limit_type p1 \<noteq> PP_RATE_LIMIT] p1)"

definition RATE_VALUES :: "string list" where
  "RATE_VALUES = [''2.5'', ''5'', ''10'', ''14'', ''20'', ''25'', ''28'', ''30'', ''40'', ''50'', ''56'', ''60'', ''80'', ''100'',
     ''112'', ''120'', ''168'', ''200'', ''300'', ''400'', ''600'', ''MAX'']"

fun rate_index_from :: "nat \<Rightarrow> string list \<Rightarrow> string \<Rightarrow> nat option" where
  "rate_index_from i [] s = None" |
  "rate_index_from i (r # rs) s = (if s = r then Some i else rate_index_from (Suc i) rs s)"

definition get_gbps_str_by_ibv_rate :: "build_config \<Rightarrow> string \<Rightarrow> int \<Rightarrow> int" where
  "get_gbps_str_by_ibv_rate b s rate = (case rate_index_from 0 RATE_VALUES s of None \<Rightarrow> rate | Some i \<Rightarrow> ibv_rate b i)"

definition hw_rate_deps :: "build_config \<Rightarrow> perftest_options step" where
  "hw_rate_deps b p =
     (if use_rdma_cm p \<or> work_rdma_cm p \<or> rate_units p = PACKET_PS then None
      else let gbps = (if rate_units p = MEGA_BYTE_PS then rate_limit p * 8 * 1024 * 1024 / 1000000000 else rate_limit p)
           in if gbps > 0
              then (let ix = get_gbps_str_by_ibv_rate b (rate_limit_str p) (-1)
                    in checks [ix = -1] (p\<lparr> valid_hw_rate_limit_index := ix \<rparr>))
              else Some p)"

definition rate_deps :: "build_config \<Rightarrow> perftest_options step" where
  "rate_deps b p =
     (case rate_limit_type p of
        SW_RATE_LIMIT \<Rightarrow> checks [tst p \<noteq> BW \<or> verb p = ATOMIC \<or> (verb p = SEND \<or> verb p = SEND_IMM) \<and> duplex p] p
      | HW_RATE_LIMIT \<Rightarrow> hw_rate_deps b p
      | PP_RATE_LIMIT \<Rightarrow> checks [rate_limit p < 0, connection_type p \<noteq> RawEth, rate_units p \<noteq> MEGA_BYTE_PS] (p\<lparr> rate_limit := rate_limit p * 8 * 1024 \<rparr>)
      | DISABLE_RATE_LIMIT \<Rightarrow> Some p)"

section \<open>Output, memory and timing\<close>

definition output_checks :: "perftest_options \<Rightarrow> bool list" where
  "output_checks p =
     [tst p = LAT_BY_BW \<and> (test_type p = DURATION \<or> num_of_qps p > 1 \<or> duplex p \<or> output_level p \<noteq> FULL_VERBOSITY \<and> output_level p \<noteq> OUTPUT_LAT),
      output_level p \<noteq> FULL_VERBOSITY \<and> tst p = BW \<and> \<not> (output_level p = OUTPUT_BW \<or> output_level p = OUTPUT_MR),
      output_level p \<noteq> FULL_VERBOSITY \<and> tst p = LAT \<and> output_level p \<noteq> OUTPUT_LAT,
      latency_gap p > 0 \<and> tst p \<noteq> LAT]"

definition margin_deps :: "perftest_options step" where
  "margin_deps p = Some (if test_type p = DURATION \<and> margin_arg p = -1 then p\<lparr> margin_arg := int (duration p div 4) \<rparr> else p)"

definition memory_checks1 :: "perftest_options \<Rightarrow> bool list" where
  "memory_checks1 p =
     [use_null_mr p \<and> \<not> (verb p = WRITE \<or> verb p = WRITE_IMM \<or> verb p = READ),
      (memory_type p = MEMORY_CUDA \<or> memory_type p = MEMORY_MUSA) \<and> tst p = LAT \<and> verb p = WRITE]"

definition scatter_deps :: "build_config \<Rightarrow> perftest_options step" where
  "scatter_deps b p =
     (if (memory_type p = MEMORY_CUDA \<or> memory_type p = MEMORY_MUSA \<or> memory_type p = MEMORY_DM) \<and>
         verb p = SEND \<and> (up_size p \<le> 64 \<or> test_method p = RUN_ALL)
      then checks [\<not> setenv_ok b] (p\<lparr> scatter_to_cqe_disabled := True \<rparr>) else Some p)"

definition memory_checks2 :: "build_config \<Rightarrow> perftest_options \<Rightarrow> bool list" where
  "memory_checks2 b p =
     [(memory_type p = MEMORY_CUDA \<or> memory_type p = MEMORY_MUSA) \<and> int (up_size p) \<le> inline_arg p,
      memory_type p = MEMORY_MLU \<and> tst p = LAT \<and> (verb p = WRITE \<or> verb p = WRITE_IMM),
      memory_type p = MEMORY_MLU \<and> int (up_size p) \<le> inline_arg p,
      memory_type p = MEMORY_DM \<and> tst p = LAT \<and> (verb p = WRITE \<or> verb p = WRITE_IMM),
      HAVE_CC_UNPROTECTED_ALLOC b \<and> use_cc_unprotected p \<and>
        (use_odp p \<or> use_rdma_cm p \<or> work_rdma_cm p \<or> memory_type p \<noteq> MEMORY_HOST \<or> data_validation p \<or> use_hugepages p)]"

definition inline_deps :: "perftest_options step" where
  "inline_deps p =
     (let p1 = (if use_data_direct p then p\<lparr> use_cuda_pcie_mapping := True \<rparr> else p);
          p2 = (if connection_type p1 = UD \<and> inline_arg p1 > 1024 then p1\<lparr> inline_arg := 1024 \<rparr> else p1)
      in checks [report_per_port p2 \<and> (test_type p2 \<noteq> DURATION \<or> \<not> dualport p2)] p2)"

definition even_rx_depth :: "perftest_options step" where
  "even_rx_depth p =
     (let p1 = (if has_recv_comp (verb p) \<and> rx_depth p mod 2 = 1 \<and> test_method p = RUN_REGULAR then p\<lparr> rx_depth := rx_depth p + 1 \<rparr> else p)
      in Some (if test_type p1 = ITERATIONS \<and> iters p1 > 20000 \<and> \<not> noPeak p1 \<and> tst p1 = BW then p1\<lparr> noPeak := True \<rparr> else p1))"

definition time_checks :: "perftest_options \<Rightarrow> bool list" where
  "time_checks p = [\<not> (int (duration p) > 2 * margin_arg p), \<not> use_event p \<and> use_eq_num p]"

definition fill_count_deps :: "perftest_options step" where
  "fill_count_deps p =
     Some (p\<lparr> fill_count := test_type p = ITERATIONS \<and>
        (if cq_mod p \<ge> tx_depth p \<and> iters p mod tx_depth p \<noteq> 0 then True
         else cq_mod p < tx_depth p \<and> iters p mod cq_mod p \<noteq> 0) \<rparr>)"

definition congest_checks :: "build_config \<Rightarrow> perftest_options \<Rightarrow> bool list" where
  "congest_checks b p = [HAVE_HNSDV b \<and> congest_type p \<and> (work_rdma_cm p \<or> connection_type p = XRC \<or> connection_type p = UD)]"

definition check_intense_polling :: "perftest_options \<Rightarrow> bool" where
  "check_intense_polling p \<longleftrightarrow> \<not> use_cqe_poll p \<and> num_of_qps p > 2048 \<and> up_size p > 8192"

definition polling_deps :: "perftest_options step" where
  "polling_deps p =
     (let p1 = (if test_type p = ITERATIONS \<and> iters p < 3000 \<or> tst p = BW \<and> duplex p \<and> (verb p = SEND \<or> use_write_with_imm p) \<or> tst p = LAT
                then p\<lparr> dynamic_cqe_poll := False \<rparr> else p)
      in Some (if \<not> dynamic_cqe_poll p1 \<and> check_intense_polling p1 then p1\<lparr> cqe_poll := 64 \<rparr> else p1))"

definition placement_checks :: "build_config \<Rightarrow> perftest_options \<Rightarrow> bool list" where
  "placement_checks b p =
     [HAVE_REG_MR_EX b \<and> processing_hints p \<noteq> -1 \<and> use_data_direct p,
      HAVE_REG_MR_EX b \<and> tph_mem_type p \<noteq> -1 \<and> cpu_id p = -1,
      HAVE_REG_MR_EX b \<and> cpu_id p \<noteq> -1 \<and> tph_mem_type p = -1,
      HAVE_REG_MR_EX b \<and> (tph_mem_type p \<noteq> -1 \<or> cpu_id p \<noteq> -1) \<and> processing_hints p = -1,
      numa_node p \<noteq> -1 \<and> cpu_affinity_count p > 0,
      numa_node p \<noteq> -1 \<and> disable_numa p,
      connection_type p = RawEth \<and> cpu_affinity_count p > 0,
      connection_type p = RawEth \<and> numa_node p \<noteq> -1]"

section \<open>The whole function\<close>

definition depth_steps :: "perftest_options step list" where
  "depth_steps = [set_depths, large_message_cq_mod, cap_cq_mod]"

definition setup_steps :: "build_config \<Rightarrow> perftest_options step list" where
  "setup_steps b =
     [srq_deps, offload_deps b, dualport_deps,
      post_list_deps, recv_post_list_deps, duration_deps, raw_eth_deps, cm_deps, mcg_deps, server_peak]"

definition rate_steps :: "build_config \<Rightarrow> perftest_options step list" where
  "rate_steps b =
     [post_send_deps b, \<lambda>p. checks (dci_checks b p) p, \<lambda>p. checks (aes_checks b p) p, srd_deps b, \<lambda>p. checks (unsolicited_checks p) p,
      srq_exists_deps, burst_deps, rate_deps b, \<lambda>p. checks (output_checks p) p]"

definition memory_steps :: "build_config \<Rightarrow> perftest_options step list" where
  "memory_steps b =
     [\<lambda>p. checks (memory_checks1 p) p, scatter_deps b, \<lambda>p. checks (memory_checks2 b p) p, inline_deps, even_rx_depth]"

definition late_steps :: "build_config \<Rightarrow> perftest_options step list" where
  "late_steps b = rate_steps b @ [margin_deps] @ memory_steps b"

definition final_steps :: "build_config \<Rightarrow> perftest_options step list" where
  "final_steps b = [\<lambda>p. checks (congest_checks b p) p, polling_deps, \<lambda>p. checks (placement_checks b p) p]"

definition dependency_steps :: "build_config \<Rightarrow> perftest_options step list" where
  "dependency_steps b =
     depth_steps @ [basic_checks, validation_deps b] @ setup_steps b @ [infinite_deps] @ late_steps b @
     [\<lambda>p. checks (time_checks p) p, fill_count_deps] @ final_steps b"

definition force_dependecies :: "build_config \<Rightarrow> perftest_options step" where
  "force_dependecies b p = run_steps (dependency_steps b) p"

text \<open>The parameters that the tests read.\<close>

definition test_params :: "perftest_options \<Rightarrow> perftest_parameters" where
  "test_params p = (perftest_parameters.truncate p)\<lparr> margin := nat (margin_arg p), inline_size := nat (inline_arg p) \<rparr>"

section \<open>Reasoning about sequences of blocks\<close>

lemma checks_Some [simp]: "checks bs x = Some y \<longleftrightarrow> y = x \<and> list_all Not bs"
  by (auto simp: checks_def list_ex_iff list_all_iff)

lemma run_steps_append: "run_steps (fs @ gs) x = (case run_steps fs x of None \<Rightarrow> None | Some y \<Rightarrow> run_steps gs y)"
  by (induction fs arbitrary: x) (auto split: option.splits)

text \<open>A property that every block of a sequence keeps holds after the sequence.\<close>

locale step_invariant =
  fixes P :: "'o \<Rightarrow> bool" and fs :: "'o step list"
  assumes step: "f \<in> set fs \<Longrightarrow> P x \<Longrightarrow> f x = Some y \<Longrightarrow> P y"
begin

lemma sub_steps: "set gs \<subseteq> set fs \<Longrightarrow> run_steps gs x = Some y \<Longrightarrow> P x \<Longrightarrow> P y"
  by (induction gs arbitrary: x) (auto split: option.splits intro: step)

lemma all_steps: "run_steps fs x = Some y \<Longrightarrow> P x \<Longrightarrow> P y"
  by (rule sub_steps) auto

end

section \<open>The fields the tests depend on\<close>

text \<open>Most blocks only check, or set fields that no other component of the model reads; they keep this part of the options.\<close>

definition dep_core :: "perftest_options \<Rightarrow> (nat \<times> nat \<times> nat \<times> nat \<times> nat \<times> TestMethod \<times> ctx_test_method \<times> bool) \<times>
    (VerbType \<times> TestType \<times> connection_type \<times> nat \<times> bool \<times> bool \<times> validation_mode \<times> u32 \<times> int)" where
  "dep_core p = ((post_list p, cq_mod p, tx_depth p, rx_depth p, iters p, test_type p, test_method p, fill_count p),
     (verb p, tst p, connection_type p, up_size p, data_validation p, use_mcg p, opt_validation_mode p, validation_chunk_size p, validation_chunks_per_qp p))"

named_theorems neutral "blocks that keep the core"

lemma basic_checks_neutral [neutral]: "basic_checks p = Some q \<Longrightarrow> dep_core q = dep_core p"
  by (auto simp: basic_checks_def dep_core_def Let_def split: if_splits)

lemma recv_post_list_deps_neutral [neutral]: "recv_post_list_deps p = Some q \<Longrightarrow> dep_core q = dep_core p"
  by (auto simp: recv_post_list_deps_def dep_core_def Let_def split: if_splits)

lemma dualport_deps_neutral [neutral]: "dualport_deps p = Some q \<Longrightarrow> dep_core q = dep_core p"
  by (auto simp: dualport_deps_def dep_core_def Let_def split: if_splits)

lemma offload_deps_neutral [neutral]: "offload_deps b p = Some q \<Longrightarrow> dep_core q = dep_core p"
  by (auto simp: offload_deps_def dep_core_def Let_def split: if_splits)

lemma cm_deps_neutral [neutral]: "cm_deps p = Some q \<Longrightarrow> dep_core q = dep_core p"
  by (auto simp: cm_deps_def dep_core_def Let_def split: if_splits option.splits)

lemma server_peak_neutral [neutral]: "server_peak p = Some q \<Longrightarrow> dep_core q = dep_core p"
  by (auto simp: server_peak_def dep_core_def Let_def split: if_splits)

lemma post_send_deps_neutral [neutral]: "post_send_deps b p = Some q \<Longrightarrow> dep_core q = dep_core p"
  by (auto simp: post_send_deps_def dep_core_def Let_def split: if_splits)

lemma srq_exists_deps_neutral [neutral]: "srq_exists_deps p = Some q \<Longrightarrow> dep_core q = dep_core p"
  by (auto simp: srq_exists_deps_def dep_core_def Let_def split: if_splits)

lemma burst_deps_neutral [neutral]: "burst_deps p = Some q \<Longrightarrow> dep_core q = dep_core p"
  by (auto simp: burst_deps_def dep_core_def Let_def split: if_splits)

lemma hw_rate_deps_neutral [neutral]: "hw_rate_deps b p = Some q \<Longrightarrow> dep_core q = dep_core p"
  by (auto simp: hw_rate_deps_def dep_core_def Let_def split: if_splits)

lemma margin_deps_neutral [neutral]: "margin_deps p = Some q \<Longrightarrow> dep_core q = dep_core p"
  by (auto simp: margin_deps_def dep_core_def Let_def split: if_splits)

lemma scatter_deps_neutral [neutral]: "scatter_deps b p = Some q \<Longrightarrow> dep_core q = dep_core p"
  by (auto simp: scatter_deps_def dep_core_def Let_def split: if_splits)

lemma inline_deps_neutral [neutral]: "inline_deps p = Some q \<Longrightarrow> dep_core q = dep_core p"
  by (auto simp: inline_deps_def dep_core_def Let_def split: if_splits)

lemma polling_deps_neutral [neutral]: "polling_deps p = Some q \<Longrightarrow> dep_core q = dep_core p"
  by (auto simp: polling_deps_def dep_core_def Let_def split: if_splits)

lemma rate_deps_neutral [neutral]: "rate_deps b p = Some q \<Longrightarrow> dep_core q = dep_core p"
  by (cases "rate_limit_type p"; auto simp: rate_deps_def dest: hw_rate_deps_neutral) (simp add: dep_core_def)

lemma checks_neutral [neutral]: "checks bs p = Some q \<Longrightarrow> dep_core q = dep_core p"
  by simp

section \<open>Moderation\<close>

definition moderated :: "perftest_options \<Rightarrow> bool" where
  "moderated p \<longleftrightarrow> post_list p = 1 \<and> 1 \<le> cq_mod p \<and> cq_mod p \<le> tx_depth p \<and> 1 \<le> rx_depth p \<and>
     (test_type p = ITERATIONS \<longrightarrow> test_method p \<noteq> RUN_INFINITELY \<longrightarrow> tx_depth p \<le> iters p)"

named_theorems keeps_moderated

lemma moderated_core: "dep_core q = dep_core p \<Longrightarrow> moderated p \<Longrightarrow> moderated q"
  by (simp add: dep_core_def moderated_def)

lemma moderated_validation [keeps_moderated]: "moderated p \<Longrightarrow> validation_deps b p = Some q \<Longrightarrow> moderated q"
  by (auto simp: moderated_def validation_deps_def Let_def split: if_splits option.splits)

lemma moderated_srq [keeps_moderated]: "moderated p \<Longrightarrow> srq_deps p = Some q \<Longrightarrow> moderated q"
  by (auto simp: moderated_def srq_deps_def Let_def split: if_splits)

lemma moderated_post_list [keeps_moderated]: "moderated p \<Longrightarrow> post_list_deps p = Some q \<Longrightarrow> moderated q"
  by (auto simp: moderated_def post_list_deps_def)

lemma moderated_duration [keeps_moderated]: "moderated p \<Longrightarrow> duration_deps p = Some q \<Longrightarrow> moderated q"
  by (auto simp: moderated_def duration_deps_def split: if_splits)

lemma moderated_mac_fwd: "moderated p \<Longrightarrow> mac_fwd_deps p = Some q \<Longrightarrow> moderated q"
  by (auto simp: moderated_def mac_fwd_deps_def Let_def split: if_splits)

lemma moderated_flows: "moderated p \<Longrightarrow> flow_rules_force_dependecies p = Some q \<Longrightarrow> moderated q"
  by (auto simp: flow_rules_force_dependecies_def split: if_splits)

lemma moderated_raw_eth [keeps_moderated]:
  assumes "moderated p" "raw_eth_deps p = Some q"
  shows "moderated q"
proof (cases "connection_type p = RawEth")
  case True
  let ?p = "p\<lparr> use_old_post_send := True \<rparr>"
  from True assms(2) obtain r where "mac_fwd_deps ?p = Some r" "flow_rules_force_dependecies r = Some q"
    by (auto simp: raw_eth_deps_def split: option.splits)
  moreover have "moderated ?p" using assms(1) by (simp add: moderated_def)
  ultimately show ?thesis using moderated_mac_fwd moderated_flows by blast
qed (use assms in \<open>simp add: raw_eth_deps_def\<close>)

lemma moderated_mcg [keeps_moderated]: "moderated p \<Longrightarrow> mcg_deps p = Some q \<Longrightarrow> moderated q"
  by (auto simp: moderated_def mcg_deps_def split: if_splits)

lemma moderated_infinite [keeps_moderated]: "moderated p \<Longrightarrow> infinite_deps p = Some q \<Longrightarrow> moderated q"
  by (auto simp: moderated_def infinite_deps_def split: if_splits)

lemma moderated_srd [keeps_moderated]: "moderated p \<Longrightarrow> srd_deps b p = Some q \<Longrightarrow> moderated q"
  by (auto simp: moderated_def srd_deps_def split: if_splits)

lemma moderated_even [keeps_moderated]: "moderated p \<Longrightarrow> even_rx_depth p = Some q \<Longrightarrow> moderated q"
  by (auto simp: moderated_def even_rx_depth_def Let_def split: if_splits)

lemma moderated_fill [keeps_moderated]: "moderated p \<Longrightarrow> fill_count_deps p = Some q \<Longrightarrow> moderated q"
  by (auto simp: moderated_def fill_count_deps_def)

lemmas step_list_defs = depth_steps_def setup_steps_def rate_steps_def memory_steps_def late_steps_def final_steps_def

interpretation moderation: step_invariant moderated "setup_steps b @ late_steps b @ final_steps b" for b
proof
  fix f x y assume "f \<in> set (setup_steps b @ late_steps b @ final_steps b)" "moderated x" "f x = Some y"
  then show "moderated y"
    by (auto simp: step_list_defs simp del: checks_Some dest: neutral moderated_core keeps_moderated)
qed

text \<open>What the option parser guarantees of the ranges, for single posts.\<close>

definition parsed_ranges :: "perftest_options \<Rightarrow> bool" where
  "parsed_ranges p \<longleftrightarrow> post_list p = 1 \<and> 1 \<le> cq_mod p \<and> 1 \<le> tx_depth p \<and> 1 \<le> rx_depth p \<and> 1 \<le> iters p"

lemma ranges_depths:
  "parsed_ranges p \<Longrightarrow> parsed_ranges (rdma_rx_depth p)"
  "parsed_ranges p \<Longrightarrow> parsed_ranges (cap_tx_depth p) \<and> tx_depth (cap_tx_depth p) \<le> iters (cap_tx_depth p)"
  "parsed_ranges p \<Longrightarrow> parsed_ranges (cap_rx_depth p)" "parsed_ranges p \<Longrightarrow> parsed_ranges (ud_rx_depth p)"
  by (simp_all add: parsed_ranges_def rdma_rx_depth_def cap_tx_depth_def cap_rx_depth_def ud_rx_depth_def Let_def)

lemma depths_frame [simp]:
  "tx_depth (cap_rx_depth p) = tx_depth p" "iters (cap_rx_depth p) = iters p"
  "tx_depth (ud_rx_depth p) = tx_depth p" "iters (ud_rx_depth p) = iters p"
  by (simp_all add: cap_rx_depth_def ud_rx_depth_def Let_def)

lemma set_depths_ranges:
  assumes "parsed_ranges p" "set_depths p = Some q"
  shows "parsed_ranges q \<and> (test_type q = ITERATIONS \<longrightarrow> test_method q \<noteq> RUN_INFINITELY \<longrightarrow> tx_depth q \<le> iters q)"
  using ranges_depths [of p] ranges_depths(2) [of "rdma_rx_depth p"] ranges_depths(3) [of "cap_tx_depth (rdma_rx_depth p)"]
    ranges_depths(4) [of "cap_rx_depth (cap_tx_depth (rdma_rx_depth p))"] assms
  by (auto simp: set_depths_def Let_def split: if_splits)

lemma large_message_ranges:
  "parsed_ranges p \<Longrightarrow> large_message_cq_mod p = Some q \<Longrightarrow>
   parsed_ranges q \<and> tx_depth q = tx_depth p \<and> iters q = iters p \<and> test_type q = test_type p \<and> test_method q = test_method p"
  by (auto simp: parsed_ranges_def large_message_cq_mod_def)

lemma cap_cq_mod_moderated:
  assumes "parsed_ranges p" "test_type p = ITERATIONS \<longrightarrow> test_method p \<noteq> RUN_INFINITELY \<longrightarrow> tx_depth p \<le> iters p" "cap_cq_mod p = Some q"
  shows "moderated q"
proof -
  let ?p1 = "force_sw_rate p"
  have "parsed_ranges ?p1 \<and> (test_type ?p1 = ITERATIONS \<longrightarrow> test_method ?p1 \<noteq> RUN_INFINITELY \<longrightarrow> tx_depth ?p1 \<le> iters ?p1)"
    using assms(1,2) by (simp add: force_sw_rate_def parsed_ranges_def)
  then have "moderated (cap_moderation ?p1)" by (simp add: cap_moderation_def parsed_ranges_def moderated_def)
  moreover have "moderated (all_sizes (no_inline r)) = moderated r" for r by (simp add: all_sizes_def no_inline_def moderated_def)
  ultimately show ?thesis using assms(3) by (auto simp: cap_cq_mod_def)
qed

lemma depths_moderated:
  assumes "parsed_ranges p" "run_steps depth_steps p = Some q"
  shows "moderated q"
proof -
  from assms(2) obtain r s where r: "set_depths p = Some r" "large_message_cq_mod r = Some s" "cap_cq_mod s = Some q"
    by (auto simp: depth_steps_def split: option.splits)
  note a = set_depths_ranges [OF assms(1) r(1)]
  note b = large_message_ranges [OF conjunct1 [OF a] r(2)]
  show ?thesis by (rule cap_cq_mod_moderated [OF _ _ r(3)]) (use a b in auto)
qed

text \<open>Tests that run for ever are timed tests from \<open>infinite_deps\<close> on.\<close>

definition not_endless :: "perftest_options \<Rightarrow> bool" where
  "not_endless p \<longleftrightarrow> (test_type p = ITERATIONS \<longrightarrow> test_method p \<noteq> RUN_INFINITELY)"

lemma not_endless_core: "dep_core q = dep_core p \<Longrightarrow> not_endless p \<Longrightarrow> not_endless q"
  by (simp add: dep_core_def not_endless_def)

lemma infinite_not_endless: "infinite_deps p = Some q \<Longrightarrow> not_endless q"
  by (auto simp: not_endless_def infinite_deps_def split: if_splits)

lemma keeps_not_endless:
  "not_endless p \<Longrightarrow> srd_deps b p = Some q \<Longrightarrow> not_endless q"
  "not_endless p \<Longrightarrow> even_rx_depth p = Some q \<Longrightarrow> not_endless q"
  "not_endless p \<Longrightarrow> fill_count_deps p = Some q \<Longrightarrow> not_endless q"
  by (auto simp: not_endless_def srd_deps_def even_rx_depth_def fill_count_deps_def Let_def split: if_splits)

interpretation ending: step_invariant not_endless "late_steps b @ final_steps b" for b
proof
  fix f x y assume "f \<in> set (late_steps b @ final_steps b)" "not_endless x" "f x = Some y"
  then show "not_endless y"
    by (auto simp: step_list_defs simp del: checks_Some dest: neutral not_endless_core keeps_not_endless)
qed

text \<open>The fill count is right from its block on.\<close>

definition filled :: "perftest_options \<Rightarrow> bool" where
  "filled p \<longleftrightarrow> (test_type p = ITERATIONS \<longrightarrow> fill_count p \<or> iters p mod cq_mod p = 0)"

lemma filled_core: "dep_core q = dep_core p \<Longrightarrow> filled p \<Longrightarrow> filled q"
  by (simp add: dep_core_def filled_def)

lemma fill_count_filled: "moderated p \<Longrightarrow> fill_count_deps p = Some q \<Longrightarrow> filled q"
  by (cases "cq_mod p = tx_depth p") (auto simp: filled_def fill_count_deps_def moderated_def)

interpretation filling: step_invariant filled "final_steps b" for b
proof
  fix f x y assume "f \<in> set (final_steps b)" "filled x" "f x = Some y"
  then show "filled y" by (auto simp: step_list_defs simp del: checks_Some dest: neutral filled_core)
qed

text \<open>The options between the groups of blocks.\<close>

lemma force_groups:
  assumes "force_dependecies b p = Some q"
  obtains p1 p2 p3 p4 p5 p6 where "run_steps depth_steps p = Some p1" "basic_checks p1 = Some p1" "validation_deps b p1 = Some p2"
    "run_steps (setup_steps b) p2 = Some p3" "infinite_deps p3 = Some p4" "run_steps (late_steps b) p4 = Some p5"
    "list_all Not (time_checks p5)" "fill_count_deps p5 = Some p6" "run_steps (final_steps b) p6 = Some q"
proof -
  from assms obtain p1 where a: "run_steps depth_steps p = Some p1" "basic_checks p1 = Some p1"
    "run_steps ([validation_deps b] @ setup_steps b @ [infinite_deps] @ late_steps b @ [\<lambda>p. checks (time_checks p) p, fill_count_deps] @ final_steps b) p1 = Some q"
    by (auto simp: force_dependecies_def dependency_steps_def run_steps_append basic_checks_def split: option.splits)
  from a(3) obtain p2 p3 where b: "validation_deps b p1 = Some p2" "run_steps (setup_steps b) p2 = Some p3"
    "run_steps ([infinite_deps] @ late_steps b @ [\<lambda>p. checks (time_checks p) p, fill_count_deps] @ final_steps b) p3 = Some q"
    by (auto simp: run_steps_append split: option.splits)
  from b(3) obtain p4 p5 where c: "infinite_deps p3 = Some p4" "run_steps (late_steps b) p4 = Some p5"
    "run_steps ([\<lambda>p. checks (time_checks p) p, fill_count_deps] @ final_steps b) p5 = Some q"
    by (auto simp: run_steps_append split: option.splits)
  from c(3) obtain p6 where "list_all Not (time_checks p5)" "fill_count_deps p5 = Some p6" "run_steps (final_steps b) p6 = Some q"
    by (auto split: option.splits)
  with a b c that show ?thesis by blast
qed

lemma accepted_schedule:
  assumes "parsed_ranges p" "force_dependecies b p = Some q"
  shows "moderated q \<and> not_endless q \<and> filled q"
proof (rule force_groups [OF assms(2)])
  fix p1 p2 p3 p4 p5 p6
  assume g: "run_steps depth_steps p = Some p1" "validation_deps b p1 = Some p2" "run_steps (setup_steps b) p2 = Some p3"
    "infinite_deps p3 = Some p4" "run_steps (late_steps b) p4 = Some p5" "fill_count_deps p5 = Some p6" "run_steps (final_steps b) p6 = Some q"
  have "moderated p2" using depths_moderated [OF assms(1) g(1)] moderated_validation g(2) by blast
  with g(3) have "moderated p3" by (rule moderation.sub_steps [of _ b, rotated]) auto
  then have "moderated p4" using g(4) by (rule moderated_infinite)
  with g(5) have m5: "moderated p5" by (rule moderation.sub_steps [of _ b, rotated]) auto
  then have "moderated p6" using g(6) by (rule moderated_fill)
  with g(7) have m: "moderated q" by (rule moderation.sub_steps [of _ b, rotated]) auto
  from g(5) infinite_not_endless [OF g(4)] have "not_endless p5" by (rule ending.sub_steps [of _ b, rotated]) auto
  then have "not_endless p6" using g(6) by (rule keeps_not_endless)
  with g(7) have e: "not_endless q" by (rule ending.sub_steps [of _ b, rotated]) auto
  from g(7) fill_count_filled [OF m5 g(6)] have "filled q" by (rule filling.all_steps)
  with m e show ?thesis by simp
qed

end
