(* ===== verification/Accepted_Tests.thy ===== *)
theory Accepted_Tests
  imports Options
begin

text \<open>
  What \<open>force_dependecies\<close> guarantees to the tests that run with the parameters it accepts: counted
  bandwidth tests terminate, timed tests end in time, and data validation finds the configuration it
  needs.  The last section shows an accepted configuration that cannot make progress.
\<close>

section \<open>Counted tests\<close>

lemma test_params_fields [simp]:
  "post_list (test_params q) = post_list q" "cq_mod (test_params q) = cq_mod q" "tx_depth (test_params q) = tx_depth q"
  "rx_depth (test_params q) = rx_depth q" "iters (test_params q) = iters q" "test_type (test_params q) = test_type q"
  "fill_count (test_params q) = fill_count q" "rate_limit_type (test_params q) = rate_limit_type q"
  "dynamic_cqe_poll (test_params q) = dynamic_cqe_poll q" "cqe_poll (test_params q) = cqe_poll q"
  "duration (test_params q) = duration q" "margin (test_params q) = nat (margin_arg q)"
  by (simp_all add: test_params_def perftest_parameters.truncate_def)

lemma accepted_plain:
  assumes "parsed_ranges p" "force_dependecies b p = Some q" "test_type q = ITERATIONS" "rate_limit_type q \<noteq> SW_RATE_LIMIT"
    and "bp c = test_params q" "\<not> send_rcredit c"
  shows "plain_test c"
  using accepted_schedule [OF assms(1,2)] assms(3-6)
  by (auto simp: plain_test_def schedulable_def fills_def moderated_def not_endless_def filled_def)

lemma signals_le:
  assumes "1 \<le> cq_mod (bp c)"
  shows "signals_before c n \<le> n"
proof -
  let ?m = "cq_mod (bp c)"
  have "1 * (n div ?m) \<le> ?m * (n div ?m)" using assms by (rule mult_le_mono1)
  moreover have "?m * (n div ?m) + n mod ?m = n" by (rule mult_div_mod_eq)
  ultimately have "n div ?m + n mod ?m \<le> n" by linarith
  then show ?thesis unfolding signals_before_def by (cases "n mod ?m") auto
qed

text \<open>
  C4. Acceptance by \<open>force_dependecies\<close> is enough for termination when requests are posted one at a time: a counted
  bandwidth test with \<open>post_list = 1\<close> whose options are accepted, run without software pacing and without receiver credits on
  a device that finds an owed completion at least once in \<open>d\<close> polls, returns after at most \<open>d * (2 * iters * qps + 1)\<close> passes,
  with all requests sent and completed.  (For longer lists acceptance is not enough.)
\<close>

theorem accepted_test_terminates:
  assumes "post_list p = 1" "1 \<le> cq_mod p" "1 \<le> tx_depth p" "1 \<le> rx_depth p" "1 \<le> iters p"
    and "force_dependecies b p = Some q" "test_type q = ITERATIONS" "rate_limit_type q \<noteq> SW_RATE_LIMIT"
    and "bp c = test_params q" "\<not> send_rcredit c" "0 < d" "fair_env d c env" "dynamic_cqe_poll q \<or> 1 \<le> unat (cqe_poll q)"
    and "tx_depth q \<le> inner" "d * (bw_num_qps (test_params q) * (2 * iters q) + 1) \<le> fuel"
  shows "\<exists>st. run_iter_bw inner fuel c env = Some (Inr st) \<and>
    (\<forall>i < bw_num_qps (test_params q). scnt st ! i = iters q \<and> ccnt st ! i = iters q)"
proof -
  have "parsed_ranges p" using assms(1-5) by (simp add: parsed_ranges_def)
  note plain = accepted_plain [OF this assms(6-10)]
  have "signals_before c (iters q) \<le> iters q" by (rule signals_le) (rule plain_testD(8) [OF plain])
  then have "d * (bw_num_qps (test_params q) * (iters q + signals_before c (iters q)) + 1) \<le> d * (bw_num_qps (test_params q) * (2 * iters q) + 1)"
    by (intro mult_le_mono2 add_le_mono1) simp
  then have "d * (bw_num_qps (test_params q) * (iters q + signals_before c (iters q)) + 1) \<le> fuel" using assms(15) by (rule le_trans)
  with bw_run_completes [OF plain assms(11,12), of inner fuel] assms(9,13,14) show ?thesis by simp
qed

section \<open>Timed tests\<close>

text \<open>No block but \<open>margin_deps\<close> touches the margin, none the duration.\<close>

definition time_core :: "perftest_options \<Rightarrow> int \<times> nat" where
  "time_core p = (margin_arg p, duration p)"

named_theorems time_neutral

lemma depths_time [simp]:
  "time_core (rdma_rx_depth p) = time_core p" "time_core (cap_tx_depth p) = time_core p" "time_core (cap_rx_depth p) = time_core p"
  "time_core (ud_rx_depth p) = time_core p" "time_core (force_sw_rate p) = time_core p" "time_core (cap_moderation p) = time_core p"
  "time_core (no_inline p) = time_core p" "time_core (all_sizes p) = time_core p"
  by (simp_all add: time_core_def rdma_rx_depth_def cap_tx_depth_def cap_rx_depth_def ud_rx_depth_def force_sw_rate_def cap_moderation_def
      no_inline_def all_sizes_def Let_def)

lemma set_depths_time [time_neutral]: "set_depths p = Some q \<Longrightarrow> time_core q = time_core p"
  by (auto simp: set_depths_def Let_def split: if_splits option.splits)

lemma large_message_cq_mod_time [time_neutral]: "large_message_cq_mod p = Some q \<Longrightarrow> time_core q = time_core p"
  by (auto simp: large_message_cq_mod_def time_core_def Let_def split: if_splits option.splits)

lemma cap_cq_mod_time [time_neutral]: "cap_cq_mod p = Some q \<Longrightarrow> time_core q = time_core p"
  by (auto simp: cap_cq_mod_def Let_def split: if_splits option.splits)

lemma basic_checks_time [time_neutral]: "basic_checks p = Some q \<Longrightarrow> time_core q = time_core p"
  by (auto simp: basic_checks_def time_core_def Let_def split: if_splits option.splits)

lemma validation_deps_time [time_neutral]: "validation_deps b p = Some q \<Longrightarrow> time_core q = time_core p"
  by (auto simp: validation_deps_def time_core_def Let_def split: if_splits option.splits)

lemma srq_deps_time [time_neutral]: "srq_deps p = Some q \<Longrightarrow> time_core q = time_core p"
  by (auto simp: srq_deps_def time_core_def Let_def split: if_splits option.splits)

lemma offload_deps_time [time_neutral]: "offload_deps b p = Some q \<Longrightarrow> time_core q = time_core p"
  by (auto simp: offload_deps_def time_core_def Let_def split: if_splits option.splits)

lemma dualport_deps_time [time_neutral]: "dualport_deps p = Some q \<Longrightarrow> time_core q = time_core p"
  by (auto simp: dualport_deps_def time_core_def Let_def split: if_splits option.splits)

lemma post_list_deps_time [time_neutral]: "post_list_deps p = Some q \<Longrightarrow> time_core q = time_core p"
  by (auto simp: post_list_deps_def time_core_def Let_def split: if_splits option.splits)

lemma recv_post_list_deps_time [time_neutral]: "recv_post_list_deps p = Some q \<Longrightarrow> time_core q = time_core p"
  by (auto simp: recv_post_list_deps_def time_core_def Let_def split: if_splits option.splits)

lemma duration_deps_time [time_neutral]: "duration_deps p = Some q \<Longrightarrow> time_core q = time_core p"
  by (auto simp: duration_deps_def time_core_def Let_def split: if_splits option.splits)

lemma mac_fwd_deps_time [time_neutral]: "mac_fwd_deps p = Some q \<Longrightarrow> time_core q = time_core p"
  by (auto simp: mac_fwd_deps_def time_core_def Let_def split: if_splits option.splits)

lemma flow_rules_force_dependecies_time [time_neutral]: "flow_rules_force_dependecies p = Some q \<Longrightarrow> time_core q = time_core p"
  by (auto simp: flow_rules_force_dependecies_def time_core_def Let_def split: if_splits option.splits)

lemma cm_deps_time [time_neutral]: "cm_deps p = Some q \<Longrightarrow> time_core q = time_core p"
  by (auto simp: cm_deps_def time_core_def Let_def split: if_splits option.splits)

lemma mcg_deps_time [time_neutral]: "mcg_deps p = Some q \<Longrightarrow> time_core q = time_core p"
  by (auto simp: mcg_deps_def time_core_def Let_def split: if_splits option.splits)

lemma server_peak_time [time_neutral]: "server_peak p = Some q \<Longrightarrow> time_core q = time_core p"
  by (auto simp: server_peak_def time_core_def Let_def split: if_splits option.splits)

lemma infinite_deps_time [time_neutral]: "infinite_deps p = Some q \<Longrightarrow> time_core q = time_core p"
  by (auto simp: infinite_deps_def time_core_def Let_def split: if_splits option.splits)

lemma post_send_deps_time [time_neutral]: "post_send_deps b p = Some q \<Longrightarrow> time_core q = time_core p"
  by (auto simp: post_send_deps_def time_core_def Let_def split: if_splits option.splits)

lemma srd_deps_time [time_neutral]: "srd_deps b p = Some q \<Longrightarrow> time_core q = time_core p"
  by (auto simp: srd_deps_def time_core_def Let_def split: if_splits option.splits)

lemma srq_exists_deps_time [time_neutral]: "srq_exists_deps p = Some q \<Longrightarrow> time_core q = time_core p"
  by (auto simp: srq_exists_deps_def time_core_def Let_def split: if_splits option.splits)

lemma burst_deps_time [time_neutral]: "burst_deps p = Some q \<Longrightarrow> time_core q = time_core p"
  by (auto simp: burst_deps_def time_core_def Let_def split: if_splits option.splits)

lemma hw_rate_deps_time [time_neutral]: "hw_rate_deps b p = Some q \<Longrightarrow> time_core q = time_core p"
  by (auto simp: hw_rate_deps_def time_core_def Let_def split: if_splits option.splits)

lemma scatter_deps_time [time_neutral]: "scatter_deps b p = Some q \<Longrightarrow> time_core q = time_core p"
  by (auto simp: scatter_deps_def time_core_def Let_def split: if_splits option.splits)

lemma inline_deps_time [time_neutral]: "inline_deps p = Some q \<Longrightarrow> time_core q = time_core p"
  by (auto simp: inline_deps_def time_core_def Let_def split: if_splits option.splits)

lemma even_rx_depth_time [time_neutral]: "even_rx_depth p = Some q \<Longrightarrow> time_core q = time_core p"
  by (auto simp: even_rx_depth_def time_core_def Let_def split: if_splits option.splits)

lemma fill_count_deps_time [time_neutral]: "fill_count_deps p = Some q \<Longrightarrow> time_core q = time_core p"
  by (auto simp: fill_count_deps_def time_core_def Let_def split: if_splits option.splits)

lemma polling_deps_time [time_neutral]: "polling_deps p = Some q \<Longrightarrow> time_core q = time_core p"
  by (auto simp: polling_deps_def time_core_def Let_def split: if_splits option.splits)

lemma rate_deps_time [time_neutral]: "rate_deps b p = Some q \<Longrightarrow> time_core q = time_core p"
  by (cases "rate_limit_type p"; auto simp: rate_deps_def dest: hw_rate_deps_time) (simp add: time_core_def)

lemma checks_time [time_neutral]: "checks bs p = Some q \<Longrightarrow> time_core q = time_core p"
  by simp

lemma raw_eth_deps_time [time_neutral]:
  assumes "raw_eth_deps p = Some q"
  shows "time_core q = time_core p"
proof (cases "connection_type p = RawEth")
  case True
  let ?p = "p\<lparr> use_old_post_send := True \<rparr>"
  from True assms obtain r where "mac_fwd_deps ?p = Some r" "flow_rules_force_dependecies r = Some q"
    by (auto simp: raw_eth_deps_def split: option.splits)
  then have "time_core q = time_core ?p" by (simp add: time_neutral)
  then show ?thesis by (simp add: time_core_def)
qed (use assms in \<open>simp add: raw_eth_deps_def\<close>)

interpretation margins: step_invariant "\<lambda>p. time_core p = t" "depth_steps @ setup_steps b @ rate_steps b @ final_steps b" for t b
proof
  fix f x y assume "f \<in> set (depth_steps @ setup_steps b @ rate_steps b @ final_steps b)" "time_core x = t" "f x = Some y"
  then show "time_core y = t" by (auto simp: step_list_defs simp del: checks_Some dest: time_neutral)
qed

text \<open>From \<open>margin_deps\<close> on a timed test has a margin.\<close>

definition margin_set :: "perftest_options \<Rightarrow> bool" where
  "margin_set p \<longleftrightarrow> (test_type p = DURATION \<longrightarrow> 0 \<le> margin_arg p)"

lemma margin_set_core: "dep_core q = dep_core p \<Longrightarrow> time_core q = time_core p \<Longrightarrow> margin_set p \<Longrightarrow> margin_set q"
  by (simp add: dep_core_def time_core_def margin_set_def)

lemma keeps_margin_set:
  "margin_set p \<Longrightarrow> even_rx_depth p = Some q \<Longrightarrow> margin_set q"
  "margin_set p \<Longrightarrow> fill_count_deps p = Some q \<Longrightarrow> margin_set q"
  "margin_set p \<Longrightarrow> scatter_deps b p = Some q \<Longrightarrow> margin_set q"
  "margin_set p \<Longrightarrow> inline_deps p = Some q \<Longrightarrow> margin_set q"
  "margin_set p \<Longrightarrow> polling_deps p = Some q \<Longrightarrow> margin_set q"
proof -
  show "margin_set p \<Longrightarrow> even_rx_depth p = Some q \<Longrightarrow> margin_set q"
    using even_rx_depth_time [of p q] by (auto simp: margin_set_def even_rx_depth_def Let_def split: if_splits)
  show "margin_set p \<Longrightarrow> fill_count_deps p = Some q \<Longrightarrow> margin_set q" by (auto simp: margin_set_def fill_count_deps_def)
qed (blast intro: margin_set_core neutral time_neutral)+

interpretation margin_settings: step_invariant margin_set "memory_steps b @ final_steps b" for b
proof
  fix f x y assume "f \<in> set (memory_steps b @ final_steps b)" "margin_set x" "f x = Some y"
  then show "margin_set y" by (auto simp: memory_steps_def final_steps_def dest: keeps_margin_set)
qed

lemma margin_deps_set: "-1 \<le> margin_arg p \<Longrightarrow> margin_deps p = Some q \<Longrightarrow> margin_set q"
  by (auto simp: margin_set_def margin_deps_def)

lemma accepted_times:
  assumes "-1 \<le> margin_arg p" "force_dependecies b p = Some q"
  shows "margin_set q \<and> 2 * margin_arg q < int (duration q)"
proof (rule force_groups [OF assms(2)])
  fix p1 p2 p3 p4 p5 p6
  assume g: "run_steps depth_steps p = Some p1" "validation_deps b p1 = Some p2" "run_steps (setup_steps b) p2 = Some p3"
    "infinite_deps p3 = Some p4" "run_steps (late_steps b) p4 = Some p5" "list_all Not (time_checks p5)" "fill_count_deps p5 = Some p6"
    "run_steps (final_steps b) p6 = Some q"
  from g(5) obtain r s where l: "run_steps (rate_steps b) p4 = Some r" "margin_deps r = Some s" "run_steps (memory_steps b) s = Some p5"
    by (auto simp: late_steps_def run_steps_append split: option.splits)
  have "time_core p1 = time_core p" by (rule margins.sub_steps [of depth_steps b p, OF _ g(1)]) auto
  then have "time_core p2 = time_core p" using validation_deps_time [OF g(2)] by simp
  then have "time_core p3 = time_core p" by (rule margins.sub_steps [of "setup_steps b" b, rotated 2]) (use g(3) in auto)
  then have "time_core p4 = time_core p" using infinite_deps_time [OF g(4)] by simp
  then have "time_core r = time_core p" by (rule margins.sub_steps [of "rate_steps b" b, rotated 2]) (use l(1) in auto)
  with assms(1) have "margin_set s" by (intro margin_deps_set [OF _ l(2)]) (simp add: time_core_def)
  then have "margin_set p5" by (rule margin_settings.sub_steps [of "memory_steps b" b, rotated 2]) (use l(3) in auto)
  then have "margin_set p6" by (rule keeps_margin_set(2) [OF _ g(7)])
  then have m: "margin_set q" by (rule margin_settings.sub_steps [of "final_steps b" b, rotated 2]) (use g(8) in auto)
  have "time_core q = time_core p6" by (rule margins.sub_steps [of "final_steps b" b, rotated]) (use g(8) in auto)
  with fill_count_deps_time [OF g(7)] have "time_core q = time_core p5" by simp
  with g(6) m show ?thesis by (simp add: time_checks_def time_core_def)
qed

text \<open>
  C27. A timed test whose options are accepted ends: \<open>k\<close> seconds after its start it is warming up for
  \<open>k < margin\<close>, sampling up to \<open>duration - margin\<close>, cooling down up to \<open>duration\<close> and over from then on,
  with both time stamps taken at the borders of the sampling and no alarm left.
\<close>

theorem accepted_timed_test_ends:
  assumes "-1 \<le> margin_arg p" "force_dependecies b p = Some q" "test_type q = DURATION" "duration q < 2 ^ 32"
    and "st' = seconds (test_params q) t0 k (start_timed (test_params q) t0 st)"
  shows "phase st' = (if k < nat (margin_arg q) then START_STATE else if k < duration q - nat (margin_arg q) then SAMPLE_STATE
      else if k < duration q then STOP_SAMPLE_STATE else END_STATE) \<and>
    (duration q - nat (margin_arg q) \<le> k \<longrightarrow> tposted0 st' = t0 + nat (margin_arg q) \<and> tcompleted0 st' = t0 + (duration q - nat (margin_arg q))) \<and>
    (duration q \<le> k \<longrightarrow> pending st' = None)"
proof -
  have "0 \<le> margin_arg q \<and> 2 * margin_arg q < int (duration q)" using accepted_times [OF assms(1,2)] assms(3) by (simp add: margin_set_def)
  then have "2 * nat (margin_arg q) < duration q" by linarith
  with timed_phases [of "test_params q" st' t0 k st] assms(4,5) show ?thesis by simp
qed

section \<open>Data validation\<close>

text \<open>The configuration under which the validation component works.\<close>

definition validation_ready :: "perftest_options \<Rightarrow> bool" where
  "validation_ready p \<longleftrightarrow> (data_validation p \<longrightarrow>
     (verb p = WRITE \<or> verb p = READ) \<and> tst p = BW \<and> connection_type p = RC \<and> post_list p \<le> 1 \<and> test_method p = RUN_REGULAR \<and>
     32 \<le> tx_depth p \<and> opt_validation_mode p = (if verb p = READ then VALIDATION_MODE_READ else VALIDATION_MODE_WRITE) \<and>
     derive_validation_chunk_size (of_nat (up_size p)) (of_nat (tx_depth p)) = Some (validation_chunk_size p) \<and>
     4 \<le> validation_chunks_per_qp p \<and> validation_chunks_per_qp p \<le> 24)"

definition multicast_sends :: "perftest_options \<Rightarrow> bool" where
  "multicast_sends p \<longleftrightarrow> (use_mcg p \<longrightarrow> verb p = SEND)"

text \<open>The fields these two properties speak of.\<close>

definition val_core :: "perftest_options \<Rightarrow> (VerbType \<times> TestType \<times> connection_type \<times> nat \<times> bool \<times> bool \<times> validation_mode \<times> u32 \<times> int) \<times>
    nat \<times> nat \<times> ctx_test_method" where
  "val_core p = (snd (dep_core p), post_list p, tx_depth p, test_method p)"

definition ready :: "perftest_options \<Rightarrow> bool" where
  "ready p \<longleftrightarrow> validation_ready p \<and> multicast_sends p"

lemma val_core_dep: "dep_core q = dep_core p \<Longrightarrow> val_core q = val_core p"
  by (simp add: dep_core_def val_core_def)

lemma ready_core: "val_core q = val_core p \<Longrightarrow> ready p \<Longrightarrow> ready q"
  by (simp add: val_core_def dep_core_def ready_def validation_ready_def multicast_sends_def)

named_theorems val_neutral "blocks that keep these fields"

lemma validation_deps_ready:
  assumes "validation_deps b p = Some q"
  shows "validation_ready q"
proof (cases "data_validation p")
  case True
  let ?p = "p\<lparr> opt_validation_mode := if verb p = READ then VALIDATION_MODE_READ else VALIDATION_MODE_WRITE \<rparr>"
  from True assms obtain vcs where c: "list_all Not (validation_checks b p)" "derive_validation_chunk_size (of_nat (up_size p)) (of_nat (tx_depth p)) = Some vcs"
    and q: "q = ?p\<lparr> validation_chunk_size := vcs, validation_chunks_per_qp :=
      derive_validation_chunks_per_qp (of_nat (up_size p) * ucast vcs) (int (num_of_qps p)) (verb p = READ) \<rparr>"
    by (auto simp: validation_deps_def Let_def split: option.splits)
  have "4 \<le> validation_chunks_per_qp q \<and> validation_chunks_per_qp q \<le> 24"
    unfolding q derive_validation_chunks_per_qp_def using scale_depth_range [OF base_depth_range(1)] by simp
  with c show ?thesis by (cases "test_method p") (auto simp: validation_ready_def validation_checks_def q)
qed (use assms in \<open>simp add: validation_deps_def validation_ready_def\<close>)

lemma srq_deps_val [val_neutral]: "srq_deps p = Some q \<Longrightarrow> val_core q = val_core p"
  by (auto simp: srq_deps_def val_core_def dep_core_def Let_def split: if_splits)

lemma post_list_deps_val [val_neutral]: "post_list_deps p = Some q \<Longrightarrow> val_core q = val_core p"
  by (auto simp: post_list_deps_def val_core_def dep_core_def Let_def split: if_splits)

lemma duration_deps_val [val_neutral]: "duration_deps p = Some q \<Longrightarrow> val_core q = val_core p"
  by (auto simp: duration_deps_def val_core_def dep_core_def Let_def split: if_splits)

lemma infinite_deps_val [val_neutral]: "infinite_deps p = Some q \<Longrightarrow> val_core q = val_core p"
  by (auto simp: infinite_deps_def val_core_def dep_core_def Let_def split: if_splits)

lemma srd_deps_val [val_neutral]: "srd_deps b p = Some q \<Longrightarrow> val_core q = val_core p"
  by (auto simp: srd_deps_def val_core_def dep_core_def Let_def split: if_splits)

lemma even_rx_depth_val [val_neutral]: "even_rx_depth p = Some q \<Longrightarrow> val_core q = val_core p"
  by (auto simp: even_rx_depth_def val_core_def dep_core_def Let_def split: if_splits)

lemma fill_count_deps_val [val_neutral]: "fill_count_deps p = Some q \<Longrightarrow> val_core q = val_core p"
  by (auto simp: fill_count_deps_def val_core_def dep_core_def Let_def split: if_splits)

lemma mac_fwd_deps_val [val_neutral]: "mac_fwd_deps p = Some q \<Longrightarrow> val_core q = val_core p"
  by (auto simp: mac_fwd_deps_def val_core_def dep_core_def Let_def split: if_splits)

lemma flow_rules_force_dependecies_val [val_neutral]: "flow_rules_force_dependecies p = Some q \<Longrightarrow> val_core q = val_core p"
  by (auto simp: flow_rules_force_dependecies_def val_core_def dep_core_def Let_def split: if_splits)

lemma raw_eth_deps_val [val_neutral]:
  assumes "raw_eth_deps p = Some q"
  shows "val_core q = val_core p"
proof (cases "connection_type p = RawEth")
  case True
  let ?p = "p\<lparr> use_old_post_send := True \<rparr>"
  from True assms obtain r where "mac_fwd_deps ?p = Some r" "flow_rules_force_dependecies r = Some q"
    by (auto simp: raw_eth_deps_def split: option.splits)
  then have "val_core q = val_core ?p" by (simp add: val_neutral)
  then show ?thesis by (simp add: val_core_def dep_core_def)
qed (use assms in \<open>simp add: raw_eth_deps_def\<close>)

lemma mcg_ready: "ready p \<Longrightarrow> mcg_deps p = Some q \<Longrightarrow> ready q"
  by (auto simp: ready_def validation_ready_def multicast_sends_def mcg_deps_def split: if_splits)

interpretation readiness: step_invariant ready "setup_steps b @ late_steps b @ final_steps b" for b
proof
  fix f x y assume "f \<in> set (setup_steps b @ late_steps b @ final_steps b)" "ready x" "f x = Some y"
  then show "ready y"
    by (auto simp: step_list_defs simp del: checks_Some dest: neutral [THEN val_core_dep] ready_core val_neutral mcg_ready)
qed

text \<open>The blocks in front of the validation block do not touch verb and multicast.\<close>

lemma depths_multicast:
  assumes "multicast_sends p" "run_steps depth_steps p = Some q"
  shows "multicast_sends q"
proof -
  have d: "verb (rdma_rx_depth r) = verb r \<and> use_mcg (rdma_rx_depth r) = use_mcg r" "verb (cap_tx_depth r) = verb r \<and> use_mcg (cap_tx_depth r) = use_mcg r"
    "verb (cap_rx_depth r) = verb r \<and> use_mcg (cap_rx_depth r) = use_mcg r" "verb (ud_rx_depth r) = verb r \<and> use_mcg (ud_rx_depth r) = use_mcg r" for r
    by (simp_all add: rdma_rx_depth_def cap_tx_depth_def cap_rx_depth_def ud_rx_depth_def Let_def)
  have c: "verb (force_sw_rate r) = verb r \<and> use_mcg (force_sw_rate r) = use_mcg r" "verb (cap_moderation r) = verb r \<and> use_mcg (cap_moderation r) = use_mcg r"
    "verb (no_inline r) = verb r \<and> use_mcg (no_inline r) = use_mcg r" "verb (all_sizes r) = verb r \<and> use_mcg (all_sizes r) = use_mcg r" for r
    by (simp_all add: force_sw_rate_def cap_moderation_def no_inline_def all_sizes_def)
  have l: "large_message_cq_mod r = Some s \<Longrightarrow> verb s = verb r \<and> use_mcg s = use_mcg r" for r s by (simp add: large_message_cq_mod_def split: if_splits) auto
  from assms(2) obtain r s where r: "set_depths p = Some r" "large_message_cq_mod r = Some s" "cap_cq_mod s = Some q"
    by (auto simp: depth_steps_def split: option.splits)
  have "r = ud_rx_depth (cap_rx_depth (cap_tx_depth (rdma_rx_depth p))) \<or> r = rdma_rx_depth p"
    using r(1) by (simp add: set_depths_def Let_def split: if_splits)
  then have "verb r = verb p \<and> use_mcg r = use_mcg p" by (elim disjE) (simp_all add: d)
  moreover have "verb q = verb s \<and> use_mcg q = use_mcg s"
    using r(3) unfolding cap_cq_mod_def option.inject by (auto simp: c)
  ultimately show ?thesis using l [OF r(2)] assms(1) by (simp add: multicast_sends_def)
qed

lemma validation_multicast: "multicast_sends p \<Longrightarrow> validation_deps b p = Some q \<Longrightarrow> multicast_sends q"
  by (auto simp: multicast_sends_def validation_deps_def Let_def split: if_splits option.splits)

lemma accepted_ready:
  assumes "multicast_sends p" "force_dependecies b p = Some q"
  shows "validation_ready q"
proof (rule force_groups [OF assms(2)])
  fix p1 p2 p3 p4 p5 p6
  assume g: "run_steps depth_steps p = Some p1" "validation_deps b p1 = Some p2" "run_steps (setup_steps b) p2 = Some p3"
    "infinite_deps p3 = Some p4" "run_steps (late_steps b) p4 = Some p5" "fill_count_deps p5 = Some p6" "run_steps (final_steps b) p6 = Some q"
  have "ready p2"
    using validation_deps_ready [OF g(2)] validation_multicast [OF depths_multicast [OF assms(1) g(1)] g(2)] by (simp add: ready_def)
  with g(3) have "ready p3" by (rule readiness.sub_steps [of _ b, rotated]) auto
  with ready_core [OF infinite_deps_val [OF g(4)]] have "ready p4" .
  with g(5) have "ready p5" by (rule readiness.sub_steps [of _ b, rotated]) auto
  with ready_core [OF fill_count_deps_val [OF g(6)]] have "ready p6" .
  with g(7) have "ready q" by (rule readiness.sub_steps [of _ b, rotated]) auto
  then show ?thesis by (simp add: ready_def)
qed

text \<open>
  When the options are accepted with data validation, the test is of the kind the validators can
  check: an RC bandwidth test of WRITE or READ with single posts and at least 32 requests in flight,
  with the mode of the verb, chunks of 64 KB to 8 MB, and 4 to 24 chunks per queue pair; what later
  blocks change does not disturb it.  (Multicast is offered for SEND only.)
\<close>

theorem accepted_validation_is_supported:
  assumes "multicast_sends p" "force_dependecies b p = Some q" "data_validation q" "0 < up_size q" "up_size q \<le> 8388608" "tx_depth q < 2 ^ 32"
  shows "(verb q = WRITE \<or> verb q = READ) \<and> tst q = BW \<and> connection_type q = RC \<and> post_list q \<le> 1 \<and> test_method q = RUN_REGULAR \<and> 32 \<le> tx_depth q \<and>
    (opt_validation_mode q = VALIDATION_MODE_READ \<longleftrightarrow> verb q = READ) \<and>
    65536 \<le> up_size q * unat (validation_chunk_size q) \<and> up_size q * unat (validation_chunk_size q) \<le> 8388608 \<and>
    4 \<le> validation_chunks_per_qp q \<and> validation_chunks_per_qp q \<le> 24"
proof -
  note r = accepted_ready [OF assms(1,2)]
  have u: "unat (of_nat (up_size q) :: u64) = up_size q" "unat (of_nat (tx_depth q) :: u32) = tx_depth q"
    using assms(5,6) by (simp_all add: unat_of_nat)
  obtain vcs where "derive_validation_chunk_size (of_nat (up_size q)) (of_nat (tx_depth q)) = Some vcs"
    "65536 \<le> up_size q * unat vcs" "up_size q * unat vcs \<le> 8388608"
    by (rule chunk_size_bounds [of "of_nat (up_size q)" "of_nat (tx_depth q)"]) (use r assms(3-5) u in \<open>auto simp: validation_ready_def\<close>)
  with r assms(3) show ?thesis by (auto simp: validation_ready_def)
qed

section \<open>Examples\<close>

text \<open>The options of a small test, as the parser leaves them, and a plain build.\<close>

definition demo_options :: perftest_options where
  "demo_options = \<lparr> connection_type = RC, verb = WRITE, tst = BW, machine = CLIENT, atomicType = FETCH_AND_ADD,
     test_type = ITERATIONS, test_method = RUN_REGULAR, up_size = 64, iters = 5, num_of_qps = 1, tx_depth = 4,
     rx_depth = 16, post_list = 1, recv_post_list = 1, cq_mod = 2, fill_count = True, duplex = False,
     use_xrc = False, use_srq = False, use_event = False, noPeak = True, flows = 1, flows_burst = 1,
     inline_size = 0, mac_fwd = False, mr_per_qp = False, use_null_mr = False, use_unsolicited_write = False,
     margin = 0, duration = 5, rate_limit_type = DISABLE_RATE_LIMIT, burst_size = 0, cycle_buffer = 4096,
     cache_line_size = 64, cqe_poll = 16, dynamic_cqe_poll = False, work_rdma_cm = False,
     report_per_port = False,
     margin_arg = -1, inline_arg = -1, req_cq_mod = False, output_level = FULL_VERBOSITY, connectionless = False, use_mcg = False,
     data_validation = False, opt_validation_mode = VALIDATION_MODE_WRITE, validation_chunk_size = 0, validation_chunks_per_qp = 0,
     memory_type = MEMORY_HOST, has_payload_modification = False, gpu_touch = GPU_NO_TOUCH, aes_block_size = 512, sig_offload = False,
     dualport = False, link_type = -2, link_type2 = -2, cpu_util = False, cpu_util_enable = False, use_rdma_cm = False,
     use_gid_user = False, is_source_mac = False, is_dest_mac = False, raw_mcast = False, is_server_port = False,
     is_client_port = False, is_server_ip = False, is_client_ip = False, tcp = False, opt_gid_index = -1, tos = -1, hop_limit = 64,
     use_old_post_send = False, log_dci_streams = 0, log_active_dci_streams = 0, aes_xts = False, has_kek_path = False,
     has_data_enc_key_app_path = False, has_credentials_path = False, encrypt_on_tx = False, sig_before = False, sl = 0,
     srq_exists = False, typical_pkt_size = 0, rate_limit = 0, rate_limit_str = [], rate_units = GIGA_BIT_PS,
     valid_hw_rate_limit_index = 0, latency_gap = 0, scatter_to_cqe_disabled = False, use_cc_unprotected = False, use_odp = False,
     use_hugepages = False, use_data_direct = False, use_cuda_pcie_mapping = False, use_eq_num = False, congest_type = False,
     use_write_with_imm = False, use_cqe_poll = False, processing_hints = -1, tph_mem_type = -1, cpu_id = -1, numa_node = -1,
     disable_numa = False, cpu_affinity_count = 0 \<rparr>"

definition demo_build :: build_config where
  "demo_build = \<lparr> HAVE_AES_XTS = False, HAVE_SIG_OFFLOAD = False, HAVE_IBV_WR_API = True, HAVE_DCS = False, HAVE_SRD_QP_SL = False,
     HAVE_CC_UNPROTECTED_ALLOC = False, HAVE_HNSDV = False, HAVE_REG_MR_EX = False, host_validation_runtime_supported = True,
     setenv_ok = True, mlx5dv_block_size = \<lambda>n. n, ibv_rate = \<lambda>n. int n \<rparr>"

lemmas step_defs = set_depths_def rdma_rx_depth_def cap_tx_depth_def cap_rx_depth_def ud_rx_depth_def large_message_cq_mod_def cap_cq_mod_def
  force_sw_rate_def cap_moderation_def no_inline_def all_sizes_def basic_checks_def validation_deps_def validation_checks_def srq_deps_def offload_deps_def dualport_deps_def post_list_deps_def
  recv_post_list_deps_def duration_deps_def raw_eth_deps_def cm_deps_def mcg_deps_def server_peak_def infinite_deps_def post_send_deps_def
  dci_checks_def aes_checks_def srd_deps_def unsolicited_checks_def srq_exists_deps_def burst_deps_def rate_deps_def output_checks_def
  margin_deps_def memory_checks1_def scatter_deps_def memory_checks2_def inline_deps_def even_rx_depth_def time_checks_def
  fill_count_deps_def congest_checks_def polling_deps_def check_intense_polling_def placement_checks_def checks_def has_recv_comp_def Let_def

lemmas force_defs = force_dependecies_def dependency_steps_def step_list_defs step_defs demo_build_def demo_options_def

text \<open>The accepted form of some options, and a sender that runs with it.\<close>

definition accepted :: "perftest_options \<Rightarrow> perftest_options" where
  "accepted p = (case force_dependecies demo_build p of Some q \<Rightarrow> q | None \<Rightarrow> p)"

definition sender_of :: "perftest_options \<Rightarrow> bw_ctx" where
  "sender_of p = \<lparr> bp = test_params (accepted p), send_rcredit = False, my_addr = \<lambda>_. 4096, rem_addr = \<lambda>_. 8192, port_by_qp = \<lambda>_. 0 \<rparr>"

lemma num_qps_params [simp]:
  "bw_num_qps (test_params q) = (if duplex q \<and> (use_xrc q \<or> connection_type q = DC) then num_of_qps q div 2 else num_of_qps q)"
  by (auto simp: bw_num_qps_def test_params_def perftest_parameters.truncate_def)

lemma accepted_eq: "force_dependecies demo_build p = Some q \<Longrightarrow> accepted p = q"
  by (simp add: accepted_def)

lemma demo_accepted:
  "\<exists>q. force_dependecies demo_build demo_options = Some q \<and> test_type q = ITERATIONS \<and> rate_limit_type q = DISABLE_RATE_LIMIT \<and>
    tx_depth q = 4 \<and> iters q = 5 \<and> cqe_poll q = 16 \<and> num_of_qps q = 1 \<and> \<not> duplex q"
  by (simp add: force_defs)

section \<open>Lists longer than the send queue\<close>

text \<open>Before anything was posted, nothing can be posted and nothing completes.\<close>

definition untouched :: "bw_ctx \<Rightarrow> bw_state \<Rightarrow> bool" where
  "untouched c st \<longleftrightarrow> tx_depth (bp c) < post_list (bp c) \<longrightarrow>
     posts st = [] \<and> totscnt st = 0 \<and> (\<forall>i < bw_num_qps (bp c). scnt st ! i = 0 \<and> ccnt st ! i = 0)"

interpretation stalled: bw_invariant c "honest_env c env" "untouched c" for c env
proof unfold_locales
  show "honest_device c (honest_env c env)" by (rule honest_device_env)
next
  fix st st' assume "bw_core st' = bw_core st" "untouched c st"
  then show "untouched c st'" by (simp add: bw_core_def untouched_def)
next
  fix st i st'
  assume "untouched c st" "can_post c st i" "i < bw_num_qps (bp c)"
  then have "\<not> tx_depth (bp c) < post_list (bp c)" by (auto simp: untouched_def can_post_def)
  then show "untouched c st'" by (simp add: untouched_def)
next
  fix st i st'
  assume "untouched c st" "can_post c st i" "i < bw_num_qps (bp c)"
  then have "\<not> tx_depth (bp c) < post_list (bp c)" by (auto simp: untouched_def can_post_def)
  then show "untouched c st'" by (simp add: untouched_def)
next
  fix st w st'
  assume u: "untouched c st" and h: "honest_answer c st [fst w]"
  from h have "count_list [fst w] (fst w) \<le> signaled_posts c st (fst w)" unfolding honest_answer_def by (meson add_leD1)
  with u have "\<not> tx_depth (bp c) < post_list (bp c)" by (auto simp: untouched_def signaled_posts_def)
  then show "untouched c st'" by (simp add: untouched_def)
qed

lemma oversized_never_succeeds:
  assumes "tx_depth q < post_list q" "test_type q = ITERATIONS" "0 < iters q"
    and "bp c = test_params q" "0 < bw_num_qps (test_params q)" "honest_device c env"
  shows "run_iter_bw inner fuel c env \<noteq> Some (Inr st)"
proof
  assume "run_iter_bw inner fuel c env = Some (Inr st)"
  then obtain s0 where l: "bw_loop inner fuel c env (bw_init c env) = Some (Inr s0)"
    by (cases rule: run_iter_bw_cases) auto
  have "untouched c (bw_init c env)"
    using bw_num_qps_le [of "bp c"] by (simp add: untouched_def bw_init_def Let_def)
  with stalled.bw_loop_inv [of inner fuel c env "bw_init c env" "Inr s0"] l assms(6) have "untouched c s0"
    by (simp add: honest_env_id)
  with assms(1,4) have "totscnt s0 = 0" by (simp add: untouched_def)
  with bw_loop_exit [OF l] assms(2-5) show False by (simp add: running_def tot_iters_def)
qed

lemma oversized_accepted:
  assumes "0 < d" "d < k" "0 < m"
  shows "\<exists>q. force_dependecies demo_build (demo_options\<lparr> tx_depth := d, post_list := k, iters := k * m \<rparr>) = Some q \<and> tx_depth q = d \<and> post_list q = k \<and>
    test_type q = ITERATIONS \<and> iters q = k * m \<and> num_of_qps q = 1 \<and> \<not> duplex q"
proof -
  have "k \<le> k * m" using assms(3) by simp
  then have "d \<le> k * m" "1 < k" "0 < k * m" using assms by linarith+
  then show ?thesis using assms by (simp add: force_defs)
qed

text \<open>
  C38. A list of send requests that is longer than the send queue is accepted but never posted: for all sizes \<open>d < k\<close>, the options of
  a counted RC WRITE bandwidth test with \<open>d\<close> entries in the send queue and lists of \<open>k\<close> requests (the iterations being a multiple of
  \<open>k\<close>) are accepted by \<open>force_dependecies\<close>, and no run with the accepted parameters succeeds, however long it is given and
  whatever a device does that completes only what was posted.
\<close>

theorem oversized_post_list_never_completes:
  assumes "0 < d" "d < k" "0 < m"
  shows "\<exists>q. force_dependecies demo_build (demo_options\<lparr> tx_depth := d, post_list := k, iters := k * m \<rparr>) = Some q \<and> tx_depth q = d \<and> post_list q = k \<and>
    (\<forall>c env inner fuel st. bp c = test_params q \<and> honest_device c env \<longrightarrow> run_iter_bw inner fuel c env \<noteq> Some (Inr st))"
proof -
  obtain q where q: "force_dependecies demo_build (demo_options\<lparr> tx_depth := d, post_list := k, iters := k * m \<rparr>) = Some q" "tx_depth q = d" "post_list q = k"
    "test_type q = ITERATIONS" "iters q = k * m" "num_of_qps q = 1" "\<not> duplex q" using oversized_accepted [OF assms] by blast
  have "0 < iters q" using q(5) assms by simp
  then have "run_iter_bw inner fuel c env \<noteq> Some (Inr st)" if "bp c = test_params q" "honest_device c env" for c env inner fuel st
    by (intro oversized_never_succeeds [OF _ q(4) _ that(1) _ that(2)]) (use q assms(2) in simp_all)
  then show ?thesis using q by blast
qed

section \<open>Concrete tests\<close>

theorem accepted_test_terminates_witness:
  "\<exists>st. run_iter_bw 4 22 (sender_of demo_options) (slow_env 2 (sender_of demo_options)) = Some (Inr st) \<and> scnt st ! 0 = 5 \<and> ccnt st ! 0 = 5"
proof -
  obtain q where q: "force_dependecies demo_build demo_options = Some q" "test_type q = ITERATIONS" "rate_limit_type q = DISABLE_RATE_LIMIT"
    "tx_depth q = 4" "iters q = 5" "cqe_poll q = 16" "num_of_qps q = 1" "\<not> duplex q" using demo_accepted by blast
  have r: "parsed_ranges demo_options" by (simp add: parsed_ranges_def demo_options_def)
  have c: "bp (sender_of demo_options) = test_params q" "\<not> send_rcredit (sender_of demo_options)" by (simp_all add: sender_of_def accepted_eq [OF q(1)])
  have "plain_test (sender_of demo_options)" by (rule accepted_plain [OF r q(1,2) _ c]) (simp add: q)
  from accepted_test_terminates [OF _ _ _ _ _ q(1,2) _ c _ slow_env_fair [OF this], of 2 4 22] q(3-) show ?thesis by (simp add: demo_options_def)
qed

lemma demo_timed:
  "\<exists>q. force_dependecies demo_build (demo_options\<lparr> test_type := DURATION, duration := 8 \<rparr>) = Some q \<and> test_type q = DURATION \<and> duration q = 8 \<and> margin_arg q = 2"
  by (simp add: force_defs)

theorem accepted_timed_test_ends_witness:
  "\<exists>q. force_dependecies demo_build (demo_options\<lparr> test_type := DURATION, duration := 8 \<rparr>) = Some q \<and>
     phase (seconds (test_params q) 0 8 (start_timed (test_params q) 0
       \<lparr> phase = START_STATE, tposted0 = 0, tcompleted0 = 0, cpu_samples = [], pending = None \<rparr>)) = END_STATE"
proof -
  obtain q where q: "force_dependecies demo_build (demo_options\<lparr> test_type := DURATION, duration := 8 \<rparr>) = Some q" "test_type q = DURATION"
    "duration q = 8" "margin_arg q = 2" using demo_timed by blast
  from accepted_timed_test_ends [OF _ q(1,2) _ refl] q show ?thesis by (auto simp: demo_options_def)
qed

abbreviation demo_validation :: perftest_options where
  "demo_validation \<equiv> demo_options\<lparr> data_validation := True, iters := 64, tx_depth := 32, up_size := 4096 \<rparr>"

lemma demo_validated:
  "\<exists>q. force_dependecies demo_build demo_validation = Some q \<and> data_validation q \<and> up_size q = 4096 \<and> tx_depth q = 32"
  by (simp add: force_defs derive_validation_chunk_size_def)

theorem accepted_validation_is_supported_witness:
  "\<exists>q. force_dependecies demo_build demo_validation = Some q \<and> 65536 \<le> 4096 * unat (validation_chunk_size q)"
proof -
  obtain q where q: "force_dependecies demo_build demo_validation = Some q" "data_validation q" "up_size q = 4096" "tx_depth q = 32"
    using demo_validated by blast
  from accepted_validation_is_supported [OF _ q(1,2)] q show ?thesis by (auto simp: multicast_sends_def demo_options_def)
qed

theorem oversized_post_list_never_completes_witness:
  "\<exists>q. force_dependecies demo_build (demo_options\<lparr> tx_depth := 4, post_list := 8, iters := 8 * 2 \<rparr>) = Some q \<and> tx_depth q = 4 \<and> post_list q = 8 \<and>
     (\<forall>inner fuel st. run_iter_bw inner fuel (sender_of (demo_options\<lparr> tx_depth := 4, post_list := 8, iters := 8 * 2 \<rparr>))
        (honest_env (sender_of (demo_options\<lparr> tx_depth := 4, post_list := 8, iters := 8 * 2 \<rparr>)) (prompt_env (sender_of demo_options))) \<noteq> Some (Inr st))"
proof -
  let ?p = "demo_options\<lparr> tx_depth := 4, post_list := 8, iters := 8 * 2 \<rparr>"
  from oversized_post_list_never_completes [of 4 8 2] obtain q where q: "force_dependecies demo_build ?p = Some q" "tx_depth q = 4" "post_list q = 8"
    and n: "\<forall>c env inner fuel st. bp c = test_params q \<and> honest_device c env \<longrightarrow> run_iter_bw inner fuel c env \<noteq> Some (Inr st)" by auto
  have "bp (sender_of ?p) = test_params q" unfolding sender_of_def accepted_eq [OF q(1)] by simp
  then show ?thesis using q n honest_device_env by blast
qed

end
