(* ===== verification/Bw_Bidir.thy ===== *)
theory Bw_Bidir
  imports Bw_Server
begin

text \<open>
  Model of \<open>run_iter_bi\<close> in \<^verbatim>\<open>src/src/perftest_resources.c\<close>: a side of a bidirectional bandwidth test, which sends and receives
  in one loop.  A server sends nothing before its first message arrives.  Messages and credits share the send
  queue: a message is posted only if the messages and credits that are out leave room for it, and a credit waits
  for room.  What the loop observes is an environment indexed by a clock, as for \<open>run_iter_bw\<close> and
  \<open>run_iter_bw_server\<close>; the state keeps the trace of the posts (\<open>bi_log\<close>, newest first).
\<close>

section \<open>State\<close>

text \<open>A post: the queue pair, whether it is a credit, and the counters of the queue pair before it.\<close>

record bi_post_event =
  be_qp :: nat
  be_credit :: bool
  be_scnt :: nat
  be_scredit :: int
  be_ccnt :: nat
  be_signaled :: bool
  be_early :: bool

record bi_state =
  bi_scnt :: "nat list"
  bi_ccnt :: "nat list"
  bi_rcnt :: "nat list"
  bi_unused :: "nat list"
  bi_posted :: "nat list"
  bi_scredit :: "int list"
  bi_tot_scredit :: int
  bi_totscnt :: nat
  bi_totccnt :: nat
  bi_totrcnt :: nat
  bi_iters :: nat
  bi_per_port :: "nat list"
  before_first_rx :: bool
  bi_flag :: "bool list"
  bi_laddr :: "u64 list"
  bi_recv_addr :: "nat \<Rightarrow> u64"
  bi_ctrl_buf :: "u32 list"
  bi_recv_ne :: int
  bi_send_ne :: int
  bi_clk :: nat
  bi_log :: "bi_post_event list"
  bi_tposted_ix :: "nat list"
  bi_tcompleted_ix :: "nat list"

text \<open>A send completion: its queue pair, its status, and whether it is one of an RDMA write.\<close>

record send_wc =
  sw_qp :: nat
  sw_ok :: bool
  sw_write :: bool

text \<open>
  \<open>b_stale_qp\<close> is the queue pair that the receive completion array still holds at the index of a send
  completion: the code takes the port of a send completion from there.
\<close>

record bi_env =
  b_dstate :: "nat \<Rightarrow> DurationStates"
  b_credit :: "nat \<Rightarrow> nat \<Rightarrow> u32"
  b_post_ok :: "nat \<Rightarrow> bool"
  b_post_recv_ok :: "nat \<Rightarrow> bool"
  b_post_credit_ok :: "nat \<Rightarrow> bool"
  b_notify_ok :: "nat \<Rightarrow> bool"
  b_recv_poll :: "nat \<Rightarrow> bi_state \<Rightarrow> srv_wc list option"
  b_send_poll :: "nat \<Rightarrow> bi_state \<Rightarrow> nat \<Rightarrow> send_wc list option"
  b_stale_qp :: "nat \<Rightarrow> nat"
  b_to_exit :: "nat \<Rightarrow> bool"

record bi_ctx =
  bi_srv :: srv_ctx
  bi_my_addr :: "nat \<Rightarrow> u64"

abbreviation bip :: "bi_ctx \<Rightarrow> perftest_parameters" where
  "bip c \<equiv> sp (bi_srv c)"

text \<open>The local copy of \<open>iters\<close>, taken when the loop is entered.\<close>

definition bi_goal :: "bi_ctx \<Rightarrow> nat" where
  "bi_goal c = (if test_type (bip c) = DURATION \<and> machine (bip c) = CLIENT then 0 else iters (bip c))"

definition bi_tot_iters :: "bi_ctx \<Rightarrow> nat" where
  "bi_tot_iters c = bi_goal c * bw_num_qps (bip c)"

section \<open>Posting\<close>

definition bi_can_post :: "bi_ctx \<Rightarrow> bi_state \<Rightarrow> nat \<Rightarrow> bool" where
  "bi_can_post c st i \<longleftrightarrow> \<not> before_first_rx st \<and> (bi_scnt st ! i < bi_goal c \<or> test_type (bip c) = DURATION) \<and>
     int (bi_scnt st ! i) + bi_scredit st ! i + int (post_list (bip c)) \<le> int (tx_depth (bip c)) + int (bi_ccnt st ! i)"

definition bi_clear_signal :: "bi_ctx \<Rightarrow> nat \<Rightarrow> bi_state \<Rightarrow> bi_state" where
  "bi_clear_signal c i st =
     (if post_list (bip c) = 1 \<and> bi_scnt st ! i mod cq_mod (bip c) = 0 \<and> cq_mod (bip c) > 1 \<and>
         \<not> (bi_scnt st ! i + 1 = bi_iters st \<and> test_type (bip c) = ITERATIONS)
      then st\<lparr> bi_flag := (bi_flag st)[i := False] \<rparr> else st)"

definition bi_set_signal :: "bi_ctx \<Rightarrow> nat \<Rightarrow> bi_state \<Rightarrow> bi_state" where
  "bi_set_signal c i st =
     (if post_list (bip c) = 1 \<and>
         (bi_scnt st ! i mod cq_mod (bip c) = cq_mod (bip c) - 1 \<or> test_type (bip c) = ITERATIONS \<and> bi_scnt st ! i + 1 = bi_goal c)
      then st\<lparr> bi_flag := (bi_flag st)[i := True] \<rparr> else st)"

definition bi_stamp_post :: "bi_ctx \<Rightarrow> bi_state \<Rightarrow> bi_state" where
  "bi_stamp_post c st = (if noPeak (bip c) then st else st\<lparr> bi_tposted_ix := bi_totscnt st # bi_tposted_ix st \<rparr>)"

definition bi_log_post :: "bool \<Rightarrow> nat \<Rightarrow> bi_state \<Rightarrow> bi_state" where
  "bi_log_post credit q st =
     st\<lparr> bi_log := \<lparr> be_qp = q, be_credit = credit, be_scnt = bi_scnt st ! q, be_scredit = bi_scredit st ! q, be_ccnt = bi_ccnt st ! q,
                     be_signaled = bi_flag st ! q, be_early = before_first_rx st \<rparr> # bi_log st \<rparr>"

definition bi_move_addr :: "bi_ctx \<Rightarrow> nat \<Rightarrow> bi_state \<Rightarrow> bi_state" where
  "bi_move_addr c i st =
     (if post_list (bip c) = 1 \<and> up_size (bip c) \<le> ctx_cycle_buffer (bip c) div 2
      then st\<lparr> bi_laddr := (bi_laddr st)[i := increase_addr (bi_laddr st ! i) (up_size (bip c)) (bi_scnt st ! i) (bi_my_addr c i)
                 (cache_line_size (bip c)) (ctx_cycle_buffer (bip c))] \<rparr>
      else st)"

definition bi_count_post :: "bi_ctx \<Rightarrow> nat \<Rightarrow> bi_state \<Rightarrow> bi_state" where
  "bi_count_post c i st =
     st\<lparr> bi_scnt := (bi_scnt st)[i := bi_scnt st ! i + post_list (bip c)], bi_totscnt := bi_totscnt st + post_list (bip c) \<rparr>"

definition bi_tick :: "bi_state \<Rightarrow> bi_state" where
  "bi_tick st = st\<lparr> bi_clk := bi_clk st + 1 \<rparr>"

definition bi_post_one :: "bi_ctx \<Rightarrow> bi_env \<Rightarrow> nat \<Rightarrow> bi_state \<Rightarrow> bi_state outcome" where
  "bi_post_one c env i st =
     (let swindow = (of_nat (bi_scnt st ! i + post_list (bip c)) :: u32) - b_credit env (bi_clk st) i in
      if r_send_rcredit (bi_srv c) \<and> swindow \<ge> of_nat (rx_depth (bip c)) then Break (bi_tick st)
      else let st2 = bi_stamp_post c (bi_clear_signal c i st) in
        if test_type (bip c) = DURATION \<and> b_dstate env (bi_clk st2) = END_STATE then Break (bi_tick st2)
        else if \<not> b_post_ok env (bi_clk st2) then Fail (bi_tick st2)
        else Next (bi_tick (bi_set_signal c i (bi_count_post c i (bi_move_addr c i (bi_log_post False i st2))))))"

fun bi_post_while :: "nat \<Rightarrow> bi_ctx \<Rightarrow> bi_env \<Rightarrow> nat \<Rightarrow> bi_state \<Rightarrow> (bi_state + bi_state) option" where
  "bi_post_while fuel c env i st =
     (if \<not> bi_can_post c st i then Some (Inr st)
      else case fuel of
             0 \<Rightarrow> None
           | Suc f \<Rightarrow> (case bi_post_one c env i st of
                        Next st' \<Rightarrow> bi_post_while f c env i st'
                      | Break st' \<Rightarrow> Some (Inr st')
                      | Fail st' \<Rightarrow> Some (Inl st')))"

declare bi_post_while.simps [simp del]

fun bi_post_qps :: "nat \<Rightarrow> bi_ctx \<Rightarrow> bi_env \<Rightarrow> nat list \<Rightarrow> bi_state \<Rightarrow> (bi_state + bi_state) option" where
  "bi_post_qps fuel c env [] st = Some (Inr st)"
| "bi_post_qps fuel c env (i # is) st =
     (case bi_post_while fuel c env i st of
        None \<Rightarrow> None
      | Some (Inl st2) \<Rightarrow> Some (Inl st2)
      | Some (Inr st2) \<Rightarrow> bi_post_qps fuel c env is st2)"

section \<open>Receiving\<close>

text \<open>The first message lets a server send, and starts its timed test.\<close>

definition bi_first_rx :: "bi_ctx \<Rightarrow> bi_state \<Rightarrow> bi_state" where
  "bi_first_rx c st =
     (if machine (bip c) = SERVER \<and> before_first_rx st
      then st\<lparr> before_first_rx := False, bi_iters := (if test_type (bip c) = DURATION then 0 else bi_iters st) \<rparr> else st)"

definition bi_count_message :: "bi_ctx \<Rightarrow> bi_env \<Rightarrow> nat \<Rightarrow> bi_state \<Rightarrow> bi_state" where
  "bi_count_message c env q st =
     (let st1 = st\<lparr> bi_rcnt := (bi_rcnt st)[q := bi_rcnt st ! q + 1], bi_unused := (bi_unused st)[q := bi_unused st ! q + 1],
                   bi_totrcnt := bi_totrcnt st + 1 \<rparr>
      in bi_tick (if test_type (bip c) = DURATION \<and> b_dstate env (bi_clk st) = SAMPLE_STATE
         then st1\<lparr> bi_per_port := (if report_per_port (bip c)
                     then (bi_per_port st1)[r_port_by_qp (bi_srv c) q := bi_per_port st1 ! r_port_by_qp (bi_srv c) q + 1] else bi_per_port st1),
                   bi_iters := bi_iters st1 + 1 \<rparr>
         else st1))"

definition bi_recv_due :: "bi_ctx \<Rightarrow> bi_state \<Rightarrow> nat \<Rightarrow> bool" where
  "bi_recv_due c st q \<longleftrightarrow>
     (test_type (bip c) = DURATION \<or> bi_posted st ! q + recv_post_list (bip c) \<le> bi_iters st) \<and>
     bi_unused st ! q \<ge> recv_post_list (bip c) \<and> \<not> use_unsolicited_write (bip c)"

definition bi_move_recv_addr :: "bi_ctx \<Rightarrow> srv_wc \<Rightarrow> bi_state \<Rightarrow> bi_state" where
  "bi_move_recv_addr c w st =
     (if SIZE (connection_type (bip c)) (up_size (bip c)) (machine (bip c) = SERVER) \<le> ctx_cycle_buffer (bip c) div 2 \<and> recv_post_list (bip c) = 1
      then st\<lparr> bi_recv_addr := (bi_recv_addr st)(w_index w := increase_addr (bi_recv_addr st (w_index w)) (up_size (bip c)) (bi_posted st ! w_qp w)
                 (rx_buffer_addr (bi_srv c) (w_qp w)) (cache_line_size (bip c)) (ctx_cycle_buffer (bip c))) \<rparr>
      else st)"

definition bi_repost_recv :: "bi_ctx \<Rightarrow> bi_env \<Rightarrow> srv_wc \<Rightarrow> bi_state \<Rightarrow> (srv_error \<times> bi_state) + bi_state" where
  "bi_repost_recv c env w st =
     (let q = w_qp w in
      if \<not> bi_recv_due c st q then Inr st
      else if \<not> b_post_recv_ok env (bi_clk st) then Inl (if use_srq (bip c) then Srv_FAILURE else Srv_15, st)
      else let st2 = bi_move_recv_addr c w (st\<lparr> bi_unused := (bi_unused st)[q := bi_unused st ! q - recv_post_list (bip c)] \<rparr>)
           in Inr (bi_tick (st2\<lparr> bi_posted := (bi_posted st2)[q := bi_posted st2 ! q + recv_post_list (bip c)] \<rparr>)))"

section \<open>Completions and credits\<close>

definition bi_stamp_completion :: "bi_ctx \<Rightarrow> bi_state \<Rightarrow> bi_state" where
  "bi_stamp_completion c st =
     (if noPeak (bip c) then st
      else st\<lparr> bi_tcompleted_ix := (if test_type (bip c) = ITERATIONS \<and> bi_totccnt st > bi_tot_iters c then bi_tot_iters c - 1 else bi_totccnt st - 1)
                 # bi_tcompleted_ix st \<rparr>)"

definition bi_credit_done :: "nat \<Rightarrow> bi_state \<Rightarrow> bi_state" where
  "bi_credit_done q st = st\<lparr> bi_scredit := (bi_scredit st)[q := bi_scredit st ! q - 1], bi_tot_scredit := bi_tot_scredit st - 1 \<rparr>"

text \<open>A completion taken while a credit waits for room: a whole moderation group is counted.\<close>

definition bi_wait_take :: "bi_ctx \<Rightarrow> bi_env \<Rightarrow> send_wc \<Rightarrow> bi_state \<Rightarrow> (srv_error \<times> bi_state) + bi_state" where
  "bi_wait_take c env w st =
     (if \<not> sw_ok w then Inl (Srv_FAILURE, st)
      else if sw_write w then Inr (bi_tick (bi_credit_done (sw_qp w) st))
      else let q = sw_qp w;
               st1 = bi_stamp_completion c (st\<lparr> bi_totccnt := bi_totccnt st + cq_mod (bip c), bi_ccnt := (bi_ccnt st)[q := bi_ccnt st ! q + cq_mod (bip c)] \<rparr>)
           in Inr (bi_tick (if test_type (bip c) = DURATION \<and> b_dstate env (bi_clk st) = SAMPLE_STATE
                            then st1\<lparr> bi_iters := bi_iters st1 + cq_mod (bip c) \<rparr> else st1)))"

definition bi_has_room :: "bi_ctx \<Rightarrow> bi_state \<Rightarrow> nat \<Rightarrow> bool" where
  "bi_has_room c st q \<longleftrightarrow> int (bi_scnt st ! q) + bi_scredit st ! q < int (tx_depth (bip c)) + int (bi_ccnt st ! q)"

fun bi_wait_room :: "nat \<Rightarrow> bi_ctx \<Rightarrow> bi_env \<Rightarrow> nat \<Rightarrow> bi_state \<Rightarrow> ((srv_error \<times> bi_state) + bi_state) option" where
  "bi_wait_room fuel c env q st =
     (if bi_has_room c st q then Some (Inr st)
      else case fuel of
             0 \<Rightarrow> None
           | Suc f \<Rightarrow>
               (case b_send_poll env (bi_clk st) st 1 of
                  None \<Rightarrow> Some (Inl (Srv_FAILURE, st))
                | Some [] \<Rightarrow> bi_wait_room f c env q (bi_tick st)
                | Some (w # _) \<Rightarrow> (case bi_wait_take c env w st of Inl e \<Rightarrow> Some (Inl e) | Inr st' \<Rightarrow> bi_wait_room f c env q st')))"

declare bi_wait_room.simps [simp del]

definition bi_post_credit :: "bi_env \<Rightarrow> nat \<Rightarrow> bi_state \<Rightarrow> (srv_error \<times> bi_state) + bi_state" where
  "bi_post_credit env q st =
     (if \<not> b_post_credit_ok env (bi_clk st) then Inl (Srv_FAILURE, st)
      else let st1 = bi_log_post True q st
           in Inr (bi_tick (st1\<lparr> bi_scredit := (bi_scredit st1)[q := bi_scredit st1 ! q + 1], bi_tot_scredit := bi_tot_scredit st1 + 1 \<rparr>)))"

definition bi_send_credit :: "nat \<Rightarrow> bi_ctx \<Rightarrow> bi_env \<Rightarrow> nat \<Rightarrow> bi_state \<Rightarrow> ((srv_error \<times> bi_state) + bi_state) option" where
  "bi_send_credit fuel c env q st =
     (if \<not> r_send_rcredit (bi_srv c) then Some (Inr st)
      else if credit_cnt (bip c) = 0 then Some (Inl (Srv_division, st))
      else if (bi_rcnt st ! q mod rx_depth (bip c)) mod credit_cnt (bip c) \<noteq> 0 then Some (Inr st)
      else (case bi_wait_room fuel c env q (st\<lparr> bi_ctrl_buf := (bi_ctrl_buf st)[q := of_nat (bi_rcnt st ! q)] \<rparr>) of
              None \<Rightarrow> None
            | Some (Inl e) \<Rightarrow> Some (Inl e)
            | Some (Inr st') \<Rightarrow> Some (bi_post_credit env q st')))"

definition bi_receive_one :: "nat \<Rightarrow> bi_ctx \<Rightarrow> bi_env \<Rightarrow> srv_wc \<Rightarrow> bi_state \<Rightarrow> ((srv_error \<times> bi_state) + bi_state) option" where
  "bi_receive_one fuel c env w st =
     (if \<not> check_message (bi_srv c) w then Some (Inl (Srv_FAILURE, st))
      else case bi_repost_recv c env w (bi_count_message c env (w_qp w) st) of
             Inl e \<Rightarrow> Some (Inl e)
           | Inr st' \<Rightarrow> bi_send_credit fuel c env (w_qp w) st')"

fun bi_receive_all :: "nat \<Rightarrow> bi_ctx \<Rightarrow> bi_env \<Rightarrow> srv_wc list \<Rightarrow> bi_state \<Rightarrow> ((srv_error \<times> bi_state) + bi_state) option" where
  "bi_receive_all fuel c env [] st = Some (Inr st)"
| "bi_receive_all fuel c env (w # ws) st =
     (case bi_receive_one fuel c env w st of
        None \<Rightarrow> None
      | Some (Inl e) \<Rightarrow> Some (Inl e)
      | Some (Inr st') \<Rightarrow> bi_receive_all fuel c env ws st')"

text \<open>A completion taken in the main loop: the last group of a counted test may be a short one.\<close>

definition bi_complete_one :: "bi_ctx \<Rightarrow> bi_env \<Rightarrow> send_wc \<Rightarrow> bi_state \<Rightarrow> (srv_error \<times> bi_state) + bi_state" where
  "bi_complete_one c env w st =
     (if \<not> sw_ok w then Inl (Srv_FAILURE, st)
      else if sw_write w \<and> verb (bip c) \<noteq> WRITE_IMM then
        (if \<not> r_send_rcredit (bi_srv c) then Inl (Srv_FAILURE, st) else Inr (bi_tick (bi_credit_done (sw_qp w) st)))
      else let q = sw_qp w;
               capped = fill_count (bip c) \<and> bi_ccnt st ! q + cq_mod (bip c) > bi_iters st;
               cc = (if capped then bi_iters st else bi_ccnt st ! q + cq_mod (bip c));
               st1 = bi_stamp_completion c (st\<lparr> bi_ccnt := (bi_ccnt st)[q := cc], bi_totccnt := bi_totccnt st + cc - bi_ccnt st ! q \<rparr>);
               port = r_port_by_qp (bi_srv c) (b_stale_qp env (bi_clk st))
           in Inr (bi_tick (if test_type (bip c) = DURATION \<and> b_dstate env (bi_clk st) = SAMPLE_STATE
                then st1\<lparr> bi_per_port := (if report_per_port (bip c) then (bi_per_port st1)[port := bi_per_port st1 ! port + cq_mod (bip c)] else bi_per_port st1),
                          bi_iters := bi_iters st1 + cq_mod (bip c) \<rparr>
                else st1)))"

fun bi_complete_all :: "bi_ctx \<Rightarrow> bi_env \<Rightarrow> send_wc list \<Rightarrow> bi_state \<Rightarrow> (srv_error \<times> bi_state) + bi_state" where
  "bi_complete_all c env [] st = Inr st"
| "bi_complete_all c env (w # ws) st =
     (case bi_complete_one c env w st of Inl e \<Rightarrow> Inl e | Inr st' \<Rightarrow> bi_complete_all c env ws st')"

section \<open>The loop\<close>

definition bi_recv_phase :: "nat \<Rightarrow> bi_ctx \<Rightarrow> bi_env \<Rightarrow> bi_state \<Rightarrow> ((srv_error \<times> bi_state) + bi_state) option" where
  "bi_recv_phase fuel c env st =
     (if use_event (bip c) \<and> bi_recv_ne st = 0 \<and> bi_send_ne st = 0 \<and> \<not> b_notify_ok env (bi_clk st) then Some (Inl (Srv_FAILURE, st))
      else (case b_recv_poll env (bi_clk st) st of
              None \<Rightarrow> Some (Inl (Srv_FAILURE, st))
            | Some ws \<Rightarrow>
                (let st1 = bi_tick (st\<lparr> bi_recv_ne := int (length ws) \<rparr>) in
                 if ws = [] then (if b_to_exit env (bi_clk st1) then Some (Inl (Srv_FAILURE, st1)) else Some (Inr st1))
                 else bi_receive_all fuel c env ws (bi_first_rx c st1))))"

definition bi_send_phase :: "bi_ctx \<Rightarrow> bi_env \<Rightarrow> bi_state \<Rightarrow> (srv_error \<times> bi_state) + bi_state" where
  "bi_send_phase c env st =
     (case b_send_poll env (bi_clk st) st (unat (cqe_poll (bip c))) of
        None \<Rightarrow> Inl (Srv_FAILURE, st)
      | Some ws \<Rightarrow> bi_complete_all c env ws (bi_tick (st\<lparr> bi_send_ne := int (length ws) \<rparr>)))"

definition bi_pass :: "nat \<Rightarrow> nat \<Rightarrow> bi_ctx \<Rightarrow> bi_env \<Rightarrow> bi_state \<Rightarrow> ((srv_error \<times> bi_state) + bi_state) option" where
  "bi_pass wait inner c env st =
     (case bi_post_qps inner c env [0..<bw_num_qps (bip c)] st of
        None \<Rightarrow> None
      | Some (Inl st1) \<Rightarrow> Some (Inl (Srv_FAILURE, st1))
      | Some (Inr st1) \<Rightarrow>
          (case bi_recv_phase wait c env st1 of
             None \<Rightarrow> None
           | Some (Inl e) \<Rightarrow> Some (Inl e)
           | Some (Inr st2) \<Rightarrow> Some (bi_send_phase c env st2)))"

definition bi_running :: "bi_ctx \<Rightarrow> bi_env \<Rightarrow> bi_state \<Rightarrow> bool" where
  "bi_running c env st \<longleftrightarrow> test_type (bip c) = DURATION \<and> b_dstate env (bi_clk st) \<noteq> END_STATE \<or>
     bi_totscnt st < bi_tot_iters c \<or> bi_totccnt st < bi_tot_iters c \<or> bi_totrcnt st < bi_tot_iters c"

fun bi_loop :: "nat \<Rightarrow> nat \<Rightarrow> nat \<Rightarrow> bi_ctx \<Rightarrow> bi_env \<Rightarrow> bi_state \<Rightarrow> ((srv_error \<times> bi_state) + bi_state) option" where
  "bi_loop wait inner fuel c env st =
     (if \<not> bi_running c env st then Some (Inr st)
      else case fuel of
             0 \<Rightarrow> None
           | Suc f \<Rightarrow> (case bi_pass wait inner c env (bi_tick st) of
                        None \<Rightarrow> None
                      | Some (Inl e) \<Rightarrow> Some (Inl e)
                      | Some (Inr st') \<Rightarrow> bi_loop wait inner f c env st'))"

declare bi_loop.simps [simp del]

definition bi_init :: "bi_ctx \<Rightarrow> bi_state" where
  "bi_init c = (let n = num_of_qps (bip c) in
     \<lparr> bi_scnt = replicate n 0, bi_ccnt = replicate n 0, bi_rcnt = replicate n 0, bi_unused = replicate n 0,
       bi_posted = replicate n (ctx_rposted (bi_srv c)), bi_scredit = replicate n 0, bi_tot_scredit = 0, bi_totscnt = 0, bi_totccnt = 0, bi_totrcnt = 0,
       bi_iters = bi_goal c, bi_per_port = [0, 0], before_first_rx = (machine (bip c) \<noteq> CLIENT), bi_flag = replicate n (1 mod cq_mod (bip c) = 0),
       bi_laddr = map (bi_my_addr c) [0..<n], bi_recv_addr = r_recv_addr0 (bi_srv c), bi_ctrl_buf = replicate (2 * n) 0,
       bi_recv_ne = 0, bi_send_ne = 0, bi_clk = 0, bi_log = [], bi_tposted_ix = (if noPeak (bip c) then [0] else []), bi_tcompleted_ix = [] \<rparr>)"

text \<open>The credits still out are waited for at the end, as in \<open>clean_scq_credit\<close>.\<close>

fun bi_clean :: "nat \<Rightarrow> bi_ctx \<Rightarrow> bi_env \<Rightarrow> nat \<Rightarrow> int \<Rightarrow> bi_state \<Rightarrow> bool option" where
  "bi_clean fuel c env t send_cnt st =
     (if send_cnt = 0 then Some True
      else case fuel of
             0 \<Rightarrow> None
           | Suc f \<Rightarrow>
               (case b_send_poll env t st (tx_depth (bip c)) of
                  None \<Rightarrow> Some False
                | Some ws \<Rightarrow>
                    if \<not> list_all sw_ok ws then Some False
                    else if send_cnt - int (length ws) > 0 then bi_clean f c env (t + 1) (send_cnt - int (length ws)) st
                    else Some True))"

declare bi_clean.simps [simp del]

definition run_iter_bi :: "nat \<Rightarrow> nat \<Rightarrow> nat \<Rightarrow> nat \<Rightarrow> bi_ctx \<Rightarrow> bi_env \<Rightarrow> ((srv_error \<times> bi_state) + bi_state) option" where
  "run_iter_bi wait inner fuel clean c env =
     (case bi_loop wait inner fuel c env (bi_init c) of
        None \<Rightarrow> None
      | Some (Inl e) \<Rightarrow> Some (Inl e)
      | Some (Inr st) \<Rightarrow>
          (let st1 = (if noPeak (bip c) \<and> test_type (bip c) = ITERATIONS then st\<lparr> bi_tcompleted_ix := 0 # bi_tcompleted_ix st \<rparr> else st) in
           if \<not> r_send_rcredit (bi_srv c) then Some (Inr st1)
           else (case bi_clean clean c env (bi_clk st1) (bi_tot_scredit st1) st1 of
                   None \<Rightarrow> None
                 | Some ok \<Rightarrow> Some (if ok then Inr st1 else Inl (Srv_FAILURE, st1)))))"

section \<open>Invariants of the loop\<close>

text \<open>The device answers about queue pairs that exist, and completes messages only where they were posted.\<close>

definition data_wc :: "bi_ctx \<Rightarrow> send_wc \<Rightarrow> bool" where
  "data_wc c w \<longleftrightarrow> \<not> sw_write w \<or> verb (bip c) = WRITE_IMM"

definition send_wc_ok :: "bi_ctx \<Rightarrow> send_wc \<Rightarrow> bool" where
  "send_wc_ok c w \<longleftrightarrow> sw_qp w < num_of_qps (bip c) \<and> (data_wc c w \<longrightarrow> sw_qp w < bw_num_qps (bip c))"

definition bi_device_ok :: "bi_ctx \<Rightarrow> bi_env \<Rightarrow> bool" where
  "bi_device_ok c env \<longleftrightarrow>
     (\<forall>t st ws. b_recv_poll env t st = Some ws \<longrightarrow> (\<forall>w \<in> set ws. w_qp w < num_of_qps (bip c))) \<and>
     (\<forall>t st k ws. b_send_poll env t st k = Some ws \<longrightarrow> (\<forall>w \<in> set ws. send_wc_ok c w))"

definition bi_core :: "bi_state \<Rightarrow> nat list \<times> nat list \<times> nat list \<times> nat list \<times> nat list \<times> int list \<times> nat \<times> nat \<times> nat \<times> nat \<times> bool \<times> bi_post_event list" where
  "bi_core st = (bi_scnt st, bi_ccnt st, bi_rcnt st, bi_unused st, bi_posted st, bi_scredit st, bi_totscnt st, bi_totccnt st, bi_totrcnt st, bi_iters st,
     before_first_rx st, bi_log st)"

lemma bi_core_neutral [simp]:
  "bi_core (bi_tick st) = bi_core st" "bi_core (st\<lparr> bi_recv_ne := n \<rparr>) = bi_core st" "bi_core (st\<lparr> bi_send_ne := n \<rparr>) = bi_core st"
  "bi_core (st\<lparr> bi_ctrl_buf := b \<rparr>) = bi_core st" "bi_core (st\<lparr> bi_tcompleted_ix := ix \<rparr>) = bi_core st"
  "bi_core (bi_stamp_post c st) = bi_core st" "bi_core (bi_clear_signal c i st) = bi_core st" "bi_core (bi_set_signal c i st) = bi_core st"
  "bi_core (bi_move_addr c i st) = bi_core st" "bi_core (bi_move_recv_addr c w st) = bi_core st" "bi_core (bi_stamp_completion c st) = bi_core st"
  by (simp_all add: bi_core_def bi_tick_def bi_stamp_post_def bi_clear_signal_def bi_set_signal_def bi_move_addr_def bi_move_recv_addr_def
      bi_stamp_completion_def)

lemma before_first_rx_tick [simp]: "before_first_rx (bi_tick st) = before_first_rx st"
  by (simp add: bi_tick_def)

locale bi_invariant =
  fixes c :: bi_ctx and env :: bi_env and I :: "bi_state \<Rightarrow> bool"
  assumes device: "bi_device_ok c env"
    and neutral: "bi_core st' = bi_core st \<Longrightarrow> I st \<Longrightarrow> I st'"
    and post: "\<lbrakk> I st; i < bw_num_qps (bip c); bi_can_post c st i; bi_post_one c env i st = Next st' \<rbrakk> \<Longrightarrow> I st'"
    and client: "I st \<Longrightarrow> machine (bip c) \<noteq> SERVER \<Longrightarrow> \<not> before_first_rx st"
    and first: "I st \<Longrightarrow> I (bi_first_rx c st)"
    and count: "\<lbrakk> I st; \<not> before_first_rx st; q < num_of_qps (bip c) \<rbrakk> \<Longrightarrow> I (bi_count_message c env q st)"
    and repost: "\<lbrakk> I st; w_qp w < num_of_qps (bip c); bi_repost_recv c env w st = Inr st' \<rbrakk> \<Longrightarrow> I st'"
    and wait_take: "\<lbrakk> I st; r_send_rcredit (bi_srv c); send_wc_ok c sw; bi_wait_take c env sw st = Inr st' \<rbrakk> \<Longrightarrow> I st'"
    and credit: "\<lbrakk> I st; \<not> before_first_rx st; q < num_of_qps (bip c); bi_has_room c st q; bi_post_credit env q st = Inr st' \<rbrakk> \<Longrightarrow> I st'"
    and compl: "\<lbrakk> I st; send_wc_ok c sw; bi_complete_one c env sw st = Inr st' \<rbrakk> \<Longrightarrow> I st'"
begin

lemma stop_inv:
  assumes "bi_post_one c env i st = Break st' \<or> bi_post_one c env i st = Fail st'" and "I st"
  shows "I st'"
proof -
  have "bi_core st' = bi_core st" using assms(1) by (auto simp: bi_post_one_def Let_def split: if_splits)
  then show ?thesis using neutral assms(2) by blast
qed

lemma post_while_inv:
  "bi_post_while fuel c env i st = Some r \<Longrightarrow> I st \<Longrightarrow> i < bw_num_qps (bip c) \<Longrightarrow> I (case_sum id id r)"
proof (induction fuel arbitrary: st)
  case 0
  then show ?case by (subst (asm) bi_post_while.simps) (auto split: if_splits)
next
  case (Suc f)
  show ?case
  proof (cases "bi_can_post c st i")
    case False
    with Suc.prems show ?thesis by (subst (asm) bi_post_while.simps) auto
  next
    case True
    show ?thesis
    proof (cases "bi_post_one c env i st")
      case (Next st')
      with Suc.prems(1) True have "bi_post_while f c env i st' = Some r" by (subst (asm) bi_post_while.simps) simp
      with Suc.IH post [OF Suc.prems(2,3) True Next] Suc.prems(3) show ?thesis by blast
    next
      case (Break st')
      with Suc.prems(1) True have "r = Inr st'" by (subst (asm) bi_post_while.simps) simp
      with stop_inv [of i st st'] Suc.prems(2) Break show ?thesis by simp
    next
      case (Fail st')
      with Suc.prems(1) True have "r = Inl st'" by (subst (asm) bi_post_while.simps) simp
      with stop_inv [of i st st'] Suc.prems(2) Fail show ?thesis by simp
    qed
  qed
qed

lemma post_qps_inv:
  "bi_post_qps fuel c env is st = Some r \<Longrightarrow> I st \<Longrightarrow> set is \<subseteq> {..<bw_num_qps (bip c)} \<Longrightarrow> I (case_sum id id r)"
proof (induction "is" arbitrary: st)
  case Nil
  then show ?case by auto
next
  case (Cons i "is")
  from Cons.prems(1) obtain r1 where one: "bi_post_while fuel c env i st = Some r1" by (auto split: option.splits)
  have inv: "I (case_sum id id r1)" using post_while_inv [OF one Cons.prems(2)] Cons.prems(3) by simp
  show ?case
  proof (cases r1)
    case (Inl st1)
    with Cons.prems(1) one inv show ?thesis by auto
  next
    case (Inr st1)
    with Cons.prems(1) one inv Cons.IH [of st1] Cons.prems(3) show ?thesis by auto
  qed
qed

text \<open>Results of the receiving part: the invariant and the permission to send are kept, also in the state of a failure.\<close>

abbreviation started :: "bi_state \<Rightarrow> bool" where
  "started st \<equiv> I st \<and> \<not> before_first_rx st"

lemma wait_take_started: "bi_wait_take c env w st = Inr st' \<Longrightarrow> before_first_rx st' = before_first_rx st"
  by (auto simp: bi_wait_take_def bi_credit_done_def bi_stamp_completion_def bi_tick_def Let_def split: if_splits)

lemma wait_room_inv:
  "bi_wait_room fuel c env q st = Some r \<Longrightarrow> started st \<Longrightarrow> r_send_rcredit (bi_srv c)
   \<Longrightarrow> (case r of Inl (_, s) \<Rightarrow> I s | Inr s \<Rightarrow> started s \<and> bi_has_room c s q)"
proof (induction fuel arbitrary: st)
  case 0
  then show ?case by (subst (asm) bi_wait_room.simps) (auto split: if_splits)
next
  case (Suc f)
  show ?case
  proof (cases "bi_has_room c st q")
    case True
    with Suc.prems show ?thesis by (subst (asm) bi_wait_room.simps) auto
  next
    case full: False
    show ?thesis
    proof (cases "b_send_poll env (bi_clk st) st 1")
      case None
      with Suc.prems full show ?thesis by (subst (asm) bi_wait_room.simps) auto
    next
      case (Some ws)
      show ?thesis
      proof (cases ws)
        case Nil
        with Suc.prems(1) Some full have "bi_wait_room f c env q (bi_tick st) = Some r" by (subst (asm) bi_wait_room.simps) simp
        moreover have "started (bi_tick st)" using Suc.prems(2) neutral [of "bi_tick st" st] by simp
        ultimately show ?thesis using Suc.IH Suc.prems(3) by blast
      next
        case (Cons w ws')
        have ok: "send_wc_ok c w" using device Some Cons by (auto simp: bi_device_ok_def)
        show ?thesis
        proof (cases "bi_wait_take c env w st")
          case (Inl e)
          then have "snd e = st" by (auto simp: bi_wait_take_def Let_def split: if_splits)
          moreover have "r = Inl e" using Inl Suc.prems(1) Some Cons full by (subst (asm) bi_wait_room.simps) simp
          ultimately show ?thesis using Suc.prems(2) by (cases e) simp
        next
          case (Inr st')
          with Suc.prems(1) Some Cons full have "bi_wait_room f c env q st' = Some r" by (subst (asm) bi_wait_room.simps) simp
          moreover have "started st'" using wait_take [OF _ Suc.prems(3) ok Inr] wait_take_started [OF Inr] Suc.prems(2) by simp
          ultimately show ?thesis using Suc.IH Suc.prems(3) by blast
        qed
      qed
    qed
  qed
qed

lemma send_credit_inv:
  assumes "bi_send_credit fuel c env q st = Some r" and "started st" and q: "q < num_of_qps (bip c)"
  shows "case r of Inl (_, s) \<Rightarrow> I s | Inr s \<Rightarrow> started s"
proof (cases "r_send_rcredit (bi_srv c) \<and> credit_cnt (bip c) \<noteq> 0 \<and> (bi_rcnt st ! q mod rx_depth (bip c)) mod credit_cnt (bip c) = 0")
  case False
  with assms(1,2) show ?thesis by (auto simp: bi_send_credit_def split: if_splits)
next
  case True
  let ?s = "st\<lparr> bi_ctrl_buf := (bi_ctrl_buf st)[q := of_nat (bi_rcnt st ! q)] \<rparr>"
  have s: "started ?s" using assms(2) neutral [of ?s st] by simp
  from assms(1) True obtain r1 where w: "bi_wait_room fuel c env q ?s = Some r1" by (auto simp: bi_send_credit_def split: option.splits)
  have inv: "case r1 of Inl (_, s) \<Rightarrow> I s | Inr s \<Rightarrow> started s \<and> bi_has_room c s q" using wait_room_inv [OF w s] True by simp
  show ?thesis
  proof (cases r1)
    case (Inl e)
    with assms(1) True w inv show ?thesis by (auto simp: bi_send_credit_def)
  next
    case (Inr s1)
    then have r: "r = bi_post_credit env q s1" using assms(1) True w by (auto simp: bi_send_credit_def)
    show ?thesis
    proof (cases "bi_post_credit env q s1")
      case (Inl e)
      then have "snd e = s1" by (auto simp: bi_post_credit_def Let_def split: if_splits)
      with r Inl inv Inr show ?thesis by (auto split: prod.splits)
    next
      case ok: (Inr s2)
      then have "before_first_rx s2 = before_first_rx s1"
        by (auto simp: bi_post_credit_def Let_def bi_tick_def bi_log_post_def split: if_splits)
      with r ok inv Inr credit [of s1 q s2] q show ?thesis by simp
    qed
  qed
qed

lemma receive_one_inv:
  assumes "bi_receive_one fuel c env w st = Some r" and "started st" and q: "w_qp w < num_of_qps (bip c)"
  shows "case r of Inl (_, s) \<Rightarrow> I s | Inr s \<Rightarrow> started s"
proof (cases "check_message (bi_srv c) w")
  case False
  with assms(1,2) show ?thesis by (auto simp: bi_receive_one_def)
next
  case True
  let ?s = "bi_count_message c env (w_qp w) st"
  have s: "started ?s" using count [of st "w_qp w"] assms(2) q by (auto simp: bi_count_message_def bi_tick_def Let_def)
  show ?thesis
  proof (cases "bi_repost_recv c env w ?s")
    case (Inl e)
    then have "snd e = ?s" by (auto simp: bi_repost_recv_def Let_def split: if_splits)
    with assms(1) True Inl s show ?thesis by (auto simp: bi_receive_one_def split: prod.splits)
  next
    case (Inr s1)
    have "before_first_rx s1 = before_first_rx ?s" using Inr
      by (auto simp: bi_repost_recv_def Let_def bi_tick_def bi_move_recv_addr_def split: if_splits)
    then have "started s1" using repost [OF _ q Inr] s by simp
    then show ?thesis using send_credit_inv [of fuel "w_qp w" s1 r] assms(1) True Inr q by (simp add: bi_receive_one_def)
  qed
qed

lemma receive_all_inv:
  "bi_receive_all fuel c env ws st = Some r \<Longrightarrow> started st \<Longrightarrow> (\<forall>w \<in> set ws. w_qp w < num_of_qps (bip c))
   \<Longrightarrow> I (case_sum snd id r)"
proof (induction ws arbitrary: st)
  case Nil
  then show ?case by auto
next
  case (Cons w ws)
  from Cons.prems(1) obtain r1 where one: "bi_receive_one fuel c env w st = Some r1" by (auto split: option.splits)
  have inv: "case r1 of Inl (_, s) \<Rightarrow> I s | Inr s \<Rightarrow> started s" using receive_one_inv [OF one Cons.prems(2)] Cons.prems(3) by simp
  show ?case
  proof (cases r1)
    case (Inl e)
    with Cons.prems(1) one inv show ?thesis by (cases e) auto
  next
    case (Inr s1)
    with Cons.prems(1) one inv Cons.IH [of s1] Cons.prems(3) show ?thesis by auto
  qed
qed

lemma complete_all_inv:
  "I st \<Longrightarrow> (\<forall>w \<in> set ws. send_wc_ok c w) \<Longrightarrow> I (case_sum snd id (bi_complete_all c env ws st))"
proof (induction ws arbitrary: st)
  case Nil
  then show ?case by simp
next
  case (Cons w ws)
  show ?case
  proof (cases "bi_complete_one c env w st")
    case (Inl e)
    then have "snd e = st" by (auto simp: bi_complete_one_def Let_def split: if_splits)
    with Inl Cons.prems(1) show ?thesis by simp
  next
    case (Inr st')
    with Cons.IH [of st'] compl [of st w st'] Cons.prems show ?thesis by simp
  qed
qed

lemma first_rx_started: "I st \<Longrightarrow> started (bi_first_rx c st)"
  using first [of st] client [of st] by (auto simp: bi_first_rx_def)

lemma send_phase_inv: "I st \<Longrightarrow> I (case_sum snd id (bi_send_phase c env st))"
proof (cases "b_send_poll env (bi_clk st) st (unat (cqe_poll (bip c)))")
  case None
  assume "I st"
  with None show ?thesis by (simp add: bi_send_phase_def)
next
  case (Some ws)
  assume "I st"
  then have "I (bi_tick (st\<lparr> bi_send_ne := int (length ws) \<rparr>))" using neutral [of "bi_tick (st\<lparr> bi_send_ne := int (length ws) \<rparr>)" st] by simp
  then show ?thesis using complete_all_inv device Some by (auto simp: bi_send_phase_def bi_device_ok_def)
qed

lemma recv_phase_inv:
  assumes "bi_recv_phase fuel c env st = Some r" and inv: "I st"
  shows "I (case_sum snd id r)"
proof (cases "b_recv_poll env (bi_clk st) st")
  case None
  with assms(1,2) show ?thesis by (auto simp: bi_recv_phase_def split: if_splits)
next
  case (Some ws)
  let ?s = "bi_tick (st\<lparr> bi_recv_ne := int (length ws) \<rparr>)"
  have s: "I ?s" using inv neutral [of ?s st] by simp
  show ?thesis using assms(1) Some inv s first_rx_started [OF s] receive_all_inv [of fuel ws "bi_first_rx c ?s" r] device
    by (auto simp: bi_recv_phase_def Let_def bi_device_ok_def split: if_splits)
qed

lemma pass_inv:
  assumes "bi_pass wait inner c env st = Some r" and "I st"
  shows "I (case_sum snd id r)"
proof -
  from assms(1) obtain r1 where one: "bi_post_qps inner c env [0..<bw_num_qps (bip c)] st = Some r1"
    by (auto simp: bi_pass_def split: option.splits)
  have inv: "I (case_sum id id r1)" by (rule post_qps_inv [OF one assms(2)]) auto
  show ?thesis
  proof (cases r1)
    case (Inl st1)
    with assms(1) one inv show ?thesis by (auto simp: bi_pass_def)
  next
    case (Inr st1)
    with assms(1) one obtain r2 where two: "bi_recv_phase wait c env st1 = Some r2" by (auto simp: bi_pass_def split: option.splits)
    have inv2: "I (case_sum snd id r2)" using recv_phase_inv [OF two] inv Inr by simp
    show ?thesis
    proof (cases r2)
      case (Inl e)
      with assms(1) one Inr two inv2 show ?thesis by (auto simp: bi_pass_def)
    next
      case ok: (Inr st2)
      with assms(1) one Inr two inv2 send_phase_inv [of st2] show ?thesis by (auto simp: bi_pass_def)
    qed
  qed
qed

lemma loop_inv:
  "bi_loop wait inner fuel c env st = Some r \<Longrightarrow> I st \<Longrightarrow> I (case_sum snd id r) \<and> (\<forall>s. r = Inr s \<longrightarrow> \<not> bi_running c env s)"
proof (induction fuel arbitrary: st)
  case 0
  then show ?case by (subst (asm) bi_loop.simps) (auto split: if_splits)
next
  case (Suc f)
  show ?case
  proof (cases "bi_running c env st")
    case False
    with Suc.prems show ?thesis by (subst (asm) bi_loop.simps) auto
  next
    case True
    with Suc.prems(1) obtain r1 where one: "bi_pass wait inner c env (bi_tick st) = Some r1"
      by (subst (asm) bi_loop.simps) (auto split: option.splits)
    have "I (bi_tick st)" using Suc.prems(2) neutral [of "bi_tick st" st] by simp
    note inv = pass_inv [OF one this]
    show ?thesis
    proof (cases r1)
      case (Inl e)
      with Suc.prems(1) True one inv show ?thesis by (subst (asm) bi_loop.simps) auto
    next
      case (Inr st')
      with Suc.prems(1) True one have "bi_loop wait inner f c env st' = Some r" by (subst (asm) bi_loop.simps) simp
      with Suc.IH [of st'] inv Inr show ?thesis by simp
    qed
  qed
qed

text \<open>The result of a run: the loop has ended where it is a success, and the rest changes nothing of the core.\<close>

lemma run_inv:
  assumes "run_iter_bi wait inner fuel clean c env = Some r" and "I (bi_init c)"
  shows "I (case_sum snd id r) \<and> (\<forall>s. r = Inr s \<longrightarrow> \<not> bi_running c env s)"
proof -
  from assms(1) obtain r1 where one: "bi_loop wait inner fuel c env (bi_init c) = Some r1" by (auto simp: run_iter_bi_def split: option.splits)
  note inv = loop_inv [OF one assms(2)]
  show ?thesis
  proof (cases r1)
    case (Inl e)
    with assms(1) one inv show ?thesis by (auto simp: run_iter_bi_def)
  next
    case (Inr st)
    let ?s = "if noPeak (bip c) \<and> test_type (bip c) = ITERATIONS then st\<lparr> bi_tcompleted_ix := 0 # bi_tcompleted_ix st \<rparr> else st"
    have s: "I ?s" using inv Inr neutral [of ?s st] by simp
    have ended: "\<not> bi_running c env ?s" using inv Inr by (simp add: bi_running_def)
    have "r = Inr ?s \<or> r = Inl (Srv_FAILURE, ?s)"
      using assms(1) one Inr by (auto simp: run_iter_bi_def Let_def split: if_splits option.splits)
    then show ?thesis using s ended by auto
  qed
qed

end

section \<open>Room in the send queue\<close>

text \<open>An environment whose answers about other queue pairs are left out; one that gives none is as it was.\<close>

definition sane_env :: "bi_ctx \<Rightarrow> bi_env \<Rightarrow> bi_env" where
  "sane_env c env = env\<lparr> b_recv_poll := (\<lambda>t st. map_option (filter (\<lambda>w. w_qp w < num_of_qps (bip c))) (b_recv_poll env t st)),
     b_send_poll := (\<lambda>t st k. map_option (filter (send_wc_ok c)) (b_send_poll env t st k)) \<rparr>"

lemma sane_env_ok [simp]: "bi_device_ok c (sane_env c env)"
  by (auto simp: bi_device_ok_def sane_env_def)

lemma sane_env_same: "bi_device_ok c env \<Longrightarrow> sane_env c env = env"
proof -
  assume ok: "bi_device_ok c env"
  have "map_option (filter (\<lambda>w. w_qp w < num_of_qps (bip c))) (b_recv_poll env t st) = b_recv_poll env t st" for t st
    using ok by (cases "b_recv_poll env t st") (auto simp: bi_device_ok_def filter_id_conv)
  moreover have "map_option (filter (send_wc_ok c)) (b_send_poll env t st k) = b_send_poll env t st k" for t st k
    using ok by (cases "b_send_poll env t st k") (auto simp: bi_device_ok_def filter_id_conv)
  ultimately show ?thesis by (simp add: sane_env_def)
qed

definition bi_event_ok :: "bi_ctx \<Rightarrow> bi_post_event \<Rightarrow> bool" where
  "bi_event_ok c e \<longleftrightarrow> \<not> be_early e \<and>
     int (be_scnt e) + be_scredit e + int (if be_credit e then 1 else post_list (bip c)) \<le> int (tx_depth (bip c)) + int (be_ccnt e)"

definition bi_room :: "bi_ctx \<Rightarrow> bi_state \<Rightarrow> bool" where
  "bi_room c st \<longleftrightarrow> list_all (bi_event_ok c) (bi_log st) \<and> (before_first_rx st \<longrightarrow> machine (bip c) = SERVER)"

lemmas bi_step_defs = bi_first_rx_def bi_count_message_def bi_repost_recv_def bi_wait_take_def bi_post_credit_def bi_complete_one_def
  bi_credit_done_def bi_log_post_def bi_count_post_def

text \<open>A posted message, up to what the invariants do not look at.\<close>

lemma bi_post_one_core:
  assumes "bi_post_one c env i st = Next st'"
  shows "bi_core st' = bi_core (bi_count_post c i (bi_log_post False i (bi_clear_signal c i st)))"
proof -
  have cp: "bi_core s = bi_core s' \<Longrightarrow> bi_core (bi_count_post c i s) = bi_core (bi_count_post c i s')" for s s'
    by (simp add: bi_core_def bi_count_post_def)
  from assms have "bi_core st' = bi_core (bi_count_post c i (bi_move_addr c i (bi_log_post False i (bi_stamp_post c (bi_clear_signal c i st)))))"
    by (auto simp: bi_post_one_def Let_def split: if_splits)
  also have "\<dots> = bi_core (bi_count_post c i (bi_log_post False i (bi_stamp_post c (bi_clear_signal c i st))))"
    by (rule cp) simp
  also have "\<dots> = bi_core (bi_count_post c i (bi_log_post False i (bi_clear_signal c i st)))"
    by (rule cp) (simp add: bi_core_def bi_log_post_def bi_stamp_post_def)
  finally show ?thesis .
qed

lemma bi_clear_signal_keeps [simp]:
  "bi_scnt (bi_clear_signal c i st) = bi_scnt st" "bi_ccnt (bi_clear_signal c i st) = bi_ccnt st" "bi_scredit (bi_clear_signal c i st) = bi_scredit st"
  "bi_totscnt (bi_clear_signal c i st) = bi_totscnt st" "bi_log (bi_clear_signal c i st) = bi_log st"
  "before_first_rx (bi_clear_signal c i st) = before_first_rx st"
  by (simp_all add: bi_clear_signal_def)

lemma bi_log_fields:
  "bi_log (bi_tick st) = bi_log st" "bi_log (bi_stamp_completion c st) = bi_log st" "before_first_rx (bi_stamp_completion c st) = before_first_rx st"
  "bi_log (bi_move_recv_addr c w st) = bi_log st" "before_first_rx (bi_move_recv_addr c w st) = before_first_rx st"
  by (simp_all add: bi_tick_def bi_stamp_completion_def bi_move_recv_addr_def)

lemma bi_room_core: "bi_core st' = bi_core st \<Longrightarrow> bi_room c st' = bi_room c st"
  by (simp add: bi_core_def bi_room_def)

lemma bi_room_post:
  assumes "bi_room c st" "bi_can_post c st i" "bi_post_one c env i st = Next st'"
  shows "bi_room c st'"
proof -
  have "bi_room c (bi_count_post c i (bi_log_post False i (bi_clear_signal c i st)))"
    using assms(1,2) by (auto simp: bi_room_def bi_can_post_def bi_count_post_def bi_log_post_def bi_event_ok_def)
  then show ?thesis using bi_room_core [OF bi_post_one_core [OF assms(3)]] by simp
qed

interpretation sendroom: bi_invariant c "sane_env c env" "bi_room c" for c env
proof
  show "bi_device_ok c (sane_env c env)" by simp
  show "bi_core st' = bi_core st \<Longrightarrow> bi_room c st \<Longrightarrow> bi_room c st'" for st' st using bi_room_core by blast
  show "\<lbrakk> bi_room c st; i < bw_num_qps (bip c); bi_can_post c st i; bi_post_one c (sane_env c env) i st = Next st' \<rbrakk> \<Longrightarrow> bi_room c st'" for st i st'
    using bi_room_post by blast
qed (auto simp: bi_room_def bi_step_defs bi_log_fields bi_has_room_def bi_event_ok_def Let_def split: if_splits)

lemma bi_posts_room:
  assumes "bi_device_ok c env" "machine (bip c) \<noteq> UNCHOSEN" "run_iter_bi wait inner fuel clean c env = Some r"
  shows "list_all (bi_event_ok c) (bi_log (case_sum snd id r))"
proof -
  have "bi_room c (bi_init c)" using assms(2) by (cases "machine (bip c)") (auto simp: bi_room_def bi_init_def Let_def)
  then show ?thesis using sendroom.run_inv [of wait inner fuel clean c env r] assms by (simp add: sane_env_same bi_room_def)
qed

section \<open>Accounting\<close>

definition bi_goals :: "bi_ctx \<Rightarrow> bi_state \<Rightarrow> bool" where
  "bi_goals c st \<longleftrightarrow> (\<forall>q < bw_num_qps (bip c).
     (post_list (bip c) dvd bi_goal c \<longrightarrow> post_list (bip c) dvd bi_scnt st ! q \<and> bi_scnt st ! q \<le> bi_goal c) \<and>
     (fill_count (bip c) \<and> \<not> r_send_rcredit (bi_srv c) \<longrightarrow> bi_ccnt st ! q \<le> bi_goal c))"

definition bi_books :: "bi_ctx \<Rightarrow> bi_state \<Rightarrow> bool" where
  "bi_books c st \<longleftrightarrow>
     length (bi_scnt st) = num_of_qps (bip c) \<and> length (bi_ccnt st) = num_of_qps (bip c) \<and> length (bi_rcnt st) = num_of_qps (bip c) \<and>
     length (bi_unused st) = num_of_qps (bip c) \<and> length (bi_posted st) = num_of_qps (bip c) \<and>
     (\<forall>q < num_of_qps (bip c). bi_posted st ! q + bi_unused st ! q = ctx_rposted (bi_srv c) + bi_rcnt st ! q) \<and>
     bi_totscnt st = sum_list (bi_scnt st) \<and> bi_totccnt st = sum_list (bi_ccnt st) \<and> bi_totrcnt st = sum_list (bi_rcnt st) \<and>
     (before_first_rx st \<longrightarrow> machine (bip c) = SERVER \<and> bi_totrcnt st = 0) \<and>
     (\<forall>q < num_of_qps (bip c). bw_num_qps (bip c) \<le> q \<longrightarrow> bi_scnt st ! q = 0 \<and> bi_ccnt st ! q = 0) \<and>
     (test_type (bip c) = ITERATIONS \<longrightarrow> bi_iters st = bi_goal c \<and> bi_goals c st)"

lemma bi_books_core: "bi_core st' = bi_core st \<Longrightarrow> bi_books c st' = bi_books c st"
  by (simp add: bi_core_def bi_books_def bi_goals_def)

lemma sum_list_set:
  fixes xs :: "nat list"
  assumes "q < length xs"
  shows "sum_list (xs[q := v]) = sum_list xs + v - xs ! q"
  using assms by (simp add: sum_list_update)

lemma bi_books_post:
  assumes b: "bi_books c st" and i: "i < bw_num_qps (bip c)" and can: "bi_can_post c st i" and p: "bi_post_one c env i st = Next st'"
  shows "bi_books c st'"
proof -
  have i': "i < num_of_qps (bip c)" using i bw_num_qps_le [of "bip c"] by linarith
  have len: "i < length (bi_scnt st)" using b i' by (simp add: bi_books_def)
  have small: "test_type (bip c) = ITERATIONS \<Longrightarrow> post_list (bip c) dvd bi_goal c \<Longrightarrow>
      post_list (bip c) dvd bi_scnt st ! i + post_list (bip c) \<and> bi_scnt st ! i + post_list (bip c) \<le> bi_goal c"
  proof -
    assume t: "test_type (bip c) = ITERATIONS" and d: "post_list (bip c) dvd bi_goal c"
    with b i have "post_list (bip c) dvd bi_scnt st ! i" by (auto simp: bi_books_def bi_goals_def)
    with d obtain u v where u: "bi_scnt st ! i = post_list (bip c) * u" and v: "bi_goal c = post_list (bip c) * v" by (auto elim!: dvdE)
    have "bi_scnt st ! i < bi_goal c" using can t by (simp add: bi_can_post_def)
    then have "u < v" using u v by auto
    then have "post_list (bip c) * (u + 1) \<le> post_list (bip c) * v" by (intro mult_le_mono2) simp
    then show ?thesis using u v by simp
  qed
  have "bi_books c (bi_count_post c i (bi_log_post False i (bi_clear_signal c i st)))"
  proof -
    let ?s = "bi_count_post c i (bi_log_post False i (bi_clear_signal c i st))"
    have s: "bi_scnt ?s = (bi_scnt st)[i := bi_scnt st ! i + post_list (bip c)]" "bi_totscnt ?s = bi_totscnt st + post_list (bip c)"
      by (simp_all add: bi_count_post_def bi_log_post_def)
    have rest: "bi_ccnt ?s = bi_ccnt st" "bi_rcnt ?s = bi_rcnt st" "bi_unused ?s = bi_unused st" "bi_posted ?s = bi_posted st"
      "bi_totccnt ?s = bi_totccnt st" "bi_totrcnt ?s = bi_totrcnt st" "before_first_rx ?s = before_first_rx st" "bi_iters ?s = bi_iters st"
      by (simp_all add: bi_count_post_def bi_log_post_def bi_clear_signal_def)
    have g: "test_type (bip c) = ITERATIONS \<Longrightarrow> bi_goals c ?s"
      using b i i' small by (auto simp: bi_goals_def bi_books_def s rest nth_list_update)
    show ?thesis using b i i' len g unfolding bi_books_def s rest by (auto simp: nth_list_update sum_list_set)
  qed
  then show ?thesis using bi_books_core [OF bi_post_one_core [OF p]] by simp
qed

text \<open>A completion sets the count of its queue pair to a value that the goals allow.\<close>

lemma bi_books_complete:
  assumes b: "bi_books c st" and q: "q < bw_num_qps (bip c)" and grow: "v \<le> bi_goal c \<or> r_send_rcredit (bi_srv c) \<or> \<not> fill_count (bip c)"
    and rest: "bi_scnt st' = bi_scnt st" "bi_rcnt st' = bi_rcnt st" "bi_unused st' = bi_unused st" "bi_posted st' = bi_posted st"
      "bi_totscnt st' = bi_totscnt st" "bi_totrcnt st' = bi_totrcnt st" "before_first_rx st' = before_first_rx st"
      "test_type (bip c) = ITERATIONS \<Longrightarrow> bi_iters st' = bi_iters st"
    and new: "bi_ccnt st' = (bi_ccnt st)[q := v]" "bi_totccnt st' = bi_totccnt st + v - bi_ccnt st ! q"
  shows "bi_books c st'"
proof -
  have q': "q < num_of_qps (bip c)" using q bw_num_qps_le [of "bip c"] by linarith
  have len: "q < length (bi_ccnt st)" using b q' by (simp add: bi_books_def)
  have g: "test_type (bip c) = ITERATIONS \<Longrightarrow> bi_goals c st'"
    using b q len grow by (auto simp: bi_goals_def bi_books_def rest new nth_list_update)
  show ?thesis using b q q' len g unfolding bi_books_def rest(1-7) new by (auto simp: nth_list_update sum_list_set rest(8))
qed

lemma bi_books_credit_done [simp]: "bi_books c (bi_credit_done q st) = bi_books c st"
  by (simp add: bi_books_def bi_goals_def bi_credit_done_def)

lemma bi_books_tick [simp]: "bi_books c (bi_tick st) = bi_books c st"
  by (rule bi_books_core) simp

lemma bi_stamp_completion_keeps [simp]:
  "bi_scnt (bi_stamp_completion c st) = bi_scnt st" "bi_rcnt (bi_stamp_completion c st) = bi_rcnt st" "bi_unused (bi_stamp_completion c st) = bi_unused st"
  "bi_posted (bi_stamp_completion c st) = bi_posted st" "bi_totscnt (bi_stamp_completion c st) = bi_totscnt st"
  "bi_totrcnt (bi_stamp_completion c st) = bi_totrcnt st" "before_first_rx (bi_stamp_completion c st) = before_first_rx st"
  "bi_iters (bi_stamp_completion c st) = bi_iters st" "bi_ccnt (bi_stamp_completion c st) = bi_ccnt st"
  "bi_totccnt (bi_stamp_completion c st) = bi_totccnt st"
  by (simp_all add: bi_stamp_completion_def)

lemma bi_books_wait_take:
  assumes b: "bi_books c st" and cr: "r_send_rcredit (bi_srv c)" and w: "send_wc_ok c sw" and r: "bi_wait_take c env sw st = Inr st'"
  shows "bi_books c st'"
proof (cases "sw_write sw")
  case True
  with r b show ?thesis by (auto simp: bi_wait_take_def split: if_splits)
next
  case False
  let ?q = "sw_qp sw"
  let ?s = "bi_stamp_completion c (st\<lparr> bi_totccnt := bi_totccnt st + cq_mod (bip c), bi_ccnt := (bi_ccnt st)[?q := bi_ccnt st ! ?q + cq_mod (bip c)] \<rparr>)"
  let ?t = "if test_type (bip c) = DURATION \<and> b_dstate env (bi_clk st) = SAMPLE_STATE then ?s\<lparr> bi_iters := bi_iters ?s + cq_mod (bip c) \<rparr> else ?s"
  have st': "st' = bi_tick ?t" using r False by (auto simp: bi_wait_take_def Let_def split: if_splits)
  have "bi_books c ?t"
    by (rule bi_books_complete [OF b, where q = ?q and v = "bi_ccnt st ! ?q + cq_mod (bip c)"])
      (use w False cr in \<open>auto simp: send_wc_ok_def data_wc_def\<close>)
  then show ?thesis by (simp add: st')
qed

lemma bi_books_complete_one:
  assumes b: "bi_books c st" and w: "send_wc_ok c sw" and r: "bi_complete_one c env sw st = Inr st'"
  shows "bi_books c st'"
proof (cases "data_wc c sw")
  case False
  with r b show ?thesis by (auto simp: bi_complete_one_def data_wc_def split: if_splits)
next
  case True
  let ?q = "sw_qp sw"
  let ?v = "if fill_count (bip c) \<and> bi_ccnt st ! ?q + cq_mod (bip c) > bi_iters st then bi_iters st else bi_ccnt st ! ?q + cq_mod (bip c)"
  let ?s = "bi_stamp_completion c (st\<lparr> bi_ccnt := (bi_ccnt st)[?q := ?v], bi_totccnt := bi_totccnt st + ?v - bi_ccnt st ! ?q \<rparr>)"
  let ?port = "r_port_by_qp (bi_srv c) (b_stale_qp env (bi_clk st))"
  let ?t = "if test_type (bip c) = DURATION \<and> b_dstate env (bi_clk st) = SAMPLE_STATE
    then ?s\<lparr> bi_per_port := (if report_per_port (bip c) then (bi_per_port ?s)[?port := bi_per_port ?s ! ?port + cq_mod (bip c)] else bi_per_port ?s),
             bi_iters := bi_iters ?s + cq_mod (bip c) \<rparr> else ?s"
  have st': "st' = bi_tick ?t" using r True by (simp only: bi_complete_one_def Let_def data_wc_def split: if_splits) auto
  have small: "test_type (bip c) = ITERATIONS \<Longrightarrow> fill_count (bip c) \<Longrightarrow> ?v \<le> bi_goal c" using b by (auto simp: bi_books_def)
  show ?thesis
  proof (cases "test_type (bip c) = ITERATIONS")
    case it: True
    have "bi_books c ?t"
      by (rule bi_books_complete [OF b, where q = ?q and v = ?v]) (use w True small it in \<open>auto simp: send_wc_ok_def\<close>)
    then show ?thesis by (simp add: st')
  next
    case timed: False
    have q: "?q < bw_num_qps (bip c)" using w True by (simp add: send_wc_ok_def)
    then have len: "?q < length (bi_ccnt st)" using b bw_num_qps_le [of "bip c"] by (simp add: bi_books_def)
    have new: "bi_ccnt ?t = (bi_ccnt st)[?q := ?v]" "bi_totccnt ?t = bi_totccnt st + ?v - bi_ccnt st ! ?q" by simp_all
    have "bi_books c ?t" using b q len timed unfolding bi_books_def new by (auto simp: nth_list_update sum_list_set)
    then show ?thesis by (simp add: st')
  qed
qed

lemma bi_books_count_message:
  assumes b: "bi_books c st" and "\<not> before_first_rx st" and q: "q < num_of_qps (bip c)"
  shows "bi_books c (bi_count_message c env q st)"
  using assms by (auto simp: bi_books_def bi_goals_def bi_count_message_def bi_tick_def Let_def nth_list_update sum_list_add_at [where d = 1, simplified])

lemma bi_move_recv_addr_keeps [simp]:
  "bi_books c (bi_move_recv_addr c' w st) = bi_books c st"
  by (rule bi_books_core) simp

lemma bi_books_repost:
  assumes b: "bi_books c st" and q: "w_qp w < num_of_qps (bip c)" and r: "bi_repost_recv c env w st = Inr st'"
  shows "bi_books c st'"
proof (cases "bi_recv_due c st (w_qp w)")
  case False
  with r b show ?thesis by (simp add: bi_repost_recv_def Let_def)
next
  case True
  let ?q = "w_qp w" and ?k = "recv_post_list (bip c)"
  define s1 where "s1 = bi_move_recv_addr c w (st\<lparr> bi_unused := (bi_unused st)[?q := bi_unused st ! ?q - ?k] \<rparr>)"
  have core: "bi_core s1 = bi_core (st\<lparr> bi_unused := (bi_unused st)[?q := bi_unused st ! ?q - ?k] \<rparr>)" by (simp add: s1_def)
  have st': "st' = bi_tick (s1\<lparr> bi_posted := (bi_posted s1)[?q := bi_posted s1 ! ?q + ?k] \<rparr>)"
    using r True by (simp add: bi_repost_recv_def Let_def s1_def split: if_splits)
  have "?k \<le> bi_unused st ! ?q" using True by (simp add: bi_recv_due_def)
  with b q core show ?thesis unfolding st' by (auto simp: bi_books_def bi_goals_def bi_core_def bi_tick_def nth_list_update)
qed

interpretation bibooks: bi_invariant c "sane_env c env" "bi_books c" for c env
proof
  show "bi_device_ok c (sane_env c env)" by simp
  show "bi_core st' = bi_core st \<Longrightarrow> bi_books c st \<Longrightarrow> bi_books c st'" for st' st using bi_books_core by blast
  show "\<lbrakk> bi_books c st; i < bw_num_qps (bip c); bi_can_post c st i; bi_post_one c (sane_env c env) i st = Next st' \<rbrakk> \<Longrightarrow> bi_books c st'" for st i st'
    using bi_books_post by blast
  show "bi_books c st \<Longrightarrow> machine (bip c) \<noteq> SERVER \<Longrightarrow> \<not> before_first_rx st" for st by (auto simp: bi_books_def)
  show "bi_books c st \<Longrightarrow> bi_books c (bi_first_rx c st)" for st by (auto simp: bi_books_def bi_goals_def bi_first_rx_def)
  show "\<lbrakk> bi_books c st; \<not> before_first_rx st; q < num_of_qps (bip c) \<rbrakk> \<Longrightarrow> bi_books c (bi_count_message c (sane_env c env) q st)" for st q
    by (rule bi_books_count_message)
  show "\<lbrakk> bi_books c st; w_qp w < num_of_qps (bip c); bi_repost_recv c (sane_env c env) w st = Inr st' \<rbrakk> \<Longrightarrow> bi_books c st'" for st w st'
    by (rule bi_books_repost)
  show "\<lbrakk> bi_books c st; r_send_rcredit (bi_srv c); send_wc_ok c sw; bi_wait_take c (sane_env c env) sw st = Inr st' \<rbrakk> \<Longrightarrow> bi_books c st'" for st sw st'
    by (rule bi_books_wait_take)
  show "\<lbrakk> bi_books c st; send_wc_ok c sw; bi_complete_one c (sane_env c env) sw st = Inr st' \<rbrakk> \<Longrightarrow> bi_books c st'" for st sw st'
    by (rule bi_books_complete_one)
  show "\<lbrakk> bi_books c st; \<not> before_first_rx st; q < num_of_qps (bip c); bi_has_room c st q; bi_post_credit (sane_env c env) q st = Inr st' \<rbrakk>
      \<Longrightarrow> bi_books c st'" for st q st'
    by (auto simp: bi_post_credit_def Let_def bi_books_def bi_goals_def bi_log_post_def bi_tick_def split: if_splits)
qed

lemma bi_books_init: "machine (bip c) \<noteq> UNCHOSEN \<Longrightarrow> bi_books c (bi_init c)"
  by (cases "machine (bip c)") (auto simp: bi_books_def bi_goals_def bi_init_def Let_def sum_list_replicate bw_num_qps_le [THEN order_less_le_trans [rotated]])

lemma bi_run_books:
  assumes "bi_device_ok c env" "machine (bip c) \<noteq> UNCHOSEN" "run_iter_bi wait inner fuel clean c env = Some r"
  shows "bi_books c (case_sum snd id r)" "\<And>st. r = Inr st \<Longrightarrow> \<not> bi_running c env st"
  using bibooks.run_inv [of wait inner fuel clean c env r] bi_books_init [OF assms(2)] assms by (simp_all add: sane_env_same)

section \<open>Properties\<close>

text \<open>
  C21. In a bidirectional test every message and every credit is posted only when the send queue of its queue pair has room for it,
  counting the messages and the credits that are out, and a server posts nothing before its first message has arrived;
  whatever the device answers about existing queue pairs and however the run ends.
\<close>

theorem bi_posts_have_room:
  assumes "bi_device_ok c env" "machine (bip c) \<noteq> UNCHOSEN" "run_iter_bi wait inner fuel clean c env = Some r"
  shows "\<forall>e \<in> set (bi_log (case_sum snd id r)).
    int (be_scnt e) + be_scredit e + int (if be_credit e then 1 else post_list (bip c)) \<le> int (tx_depth (bip c)) + int (be_ccnt e) \<and> \<not> be_early e"
  using bi_posts_room [OF assms] by (simp add: list_all_iff bi_event_ok_def)

text \<open>
  C12. A counted bidirectional test that succeeds has done its work in both directions: when the iterations are a multiple of the post
  list, every sending queue pair has posted exactly \<open>iters\<close> messages, at least \<open>iters\<close> messages per queue pair have been
  received and as many counted as completed, and every consumed receive request is either posted again or counted as free.  In a test without
  credits that counts a short last group exactly (\<open>fill_count\<close>) every queue pair has \<open>iters\<close> messages completed.
\<close>

theorem bi_run_completes:
  assumes "bi_device_ok c env" "machine (bip c) \<noteq> UNCHOSEN" "test_type (bip c) = ITERATIONS" "post_list (bip c) dvd iters (bip c)"
    and "run_iter_bi wait inner fuel clean c env = Some (Inr st)"
  shows "(\<forall>q < bw_num_qps (bip c). bi_scnt st ! q = iters (bip c) \<and>
      (fill_count (bip c) \<and> \<not> r_send_rcredit (bi_srv c) \<longrightarrow> bi_ccnt st ! q = iters (bip c)))
    \<and> iters (bip c) * bw_num_qps (bip c) \<le> sum_list (bi_rcnt st) \<and> iters (bip c) * bw_num_qps (bip c) \<le> sum_list (bi_ccnt st)
    \<and> (\<forall>q < num_of_qps (bip c). bi_posted st ! q + bi_unused st ! q = ctx_rposted (bi_srv c) + bi_rcnt st ! q)"
proof -
  have books: "bi_books c st" using bi_run_books(1) [OF assms(1,2,5)] by simp
  have goal: "bi_goal c = iters (bip c)" using assms(3) by (simp add: bi_goal_def)
  have ended: "iters (bip c) * bw_num_qps (bip c) \<le> sum_list (bi_scnt st)" "iters (bip c) * bw_num_qps (bip c) \<le> sum_list (bi_ccnt st)"
    "iters (bip c) * bw_num_qps (bip c) \<le> sum_list (bi_rcnt st)"
    using bi_run_books(2) [OF assms(1,2,5)] books by (auto simp: bi_running_def bi_tot_iters_def goal bi_books_def)
  have lens: "bw_num_qps (bip c) \<le> length (bi_scnt st)" "bw_num_qps (bip c) \<le> length (bi_ccnt st)"
    using books bw_num_qps_le [of "bip c"] by (auto simp: bi_books_def)
  have "bi_scnt st ! q = iters (bip c)" if "q < bw_num_qps (bip c)" for q
    by (rule full_list [OF lens(1) _ _ _ that]) (use books ended goal assms(3,4) in \<open>auto simp: bi_books_def bi_goals_def mult.commute\<close>)
  moreover have "bi_ccnt st ! q = iters (bip c)" if "q < bw_num_qps (bip c)" and "fill_count (bip c) \<and> \<not> r_send_rcredit (bi_srv c)" for q
    by (rule full_list [OF lens(2) _ _ _ that(1)]) (use books ended goal assms(3) that(2) in \<open>auto simp: bi_books_def bi_goals_def mult.commute\<close>)
  ultimately show ?thesis using ended books by (auto simp: bi_books_def)
qed

text \<open>A server of a test over one queue pair: two messages each way, completed one by one.\<close>

definition demo_bi :: bi_ctx where
  "demo_bi = \<lparr> bi_srv = demo_server\<lparr> sp := basic_params\<lparr> verb := SEND, machine := SERVER, duplex := True, up_size := 16, cycle_buffer := 8, rx_depth := 3, iters := 2 \<rparr>, r_send_rcredit := False \<rparr>,
     bi_my_addr = \<lambda>_. 8192 \<rparr>"

definition good_wc :: "nat \<Rightarrow> srv_wc" where
  "good_wc q = \<lparr> w_qp = q, w_index = 0, w_ok = True, w_with_imm = False, w_imm = 0 \<rparr>"

definition demo_traffic :: "(bi_state \<Rightarrow> srv_wc list) \<Rightarrow> (bi_state \<Rightarrow> send_wc list) \<Rightarrow> bi_env" where
  "demo_traffic rs ss = \<lparr> b_dstate = \<lambda>_. START_STATE, b_credit = \<lambda>_ _. 1, b_post_ok = \<lambda>_. True, b_post_recv_ok = \<lambda>_. True, b_post_credit_ok = \<lambda>_. True,
     b_notify_ok = \<lambda>_. True, b_recv_poll = \<lambda>t st. Some (rs st), b_send_poll = \<lambda>t st k. Some (ss st), b_stale_qp = \<lambda>_. 0, b_to_exit = \<lambda>_. False \<rparr>"

definition demo_bi_env :: bi_env where
  "demo_bi_env = demo_traffic (\<lambda>st. if bi_totrcnt st < 2 then [good_wc 0] else [])
     (\<lambda>st. if bi_totccnt st < bi_totscnt st then [\<lparr> sw_qp = 0, sw_ok = True, sw_write = False \<rparr>] else [])"

lemma demo_bi_run:
  "(case run_iter_bi 5 5 5 5 demo_bi demo_bi_env of Some (Inr st) \<Rightarrow> (bi_scnt st, bi_ccnt st, length (bi_log st)) | _ \<Rightarrow> ([], [], 0)) = ([2], [2], 2)"
  by code_simp

lemma demo_bi_ok: "bi_device_ok demo_bi demo_bi_env" "machine (bip demo_bi) \<noteq> UNCHOSEN" "test_type (bip demo_bi) = ITERATIONS"
    "post_list (bip demo_bi) dvd iters (bip demo_bi)"
  by (auto simp: bi_device_ok_def demo_bi_def demo_bi_env_def demo_traffic_def good_wc_def basic_params_def send_wc_ok_def bw_num_qps_def split: if_splits)

theorem bi_posts_have_room_witness:
  "\<exists>st. run_iter_bi 5 5 5 5 demo_bi demo_bi_env = Some (Inr st) \<and> length (bi_log st) = 2
     \<and> list_all (\<lambda>e. \<not> be_early e) (bi_log st)"
proof -
  from demo_bi_run obtain st where r: "run_iter_bi 5 5 5 5 demo_bi demo_bi_env = Some (Inr st)"
    by (auto split: option.splits sum.splits)
  from bi_posts_have_room [OF demo_bi_ok(1,2) r] demo_bi_run r show ?thesis by (simp add: list_all_iff)
qed

theorem bi_run_completes_witness:
  "\<exists>st. run_iter_bi 5 5 5 5 demo_bi demo_bi_env = Some (Inr st) \<and> bi_scnt st ! 0 = 2 \<and> bi_ccnt st ! 0 = 2"
proof -
  from demo_bi_run obtain st where r: "run_iter_bi 5 5 5 5 demo_bi demo_bi_env = Some (Inr st)"
    by (auto split: option.splits sum.splits)
  from bi_run_completes [OF demo_bi_ok r] r show ?thesis by (simp add: demo_bi_def basic_params_def bw_num_qps_def)
qed

text \<open>
  With credits the count of completions is not exact: a completion taken while a credit waits for room always counts a whole group,
  also where the last group is short.  A run over two queue pairs then succeeds although the last message of the second
  one has not been completed.
\<close>

definition overcount_bi :: bi_ctx where
  "overcount_bi = \<lparr> bi_srv = demo_server\<lparr> sp := basic_params\<lparr> verb := SEND, duplex := True, up_size := 16, cycle_buffer := 8, num_of_qps := 2, tx_depth := 3, rx_depth := 3, iters := 3 \<rparr> \<rparr>,
     bi_my_addr = \<lambda>_. 8192 \<rparr>"

definition overcount_env :: bi_env where
  "overcount_env = demo_traffic (\<lambda>st. if bi_totrcnt st = 0 then map good_wc [0, 0, 0, 1, 1, 1] else [])
     (\<lambda>st. [if bi_ccnt st ! 0 < 4 then \<lparr> sw_qp = 0, sw_ok = True, sw_write = False \<rparr>
            else if bi_ccnt st ! 1 < 2 then \<lparr> sw_qp = 1, sw_ok = True, sw_write = False \<rparr> else \<lparr> sw_qp = 1, sw_ok = True, sw_write = True \<rparr>])"

lemma credit_wait_overcounts:
  "(case run_iter_bi 9 9 9 9 overcount_bi overcount_env of Some (Inr st) \<Rightarrow> (bi_scnt st, bi_ccnt st, bi_totccnt st) | _ \<Rightarrow> ([], [], 0)) = ([3, 3], [4, 2], 6)"
  by code_simp

end
