(* ===== verification/Qp_Connect.thy ===== *)
theory Qp_Connect
  imports Key_Exchange Params
begin

text \<open>
  Model of the state changes of the queue pairs in \<^verbatim>\<open>src/src/perftest_resources.c\<close>: \<open>ctx_modify_qp_to_init\<close>, \<open>ctx_modify_qp_to_rtr\<close>,
  \<open>ctx_modify_qp_to_rts\<close> and \<open>ctx_connect\<close>, which connects every queue pair to one of the peer's.  The library calls are
  recorded with their attributes and masks; whether they succeed is an environment.
\<close>

section \<open>Attributes\<close>

datatype attr_flag = QP_STATE | QP_PKEY_INDEX | QP_PORT | QP_QKEY | QP_ACCESS_FLAGS | QP_AV | QP_PATH_MTU | QP_DEST_QPN | QP_RQ_PSN
  | QP_MAX_DEST_RD_ATOMIC | QP_MIN_RNR_TIMER | QP_SQ_PSN | QP_TIMEOUT | QP_RETRY_CNT | QP_RNR_RETRY | QP_MAX_QP_RD_ATOMIC | QP_OOO | QP_RATE_LIMIT

datatype access_flag = REMOTE_ATOMIC | REMOTE_READ | REMOTE_WRITE | LOCAL_WRITE

datatype qp_state = QPS_RESET | QPS_INIT | QPS_RTR | QPS_RTS

record ah_attr =
  ah_port :: nat
  ah_dlid :: u16
  ah_sl :: u8
  ah_global :: bool
  ah_dgid :: "u8 list"
  ah_sgid_index :: int
  ah_hop_limit :: u8
  ah_traffic_class :: u8
  ah_flow_label :: u32
  ah_static_rate :: nat

record qp_attr =
  at_state :: qp_state
  at_pkey_index :: nat
  at_port :: nat
  at_qkey :: u32
  at_access :: "access_flag set"
  at_ah :: ah_attr
  at_path_mtu :: nat
  at_dest_qp_num :: u32
  at_rq_psn :: u32
  at_max_dest_rd_atomic :: u8
  at_min_rnr_timer :: u8
  at_sq_psn :: u32
  at_timeout :: nat
  at_retry_cnt :: nat
  at_rnr_retry :: nat
  at_max_rd_atomic :: u8
  at_rate_limit :: nat

text \<open>Cleared with \<open>memset\<close>.\<close>

definition zero_attr :: qp_attr where
  "zero_attr = \<lparr> at_state = QPS_RESET, at_pkey_index = 0, at_port = 0, at_qkey = 0, at_access = {},
     at_ah = \<lparr> ah_port = 0, ah_dlid = 0, ah_sl = 0, ah_global = False, ah_dgid = replicate 16 0, ah_sgid_index = 0, ah_hop_limit = 0, ah_traffic_class = 0,
               ah_flow_label = 0, ah_static_rate = 0 \<rparr>,
     at_path_mtu = 0, at_dest_qp_num = 0, at_rq_psn = 0, at_max_dest_rd_atomic = 0, at_min_rnr_timer = 0, at_sq_psn = 0, at_timeout = 0, at_retry_cnt = 0,
     at_rnr_retry = 0, at_max_rd_atomic = 0, at_rate_limit = 0 \<rparr>"

abbreviation DEFF_QKEY :: u32 where "DEFF_QKEY \<equiv> 0x11111111"
abbreviation MIN_RNR_TIMER :: u8 where "MIN_RNR_TIMER \<equiv> 12"
abbreviation DEF_GID_INDEX :: int where "DEF_GID_INDEX \<equiv> - 1"

text \<open>The parameters used here beside the common ones; \<open>flow_labels\<close> is empty for a null pointer.\<close>

record conn_opts =
  cop :: perftest_parameters
  ib_port :: nat
  ib_port2 :: nat
  dual_port :: bool
  pkey_ix :: nat
  user_dlid :: u16
  user_sl :: u8
  gid_ix :: int
  gid_ix2 :: int
  tclass :: u8
  flow_labels :: "u32 list"
  mtu_now :: nat
  qp_timeout_arg :: nat
  raw_qos_on :: bool
  ooo_on :: bool
  have_ooo :: bool
  have_pacing :: bool
  validate_data :: bool
  hw_rate_index :: nat
  rate_type_given :: bool
  link_is_ib :: bool
  rate_arg :: nat

datatype conn_error = Conn_failed | Conn_out_of_bounds | Conn_division

text \<open>Sending and receiving queue pairs are apart: the first half sends, the second half receives.\<close>

definition split_qps :: "perftest_parameters \<Rightarrow> bool" where
  "split_qps p \<longleftrightarrow> (connection_type p = DC \<or> use_xrc p) \<and> (duplex p \<or> tst p = LAT)"

definition half_qps :: "perftest_parameters \<Rightarrow> nat" where
  "half_qps p = (if split_qps p then num_of_qps p div 2 else num_of_qps p)"

definition qps_per_port :: "perftest_parameters \<Rightarrow> nat" where
  "qps_per_port p = half_qps p div 2"

definition is_dc_server_side :: "perftest_parameters \<Rightarrow> nat \<Rightarrow> bool" where
  "is_dc_server_side p i \<longleftrightarrow> \<not> (duplex p \<or> tst p = LAT) \<and> machine p = SERVER \<or> (duplex p \<or> tst p = LAT) \<and> half_qps p \<le> i"

section \<open>To INIT\<close>

definition init_access :: "VerbType \<Rightarrow> bool \<Rightarrow> access_flag set" where
  "init_access v validation =
     (case v of
        ATOMIC \<Rightarrow> {REMOTE_ATOMIC}
      | READ \<Rightarrow> (if validation then {REMOTE_READ, REMOTE_ATOMIC} else {REMOTE_READ})
      | WRITE_IMM \<Rightarrow> (if validation then {REMOTE_WRITE, REMOTE_ATOMIC, REMOTE_READ} else {REMOTE_WRITE})
      | WRITE \<Rightarrow> (if validation then {REMOTE_WRITE, REMOTE_ATOMIC, REMOTE_READ} else {REMOTE_WRITE})
      | SEND_IMM \<Rightarrow> {REMOTE_WRITE, LOCAL_WRITE}
      | SEND \<Rightarrow> {REMOTE_WRITE, LOCAL_WRITE})"

text \<open>The port of the next queue pair (the static \<open>portindex\<close> counts the calls).\<close>

definition init_port :: "conn_opts \<Rightarrow> nat \<Rightarrow> conn_error + nat" where
  "init_port c portindex =
     (if \<not> dual_port c then Inr (ib_port c)
      else if half_qps (cop c) = 0 then Inl Conn_division
      else Inr (if portindex mod half_qps (cop c) < qps_per_port (cop c) then ib_port c else ib_port2 c))"

text \<open>With two ports, the entry of \<open>port_by_qp\<close> that the call also writes.\<close>

definition init_port_by_qp :: "conn_opts \<Rightarrow> nat \<Rightarrow> (nat \<times> nat) option" where
  "init_port_by_qp c portindex =
     (if dual_port c then Some (portindex, if portindex mod half_qps (cop c) < qps_per_port (cop c) then 0 else 1) else None)"

definition ctx_modify_qp_to_init :: "conn_opts \<Rightarrow> nat \<Rightarrow> nat \<Rightarrow> conn_error + qp_attr \<times> attr_flag set" where
  "ctx_modify_qp_to_init c portindex i =
     (case init_port c portindex of
        Inl e \<Rightarrow> Inl e
      | Inr port \<Rightarrow>
          let p = cop c;
              a = zero_attr\<lparr> at_state := QPS_INIT, at_pkey_index := pkey_ix c, at_port := port \<rparr>;
              base = {QP_STATE, QP_PKEY_INDEX, QP_PORT}
          in if connection_type p = RawEth then Inr (a, {QP_STATE, QP_PORT})
             else if connection_type p = UD \<or> connection_type p = SRD then Inr (a\<lparr> at_qkey := DEFF_QKEY \<rparr>, insert QP_QKEY base)
             else if connection_type p = DC \<and> \<not> is_dc_server_side p i then Inr (a, base)
             else Inr (a\<lparr> at_access := init_access (verb p) (validate_data c) \<rparr>, insert QP_ACCESS_FLAGS base))"

section \<open>To RTR and RTS\<close>

definition rtr_port :: "conn_opts \<Rightarrow> nat \<Rightarrow> conn_error + nat" where
  "rtr_port c i =
     (if \<not> dual_port c then Inr (ib_port c)
      else if half_qps (cop c) = 0 then Inl Conn_division
      else Inr (if qps_per_port (cop c) \<le> i mod half_qps (cop c) then ib_port2 c else ib_port c))"

text \<open>The address vector; a flow label moves the cursor over the labels.\<close>

definition rtr_address :: "conn_opts \<Rightarrow> nat \<Rightarrow> pingpong_dest \<Rightarrow> nat \<Rightarrow> ah_attr \<Rightarrow> ah_attr \<times> nat" where
  "rtr_address c port d cursor ah =
     (let ah1 = ah\<lparr> ah_dlid := (if user_dlid c \<noteq> 0 then user_dlid c else ucast (lid d)), ah_sl := user_sl c \<rparr> in
      if port = ib_port c \<and> gid_ix c = DEF_GID_INDEX \<or> port = ib_port2 c \<and> gid_ix2 c = DEF_GID_INDEX \<and> dual_port c
      then (ah1\<lparr> ah_global := False \<rparr>, cursor)
      else let ah2 = ah1\<lparr> ah_global := True, ah_dgid := gid_raw d, ah_sgid_index := (if port = ib_port c then gid_ix c else gid_ix2 c),
                         ah_hop_limit := 0xff, ah_traffic_class := tclass c \<rparr>
           in if flow_labels c = [] then (ah2, cursor)
              else (ah2\<lparr> ah_flow_label := flow_labels c ! (cursor mod length (flow_labels c)) \<rparr>, cursor + 1))"

definition ctx_modify_qp_to_rtr ::
    "conn_opts \<Rightarrow> qp_attr \<Rightarrow> pingpong_dest \<Rightarrow> pingpong_dest \<Rightarrow> nat \<Rightarrow> nat \<Rightarrow> conn_error + qp_attr \<times> attr_flag set \<times> nat" where
  "ctx_modify_qp_to_rtr c a0 d my i cursor =
     (case rtr_port c i of
        Inl e \<Rightarrow> Inl e
      | Inr port \<Rightarrow>
          let p = cop c; ct = connection_type p;
              a = a0\<lparr> at_state := QPS_RTR, at_ah := (at_ah a0)\<lparr> ah_port := port \<rparr> \<rparr>;
              ooo = (if ooo_on c \<and> have_ooo c then {QP_OOO} else {})
          in if ct \<noteq> RawEth then
               (let (ah, cursor') = rtr_address c port d cursor (at_ah a); b = a\<lparr> at_ah := ah \<rparr> in
                if ct = UD \<or> ct = SRD then Inr (b, {QP_STATE} \<union> ooo, cursor')
                else if ct = DC then
                  (let b1 = b\<lparr> at_path_mtu := mtu_now c \<rparr> in
                   if is_dc_server_side p i then Inr (b1\<lparr> at_min_rnr_timer := MIN_RNR_TIMER \<rparr>, {QP_STATE, QP_AV, QP_PATH_MTU, QP_MIN_RNR_TIMER} \<union> ooo, cursor')
                   else Inr (b1, {QP_STATE, QP_AV, QP_PATH_MTU} \<union> ooo, cursor'))
                else
                  (let b1 = b\<lparr> at_path_mtu := mtu_now c, at_dest_qp_num := qpn d, at_rq_psn := psn d \<rparr>;
                       m = {QP_STATE, QP_AV, QP_PATH_MTU, QP_DEST_QPN, QP_RQ_PSN}
                   in if ct = RC \<or> ct = XRC
                      then Inr (b1\<lparr> at_max_dest_rd_atomic := ucast (out_reads my), at_min_rnr_timer := MIN_RNR_TIMER \<rparr>,
                                m \<union> {QP_MIN_RNR_TIMER, QP_MAX_DEST_RD_ATOMIC} \<union> ooo, cursor')
                      else Inr (b1, m \<union> ooo, cursor')))
             else if raw_qos_on c then Inr (a\<lparr> at_ah := (at_ah a)\<lparr> ah_sl := user_sl c \<rparr> \<rparr>, {QP_STATE, QP_AV} \<union> ooo, cursor)
             else Inr (a, {QP_STATE} \<union> ooo, cursor))"

definition ctx_modify_qp_to_rts :: "conn_opts \<Rightarrow> rate_limiter_types \<Rightarrow> qp_attr \<Rightarrow> pingpong_dest \<Rightarrow> pingpong_dest \<Rightarrow> qp_attr \<times> attr_flag set" where
  "ctx_modify_qp_to_rts c rate_type a0 d my =
     (let ct = connection_type (cop c);
          a = a0\<lparr> at_state := QPS_RTS \<rparr>;
          (b, m) =
            (if ct = RawEth then (a, {QP_STATE})
             else if ct = DC \<or> ct = RC \<or> ct = XRC
             then (a\<lparr> at_sq_psn := psn my, at_timeout := qp_timeout_arg c, at_retry_cnt := 7, at_rnr_retry := 7, at_max_rd_atomic := ucast (out_reads d) \<rparr>,
                   {QP_STATE, QP_SQ_PSN, QP_TIMEOUT, QP_RETRY_CNT, QP_RNR_RETRY, QP_MAX_QP_RD_ATOMIC})
             else (a\<lparr> at_sq_psn := psn my \<rparr>, {QP_STATE, QP_SQ_PSN}))
      in if have_pacing c \<and> rate_type = PP_RATE_LIMIT then (b\<lparr> at_rate_limit := rate_arg c \<rparr>, insert QP_RATE_LIMIT m) else (b, m))"

section \<open>Connecting all queue pairs\<close>

record qp_call =
  qc_qp :: nat
  qc_attr :: qp_attr
  qc_mask :: "attr_flag set"

record conn_state =
  cs_offset :: int
  cs_cursor :: nat
  cs_rate_type :: rate_limiter_types
  cs_calls :: "qp_call list"
  cs_ahs :: "(nat \<times> ah_attr) list"

record conn_env =
  modify_ok :: "qp_call \<Rightarrow> bool"
  create_ah_ok :: "nat \<Rightarrow> bool"
  queried_rate :: "nat \<Rightarrow> nat option"
  pacing_supported :: bool

definition call_modify :: "conn_env \<Rightarrow> qp_call \<Rightarrow> conn_state \<Rightarrow> conn_error + conn_state" where
  "call_modify env qc st = (if modify_ok env qc then Inr (st\<lparr> cs_calls := cs_calls st @ [qc] \<rparr>) else Inl Conn_failed)"

definition wants_rts :: "perftest_parameters \<Rightarrow> bool" where
  "wants_rts p \<longleftrightarrow> tst p = LAT \<or> machine p = CLIENT \<or> duplex p"

definition wants_ah :: "perftest_parameters \<Rightarrow> bool" where
  "wants_ah p \<longleftrightarrow> (connection_type p = UD \<or> connection_type p = DC \<or> connection_type p = SRD) \<and> wants_rts p \<or>
     connection_type p = SRD \<and> (verb p = READ \<or> verb p = WRITE \<or> verb p = WRITE_IMM)"

text \<open>A hardware rate limit that the queue pair did not take falls back to the software one, unless it was asked for.\<close>

definition check_hw_rate :: "conn_opts \<Rightarrow> conn_env \<Rightarrow> nat \<Rightarrow> conn_state \<Rightarrow> conn_error + conn_state" where
  "check_hw_rate c env i st =
     (if cs_rate_type st \<noteq> HW_RATE_LIMIT then Inr st
      else if queried_rate env i = Some (hw_rate_index c) \<and> link_is_ib c then Inr st
      else if rate_type_given c then Inl Conn_failed
      else Inr (st\<lparr> cs_rate_type := SW_RATE_LIMIT \<rparr>))"

text \<open>
  One turn of the loop.  The offset to the peer's queue pair is turned round for the second half and set back at the end
  of the turn; a \<^verbatim>\<open>continue\<close> for the receiving side of DC skips that.
\<close>

definition dest_index :: "perftest_parameters \<Rightarrow> nat \<Rightarrow> int \<Rightarrow> int" where
  "dest_index p i offset = (if offset \<le> int i \<and> split_qps p then - offset else offset)"

definition connect_rts :: "conn_opts \<Rightarrow> conn_env \<Rightarrow> nat \<Rightarrow> qp_attr \<Rightarrow> pingpong_dest \<Rightarrow> pingpong_dest \<Rightarrow> conn_state \<Rightarrow> conn_error + conn_state" where
  "connect_rts c env i a d my st =
     (if \<not> wants_rts (cop c) then Inr st
      else let (b, m) = ctx_modify_qp_to_rts c (cs_rate_type st) a d my
           in call_modify env \<lparr> qc_qp = i, qc_attr = b, qc_mask = m \<rparr> st)"

definition connect_ah :: "conn_opts \<Rightarrow> conn_env \<Rightarrow> nat \<Rightarrow> qp_attr \<Rightarrow> conn_state \<Rightarrow> conn_error + conn_state" where
  "connect_ah c env i a st =
     (if \<not> wants_ah (cop c) then Inr st
      else if create_ah_ok env i then Inr (st\<lparr> cs_ahs := cs_ahs st @ [(i, at_ah a)] \<rparr>) else Inl Conn_failed)"

definition connect_finish :: "conn_opts \<Rightarrow> conn_env \<Rightarrow> nat \<Rightarrow> qp_attr \<Rightarrow> pingpong_dest \<Rightarrow> pingpong_dest \<Rightarrow> conn_state \<Rightarrow> conn_error + conn_state" where
  "connect_finish c env i a d my st =
     sbind (connect_rts c env i a d my st) (\<lambda>st1. sbind (connect_ah c env i a st1) (\<lambda>st2. sbind (check_hw_rate c env i st2) (\<lambda>st3.
       Inr (if split_qps (cop c) then st3\<lparr> cs_offset := int (num_of_qps (cop c) div 2) \<rparr> else st3))))"

definition connect_one :: "conn_opts \<Rightarrow> conn_env \<Rightarrow> pingpong_dest list \<Rightarrow> pingpong_dest list \<Rightarrow> nat \<Rightarrow> conn_state \<Rightarrow> conn_error + conn_state" where
  "connect_one c env dest my i st =
     (let p = cop c; offset = dest_index p i (cs_offset st); j = offset + int i;
          a = (if cs_rate_type st = HW_RATE_LIMIT then zero_attr\<lparr> at_ah := (at_ah zero_attr)\<lparr> ah_static_rate := hw_rate_index c \<rparr> \<rparr> else zero_attr)
      in if have_pacing c \<and> cs_rate_type st = PP_RATE_LIMIT \<and> \<not> pacing_supported env then Inl Conn_failed
         else if j < 0 \<or> int (length dest) \<le> j \<or> length my \<le> i then Inl Conn_out_of_bounds
         else sbind (ctx_modify_qp_to_rtr c a (dest ! nat j) (my ! i) i (cs_cursor st)) (\<lambda>(b, m, cursor).
           sbind (call_modify env \<lparr> qc_qp = i, qc_attr = b, qc_mask = m \<rparr> (st\<lparr> cs_offset := offset, cs_cursor := cursor \<rparr>)) (\<lambda>st1.
             if connection_type p = DC \<and> is_dc_server_side p i then Inr st1
             else connect_finish c env i b (dest ! nat j) (my ! i) st1)))"

fun connect_all :: "conn_opts \<Rightarrow> conn_env \<Rightarrow> pingpong_dest list \<Rightarrow> pingpong_dest list \<Rightarrow> nat list \<Rightarrow> conn_state \<Rightarrow> conn_error + conn_state" where
  "connect_all c env dest my [] st = Inr st"
| "connect_all c env dest my (i # is) st = sbind (connect_one c env dest my i st) (connect_all c env dest my is)"

definition conn_start :: "conn_opts \<Rightarrow> conn_state" where
  "conn_start c = \<lparr> cs_offset = (if split_qps (cop c) then int (num_of_qps (cop c) div 2) else 0), cs_cursor = 0,
     cs_rate_type = rate_limit_type (cop c), cs_calls = [], cs_ahs = [] \<rparr>"

definition ctx_connect :: "conn_opts \<Rightarrow> conn_env \<Rightarrow> pingpong_dest list \<Rightarrow> pingpong_dest list \<Rightarrow> conn_error + conn_state" where
  "ctx_connect c env dest my = connect_all c env dest my [0..<num_of_qps (cop c)] (conn_start c)"

section \<open>The partner of a queue pair\<close>

definition partner :: "perftest_parameters \<Rightarrow> nat \<Rightarrow> nat" where
  "partner p i = (if split_qps p then (if i < num_of_qps p div 2 then i + num_of_qps p div 2 else i - num_of_qps p div 2) else i)"

lemma partner_involution:
  assumes "even (num_of_qps p) \<or> \<not> split_qps p" and "i < num_of_qps p"
  shows "partner p i < num_of_qps p" "partner p (partner p i) = i"
  using assms by (auto simp: partner_def elim!: evenE)

text \<open>At the head of each turn the offset points from the first half to the second.\<close>

definition offset_set :: "conn_opts \<Rightarrow> conn_state \<Rightarrow> bool" where
  "offset_set c st \<longleftrightarrow> cs_offset st = (if split_qps (cop c) then int (num_of_qps (cop c) div 2) else 0)"

lemma dest_index_partner:
  assumes "offset_set c st" and "even (num_of_qps (cop c)) \<or> \<not> split_qps (cop c)" and "i < num_of_qps (cop c)"
  shows "dest_index (cop c) i (cs_offset st) + int i = int (partner (cop c) i)"
  using assms by (auto simp: dest_index_def offset_set_def partner_def elim!: evenE)

text \<open>The calls that connect one queue pair, from its own data and those of its partner.\<close>

definition calls_of :: "qp_call list \<Rightarrow> nat \<Rightarrow> qp_call list" where
  "calls_of calls i = filter (\<lambda>qc. qc_qp qc = i) calls"

definition qp_calls :: "conn_opts \<Rightarrow> rate_limiter_types \<Rightarrow> pingpong_dest \<Rightarrow> pingpong_dest \<Rightarrow> nat \<Rightarrow> qp_attr \<Rightarrow> attr_flag set \<Rightarrow> qp_call list" where
  "qp_calls c rt d my i b m =
     \<lparr> qc_qp = i, qc_attr = b, qc_mask = m \<rparr> #
     (if wants_rts (cop c) then [\<lparr> qc_qp = i, qc_attr = fst (ctx_modify_qp_to_rts c rt b d my), qc_mask = snd (ctx_modify_qp_to_rts c rt b d my) \<rparr>] else [])"

definition connects :: "conn_opts \<Rightarrow> pingpong_dest \<Rightarrow> pingpong_dest \<Rightarrow> nat \<Rightarrow> qp_call list \<Rightarrow> bool" where
  "connects c d my i cl \<longleftrightarrow> (\<exists>a b m cur cur' rt. ctx_modify_qp_to_rtr c a d my i cur = Inr (b, m, cur') \<and> cl = qp_calls c rt d my i b m)"

lemma sbind_Inr: "sbind r f = Inr x \<longleftrightarrow> (\<exists>y. r = Inr y \<and> f y = Inr x)"
  by (cases r) (auto simp: sbind_def)

lemma call_modify_calls: "call_modify env qc st = Inr st' \<Longrightarrow> st' = st\<lparr> cs_calls := cs_calls st @ [qc] \<rparr>"
  by (auto simp: call_modify_def split: if_splits)

lemma connect_finish_calls:
  assumes "connect_finish c env i b d my st = Inr st'"
  shows "\<exists>rt. cs_calls st' = cs_calls st @ tl (qp_calls c rt d my i b m)"
    and "split_qps (cop c) \<Longrightarrow> offset_set c st'" and "\<not> split_qps (cop c) \<Longrightarrow> cs_offset st' = cs_offset st"
proof -
  from assms obtain st1 st2 st3 where one: "connect_rts c env i b d my st = Inr st1" and two: "connect_ah c env i b st1 = Inr st2"
    and three: "check_hw_rate c env i st2 = Inr st3"
    and st': "st' = (if split_qps (cop c) then st3\<lparr> cs_offset := int (num_of_qps (cop c) div 2) \<rparr> else st3)"
    by (auto simp: connect_finish_def sbind_Inr)
  have calls1: "cs_calls st1 = cs_calls st @ tl (qp_calls c (cs_rate_type st) d my i b m)" and off1: "cs_offset st1 = cs_offset st"
    using one by (auto simp: connect_rts_def qp_calls_def case_prod_beta dest!: call_modify_calls split: if_splits)
  have "cs_calls st2 = cs_calls st1 \<and> cs_offset st2 = cs_offset st1" using two by (auto simp: connect_ah_def split: if_splits)
  moreover have "cs_calls st3 = cs_calls st2 \<and> cs_offset st3 = cs_offset st2" using three by (auto simp: check_hw_rate_def split: if_splits)
  ultimately show "\<exists>rt. cs_calls st' = cs_calls st @ tl (qp_calls c rt d my i b m)" and "split_qps (cop c) \<Longrightarrow> offset_set c st'"
    and "\<not> split_qps (cop c) \<Longrightarrow> cs_offset st' = cs_offset st"
    using calls1 off1 st' by (auto simp: offset_set_def)
qed

lemma connect_one_connects:
  assumes r: "connect_one c env dest my i st = Inr st'" and o: "offset_set c st" and e: "even (num_of_qps (cop c)) \<or> \<not> split_qps (cop c)"
    and i: "i < num_of_qps (cop c)" and dc: "connection_type (cop c) \<noteq> DC"
  shows "offset_set c st' \<and> (\<exists>cl. cs_calls st' = cs_calls st @ cl \<and> connects c (dest ! partner (cop c) i) (my ! i) i cl)"
proof -
  let ?d = "dest ! partner (cop c) i" and ?off = "dest_index (cop c) i (cs_offset st)"
  have j: "?off + int i = int (partner (cop c) i)" by (rule dest_index_partner [OF o e i])
  obtain a b m cursor st1 where rtr: "ctx_modify_qp_to_rtr c a ?d (my ! i) i (cs_cursor st) = Inr (b, m, cursor)"
    and call: "call_modify env \<lparr> qc_qp = i, qc_attr = b, qc_mask = m \<rparr> (st\<lparr> cs_offset := ?off, cs_cursor := cursor \<rparr>) = Inr st1"
    and fin: "connect_finish c env i b ?d (my ! i) st1 = Inr st'"
    using r dc unfolding connect_one_def Let_def j by (auto simp: sbind_Inr split: if_splits)
  note st1 = call_modify_calls [OF call]
  from connect_finish_calls(1) [OF fin, of m] obtain rt where "cs_calls st' = cs_calls st1 @ tl (qp_calls c rt ?d (my ! i) i b m)" by blast
  then have calls: "cs_calls st' = cs_calls st @ qp_calls c rt ?d (my ! i) i b m" by (simp add: st1 qp_calls_def)
  have "offset_set c st'" using connect_finish_calls(2,3) [OF fin] o st1 by (cases "split_qps (cop c)") (auto simp: offset_set_def dest_index_def)
  moreover have "connects c ?d (my ! i) i (qp_calls c rt ?d (my ! i) i b m)" using rtr unfolding connects_def by blast
  ultimately show ?thesis using calls by blast
qed

lemma connects_qp: "connects c d my i cl \<Longrightarrow> qc \<in> set cl \<Longrightarrow> qc_qp qc = i"
  by (auto simp: connects_def qp_calls_def split: if_splits)

lemma connect_all_connects:
  assumes e: "even (num_of_qps (cop c)) \<or> \<not> split_qps (cop c)" and dc: "connection_type (cop c) \<noteq> DC"
  shows "connect_all c env dest my is st = Inr st' \<Longrightarrow> offset_set c st \<Longrightarrow> distinct is \<Longrightarrow> set is \<subseteq> {..<num_of_qps (cop c)} \<Longrightarrow>
    (\<forall>qc \<in> set (cs_calls st'). qc \<in> set (cs_calls st) \<or> qc_qp qc \<in> set is)
    \<and> (\<forall>j. j \<notin> set is \<longrightarrow> calls_of (cs_calls st') j = calls_of (cs_calls st) j)
    \<and> (\<forall>i \<in> set is. calls_of (cs_calls st) i = [] \<longrightarrow> connects c (dest ! partner (cop c) i) (my ! i) i (calls_of (cs_calls st') i))"
proof (induction "is" arbitrary: st)
  case Nil
  then show ?case by simp
next
  case (Cons i "is")
  from Cons.prems(1) obtain st1 where one: "connect_one c env dest my i st = Inr st1" and rest: "connect_all c env dest my is st1 = Inr st'"
    by (auto simp: sbind_Inr)
  from connect_one_connects [OF one Cons.prems(2) e _ dc] Cons.prems(4) obtain cl where
    off: "offset_set c st1" and cl: "cs_calls st1 = cs_calls st @ cl" "connects c (dest ! partner (cop c) i) (my ! i) i cl" by auto
  note own = connects_qp [OF cl(2)]
  have mine: "calls_of cl i = cl" and other: "\<And>j. j \<noteq> i \<Longrightarrow> calls_of cl j = []"
    using own by (auto simp: calls_of_def filter_id_conv filter_empty_conv)
  have app: "calls_of (xs @ ys) j = calls_of xs j @ calls_of ys j" for xs ys j by (simp add: calls_of_def)
  note IH = Cons.IH [OF rest off]
  have d: "i \<notin> set is" "distinct is" using Cons.prems(3) by auto
  have "connects c (dest ! partner (cop c) k) (my ! k) k (calls_of (cs_calls st') k)" if k: "k \<in> set (i # is)" "calls_of (cs_calls st) k = []" for k
  proof (cases "k = i")
    case True
    then show ?thesis using IH d Cons.prems(4) cl mine k(2) by (simp add: app)
  next
    case False
    then show ?thesis using IH d Cons.prems(4) cl(1) other [OF False] k by (simp add: app)
  qed
  then show ?case using IH d Cons.prems(4) cl(1) own other by (auto simp: app)
qed

section \<open>What the device accepts\<close>

text \<open>The attributes that \<open>ibv_modify_qp\<close> documents as required for a transition, by transport and next state.\<close>

fun required :: "connection_type \<Rightarrow> qp_state \<Rightarrow> attr_flag set" where
  "required RC QPS_INIT = {QP_STATE, QP_PKEY_INDEX, QP_PORT, QP_ACCESS_FLAGS}"
| "required RC QPS_RTR = {QP_STATE, QP_AV, QP_PATH_MTU, QP_DEST_QPN, QP_RQ_PSN, QP_MAX_DEST_RD_ATOMIC, QP_MIN_RNR_TIMER}"
| "required RC QPS_RTS = {QP_STATE, QP_SQ_PSN, QP_MAX_QP_RD_ATOMIC, QP_RETRY_CNT, QP_RNR_RETRY, QP_TIMEOUT}"
| "required UC QPS_INIT = {QP_STATE, QP_PKEY_INDEX, QP_PORT, QP_ACCESS_FLAGS}"
| "required UC QPS_RTR = {QP_STATE, QP_AV, QP_PATH_MTU, QP_DEST_QPN, QP_RQ_PSN}"
| "required UC QPS_RTS = {QP_STATE, QP_SQ_PSN}"
| "required UD QPS_INIT = {QP_STATE, QP_PKEY_INDEX, QP_PORT, QP_QKEY}"
| "required UD QPS_RTR = {QP_STATE}"
| "required UD QPS_RTS = {QP_STATE, QP_SQ_PSN}"
| "required RawEth QPS_INIT = {QP_STATE, QP_PORT}"
| "required RawEth QPS_RTR = {QP_STATE}"
| "required RawEth QPS_RTS = {QP_STATE}"
| "required _ _ = {QP_STATE}"

text \<open>
  Attributes that may come on top: on the way to RTR out-of-order placement and the service level of a raw queue pair, on the way to RTS
  packet pacing.
\<close>

fun on_top :: "connection_type \<Rightarrow> qp_state \<Rightarrow> attr_flag set" where
  "on_top t QPS_RTR = (if t = RawEth then {QP_OOO, QP_AV} else {QP_OOO})"
| "on_top t QPS_RTS = {QP_RATE_LIMIT}"
| "on_top t _ = {}"

fun next_state :: "qp_state \<Rightarrow> qp_state option" where
  "next_state QPS_RESET = Some QPS_INIT"
| "next_state QPS_INIT = Some QPS_RTR"
| "next_state QPS_RTR = Some QPS_RTS"
| "next_state QPS_RTS = None"

text \<open>A queue pair that follows the table: a call is taken if it names the next state with all required attributes and no others.\<close>

definition qp_step :: "connection_type \<Rightarrow> qp_state \<Rightarrow> qp_call \<Rightarrow> qp_state option" where
  "qp_step t s qc =
     (let n = at_state (qc_attr qc) in
      if next_state s = Some n \<and> required t n \<subseteq> qc_mask qc \<and> qc_mask qc \<subseteq> required t n \<union> on_top t n then Some n else None)"

fun qp_run :: "connection_type \<Rightarrow> qp_state \<Rightarrow> qp_call list \<Rightarrow> qp_state option" where
  "qp_run t s [] = Some s"
| "qp_run t s (qc # qcs) = (case qp_step t s qc of None \<Rightarrow> None | Some s' \<Rightarrow> qp_run t s' qcs)"

definition plain_transport :: "connection_type \<Rightarrow> bool" where
  "plain_transport t \<longleftrightarrow> t = RC \<or> t = UC \<or> t = UD \<or> t = RawEth"

lemma init_step:
  assumes "ctx_modify_qp_to_init c k i = Inr (a, m)" and "plain_transport (connection_type (cop c))"
  shows "qp_step (connection_type (cop c)) QPS_RESET \<lparr> qc_qp = i, qc_attr = a, qc_mask = m \<rparr> = Some QPS_INIT"
  using assms by (auto simp: ctx_modify_qp_to_init_def Let_def plain_transport_def qp_step_def split: sum.splits)

lemma rtr_step:
  assumes "ctx_modify_qp_to_rtr c a0 d my i cur = Inr (b, m, cur')" and "plain_transport (connection_type (cop c))"
  shows "qp_step (connection_type (cop c)) QPS_INIT \<lparr> qc_qp = i, qc_attr = b, qc_mask = m \<rparr> = Some QPS_RTR"
proof (cases "connection_type (cop c) = RawEth")
  case True
  with assms(1) show ?thesis by (auto simp: ctx_modify_qp_to_rtr_def Let_def qp_step_def split: sum.splits if_splits)
next
  case False
  with assms show ?thesis
    by (auto simp: ctx_modify_qp_to_rtr_def Let_def plain_transport_def qp_step_def case_prod_beta split: sum.splits if_splits)
qed

lemma rts_step:
  assumes "plain_transport (connection_type (cop c))"
  shows "qp_step (connection_type (cop c)) QPS_RTR
    \<lparr> qc_qp = i, qc_attr = fst (ctx_modify_qp_to_rts c rt b d my), qc_mask = snd (ctx_modify_qp_to_rts c rt b d my) \<rparr> = Some QPS_RTS"
  using assms by (auto simp: ctx_modify_qp_to_rts_def Let_def plain_transport_def qp_step_def)

lemma conn_start_calls [simp]: "calls_of (cs_calls (conn_start c)) i = []" and conn_start_offset [simp]: "offset_set c (conn_start c)"
  by (simp_all add: conn_start_def calls_of_def offset_set_def)

lemma ctx_connect_connects:
  assumes "ctx_connect c env dest my = Inr st" and "even (num_of_qps (cop c)) \<or> \<not> split_qps (cop c)" and "connection_type (cop c) \<noteq> DC" and "i < num_of_qps (cop c)"
  shows "connects c (dest ! partner (cop c) i) (my ! i) i (calls_of (cs_calls st) i)"
proof -
  have r: "connect_all c env dest my [0..<num_of_qps (cop c)] (conn_start c) = Inr st" using assms(1) by (simp add: ctx_connect_def)
  have sub: "set [0..<num_of_qps (cop c)] \<subseteq> {..<num_of_qps (cop c)}" by auto
  from connect_all_connects [OF assms(2,3) r conn_start_offset distinct_upt sub] assms(4) show ?thesis by simp
qed

text \<open>The numbers that a connected transport puts into its calls.\<close>

lemma connects_numbers:
  assumes "connects c d my i cl" and "connection_type (cop c) = RC \<or> connection_type (cop c) = UC \<or> connection_type (cop c) = XRC"
  shows "at_dest_qp_num (qc_attr (hd cl)) = qpn d \<and> at_rq_psn (qc_attr (hd cl)) = psn d \<and> at_path_mtu (qc_attr (hd cl)) = mtu_now c
    \<and> at_state (qc_attr (hd cl)) = QPS_RTR
    \<and> (wants_rts (cop c) \<longrightarrow> length cl = 2 \<and> at_state (qc_attr (last cl)) = QPS_RTS \<and> at_sq_psn (qc_attr (last cl)) = psn my)"
proof -
  from assms(1) obtain a b m cur cur' rt where rtr: "ctx_modify_qp_to_rtr c a d my i cur = Inr (b, m, cur')" and cl: "cl = qp_calls c rt d my i b m"
    by (auto simp: connects_def)
  have "at_dest_qp_num b = qpn d \<and> at_rq_psn b = psn d \<and> at_path_mtu b = mtu_now c \<and> at_state b = QPS_RTR"
    using rtr assms(2) by (auto simp: ctx_modify_qp_to_rtr_def Let_def case_prod_beta split: sum.splits if_splits)
  moreover have "at_state (fst (ctx_modify_qp_to_rts c rt b d my)) = QPS_RTS \<and> at_sq_psn (fst (ctx_modify_qp_to_rts c rt b d my)) = psn my"
    using assms(2) by (auto simp: ctx_modify_qp_to_rts_def Let_def)
  ultimately show ?thesis by (simp add: cl qp_calls_def)
qed

section \<open>DC in both directions\<close>

text \<open>Everything the environment is asked for works, and no rate limit is set.\<close>

definition all_works :: "conn_opts \<Rightarrow> conn_env \<Rightarrow> bool" where
  "all_works c env \<longleftrightarrow> (\<forall>qc. modify_ok env qc) \<and> (\<forall>i. create_ah_ok env i) \<and> rate_limit_type (cop c) = DISABLE_RATE_LIMIT"

definition dc_state :: "conn_opts \<Rightarrow> conn_state \<Rightarrow> bool" where
  "dc_state c st \<longleftrightarrow> cs_rate_type st = DISABLE_RATE_LIMIT"

lemma rtr_defined: "0 < half_qps (cop c) \<Longrightarrow> \<exists>b m cur'. ctx_modify_qp_to_rtr c a d my i cur = Inr (b, m, cur')"
  by (auto simp: ctx_modify_qp_to_rtr_def rtr_port_def Let_def case_prod_beta)

lemma connect_finish_works:
  assumes "all_works c env" and "dc_state c st"
  shows "\<exists>st'. connect_finish c env i b d my st = Inr st' \<and> dc_state c st'"
proof -
  have "\<exists>st1. connect_rts c env i b d my st = Inr st1 \<and> dc_state c st1"
    using assms by (auto simp: connect_rts_def call_modify_def all_works_def dc_state_def case_prod_beta)
  then obtain st1 where one: "connect_rts c env i b d my st = Inr st1" "dc_state c st1" by blast
  have "\<exists>st2. connect_ah c env i b st1 = Inr st2 \<and> dc_state c st2" using assms(1) one(2) by (auto simp: connect_ah_def all_works_def dc_state_def)
  then obtain st2 where two: "connect_ah c env i b st1 = Inr st2" "dc_state c st2" by blast
  have "check_hw_rate c env i st2 = Inr st2" using two(2) by (simp add: check_hw_rate_def dc_state_def)
  with one two show ?thesis by (auto simp: connect_finish_def dc_state_def)
qed

lemma dc_turn:
  assumes w: "all_works c env" and s: "dc_state c st" and h: "0 < half_qps (cop c)" and dc: "connection_type (cop c) = DC"
    and j: "dest_index (cop c) i (cs_offset st) + int i = int j" "j < length dest" "i < length my"
  shows "\<exists>st'. connect_one c env dest my i st = Inr st' \<and> dc_state c st'
    \<and> (if is_dc_server_side (cop c) i then cs_offset st' = dest_index (cop c) i (cs_offset st) else split_qps (cop c) \<longrightarrow> offset_set c st')"
proof -
  have j': "\<not> dest_index (cop c) i (cs_offset st) + int i < 0" "\<not> int (length dest) \<le> dest_index (cop c) i (cs_offset st) + int i" using j by simp_all
  obtain b m cursor where rtr: "ctx_modify_qp_to_rtr c zero_attr (dest ! j) (my ! i) i (cs_cursor st) = Inr (b, m, cursor)" using rtr_defined [OF h] by blast
  let ?s = "st\<lparr> cs_offset := dest_index (cop c) i (cs_offset st), cs_cursor := cursor, cs_calls := cs_calls st @ [\<lparr> qc_qp = i, qc_attr = b, qc_mask = m \<rparr>] \<rparr>"
  have s1: "dc_state c ?s" using s by (simp add: dc_state_def)
  have eq: "connect_one c env dest my i st = (if is_dc_server_side (cop c) i then Inr ?s else connect_finish c env i b (dest ! j) (my ! i) ?s)"
    using s w dc j j' rtr by (simp add: connect_one_def Let_def dc_state_def all_works_def call_modify_def)
  from connect_finish_works [OF w s1, of i b "dest ! j" "my ! i"] obtain st' where
    fin: "connect_finish c env i b (dest ! j) (my ! i) ?s = Inr st'" "dc_state c st'" by blast
  show ?thesis using eq s1 fin connect_finish_calls(2) [OF fin(1)] by (cases "is_dc_server_side (cop c) i") auto
qed

lemma connect_all_append: "connect_all c env dest my (xs @ ys) st = sbind (connect_all c env dest my xs st) (connect_all c env dest my ys)"
  by (induction xs arbitrary: st) (simp_all add: sbind_def split: sum.splits)

lemma dc_first_half:
  assumes w: "all_works c env" and dc: "connection_type (cop c) = DC" "split_qps (cop c)" and n: "num_of_qps (cop c) = 2 * h" "0 < h"
    and len: "length dest = 2 * h" "length my = 2 * h"
  shows "k \<le> h \<Longrightarrow> \<exists>st. connect_all c env dest my [0..<k] (conn_start c) = Inr st \<and> dc_state c st \<and> offset_set c st"
proof (induction k)
  case 0
  then show ?case using w by (simp add: dc_state_def conn_start_def all_works_def offset_set_def)
next
  case (Suc k)
  then obtain st where st: "connect_all c env dest my [0..<k] (conn_start c) = Inr st" "dc_state c st" "offset_set c st" by auto
  have half: "half_qps (cop c) = h" using dc n by (simp add: half_qps_def)
  have j: "dest_index (cop c) k (cs_offset st) + int k = int (h + k)" using st(3) n dc Suc.prems by (simp add: dest_index_def offset_set_def)
  have "\<not> is_dc_server_side (cop c) k" using dc(2) half Suc.prems by (auto simp: is_dc_server_side_def split_qps_def)
  with dc_turn [OF w st(2) _ dc(1) j, of dest my] half n len Suc.prems dc(2) obtain st' where
    "connect_one c env dest my k st = Inr st'" "dc_state c st'" "offset_set c st'" by auto
  with st(1) show ?case by (simp add: connect_all_append)
qed

text \<open>The first receiving queue pair turns the offset round and keeps it so; the second one then turns it back.\<close>

lemma dc_second_half:
  assumes w: "all_works c env" and dc: "connection_type (cop c) = DC" "split_qps (cop c)" and n: "num_of_qps (cop c) = 2 * h" "2 \<le> h"
    and len: "length dest = 2 * h" "length my = 2 * h"
  shows "ctx_connect c env dest my = Inl Conn_out_of_bounds"
proof -
  from dc_first_half [OF w dc n(1) _ len, of h] n(2) obtain st where
    st: "connect_all c env dest my [0..<h] (conn_start c) = Inr st" "dc_state c st" "offset_set c st" by auto
  have half: "half_qps (cop c) = h" using dc n by (simp add: half_qps_def)
  have i: "dest_index (cop c) h (cs_offset st) = - int h" using st(3) n dc by (simp add: dest_index_def offset_set_def)
  have "is_dc_server_side (cop c) h" using dc(2) half by (auto simp: is_dc_server_side_def split_qps_def)
  moreover have "dest_index (cop c) h (cs_offset st) + int h = int 0" using i by simp
  ultimately obtain st1 where st1: "connect_one c env dest my h st = Inr st1" "dc_state c st1" "cs_offset st1 = - int h"
    using dc_turn [OF w st(2) _ dc(1), of h 0 dest my] half n len i by auto
  have "dest_index (cop c) (h + 1) (cs_offset st1) = int h" using st1(3) dc(2) by (simp add: dest_index_def)
  then have bad: "connect_one c env dest my (h + 1) st1 = Inl Conn_out_of_bounds"
    using st1(2) len n(2) by (simp add: connect_one_def Let_def dc_state_def)
  have "[0..<2 * h] = [0..<h] @ h # (h + 1) # [h + 2..<2 * h]" using n(2)
    by (simp add: upt_conv_Cons upt_add_eq_append [of 0 h h, simplified] mult_2)
  then show ?thesis using st(1) st1(1) bad n(1) by (simp add: ctx_connect_def connect_all_append)
qed

section \<open>Pairs\<close>

text \<open>Two lists of connection data with the same numbers.\<close>

definition same_numbers :: "nat \<Rightarrow> pingpong_dest list \<Rightarrow> pingpong_dest list \<Rightarrow> bool" where
  "same_numbers n xs ys \<longleftrightarrow> (\<forall>k < n. qpn (xs ! k) = qpn (ys ! k) \<and> psn (xs ! k) = psn (ys ! k))"

definition in_pairs :: "conn_opts \<Rightarrow> conn_opts \<Rightarrow> pingpong_dest list \<Rightarrow> pingpong_dest list \<Rightarrow> conn_state \<Rightarrow> conn_state \<Rightarrow> nat \<Rightarrow> bool" where
  "in_pairs c c' A B st st' i \<longleftrightarrow>
     (let j = partner (cop c) i; a = calls_of (cs_calls st) i; b = calls_of (cs_calls st') j in
      j < num_of_qps (cop c) \<and> partner (cop c) j = i
      \<and> at_dest_qp_num (qc_attr (hd a)) = qpn (B ! j) \<and> at_dest_qp_num (qc_attr (hd b)) = qpn (A ! i)
      \<and> at_path_mtu (qc_attr (hd a)) = mtu_now c \<and> at_path_mtu (qc_attr (hd b)) = mtu_now c'
      \<and> (wants_rts (cop c) \<longrightarrow> at_sq_psn (qc_attr (last a)) = at_rq_psn (qc_attr (hd b)))
      \<and> (wants_rts (cop c') \<longrightarrow> at_sq_psn (qc_attr (last b)) = at_rq_psn (qc_attr (hd a))))"

lemma peers_in_pairs:
  assumes "connection_type (cop c) = RC \<or> connection_type (cop c) = UC \<or> connection_type (cop c) = XRC"
    and "cop c' = (cop c)\<lparr> machine := M \<rparr>" and "even (num_of_qps (cop c)) \<or> \<not> split_qps (cop c)"
    and "ctx_connect c env RA A = Inr st" and "ctx_connect c' env' RB B = Inr st'" and "i < num_of_qps (cop c)"
    and "same_numbers (num_of_qps (cop c)) RA B" and "same_numbers (num_of_qps (cop c)) RB A"
  shows "in_pairs c c' A B st st' i"
proof -
  let ?j = "partner (cop c) i"
  have same: "split_qps (cop c') = split_qps (cop c)" "num_of_qps (cop c') = num_of_qps (cop c)" "connection_type (cop c') = connection_type (cop c)"
    using assms(2) by (simp_all add: split_qps_def)
  then have par: "partner (cop c') k = partner (cop c) k" for k by (simp add: partner_def)
  note inv = partner_involution [OF assms(3,6)]
  have a: "connects c (RA ! ?j) (A ! i) i (calls_of (cs_calls st) i)"
    using ctx_connect_connects [OF assms(4,3) _ assms(6)] assms(1) by auto
  have b: "connects c' (RB ! i) (B ! ?j) ?j (calls_of (cs_calls st') ?j)"
    using ctx_connect_connects [OF assms(5), of ?j] assms(1,3) same inv by (auto simp: par)
  show ?thesis using connects_numbers [OF a assms(1)] connects_numbers [OF b] assms(1,6-8) same inv by (simp add: in_pairs_def same_numbers_def Let_def)
qed

section \<open>Properties\<close>

text \<open>
  C22. The calls for every queue pair of an RC, UC, UD or raw Ethernet test follow the documented state table: from the reset state, the
  call of \<open>ctx_modify_qp_to_init\<close> and the calls of a successful \<open>ctx_connect\<close> name each state in turn, with every required
  attribute and no other but those that the code adds at that one transition (\<open>on_top\<close>), and end in the state ready to send for a side that sends and ready to receive otherwise.
\<close>

theorem modify_calls_follow_table:
  assumes "plain_transport (connection_type (cop c))" and "\<not> use_xrc (cop c)" and "ctx_modify_qp_to_init c k i = Inr (a, m)"
    and "ctx_connect c env dest my = Inr st" and "i < num_of_qps (cop c)"
  shows "qp_run (connection_type (cop c)) QPS_RESET (\<lparr> qc_qp = i, qc_attr = a, qc_mask = m \<rparr> # calls_of (cs_calls st) i)
    = Some (if wants_rts (cop c) then QPS_RTS else QPS_RTR)"
proof -
  have nodc: "connection_type (cop c) \<noteq> DC" using assms(1) by (auto simp: plain_transport_def)
  have "\<not> split_qps (cop c)" using nodc assms(2) by (simp add: split_qps_def)
  from ctx_connect_connects [OF assms(4) _ nodc assms(5)] this obtain a1 b m1 cur cur' rt where
    rtr: "ctx_modify_qp_to_rtr c a1 (dest ! partner (cop c) i) (my ! i) i cur = Inr (b, m1, cur')"
    and cl: "calls_of (cs_calls st) i = qp_calls c rt (dest ! partner (cop c) i) (my ! i) i b m1" by (auto simp: connects_def)
  show ?thesis using init_step [OF assms(3,1)] rtr_step [OF rtr assms(1)] rts_step [OF assms(1)] by (simp add: cl qp_calls_def)
qed

text \<open>
  Two peers that have exchanged their connection data connect their queue pairs in pairs: when both calls of \<open>ctx_connect\<close> succeed, the
  queue pair \<open>i\<close> of one side is told the number and the first packet sequence number of its partner \<open>j\<close> on the other side, \<open>j\<close> is told
  those of \<open>i\<close>, both use the agreed MTU, and a side that sends starts at the sequence number that its partner expects.  With separate sending and receiving queue pairs
  (XRC in both directions) the first half of one side is paired with the second half of the other.
\<close>

theorem peers_connect_in_pairs:
  assumes "connection_type (cop c) = RC \<or> connection_type (cop c) = UC \<or> connection_type (cop c) = XRC"
    and "cop c' = (cop c)\<lparr> machine := M \<rparr>" and "even (num_of_qps (cop c)) \<or> \<not> split_qps (cop c)"
    and "mtu_now c' = mtu_now c"
    and "ctx_connect c env remote local = Inr st" and "ctx_connect c' env' local remote = Inr st'" and "i < num_of_qps (cop c)"
  shows "let j = partner (cop c) i; A = calls_of (cs_calls st) i; B = calls_of (cs_calls st') j in
    j < num_of_qps (cop c) \<and> partner (cop c) j = i
    \<and> at_dest_qp_num (qc_attr (hd A)) = qpn (remote ! j) \<and> at_dest_qp_num (qc_attr (hd B)) = qpn (local ! i)
    \<and> at_path_mtu (qc_attr (hd A)) = at_path_mtu (qc_attr (hd B))
    \<and> (wants_rts (cop c) \<longrightarrow> at_sq_psn (qc_attr (last A)) = at_rq_psn (qc_attr (hd B)))
    \<and> (wants_rts (cop c') \<longrightarrow> at_sq_psn (qc_attr (last B)) = at_rq_psn (qc_attr (hd A)))"
proof -
  have "same_numbers (num_of_qps (cop c)) remote remote" "same_numbers (num_of_qps (cop c)) local local" by (simp_all add: same_numbers_def)
  from peers_in_pairs [OF assms(1-3,5-7) this] assms(4) show ?thesis by (simp add: in_pairs_def Let_def)
qed

text \<open>
  A DC test in both directions (or of latency) with at least two queue pairs per direction reads the peer's data outside the array: the
  receiving queue pairs leave the turn of the loop before the offset to the partner is set back, so the second of them is
  paired with an entry behind the last one, even when every call of the library succeeds.
\<close>

theorem dc_bidirectional_reads_out_of_bounds:
  assumes "connection_type (cop c) = DC" and "duplex (cop c) \<or> tst (cop c) = LAT" and "num_of_qps (cop c) = 2 * h" and "2 \<le> h"
    and "length dest = num_of_qps (cop c)" and "length my = num_of_qps (cop c)" and "all_works c env"
  shows "ctx_connect c env dest my = Inl Conn_out_of_bounds"
  using dc_second_half [OF assms(7,1) _ assms(3,4)] assms by (simp add: split_qps_def)

section \<open>Concrete tests\<close>

definition demo_conn :: "perftest_parameters \<Rightarrow> conn_opts" where
  "demo_conn p = \<lparr> cop = p, ib_port = 1, ib_port2 = 2, dual_port = False, pkey_ix = 0, user_dlid = 0, user_sl = 0, gid_ix = 3, gid_ix2 = - 1, tclass = 0,
     flow_labels = [], mtu_now = 5, qp_timeout_arg = 14, raw_qos_on = False, ooo_on = False, have_ooo = False, have_pacing = False, validate_data = False,
     hw_rate_index = 0, rate_type_given = False, link_is_ib = True, rate_arg = 0 \<rparr>"

definition works_env :: conn_env where
  "works_env = \<lparr> modify_ok = \<lambda>_. True, create_ah_ok = \<lambda>_. True, queried_rate = \<lambda>_. None, pacing_supported = True \<rparr>"

definition conn_dest :: "nat \<Rightarrow> pingpong_dest" where
  "conn_dest k = \<lparr> lid = 7, out_reads = 16, qpn = of_nat k, psn = of_nat (1000 + k), rkey = 0, vaddr = 0, tail_markers_vaddr = 0, gid_raw = replicate 16 0, srqn = 0, gid_index = 3 \<rparr>"

lemmas conn_run = ctx_connect_def connect_one_def connect_finish_def connect_rts_def connect_ah_def check_hw_rate_def call_modify_def
  ctx_modify_qp_to_rtr_def ctx_modify_qp_to_rts_def rtr_port_def rtr_address_def dest_index_def conn_start_def split_qps_def half_qps_def
  wants_rts_def wants_ah_def demo_conn_def works_env_def zero_attr_def basic_params_def upt_rec

lemma demo_connects: "\<exists>st. ctx_connect (demo_conn basic_params) works_env [conn_dest 20] [conn_dest 10] = Inr st"
    "\<exists>st. ctx_connect (demo_conn (basic_params\<lparr> machine := SERVER \<rparr>)) works_env [conn_dest 10] [conn_dest 20] = Inr st"
  by (simp_all add: conn_run Let_def)

theorem modify_calls_follow_table_witness:
  "\<exists>st a m. ctx_connect (demo_conn basic_params) works_env [conn_dest 20] [conn_dest 10] = Inr st
    \<and> qp_run RC QPS_RESET (\<lparr> qc_qp = 0, qc_attr = a, qc_mask = m \<rparr> # calls_of (cs_calls st) 0) = Some QPS_RTS"
proof -
  let ?c = "demo_conn basic_params"
  from demo_connects(1) obtain st where st: "ctx_connect ?c works_env [conn_dest 20] [conn_dest 10] = Inr st" by blast
  obtain a m where am: "ctx_modify_qp_to_init ?c 0 0 = Inr (a, m)"
    by (auto simp: ctx_modify_qp_to_init_def init_port_def demo_conn_def basic_params_def Let_def)
  have "plain_transport (connection_type (cop ?c))" "\<not> use_xrc (cop ?c)" "0 < num_of_qps (cop ?c)"
    by (simp_all add: demo_conn_def basic_params_def plain_transport_def)
  from modify_calls_follow_table [OF this(1,2) am st this(3)] st show ?thesis by (auto simp: demo_conn_def basic_params_def wants_rts_def)
qed

theorem peers_connect_in_pairs_witness:
  "\<exists>st st'. ctx_connect (demo_conn basic_params) works_env [conn_dest 20] [conn_dest 10] = Inr st
    \<and> ctx_connect (demo_conn (basic_params\<lparr> machine := SERVER \<rparr>)) works_env [conn_dest 10] [conn_dest 20] = Inr st'
    \<and> at_sq_psn (qc_attr (last (calls_of (cs_calls st) 0))) = at_rq_psn (qc_attr (hd (calls_of (cs_calls st') 0)))"
proof -
  let ?c = "demo_conn basic_params" and ?c' = "demo_conn (basic_params\<lparr> machine := SERVER \<rparr>)"
  from demo_connects obtain st st' where st: "ctx_connect ?c works_env [conn_dest 20] [conn_dest 10] = Inr st"
    "ctx_connect ?c' works_env [conn_dest 10] [conn_dest 20] = Inr st'" by blast
  have h: "connection_type (cop ?c) = RC \<or> connection_type (cop ?c) = UC \<or> connection_type (cop ?c) = XRC" "cop ?c' = (cop ?c)\<lparr> machine := SERVER \<rparr>"
    "even (num_of_qps (cop ?c)) \<or> \<not> split_qps (cop ?c)" "mtu_now ?c' = mtu_now ?c" "0 < num_of_qps (cop ?c)"
    by (simp_all add: demo_conn_def basic_params_def split_qps_def)
  have "partner (cop ?c) 0 = 0" "wants_rts (cop ?c)" by (simp_all add: partner_def demo_conn_def basic_params_def split_qps_def wants_rts_def)
  with peers_connect_in_pairs [OF h(1-4) st h(5)] st show ?thesis by (auto simp: Let_def)
qed

theorem dc_bidirectional_reads_out_of_bounds_witness:
  "ctx_connect (demo_conn (basic_params\<lparr> connection_type := DC, duplex := True, num_of_qps := 4 \<rparr>)) works_env (map conn_dest [20, 21, 22, 23]) (map conn_dest [10, 11, 12, 13])
    = Inl Conn_out_of_bounds"
  by (rule dc_bidirectional_reads_out_of_bounds [where h = 2]) (simp_all add: demo_conn_def basic_params_def all_works_def works_env_def)

end
