(* ===== verification/Connection_Setup.thy ===== *)
theory Connection_Setup
  imports Port_Setup Qp_Connect
begin

text \<open>
  The components that set up a connected test, put together: the handshake over the socket (\<open>Key_Exchange\<close>), the agreement on the MTU
  (\<open>Port_Setup\<close>) and the state changes of the queue pairs (\<open>Qp_Connect\<close>).
\<close>

section \<open>From the handshake to connected queue pairs\<close>

text \<open>A program that is given the same answers returns the same result.\<close>

lemma performs_det: "performs p es x \<Longrightarrow> performs p es y \<Longrightarrow> x = y"
proof (induction p arbitrary: es)
  case (Return z)
  then show ?case by simp
qed (auto simp: performs_ops)

text \<open>A dialogue not only ends well when it ends: it has a run that ends.\<close>

lemma dialogue_reaches:
  assumes "dialogue p q \<sigma> x y"
  shows "\<exists>k. (net_step ^^ k) (p, q, [], []) (Return x, Return y, [], [])"
proof (rule ccontr)
  assume never: "\<not> ?thesis"
  have "\<exists>s. (net_step ^^ k) (p, q, [], []) s" for k
  proof (induction k)
    case 0
    then show ?case by simp
  next
    case (Suc k)
    then obtain s where s: "(net_step ^^ k) (p, q, [], []) s" by blast
    with dialogue.completes [OF assms s] never have "\<exists>s'. net_step s s'" by blast
    with s show ?case by (meson relpowp_Suc_I)
  qed
  then obtain s where "(net_step ^^ Suc (2 * length \<sigma>)) (p, q, [], []) s" by blast
  from dialogue.completes [OF assms this] show False by simp
qed

text \<open>The data that a side has after its handshakes with the peer: one exchange per queue pair, each message carried whole.\<close>

definition shaken_hands :: "perftest_comm \<Rightarrow> bool \<Rightarrow> u8 list \<Rightarrow> pingpong_dest list \<Rightarrow> pingpong_dest list \<Rightarrow> pingpong_dest list \<Rightarrow> bool" where
  "shaken_hands cm dv pad mine theirs got \<longleftrightarrow> length got = length mine \<and> length theirs = length mine \<and>
     (\<forall>i < length mine. \<exists>rem. performs (ctx_hand_shake cm dv pad (mine ! i) rem)
        (if servername cm
         then [Ev_write (key_msg dv (mine ! i)) (Some (length (key_msg dv (mine ! i)))), Ev_read (length (key_msg dv (theirs ! i))) (Some (key_msg dv (theirs ! i)))]
         else [Ev_read (length (key_msg dv (theirs ! i))) (Some (key_msg dv (theirs ! i))), Ev_write (key_msg dv (mine ! i)) (Some (length (key_msg dv (mine ! i))))])
        (Inr (got ! i)))"

definition keys_agree :: "pingpong_dest list \<Rightarrow> pingpong_dest list \<Rightarrow> bool" where
  "keys_agree A B \<longleftrightarrow> list_all keys_fit A \<and> list_all keys_fit B \<and> list_all2 (\<lambda>a b. gid_index a = -1 \<longleftrightarrow> gid_index b = -1) A B"

lemma shaken_hands_numbers:
  assumes "shaken_hands cm dv pad mine theirs got" "\<not> is_rdma cm" "keys_agree mine theirs"
  shows "same_numbers (length mine) got theirs"
  unfolding same_numbers_def
proof (intro allI impI)
  fix i assume i: "i < length mine"
  from assms(1) i obtain rem where run: "performs (ctx_hand_shake cm dv pad (mine ! i) rem)
        (if servername cm
         then [Ev_write (key_msg dv (mine ! i)) (Some (length (key_msg dv (mine ! i)))), Ev_read (length (key_msg dv (theirs ! i))) (Some (key_msg dv (theirs ! i)))]
         else [Ev_read (length (key_msg dv (theirs ! i))) (Some (key_msg dv (theirs ! i))), Ev_write (key_msg dv (mine ! i)) (Some (length (key_msg dv (mine ! i))))])
        (Inr (got ! i))" by (auto simp: shaken_hands_def)
  have fit: "keys_fit (mine ! i)" "keys_fit (theirs ! i)" "gid_index (theirs ! i) = -1 \<longleftrightarrow> gid_index (mine ! i) = -1"
    using assms(1,3) i by (auto simp: keys_agree_def shaken_hands_def list_all_length list_all2_conv_all_nth)
  have "Inr (got ! i) = (Inr (received_keys dv (theirs ! i) (rem\<lparr> gid_index := gid_index (mine ! i) \<rparr>)) :: key_error + pingpong_dest)"
    by (rule performs_det [OF run hand_shake_socket [OF fit assms(2)]])
  then show "qpn (got ! i) = qpn (theirs ! i) \<and> psn (got ! i) = psn (theirs ! i)" by (simp add: received_keys_def)
qed

text \<open>
  C5. Setting up a connected test works from end to end: when client and server (RC, UC or XRC) exchange their connection data over the
  socket, agree on the MTU there and both connect their queue pairs successfully, then every queue pair of the client is paired
  with one of the server, each of the two has been told the true number of the other, both use the smaller MTU of the two sides, and each side that
  sends starts at the packet sequence number that its partner expects.
\<close>

theorem set_up_connects_peers:
  assumes "connection_type (cop c) = RC \<or> connection_type (cop c) = UC \<or> connection_type (cop c) = XRC"
    and "cop c' = (cop c)\<lparr> machine := SERVER \<rparr>" and "even (num_of_qps (cop c)) \<or> \<not> split_qps (cop c)"
    and "length A = num_of_qps (cop c)" and "length B = num_of_qps (cop c)" and "keys_agree A B"
    and "shaken_hands client_comm dv pad A B RA" and "shaken_hands server_comm dv pad B A RB"
    and "mtu_peer P u a" and "mtu_peer Q v b"
    and "(net_step ^^ k) (check_mtu P client_comm junk u, check_mtu Q server_comm junk' v, [], []) (Return (Inr u'), Return (Inr v'), [], [])"
    and "mtu_now c = nat (m_curr_mtu u')" and "mtu_now c' = nat (m_curr_mtu v')"
    and "ctx_connect c env RA A = Inr st" and "ctx_connect c' env' RB B = Inr st'" and "i < num_of_qps (cop c)"
  shows "let j = partner (cop c) i; x = calls_of (cs_calls st) i; y = calls_of (cs_calls st') j in
    j < num_of_qps (cop c) \<and> partner (cop c) j = i
    \<and> at_dest_qp_num (qc_attr (hd x)) = qpn (B ! j) \<and> at_dest_qp_num (qc_attr (hd y)) = qpn (A ! i)
    \<and> at_path_mtu (qc_attr (hd x)) = nat (min a b) \<and> at_path_mtu (qc_attr (hd y)) = nat (min a b)
    \<and> (wants_rts (cop c) \<longrightarrow> at_sq_psn (qc_attr (last x)) = at_rq_psn (qc_attr (hd y)))
    \<and> (wants_rts (cop c') \<longrightarrow> at_sq_psn (qc_attr (last y)) = at_rq_psn (qc_attr (hd x)))"
proof -
  have sock: "servername client_comm" "\<not> servername server_comm" "\<not> is_rdma client_comm" "\<not> is_rdma server_comm" by (simp_all add: is_rdma_def)
  have ba: "keys_agree B A" using assms(6) by (auto simp: keys_agree_def list_all2_conv_all_nth)
  have nums: "same_numbers (num_of_qps (cop c)) RA B" "same_numbers (num_of_qps (cop c)) RB A"
    using shaken_hands_numbers [OF assms(7) sock(3) assms(6)] shaken_hands_numbers [OF assms(8) sock(4) ba] assms(4,5) by simp_all
  from dialogue.completes [OF check_mtu_dialogue [OF assms(9,10) sock] assms(11)]
  have "Inr u' = check_size P (u\<lparr> m_curr_mtu := min a b \<rparr>)" "Inr v' = check_size Q (v\<lparr> m_curr_mtu := min b a \<rparr>)"
    by (auto elim: net_step.cases)
  then have "m_curr_mtu u' = min a b" "m_curr_mtu v' = min a b" using check_size_mtu [of P _ u'] check_size_mtu [of Q _ v'] by (simp_all add: min.commute)
  then show ?thesis using peers_in_pairs [OF assms(1-3,14-16) nums] assms(12,13) by (simp add: in_pairs_def Let_def)
qed

text \<open>A client and a server with one RC queue pair each.\<close>

definition rc_mtu :: mtu_user where
  "rc_mtu = demo_mtu\<lparr> m_connection_type := RC \<rparr>"

definition far_dest :: pingpong_dest where
  "far_dest = demo_dest\<lparr> qpn := 4321, psn := 99 \<rparr>"

definition rc_conn :: "MachineType \<Rightarrow> conn_opts" where
  "rc_conn m = (demo_conn (basic_params\<lparr> machine := m \<rparr>))\<lparr> mtu_now := 3 \<rparr>"

lemma rc_mtu_peer: "mtu_peer demo_port rc_mtu 3"
  by (simp add: mtu_peer_def rc_mtu_def demo_mtu_def demo_port_def set_mtu_def version_le_def valid_mtu_size_def version_num_def c_isdigit_def digits_value_def
      digit_val_def Let_def)

lemma rc_connects: "\<exists>st. ctx_connect (rc_conn CLIENT) works_env [far_dest] [demo_dest] = Inr st"
    "\<exists>st. ctx_connect (rc_conn SERVER) works_env [demo_dest] [far_dest] = Inr st"
  by (simp_all add: conn_run rc_conn_def Let_def)

lemma demo_shaken:
  "shaken_hands client_comm False [] [demo_dest] [far_dest] [far_dest]" "shaken_hands server_comm False [] [far_dest] [demo_dest] [demo_dest]"
proof -
  have fit: "keys_fit demo_dest" "keys_fit far_dest" by (simp_all add: keys_fit_def demo_dest_def far_dest_def)
  have mode: "gid_index far_dest = -1 \<longleftrightarrow> gid_index demo_dest = -1" "gid_index demo_dest = -1 \<longleftrightarrow> gid_index far_dest = -1" by (simp_all add: demo_dest_def far_dest_def)
  have got: "received_keys False far_dest (far_dest\<lparr> gid_index := gid_index demo_dest \<rparr>) = far_dest"
    "received_keys False demo_dest (demo_dest\<lparr> gid_index := gid_index far_dest \<rparr>) = demo_dest"
    by (simp_all add: received_keys_def demo_dest_def far_dest_def)
  have no: "\<not> is_rdma client_comm" "\<not> is_rdma server_comm" by (simp_all add: is_rdma_def)
  show "shaken_hands client_comm False [] [demo_dest] [far_dest] [far_dest]"
    using hand_shake_socket [OF fit mode(1) no(1), of False "[]" far_dest] unfolding got by (auto simp: shaken_hands_def)
  show "shaken_hands server_comm False [] [far_dest] [demo_dest] [demo_dest]"
    using hand_shake_socket [OF fit(2,1) mode(2) no(2), of False "[]" demo_dest] unfolding got by (auto simp: shaken_hands_def)
qed

theorem set_up_connects_peers_witness:
  "\<exists>st st'. ctx_connect (rc_conn CLIENT) works_env [far_dest] [demo_dest] = Inr st \<and> ctx_connect (rc_conn SERVER) works_env [demo_dest] [far_dest] = Inr st'
    \<and> at_dest_qp_num (qc_attr (hd (calls_of (cs_calls st) 0))) = 4321 \<and> at_dest_qp_num (qc_attr (hd (calls_of (cs_calls st') 0))) = 1234
    \<and> at_path_mtu (qc_attr (hd (calls_of (cs_calls st) 0))) = 3"
proof -
  let ?c = "rc_conn CLIENT" and ?c' = "rc_conn SERVER"
  from rc_connects obtain st st' where st: "ctx_connect ?c works_env [far_dest] [demo_dest] = Inr st" "ctx_connect ?c' works_env [demo_dest] [far_dest] = Inr st'" by blast
  have size: "check_size demo_port (rc_mtu\<lparr> m_curr_mtu := 3 \<rparr>) = Inr (rc_mtu\<lparr> m_curr_mtu := 3 \<rparr>)" by (simp add: check_size_def rc_mtu_def demo_mtu_def)
  have sock: "servername client_comm" "\<not> servername server_comm" "\<not> is_rdma client_comm" "\<not> is_rdma server_comm" by (simp_all add: is_rdma_def)
  obtain k where k: "(net_step ^^ k) (check_mtu demo_port client_comm [0, 0] rc_mtu, check_mtu demo_port server_comm [0, 0] rc_mtu, [], [])
      (Return (Inr (rc_mtu\<lparr> m_curr_mtu := 3 \<rparr>)), Return (Inr (rc_mtu\<lparr> m_curr_mtu := 3 \<rparr>)), [], [])"
    using dialogue_reaches [OF check_mtu_dialogue [OF rc_mtu_peer rc_mtu_peer sock], of "[0, 0]" "[0, 0]"] by (auto simp: size)
  have h: "connection_type (cop ?c) = RC \<or> connection_type (cop ?c) = UC \<or> connection_type (cop ?c) = XRC" "cop ?c' = (cop ?c)\<lparr> machine := SERVER \<rparr>"
    "even (num_of_qps (cop ?c)) \<or> \<not> split_qps (cop ?c)" "length [demo_dest] = num_of_qps (cop ?c)" "length [far_dest] = num_of_qps (cop ?c)"
    by (simp_all add: rc_conn_def demo_conn_def basic_params_def split_qps_def)
  have agree: "keys_agree [demo_dest] [far_dest]" by (simp add: keys_agree_def keys_fit_def demo_dest_def far_dest_def)
  have mtu: "mtu_now ?c = nat (m_curr_mtu (rc_mtu\<lparr> m_curr_mtu := 3 \<rparr>))" "mtu_now ?c' = nat (m_curr_mtu (rc_mtu\<lparr> m_curr_mtu := 3 \<rparr>))"
    by (simp_all add: rc_conn_def)
  have zero: "0 < num_of_qps (cop ?c)" "partner (cop ?c) 0 = 0" by (simp_all add: rc_conn_def demo_conn_def basic_params_def partner_def split_qps_def)
  from set_up_connects_peers [OF h agree demo_shaken rc_mtu_peer rc_mtu_peer k mtu st zero(1)] zero(2) st show ?thesis
    by (auto simp: Let_def demo_dest_def far_dest_def)
qed

end
