(* ===== verification/Lat_Write.thy ===== *)
theory Lat_Write
  imports Params
begin

text \<open>
  Model of \<open>run_iter_lat_write\<close> in \<^verbatim>\<open>src/src/perftest_resources.c\<close>, the ping-pong of the write latency
  test, and of the two processes that play it.

  One turn of the loop is cut where the process looks outside: at the loop head, where it spins on
  the last byte of the receive buffer, where it posts, and where it spins on the send completion
  queue.  Each piece is a function of what the process observes there; a spin that finds nothing
  leaves the state as it is.  The waiting time between messages (\<open>latency_gap\<close>) and the setting of the
  request's flags have no influence on the counts and are left out.
\<close>

section \<open>One process\<close>

datatype lat_pc = At_loop | At_wait | At_send | At_comp | At_end | At_error

record lat_proc =
  pc :: lat_pc
  lscnt :: nat
  lccnt :: nat
  lrcnt :: nat
  liters :: nat
  stamped :: nat

text \<open>Result of \<^verbatim>\<open>ibv_poll_cq\<close> for one entry: nothing, a good or a bad completion, or a failure.\<close>

datatype poll_answer = Poll_none | Poll_good | Poll_bad | Poll_failed

record lat_obs =
  ob_state :: DurationStates
  ob_byte :: u8
  ob_post_ok :: bool
  ob_poll :: poll_answer

definition lat_running :: "perftest_parameters \<Rightarrow> lat_obs \<Rightarrow> lat_proc \<Rightarrow> bool" where
  "lat_running p ob st \<longleftrightarrow> lscnt st < liters st \<or> lccnt st < liters st \<or> lrcnt st < liters st \<or>
     test_type p = DURATION \<and> ob_state ob \<noteq> END_STATE"

definition lat_receives :: "perftest_parameters \<Rightarrow> lat_proc \<Rightarrow> bool" where
  "lat_receives p st \<longleftrightarrow> (lrcnt st < liters st \<or> test_type p = DURATION) \<and> \<not> (lscnt st < 1 \<and> machine p = SERVER)"

definition lat_loop_head :: "perftest_parameters \<Rightarrow> lat_obs \<Rightarrow> lat_proc \<Rightarrow> lat_proc" where
  "lat_loop_head p ob st =
     (if \<not> lat_running p ob st then st\<lparr> pc := At_end \<rparr>
      else if lat_receives p st then st\<lparr> pc := At_wait, lrcnt := lrcnt st + 1 \<rparr>
      else st\<lparr> pc := At_send \<rparr>)"

definition lat_wait :: "lat_obs \<Rightarrow> lat_proc \<Rightarrow> lat_proc" where
  "lat_wait ob st = (if ob_byte ob \<noteq> of_nat (lrcnt st) \<and> ob_state ob \<noteq> END_STATE then st else st\<lparr> pc := At_send \<rparr>)"

text \<open>The byte that is written to the peer, if a message is posted.\<close>

definition lat_send :: "perftest_parameters \<Rightarrow> lat_obs \<Rightarrow> lat_proc \<Rightarrow> lat_proc \<times> u8 option" where
  "lat_send p ob st =
     (if lscnt st < liters st \<or> test_type p = DURATION then
        (let st1 = (if test_type p = ITERATIONS then st\<lparr> stamped := stamped st + 1 \<rparr> else st)\<lparr> lscnt := lscnt st + 1 \<rparr>
         in if \<not> ob_post_ok ob then (st1\<lparr> pc := At_error \<rparr>, None)
            else (st1\<lparr> pc := (if test_type p = DURATION \<and> ob_state ob = END_STATE then At_end else At_comp) \<rparr>, Some (of_nat (lscnt st1))))
      else (st\<lparr> pc := (if test_type p = DURATION \<and> ob_state ob = END_STATE then At_end else At_comp) \<rparr>, None))"

definition lat_complete :: "perftest_parameters \<Rightarrow> lat_obs \<Rightarrow> lat_proc \<Rightarrow> lat_proc" where
  "lat_complete p ob st =
     (if lccnt st < liters st \<or> test_type p = DURATION then
        (case ob_poll ob of
           Poll_none \<Rightarrow> if test_type p = DURATION \<and> ob_state ob = END_STATE then st\<lparr> pc := At_loop \<rparr> else st
         | Poll_good \<Rightarrow> st\<lparr> pc := At_loop, lccnt := lccnt st + 1,
                            liters := (if test_type p = DURATION \<and> ob_state ob = SAMPLE_STATE then liters st + 1 else liters st) \<rparr>
         | Poll_bad \<Rightarrow> st\<lparr> pc := At_error \<rparr>
         | Poll_failed \<Rightarrow> st\<lparr> pc := At_error \<rparr>)
      else st\<lparr> pc := At_loop \<rparr>)"

definition run_iter_lat_write :: "perftest_parameters \<Rightarrow> lat_obs \<Rightarrow> lat_proc \<Rightarrow> lat_proc \<times> u8 option" where
  "run_iter_lat_write p ob st =
     (case pc st of
        At_loop \<Rightarrow> (lat_loop_head p ob st, None)
      | At_wait \<Rightarrow> (lat_wait ob st, None)
      | At_send \<Rightarrow> lat_send p ob st
      | At_comp \<Rightarrow> (lat_complete p ob st, None)
      | At_end \<Rightarrow> (st, None)
      | At_error \<Rightarrow> (st, None))"

definition lat_start :: "perftest_parameters \<Rightarrow> lat_proc" where
  "lat_start p = \<lparr> pc = At_loop, lscnt = 0, lccnt = 0, lrcnt = 0, liters = (if test_type p = DURATION then 0 else iters p), stamped = 0 \<rparr>"

section \<open>Two processes and their wires\<close>

text \<open>
  Each side has the last byte of its receive buffer, the messages on their way to the peer, and the
  completions that wait in its send queue.  The device delivers the messages in order and reports a
  write complete when it is delivered.  \<open>A\<close> is the server, which sends first.
\<close>

record lat_net =
  procA :: lat_proc
  procB :: lat_proc
  byteA :: u8
  byteB :: u8
  wireAB :: "u8 list"
  wireBA :: "u8 list"
  cqA :: nat
  cqB :: nat

definition obs :: "u8 \<Rightarrow> nat \<Rightarrow> lat_obs" where
  "obs b n = \<lparr> ob_state = START_STATE, ob_byte = b, ob_post_ok = True, ob_poll = (if n = 0 then Poll_none else Poll_good) \<rparr>"

definition step_of :: "perftest_parameters \<Rightarrow> u8 \<Rightarrow> nat \<Rightarrow> lat_proc \<Rightarrow> lat_proc \<times> u8 list \<times> nat" where
  "step_of p b n st =
     (case run_iter_lat_write p (obs b n) st of
        (st', m) \<Rightarrow> (st', case m of None \<Rightarrow> [] | Some x \<Rightarrow> [x], if lccnt st' = lccnt st then n else n - 1))"

inductive lat_step :: "perftest_parameters \<Rightarrow> lat_net \<Rightarrow> lat_net \<Rightarrow> bool" for p where
  move_A: "step_of (p\<lparr> machine := SERVER \<rparr>) (byteA s) (cqA s) (procA s) = (st, ms, n) \<Longrightarrow> st \<noteq> procA s \<Longrightarrow>
     lat_step p s (s\<lparr> procA := st, wireAB := wireAB s @ ms, cqA := n \<rparr>)"
| move_B: "step_of (p\<lparr> machine := CLIENT \<rparr>) (byteB s) (cqB s) (procB s) = (st, ms, n) \<Longrightarrow> st \<noteq> procB s \<Longrightarrow>
     lat_step p s (s\<lparr> procB := st, wireBA := wireBA s @ ms, cqB := n \<rparr>)"
| deliver_AB: "wireAB s = b # w \<Longrightarrow> lat_step p s (s\<lparr> byteB := b, wireAB := w, cqA := cqA s + 1 \<rparr>)"
| deliver_BA: "wireBA s = b # w \<Longrightarrow> lat_step p s (s\<lparr> byteA := b, wireBA := w, cqB := cqB s + 1 \<rparr>)"

inductive_cases lat_stepE: "lat_step p s t"

definition lat_initial :: "perftest_parameters \<Rightarrow> lat_net" where
  "lat_initial p = \<lparr> procA = lat_start p, procB = lat_start p, byteA = 0, byteB = 0, wireAB = [], wireBA = [], cqA = 0, cqB = 0 \<rparr>"

inductive lat_reachable :: "perftest_parameters \<Rightarrow> lat_net \<Rightarrow> bool" for p where
  initial: "lat_reachable p (lat_initial p)"
| later: "lat_reachable p s \<Longrightarrow> lat_step p s t \<Longrightarrow> lat_reachable p t"

section \<open>Invariant\<close>

text \<open>Messages a process has really received: at the wait the count is one ahead.\<close>

definition received :: "lat_proc \<Rightarrow> nat" where
  "received st = (if pc st = At_wait then lrcnt st - 1 else lrcnt st)"

text \<open>The counts of the side that sends first and of the other one, at each point of the loop.\<close>

definition shape_first :: "nat \<Rightarrow> lat_proc \<Rightarrow> bool" where
  "shape_first N st \<longleftrightarrow> liters st = N \<and> stamped st = lscnt st \<and>
     (case pc st of
        At_loop \<Rightarrow> lccnt st = lscnt st \<and> (lscnt st = 0 \<and> lrcnt st = 0 \<or> lscnt st = lrcnt st + 1 \<and> lscnt st \<le> N \<or> lscnt st = N \<and> lrcnt st = N)
      | At_wait \<Rightarrow> lscnt st = lrcnt st \<and> lccnt st = lrcnt st \<and> 1 \<le> lrcnt st \<and> lrcnt st \<le> N
      | At_send \<Rightarrow> lscnt st = lrcnt st \<and> lccnt st = lrcnt st \<and> lrcnt st \<le> N
      | At_comp \<Rightarrow> lscnt st = lrcnt st + 1 \<and> lccnt st = lrcnt st \<and> lscnt st \<le> N \<or> lscnt st = N \<and> lrcnt st = N \<and> lccnt st = N
      | At_end \<Rightarrow> lscnt st = N \<and> lrcnt st = N \<and> lccnt st = N
      | At_error \<Rightarrow> False)"

definition shape_second :: "nat \<Rightarrow> lat_proc \<Rightarrow> bool" where
  "shape_second N st \<longleftrightarrow> liters st = N \<and> stamped st = lscnt st \<and>
     (case pc st of
        At_loop \<Rightarrow> lrcnt st = lscnt st \<and> lccnt st = lscnt st \<and> lscnt st \<le> N
      | At_wait \<Rightarrow> lrcnt st = lscnt st + 1 \<and> lccnt st = lscnt st \<and> lrcnt st \<le> N
      | At_send \<Rightarrow> lrcnt st = lscnt st + 1 \<and> lccnt st = lscnt st \<and> lrcnt st \<le> N
      | At_comp \<Rightarrow> lrcnt st = lscnt st \<and> lscnt st = lccnt st + 1 \<and> lscnt st \<le> N
      | At_end \<Rightarrow> lscnt st = N \<and> lrcnt st = N \<and> lccnt st = N
      | At_error \<Rightarrow> False)"

text \<open>One direction: \<open>d\<close> messages are delivered, the rest is on the wire, in order.\<close>

definition link :: "lat_proc \<Rightarrow> u8 list \<Rightarrow> u8 \<Rightarrow> nat \<Rightarrow> nat \<Rightarrow> bool" where
  "link st w b n d \<longleftrightarrow> d + length w = lscnt st \<and> w = map of_nat [Suc d..<Suc (lscnt st)] \<and> b = of_nat d \<and> n + lccnt st = d"

definition lat_inv :: "nat \<Rightarrow> lat_net \<Rightarrow> bool" where
  "lat_inv N s \<longleftrightarrow> shape_first N (procA s) \<and> shape_second N (procB s) \<and>
     (\<exists>d e. link (procA s) (wireAB s) (byteB s) (cqA s) d \<and> link (procB s) (wireBA s) (byteA s) (cqB s) e \<and>
        received (procB s) \<le> d \<and> received (procA s) \<le> e)"

lemma lat_invI:
  assumes "shape_first N (procA s)" "shape_second N (procB s)" "link (procA s) (wireAB s) (byteB s) (cqA s) d"
    "link (procB s) (wireBA s) (byteA s) (cqB s) e" "received (procB s) \<le> d" "received (procA s) \<le> e"
  shows "lat_inv N s"
  using assms unfolding lat_inv_def by blast

lemma shape_first_bound: "shape_first N st \<Longrightarrow> lscnt st \<le> received st + 1 \<and> received st \<le> lscnt st \<and> lscnt st \<le> N"
  by (cases "pc st") (auto simp: shape_first_def received_def)

lemma shape_second_bound: "shape_second N st \<Longrightarrow> lscnt st \<le> received st \<and> lscnt st \<le> N"
  by (cases "pc st") (auto simp: shape_second_def received_def)

lemma byte_exact:
  assumes "(of_nat d :: u8) = of_nat r" "d \<le> r" "r \<le> d + 1"
  shows "d = r"
proof (rule ccontr)
  assume "d \<noteq> r"
  with assms(2,3) have "r = Suc d" by simp
  with assms(1) show False by simp
qed

lemmas piece_defs = run_iter_lat_write_def lat_loop_head_def lat_running_def lat_receives_def lat_wait_def lat_send_def lat_complete_def obs_def

text \<open>A counted test, at each point of the loop.\<close>

lemma step_of_loop:
  "pc st = At_loop \<Longrightarrow> test_type p = ITERATIONS \<Longrightarrow> step_of p b n st =
     (if \<not> (lscnt st < liters st \<or> lccnt st < liters st \<or> lrcnt st < liters st) then st\<lparr> pc := At_end \<rparr>
      else if lrcnt st < liters st \<and> \<not> (lscnt st = 0 \<and> machine p = SERVER) then st\<lparr> pc := At_wait, lrcnt := lrcnt st + 1 \<rparr>
      else st\<lparr> pc := At_send \<rparr>, [], n)"
  by (simp add: step_of_def piece_defs)

lemma step_of_wait:
  "pc st = At_wait \<Longrightarrow> step_of p b n st = (if b = of_nat (lrcnt st) then st\<lparr> pc := At_send \<rparr> else st, [], n)"
  by (simp add: step_of_def piece_defs)

lemma step_of_send:
  "pc st = At_send \<Longrightarrow> test_type p = ITERATIONS \<Longrightarrow> step_of p b n st =
     (if lscnt st < liters st then (st\<lparr> stamped := stamped st + 1, lscnt := lscnt st + 1, pc := At_comp \<rparr>, [of_nat (lscnt st + 1)], n)
      else (st\<lparr> pc := At_comp \<rparr>, [], n))"
  by (simp add: step_of_def piece_defs Let_def)

lemma step_of_comp:
  "pc st = At_comp \<Longrightarrow> test_type p = ITERATIONS \<Longrightarrow> step_of p b n st =
     (if lccnt st < liters st then (if n = 0 then (st, [], n) else (st\<lparr> pc := At_loop, lccnt := lccnt st + 1 \<rparr>, [], n - 1))
      else (st\<lparr> pc := At_loop \<rparr>, [], n))"
  by (simp add: step_of_def piece_defs)

lemma step_of_end: "pc st = At_end \<or> pc st = At_error \<Longrightarrow> step_of p b n st = (st, [], n)"
  by (auto simp: step_of_def piece_defs)

text \<open>Links while the process moves on and while a message is delivered.\<close>

lemma link_same: "lscnt st' = lscnt st \<Longrightarrow> lccnt st' = lccnt st \<Longrightarrow> link st w b n d \<Longrightarrow> link st' w b n d"
  by (simp add: link_def)

lemma link_send:
  "lscnt st' = lscnt st + 1 \<Longrightarrow> lccnt st' = lccnt st \<Longrightarrow> link st w b n d \<Longrightarrow> link st' (w @ [of_nat (lscnt st + 1)]) b n d"
  by (auto simp: link_def)

lemma link_comp: "lscnt st' = lscnt st \<Longrightarrow> lccnt st' = lccnt st + 1 \<Longrightarrow> 0 < n \<Longrightarrow> link st w b n d \<Longrightarrow> link st' w b (n - 1) d"
  by (auto simp: link_def)

lemma link_deliver:
  assumes "link st (x # w) b n d"
  shows "link st w x (n + 1) (d + 1)"
proof -
  have "d < lscnt st" using assms by (auto simp: link_def)
  then have "[Suc d..<Suc (lscnt st)] = Suc d # [Suc (Suc d)..<Suc (lscnt st)]" by (simp add: upt_conv_Cons)
  with assms show ?thesis by (auto simp: link_def)
qed

text \<open>What one move of a process does to its counts and its link; \<open>hit\<close> tells that a wait found its message.\<close>

definition moves :: "(nat \<Rightarrow> lat_proc \<Rightarrow> bool) \<Rightarrow> nat \<Rightarrow> lat_proc \<Rightarrow> u8 list \<Rightarrow> u8 \<Rightarrow> nat \<Rightarrow> nat \<Rightarrow> lat_proc \<times> u8 list \<times> nat \<Rightarrow> nat \<Rightarrow> bool" where
  "moves shape N st w b n d r e \<longleftrightarrow> (case r of (st', ms, n') \<Rightarrow> shape N st' \<and> link st' (w @ ms) b n' d \<and> received st' \<le> e)"

lemma first_moves:
  assumes sh: "shape_first N st" and l: "link st w b n d" and r: "received st \<le> e" and ty: "test_type p = ITERATIONS" "machine p = SERVER"
    and hit: "pc st = At_wait \<Longrightarrow> x = of_nat (lrcnt st) \<Longrightarrow> lrcnt st \<le> e"
  shows "moves shape_first N st w b n d (step_of p x n st) e"
proof (cases "pc st")
  case At_loop
  then show ?thesis using sh l r ty by (auto simp: moves_def step_of_loop shape_first_def received_def link_def)
next
  case At_wait
  then show ?thesis using sh l r hit by (auto simp: moves_def step_of_wait shape_first_def received_def link_def)
next
  case At_send
  then show ?thesis using sh l r ty link_send [of "st\<lparr> stamped := stamped st + 1, lscnt := lscnt st + 1, pc := At_comp \<rparr>" st]
    by (auto simp: moves_def step_of_send shape_first_def received_def link_def)
next
  case At_comp
  then show ?thesis using sh l r ty by (auto simp: moves_def step_of_comp shape_first_def received_def link_def)
qed (use sh l r in \<open>auto simp: moves_def step_of_end shape_first_def\<close>)

lemma second_moves:
  assumes sh: "shape_second N st" and l: "link st w b n d" and r: "received st \<le> e" and ty: "test_type p = ITERATIONS" "machine p = CLIENT"
    and hit: "pc st = At_wait \<Longrightarrow> x = of_nat (lrcnt st) \<Longrightarrow> lrcnt st \<le> e"
  shows "moves shape_second N st w b n d (step_of p x n st) e"
proof (cases "pc st")
  case At_loop
  then show ?thesis using sh l r ty by (auto simp: moves_def step_of_loop shape_second_def received_def link_def)
next
  case At_wait
  then show ?thesis using sh l r hit by (auto simp: moves_def step_of_wait shape_second_def received_def link_def)
next
  case At_send
  then show ?thesis using sh l r ty by (auto simp: moves_def step_of_send shape_second_def received_def link_def)
next
  case At_comp
  then show ?thesis using sh l r ty by (auto simp: moves_def step_of_comp shape_second_def received_def link_def)
qed (use sh l r in \<open>auto simp: moves_def step_of_end shape_second_def\<close>)

text \<open>The counts of the two sides keep within one message of each other.\<close>

lemma lat_inv_chain:
  assumes "shape_first N a" "shape_second N c" "link a w b n d" "link c w' b' n' e" "received c \<le> d" "received a \<le> e"
  shows "e \<le> lscnt c" "lscnt c \<le> received c" "received c \<le> d" "d \<le> lscnt a" "lscnt a \<le> received a + 1" "received a \<le> e"
  using assms shape_first_bound [OF assms(1)] shape_second_bound [OF assms(2)] by (auto simp: link_def)

lemma lat_step_inv:
  assumes "lat_inv N s" "lat_step p s t" "test_type p = ITERATIONS"
  shows "lat_inv N t"
proof -
  from assms(1) obtain d e where A: "shape_first N (procA s)" and B: "shape_second N (procB s)"
    and lA: "link (procA s) (wireAB s) (byteB s) (cqA s) d" and lB: "link (procB s) (wireBA s) (byteA s) (cqB s) e"
    and r: "received (procB s) \<le> d" "received (procA s) \<le> e" unfolding lat_inv_def by blast
  note chain = lat_inv_chain [OF A B lA lB r]
  from assms(2) show ?thesis
  proof (cases rule: lat_step.cases)
    case (move_A st ms n)
    have hit: "lrcnt (procA s) \<le> e" if "pc (procA s) = At_wait" "byteA s = of_nat (lrcnt (procA s))"
    proof -
      have "lrcnt (procA s) = lscnt (procA s)" "received (procA s) = lrcnt (procA s) - 1" "1 \<le> lrcnt (procA s)"
        using A that(1) by (auto simp: shape_first_def received_def)
      moreover have "(of_nat e :: u8) = of_nat (lrcnt (procA s))" using lB that(2) by (simp add: link_def)
      ultimately show ?thesis using byte_exact [of e "lrcnt (procA s)"] chain by linarith
    qed
    have "moves shape_first N (procA s) (wireAB s) (byteB s) (cqA s) d (st, ms, n) e"
      using first_moves [OF A lA r(2), of "p\<lparr> machine := SERVER \<rparr>" "byteA s"] hit assms(3) move_A(2) by auto
    with move_A(1) B lB r(1) show ?thesis by (auto simp: lat_inv_def moves_def)
  next
    case (move_B st ms n)
    have hit: "lrcnt (procB s) \<le> d" if "pc (procB s) = At_wait" "byteB s = of_nat (lrcnt (procB s))"
    proof -
      have "lrcnt (procB s) = lscnt (procB s) + 1" "received (procB s) = lrcnt (procB s) - 1"
        using B that(1) by (auto simp: shape_second_def received_def)
      moreover have "(of_nat d :: u8) = of_nat (lrcnt (procB s))" using lA that(2) by (simp add: link_def)
      ultimately show ?thesis using byte_exact [of d "lrcnt (procB s)"] chain by linarith
    qed
    have "moves shape_second N (procB s) (wireBA s) (byteA s) (cqB s) e (st, ms, n) d"
      using second_moves [OF B lB r(1), of "p\<lparr> machine := CLIENT \<rparr>" "byteB s"] hit assms(3) move_B(2) by auto
    with move_B(1) A lA r(2) show ?thesis by (auto simp: lat_inv_def moves_def)
  next
    case (deliver_AB b w)
    with lA have "link (procA s) w b (cqA s + 1) (d + 1)" by (intro link_deliver) simp
    with deliver_AB A B lB r show ?thesis by (intro lat_invI [of N t "d + 1" e]) simp_all
  next
    case (deliver_BA b w)
    with lB have "link (procB s) w b (cqB s + 1) (e + 1)" by (intro link_deliver) simp
    with deliver_BA A B lA r show ?thesis by (intro lat_invI [of N t d "e + 1"]) simp_all
  qed
qed

lemma lat_inv_initial: "test_type p = ITERATIONS \<Longrightarrow> lat_inv (iters p) (lat_initial p)"
  by (auto simp: lat_inv_def lat_initial_def lat_start_def shape_first_def shape_second_def link_def received_def)

lemma lat_reachable_inv: "lat_reachable p s \<Longrightarrow> test_type p = ITERATIONS \<Longrightarrow> lat_inv (iters p) s"
  by (induction rule: lat_reachable.induct) (auto intro: lat_inv_initial lat_step_inv)

section \<open>Progress\<close>

text \<open>A process that does not move is at its end, or waits for a message that is not delivered, or for a completion.\<close>

lemma not_stuck:
  assumes "test_type p = ITERATIONS" "fst (step_of p b n st) = st"
  shows "pc st \<noteq> At_loop \<and> pc st \<noteq> At_send"
proof -
  have "pc (fst (step_of p b n st)) \<noteq> At_loop" if "pc st = At_loop" using that assms(1) by (simp add: step_of_loop)
  moreover have "pc (fst (step_of p b n st)) \<noteq> At_send" if "pc st = At_send" using that assms(1) by (simp add: step_of_send)
  ultimately show ?thesis using assms(2) by auto
qed

lemma first_stuck:
  assumes "shape_first N st" "test_type p = ITERATIONS" "fst (step_of p b n st) = st"
  shows "pc st = At_end \<or> pc st = At_wait \<and> b \<noteq> of_nat (lrcnt st) \<or> pc st = At_comp \<and> n = 0 \<and> lccnt st < lscnt st"
proof -
  have neq: "st\<lparr> pc := q \<rparr> = st \<longleftrightarrow> pc st = q" for q by (cases st) auto
  have neq2: "st\<lparr> pc := At_loop, lccnt := k \<rparr> = st \<longleftrightarrow> pc st = At_loop \<and> lccnt st = k" for k by (cases st) auto
  show ?thesis using assms not_stuck [OF assms(2,3)]
    by (cases "pc st") (auto simp: step_of_wait step_of_comp shape_first_def neq neq2 split: if_splits)
qed

lemma second_stuck:
  assumes "shape_second N st" "test_type p = ITERATIONS" "fst (step_of p b n st) = st"
  shows "pc st = At_end \<or> pc st = At_wait \<and> b \<noteq> of_nat (lrcnt st) \<or> pc st = At_comp \<and> n = 0 \<and> lccnt st < lscnt st"
proof -
  have neq: "st\<lparr> pc := q \<rparr> = st \<longleftrightarrow> pc st = q" for q by (cases st) auto
  have neq2: "st\<lparr> pc := At_loop, lccnt := k \<rparr> = st \<longleftrightarrow> pc st = At_loop \<and> lccnt st = k" for k by (cases st) auto
  show ?thesis using assms not_stuck [OF assms(2,3)]
    by (cases "pc st") (auto simp: step_of_wait step_of_comp shape_second_def neq neq2 split: if_splits)
qed

text \<open>No deadlock: as long as one side is not at its end, a process moves or a message is delivered.\<close>

lemma lat_progress:
  assumes inv: "lat_inv N s" and ty: "test_type p = ITERATIONS" and open_end: "pc (procA s) \<noteq> At_end \<or> pc (procB s) \<noteq> At_end"
  shows "\<exists>t. lat_step p s t"
proof (rule ccontr)
  assume no: "\<nexists>t. lat_step p s t"
  from inv obtain d e where A: "shape_first N (procA s)" and B: "shape_second N (procB s)"
    and lA: "link (procA s) (wireAB s) (byteB s) (cqA s) d" and lB: "link (procB s) (wireBA s) (byteA s) (cqB s) e"
    and r: "received (procB s) \<le> d" "received (procA s) \<le> e" unfolding lat_inv_def by blast
  note chain = lat_inv_chain [OF A B lA lB r]
  have wires: "wireAB s = []" "wireBA s = []"
    using no deliver_AB [of s] deliver_BA [of s] by (cases "wireAB s"; cases "wireBA s"; blast)+
  have d: "d = lscnt (procA s)" "e = lscnt (procB s)" "cqA s + lccnt (procA s) = d" "cqB s + lccnt (procB s) = e"
    "byteB s = of_nat d" "byteA s = of_nat e" using lA lB wires by (auto simp: link_def)
  have "fst (step_of (p\<lparr> machine := SERVER \<rparr>) (byteA s) (cqA s) (procA s)) = procA s"
    using no move_A [of p s] by (metis prod.collapse)
  from first_stuck [OF A _ this] ty d
  have a: "pc (procA s) = At_end \<or> pc (procA s) = At_wait \<and> e \<noteq> lrcnt (procA s)" by auto
  have "fst (step_of (p\<lparr> machine := CLIENT \<rparr>) (byteB s) (cqB s) (procB s)) = procB s"
    using no move_B [of p s] by (metis prod.collapse)
  from second_stuck [OF B _ this] ty d
  have b: "pc (procB s) = At_end \<or> pc (procB s) = At_wait \<and> d \<noteq> lrcnt (procB s)" by auto
  show False using a b open_end A B chain d by (auto simp: shape_first_def shape_second_def received_def)
qed

section \<open>Termination\<close>

definition point :: "lat_proc \<Rightarrow> nat" where
  "point st = (case pc st of At_loop \<Rightarrow> if lscnt st = 0 then 5 else 1 | At_wait \<Rightarrow> 4 | At_send \<Rightarrow> 3 | At_comp \<Rightarrow> 2 | _ \<Rightarrow> 0)"

definition left :: "nat \<Rightarrow> lat_proc \<Rightarrow> nat" where
  "left N st = 7 * (3 * N - (lrcnt st + lscnt st + lccnt st)) + point st"

definition lat_measure :: "nat \<Rightarrow> lat_net \<Rightarrow> nat" where
  "lat_measure N s = left N (procA s) + left N (procB s) + length (wireAB s) + length (wireBA s)"

lemma first_left:
  assumes "shape_first N st" "test_type p = ITERATIONS" "machine p = SERVER" "step_of p b n st = (st', ms, n')" "st' \<noteq> st" "0 < N"
  shows "left N st' + length ms < left N st"
proof (cases "pc st")
  case At_loop
  with assms show ?thesis by (auto simp: step_of_loop shape_first_def left_def point_def split: if_splits)
next
  case At_wait
  with assms show ?thesis by (auto simp: step_of_wait shape_first_def left_def point_def split: if_splits)
next
  case At_send
  with assms show ?thesis by (auto simp: step_of_send shape_first_def left_def point_def split: if_splits)
next
  case At_comp
  with assms show ?thesis by (auto simp: step_of_comp shape_first_def left_def point_def split: if_splits)
qed (use assms in \<open>auto simp: step_of_end\<close>)

lemma second_left:
  assumes "shape_second N st" "test_type p = ITERATIONS" "machine p = CLIENT" "step_of p b n st = (st', ms, n')" "st' \<noteq> st"
  shows "left N st' + length ms < left N st"
proof (cases "pc st")
  case At_loop
  with assms show ?thesis by (auto simp: step_of_loop shape_second_def left_def point_def split: if_splits)
next
  case At_wait
  with assms show ?thesis by (auto simp: step_of_wait shape_second_def left_def point_def split: if_splits)
next
  case At_send
  with assms show ?thesis by (auto simp: step_of_send shape_second_def left_def point_def split: if_splits)
next
  case At_comp
  with assms show ?thesis by (auto simp: step_of_comp shape_second_def left_def point_def split: if_splits)
qed (use assms in \<open>auto simp: step_of_end\<close>)

lemma lat_step_measure:
  assumes "lat_inv N s" "lat_step p s t" "test_type p = ITERATIONS" "0 < N"
  shows "lat_measure N t < lat_measure N s"
  using assms(2)
proof (cases rule: lat_step.cases)
  case (move_A st ms n)
  with first_left [of N "procA s" "p\<lparr> machine := SERVER \<rparr>" "byteA s" "cqA s" st ms n] assms(1,3,4) show ?thesis
    by (auto simp: lat_inv_def lat_measure_def)
next
  case (move_B st ms n)
  with second_left [of N "procB s" "p\<lparr> machine := CLIENT \<rparr>" "byteB s" "cqB s" st ms n] assms(1,3) show ?thesis
    by (auto simp: lat_inv_def lat_measure_def)
qed (auto simp: lat_measure_def)

section \<open>Properties\<close>

text \<open>
  The write latency test is a strict ping-pong: in every reachable state of the two processes the
  sides are within one message of each other, no side ever takes a stale byte for its message although
  only the low byte of the count is compared, and neither fails.
\<close>

theorem lat_write_alternates:
  assumes "lat_reachable p s" "test_type p = ITERATIONS"
  shows "received (procA s) \<le> lscnt (procB s) \<and> lscnt (procB s) \<le> received (procB s) \<and> received (procB s) \<le> lscnt (procA s) \<and>
    lscnt (procA s) \<le> received (procA s) + 1 \<and> pc (procA s) \<noteq> At_error \<and> pc (procB s) \<noteq> At_error \<and>
    (pc (procA s) = At_wait \<and> byteA s = of_nat (lrcnt (procA s)) \<longrightarrow> lscnt (procB s) = lrcnt (procA s)) \<and>
    (pc (procB s) = At_wait \<and> byteB s = of_nat (lrcnt (procB s)) \<longrightarrow> lscnt (procA s) = lrcnt (procB s))"
proof -
  from lat_reachable_inv [OF assms] obtain d e where A: "shape_first (iters p) (procA s)" and B: "shape_second (iters p) (procB s)"
    and lA: "link (procA s) (wireAB s) (byteB s) (cqA s) d" and lB: "link (procB s) (wireBA s) (byteA s) (cqB s) e"
    and r: "received (procB s) \<le> d" "received (procA s) \<le> e" unfolding lat_inv_def by blast
  note chain = lat_inv_chain [OF A B lA lB r]
  have "lscnt (procB s) = lrcnt (procA s)" if "pc (procA s) = At_wait" "byteA s = of_nat (lrcnt (procA s))"
  proof -
    have "lrcnt (procA s) = lscnt (procA s)" "received (procA s) + 1 = lrcnt (procA s)" using A that(1) by (auto simp: shape_first_def received_def)
    moreover have "(of_nat e :: u8) = of_nat (lrcnt (procA s))" using lB that(2) by (simp add: link_def)
    ultimately show ?thesis using byte_exact [of e "lrcnt (procA s)"] chain by linarith
  qed
  moreover have "lscnt (procA s) = lrcnt (procB s)" if "pc (procB s) = At_wait" "byteB s = of_nat (lrcnt (procB s))"
  proof -
    have "lrcnt (procB s) = lscnt (procB s) + 1" "received (procB s) + 1 = lrcnt (procB s)" using B that(1) by (auto simp: shape_second_def received_def)
    moreover have "(of_nat d :: u8) = of_nat (lrcnt (procB s))" using lA that(2) by (simp add: link_def)
    ultimately show ?thesis using byte_exact [of d "lrcnt (procB s)"] chain by linarith
  qed
  moreover have "pc (procA s) \<noteq> At_error \<and> pc (procB s) \<noteq> At_error" using A B by (auto simp: shape_first_def shape_second_def)
  ultimately show ?thesis using chain by auto
qed

text \<open>
  C14. The write latency test terminates: there is no infinite run of the two processes and their wires,
  and a run can only stop with both processes at their end, all messages sent, received and completed,
  and one time stamp for each.
\<close>

theorem lat_write_terminates:
  assumes "test_type p = ITERATIONS" "0 < iters p"
  shows "\<not> (f 0 = lat_initial p \<and> (\<forall>i. lat_step p (f i) (f (Suc i)))) \<and>
    (lat_reachable p s \<and> (\<nexists>t. lat_step p s t) \<longrightarrow>
       (\<forall>st \<in> {procA s, procB s}. pc st = At_end \<and> lscnt st = iters p \<and> lrcnt st = iters p \<and> lccnt st = iters p \<and> stamped st = iters p))"
proof (intro conjI notI impI)
  assume run: "f 0 = lat_initial p \<and> (\<forall>i. lat_step p (f i) (f (Suc i)))"
  have inv: "lat_inv (iters p) (f i)" for i
    using run assms(1) by (induction i) (auto intro: lat_inv_initial lat_step_inv)
  have dec: "lat_measure (iters p) (f (Suc i)) < lat_measure (iters p) (f i)" for i
    using lat_step_measure [OF inv _ assms] run by blast
  have "lat_measure (iters p) (f i) + i \<le> lat_measure (iters p) (f 0)" for i
  proof (induction i)
    case (Suc i)
    with dec [of i] show ?case by simp
  qed simp
  from this [of "Suc (lat_measure (iters p) (f 0))"] show False by simp
next
  assume "lat_reachable p s \<and> (\<nexists>t. lat_step p s t)"
  then have inv: "lat_inv (iters p) s" and "pc (procA s) = At_end \<and> pc (procB s) = At_end"
    using lat_reachable_inv [OF _ assms(1)] lat_progress [OF _ assms(1)] by blast+
  then show "\<forall>st \<in> {procA s, procB s}. pc st = At_end \<and> lscnt st = iters p \<and> lrcnt st = iters p \<and> lccnt st = iters p \<and> stamped st = iters p"
    by (auto simp: lat_inv_def shape_first_def shape_second_def)
qed

definition demo_net :: lat_net where
  "demo_net = (lat_initial basic_params)\<lparr> procA := (lat_start basic_params)\<lparr> pc := At_send \<rparr> \<rparr>"

lemma demo_net_step: "lat_step basic_params (lat_initial basic_params) demo_net"
proof -
  have "step_of (basic_params\<lparr> machine := SERVER \<rparr>) 0 0 (lat_start basic_params) = ((lat_start basic_params)\<lparr> pc := At_send \<rparr>, [], 0)"
    by (simp add: step_of_loop lat_start_def basic_params_def)
  then show ?thesis
    using move_A [of basic_params "lat_initial basic_params"] by (simp add: demo_net_def lat_initial_def lat_start_def)
qed

lemma demo_net_reachable: "lat_reachable basic_params demo_net"
  by (rule lat_reachable.later [OF lat_reachable.initial demo_net_step])

theorem lat_write_alternates_witness: "lscnt (procA demo_net) \<le> received (procA demo_net) + 1 \<and> pc (procA demo_net) = At_send"
  using lat_write_alternates [OF demo_net_reachable] by (simp add: basic_params_def) (simp add: demo_net_def)

theorem lat_write_terminates_witness: "\<not> lat_step basic_params demo_net demo_net"
proof
  let ?f = "\<lambda>i. case i of 0 \<Rightarrow> lat_initial basic_params | Suc _ \<Rightarrow> demo_net"
  assume "lat_step basic_params demo_net demo_net"
  then have "\<forall>i. lat_step basic_params (?f i) (?f (Suc i))" using demo_net_step by (simp split: nat.split)
  moreover have "test_type basic_params = ITERATIONS" "0 < iters basic_params" by (simp_all add: basic_params_def)
  ultimately show False using lat_write_terminates [of basic_params ?f] by simp
qed

end
