(* ===== verification/Warm_Up.thy ===== *)
theory Warm_Up
  imports Lat_Write Bw_Client
begin

text \<open>
  Models of \<open>perform_warm_up\<close> and \<open>run_iter_lat\<close> in \<^verbatim>\<open>src/src/perftest_resources.c\<close>: the warm-up before a bandwidth test, and the
  latency test of the one-sided verbs (read and atomic).  The state counts the completions that the device still owes for
  signaled requests; a poll can find one only then.
\<close>

section \<open>Answers of the completion queue\<close>

text \<open>An answer with a completion needs a request that owes one.\<close>

definition answer :: "poll_answer \<Rightarrow> nat \<Rightarrow> poll_answer" where
  "answer a owed_n = (if owed_n = 0 \<and> (a = Poll_good \<or> a = Poll_bad) then Poll_none else a)"

text \<open>No failures, and a completion is found at least once in \<open>d\<close> polls in a row.\<close>

definition fair_polls :: "nat \<Rightarrow> (nat \<Rightarrow> poll_answer) \<Rightarrow> bool" where
  "fair_polls d f \<longleftrightarrow> (\<forall>t. f t = Poll_none \<or> f t = Poll_good) \<and> (\<forall>t. \<exists>k < d. f (t + k) = Poll_good)"

section \<open>Warm-up\<close>

record wu_state =
  wu_flag :: "bool list"
  wu_owed :: nat
  wu_sent :: "nat list"
  wu_clk :: nat

record wu_env =
  wu_found :: nat
  wu_post_ok :: "nat \<Rightarrow> bool"
  wu_poll :: "nat \<Rightarrow> poll_answer"

definition warmupsession :: "perftest_parameters \<Rightarrow> nat" where
  "warmupsession p = (if post_list p = 1 then tx_depth p else post_list p)"

text \<open>The completions that one call of the post function asks for: a list has a signaled request after every \<open>cq_mod\<close> requests.\<close>

definition post_signals :: "perftest_parameters \<Rightarrow> bool \<Rightarrow> nat" where
  "post_signals p sig = (if post_list p = 1 then (if sig then 1 else 0) else post_list p div cq_mod p)"

text \<open>The pipe is cleaned first: what a single poll finds of earlier completions is dropped.\<close>

definition clean_pipe :: "perftest_parameters \<Rightarrow> wu_env \<Rightarrow> wu_state \<Rightarrow> wu_state" where
  "clean_pipe p env st = st\<lparr> wu_owed := wu_owed st - min (wu_found env) (tx_depth p), wu_clk := wu_clk st + 1 \<rparr>"

definition ask_completion :: "perftest_parameters \<Rightarrow> nat \<Rightarrow> wu_state \<Rightarrow> wu_state \<times> bool" where
  "ask_completion p q st = (if post_list p = 1 \<and> \<not> wu_flag st ! q then (st\<lparr> wu_flag := (wu_flag st)[q := True] \<rparr>, True) else (st, False))"

definition wu_post :: "perftest_parameters \<Rightarrow> nat \<Rightarrow> wu_state \<Rightarrow> wu_state" where
  "wu_post p q st = st\<lparr> wu_sent := (wu_sent st)[q := wu_sent st ! q + post_list p], wu_owed := wu_owed st + post_signals p (wu_flag st ! q),
     wu_clk := wu_clk st + 1 \<rparr>"

text \<open>The posting loop returns the value of \<open>warmindex\<close> after it; \<open>Inl\<close> is a failure.  A step of zero never enters it.\<close>

function wu_posts :: "perftest_parameters \<Rightarrow> wu_env \<Rightarrow> nat \<Rightarrow> nat \<Rightarrow> wu_state \<Rightarrow> wu_state + nat \<times> wu_state" where
  "wu_posts p env q w st =
     (if w < warmupsession p \<and> 0 < post_list p then
        (if \<not> wu_post_ok env (wu_clk st) then Inl st else wu_posts p env q (w + post_list p) (wu_post p q st))
      else Inr (w, st))"
  by auto
termination by (relation "measure (\<lambda>(p, env, q, w, st). warmupsession p - w)") auto

declare wu_posts.simps [simp del]

fun wu_wait :: "nat \<Rightarrow> perftest_parameters \<Rightarrow> wu_env \<Rightarrow> int \<Rightarrow> wu_state \<Rightarrow> (wu_state + wu_state) option" where
  "wu_wait 0 p env w st = None"
| "wu_wait (Suc f) p env w st =
     (let st1 = st\<lparr> wu_clk := wu_clk st + 1 \<rparr> in
      case answer (wu_poll env (wu_clk st)) (wu_owed st) of
        Poll_good \<Rightarrow> (if w - int (post_list p) = 0 then Some (Inr (st1\<lparr> wu_owed := wu_owed st - 1 \<rparr>))
                      else wu_wait f p env (w - int (post_list p)) (st1\<lparr> wu_owed := wu_owed st - 1 \<rparr>))
      | Poll_none \<Rightarrow> (if w = 0 then Some (Inr st1) else wu_wait f p env w st1)
      | _ \<Rightarrow> Some (Inl st1))"

definition warm_up_qp :: "nat \<Rightarrow> perftest_parameters \<Rightarrow> wu_env \<Rightarrow> nat \<Rightarrow> wu_state \<Rightarrow> (wu_state + wu_state) option" where
  "warm_up_qp fuel p env q st =
     (case ask_completion p q st of
        (st1, set_signaled) \<Rightarrow>
          (case wu_posts p env q 0 st1 of
             Inl st2 \<Rightarrow> Some (Inl st2)
           | Inr (w, st2) \<Rightarrow>
               wu_wait fuel p env (int w) (if set_signaled then st2\<lparr> wu_flag := (wu_flag st2)[q := False] \<rparr> else st2)))"

fun warm_up_qps :: "nat \<Rightarrow> perftest_parameters \<Rightarrow> wu_env \<Rightarrow> nat list \<Rightarrow> wu_state \<Rightarrow> (wu_state + wu_state) option" where
  "warm_up_qps fuel p env [] st = Some (Inr st)"
| "warm_up_qps fuel p env (q # qs) st =
     (case warm_up_qp fuel p env q st of
        None \<Rightarrow> None
      | Some (Inl st1) \<Rightarrow> Some (Inl st1)
      | Some (Inr st1) \<Rightarrow> warm_up_qps fuel p env qs st1)"

definition perform_warm_up :: "nat \<Rightarrow> perftest_parameters \<Rightarrow> wu_env \<Rightarrow> wu_state \<Rightarrow> (wu_state + wu_state) option" where
  "perform_warm_up fuel p env st = warm_up_qps fuel p env [0..<bw_num_qps p] (clean_pipe p env st)"

section \<open>What one queue pair posts and waits for\<close>

text \<open>The posts of one queue pair: \<open>warmupsession\<close> requests in calls of \<open>post_list\<close>.\<close>

definition wu_calls :: "perftest_parameters \<Rightarrow> nat" where
  "wu_calls p = (if post_list p = 1 then tx_depth p else 1)"

lemma wu_posts_result:
  assumes "0 < post_list p" and "w = post_list p * k" and "k \<le> wu_calls p" and "\<And>t. wu_post_ok env t" and "q < length (wu_sent st)"
  shows "\<exists>t. wu_posts p env q w st = Inr (warmupsession p, st\<lparr> wu_sent := (wu_sent st)[q := wu_sent st ! q + (wu_calls p - k) * post_list p],
    wu_owed := wu_owed st + (wu_calls p - k) * post_signals p (wu_flag st ! q), wu_clk := t \<rparr>)"
  using assms(2,3,5)
proof (induction "wu_calls p - k" arbitrary: k w st)
  case 0
  then have k: "k = wu_calls p" by simp
  have w: "w = warmupsession p" using 0(2) k by (auto simp: wu_calls_def warmupsession_def)
  have "st = st\<lparr> wu_sent := (wu_sent st)[q := wu_sent st ! q], wu_owed := wu_owed st, wu_clk := wu_clk st \<rparr>" by simp
  then show ?case by (subst wu_posts.simps) (use k w in \<open>auto intro!: exI [of _ "wu_clk st"]\<close>)
next
  case (Suc n)
  have less: "k < wu_calls p" using Suc(2) by simp
  have "w < warmupsession p" using Suc(3) less assms(1) by (auto simp: wu_calls_def warmupsession_def split: if_splits)
  then have step: "wu_posts p env q w st = wu_posts p env q (w + post_list p) (wu_post p q st)"
    using assms(1,4) by (subst wu_posts.simps) simp
  have "n = wu_calls p - Suc k" "w + post_list p = post_list p * Suc k" "Suc k \<le> wu_calls p" "q < length (wu_sent (wu_post p q st))"
    using Suc(2,3,5) less by (auto simp: wu_post_def)
  from Suc(1) [OF this] obtain t where
    t: "wu_posts p env q (w + post_list p) (wu_post p q st) = Inr (warmupsession p, (wu_post p q st)\<lparr>
      wu_sent := (wu_sent (wu_post p q st))[q := wu_sent (wu_post p q st) ! q + (wu_calls p - Suc k) * post_list p],
      wu_owed := wu_owed (wu_post p q st) + (wu_calls p - Suc k) * post_signals p (wu_flag (wu_post p q st) ! q), wu_clk := t \<rparr>)" by blast
  have diff: "wu_calls p - k = Suc (wu_calls p - Suc k)" using less by simp
  show ?case unfolding step t diff using Suc(5)
    by (intro exI [of _ t]) (simp add: wu_post_def add.assoc)
qed

text \<open>A wait that ends well has taken one completion per \<open>post_list\<close> requests, and nothing else has changed.\<close>

lemma wu_wait_takes:
  "wu_wait fuel p env (int (post_list p * n)) st = Some (Inr st') \<Longrightarrow> 0 < n \<Longrightarrow> 0 < post_list p \<Longrightarrow>
   wu_owed st' + n = wu_owed st \<and> wu_flag st' = wu_flag st \<and> wu_sent st' = wu_sent st"
proof (induction fuel arbitrary: n st)
  case 0
  then show ?case by simp
next
  case (Suc f)
  let ?s = "st\<lparr> wu_clk := wu_clk st + 1 \<rparr>"
  show ?case
  proof (cases "answer (wu_poll env (wu_clk st)) (wu_owed st)")
    case Poll_none
    with Suc.prems have "wu_wait f p env (int (post_list p * n)) ?s = Some (Inr st')" by (simp add: Let_def)
    then show ?thesis using Suc.IH [of n ?s] Suc.prems(2,3) by simp
  next
    case Poll_good
    then have pos: "0 < wu_owed st" by (auto simp: answer_def split: if_splits)
    have w: "int (post_list p * n) - int (post_list p) = int (post_list p * (n - 1))" using Suc.prems(2) by (cases n) (simp_all add: algebra_simps)
    show ?thesis
    proof (cases "n = 1")
      case True
      with Suc.prems Poll_good pos show ?thesis by (auto simp: Let_def)
    next
      case False
      let ?s1 = "?s\<lparr> wu_owed := wu_owed st - 1 \<rparr>"
      have "wu_wait f p env (int (post_list p * (n - 1))) ?s1 = Some (Inr st')"
        using Suc.prems Poll_good False w by (simp add: Let_def split: if_splits)
      then show ?thesis using Suc.IH [of "n - 1" ?s1] Suc.prems(2,3) False pos by auto
    qed
  qed (use Suc.prems(1) in \<open>simp_all add: Let_def\<close>)
qed

lemma wu_wait_fair:
  assumes fair: "fair_polls d (wu_poll env)" and pl: "0 < post_list p"
  shows "\<lbrakk> 0 < n; n \<le> wu_owed st; k < d; wu_poll env (wu_clk st + k) = Poll_good; d * (n - 1) + k + 1 \<le> fuel \<rbrakk> \<Longrightarrow>
    \<exists>st'. wu_wait fuel p env (int (post_list p * n)) st = Some (Inr st')"
proof (induction fuel arbitrary: n k st)
  case 0
  then show ?case by simp
next
  case (Suc f)
  let ?s = "st\<lparr> wu_clk := wu_clk st + 1 \<rparr>"
  show ?case
  proof (cases "wu_poll env (wu_clk st) = Poll_good")
    case False
    then have none: "wu_poll env (wu_clk st) = Poll_none" using fair by (auto simp: fair_polls_def)
    have k: "0 < k" using Suc.prems(4) False by (cases k) auto
    have "\<exists>st'. wu_wait f p env (int (post_list p * n)) ?s = Some (Inr st')"
      by (rule Suc.IH [of n ?s "k - 1"]) (use Suc.prems k in auto)
    then show ?thesis using none Suc.prems(1) pl by (simp add: Let_def answer_def)
  next
    case good: True
    then have a: "answer (wu_poll env (wu_clk st)) (wu_owed st) = Poll_good" using Suc.prems(1,2) by (simp add: answer_def)
    show ?thesis
    proof (cases "n = 1")
      case True
      with a show ?thesis by (simp add: Let_def)
    next
      case False
      let ?s1 = "?s\<lparr> wu_owed := wu_owed st - 1 \<rparr>"
      have "\<exists>j < d. wu_poll env (wu_clk ?s1 + j) = Poll_good" using fair by (simp only: fair_polls_def)
      then obtain j where j: "j < d" "wu_poll env (wu_clk ?s1 + j) = Poll_good" by blast
      have "d * (n - 1) = d * (n - 1 - 1) + d" using Suc.prems(1) False by (cases "n - 1") auto
      then have "\<exists>st'. wu_wait f p env (int (post_list p * (n - 1))) ?s1 = Some (Inr st')"
        by (intro Suc.IH [of "n - 1" ?s1 j]) (use Suc.prems j False in auto)
      moreover have "int (post_list p * n) - int (post_list p) = int (post_list p * (n - 1))"
        using Suc.prems(1) by (cases n) (simp_all add: algebra_simps)
      ultimately show ?thesis using a False Suc.prems(1) pl by (simp add: Let_def)
    qed
  qed
qed

text \<open>One queue pair: the flag is restored, and the requests that were posted owe all but \<open>wu_calls\<close> of their completions.\<close>

lemma session_calls: "0 < post_list p \<Longrightarrow> warmupsession p = post_list p * wu_calls p"
  by (simp add: warmupsession_def wu_calls_def)

definition wu_ready :: "perftest_parameters \<Rightarrow> wu_state \<Rightarrow> bool" where
  "wu_ready p st \<longleftrightarrow> length (wu_sent st) = num_of_qps p \<and> length (wu_flag st) = num_of_qps p"

lemma warm_up_qp_before_wait:
  assumes pl: "0 < post_list p" and ok: "\<And>t. wu_post_ok env t" and r: "wu_ready p st" and q: "q < num_of_qps p"
  shows "\<exists>t. warm_up_qp fuel p env q st = wu_wait fuel p env (int (post_list p * wu_calls p))
    (st\<lparr> wu_sent := (wu_sent st)[q := wu_sent st ! q + warmupsession p], wu_owed := wu_owed st + wu_calls p * post_signals p True, wu_clk := t \<rparr>)"
proof -
  obtain st1 b where ask: "ask_completion p q st = (st1, b)" by fastforce
  have st1: "st1 = (if b then st\<lparr> wu_flag := (wu_flag st)[q := True] \<rparr> else st)" and b: "b = (post_list p = 1 \<and> \<not> wu_flag st ! q)"
    using ask by (auto simp: ask_completion_def split: if_splits)
  have sent: "wu_sent st1 = wu_sent st" "wu_owed st1 = wu_owed st" and q1: "q < length (wu_sent st1)" using st1 r q by (auto simp: wu_ready_def)
  have sig: "post_signals p (wu_flag st1 ! q) = post_signals p True" using st1 b r q by (auto simp: post_signals_def wu_ready_def)
  from wu_posts_result [OF pl, of 0 0 env q st1] ok q1
  obtain t where t: "wu_posts p env q 0 st1 = Inr (warmupsession p, st1\<lparr> wu_sent := (wu_sent st1)[q := wu_sent st1 ! q + wu_calls p * post_list p],
      wu_owed := wu_owed st1 + wu_calls p * post_signals p (wu_flag st1 ! q), wu_clk := t \<rparr>)" by auto
  have restored: "b \<Longrightarrow> (wu_flag st)[q := False] = wu_flag st" using b by (metis (full_types) list_update_id)
  show ?thesis using t unfolding warm_up_qp_def ask sent sig
    by (intro exI [of _ t]) (cases b; simp add: st1 restored session_calls [OF pl] mult.commute)
qed

text \<open>A fair device, posts that succeed, and enough polls for one queue pair.\<close>

definition wu_fair :: "nat \<Rightarrow> nat \<Rightarrow> perftest_parameters \<Rightarrow> wu_env \<Rightarrow> bool" where
  "wu_fair d fuel p env \<longleftrightarrow> 0 < post_list p \<and> 0 < wu_calls p \<and> 0 < post_signals p True \<and> (\<forall>t. wu_post_ok env t) \<and> fair_polls d (wu_poll env)
     \<and> d * wu_calls p \<le> fuel"

lemma warm_up_qp_result:
  assumes f: "wu_fair d fuel p env" and r: "wu_ready p st" and q: "q < num_of_qps p"
  shows "\<exists>st'. warm_up_qp fuel p env q st = Some (Inr st') \<and> wu_ready p st' \<and> wu_flag st' = wu_flag st
    \<and> wu_owed st' = wu_owed st + wu_calls p * (post_signals p True - 1) \<and> wu_sent st' = (wu_sent st)[q := wu_sent st ! q + warmupsession p]"
proof -
  have pl: "0 < post_list p" and calls: "0 < wu_calls p" and sig: "0 < post_signals p True" and ok: "\<And>t. wu_post_ok env t"
    and fair: "fair_polls d (wu_poll env)" and fuel: "d * wu_calls p \<le> fuel" using f by (auto simp: wu_fair_def)
  from warm_up_qp_before_wait [OF pl ok r q, of fuel] obtain t where
    t: "warm_up_qp fuel p env q st = wu_wait fuel p env (int (post_list p * wu_calls p))
      (st\<lparr> wu_sent := (wu_sent st)[q := wu_sent st ! q + warmupsession p], wu_owed := wu_owed st + wu_calls p * post_signals p True, wu_clk := t \<rparr>)" (is "_ = wu_wait _ _ _ _ ?s")
    by blast
  obtain k where k: "k < d" "wu_poll env (wu_clk ?s + k) = Poll_good" using fair by (auto simp only: fair_polls_def)
  have owed: "wu_calls p \<le> wu_owed ?s" using sig by (cases "post_signals p True") auto
  have "d * wu_calls p = d * (wu_calls p - 1) + d" using calls by (cases "wu_calls p") auto
  then obtain st' where st': "wu_wait fuel p env (int (post_list p * wu_calls p)) ?s = Some (Inr st')"
    using wu_wait_fair [OF fair pl calls owed k] fuel k(1) by force
  have "wu_calls p * post_signals p True = wu_calls p * (post_signals p True - 1) + wu_calls p" using sig by (cases "post_signals p True") auto
  then show ?thesis using t st' wu_wait_takes [OF st' calls pl] r sig by (auto simp: wu_ready_def)
qed

lemma warm_up_qps_result:
  "wu_fair d fuel p env \<Longrightarrow> wu_ready p st \<Longrightarrow> distinct qs \<Longrightarrow> set qs \<subseteq> {..<num_of_qps p} \<Longrightarrow>
   \<exists>st'. warm_up_qps fuel p env qs st = Some (Inr st') \<and> wu_flag st' = wu_flag st
     \<and> wu_owed st' = wu_owed st + length qs * (wu_calls p * (post_signals p True - 1))
     \<and> (\<forall>q < num_of_qps p. wu_sent st' ! q = wu_sent st ! q + (if q \<in> set qs then warmupsession p else 0))"
proof (induction qs arbitrary: st)
  case Nil
  then show ?case by simp
next
  case (Cons q qs)
  from warm_up_qp_result [OF Cons.prems(1,2), of q] Cons.prems(4) obtain s1 where
    s1: "warm_up_qp fuel p env q st = Some (Inr s1)" "wu_ready p s1" "wu_flag s1 = wu_flag st"
      "wu_owed s1 = wu_owed st + wu_calls p * (post_signals p True - 1)" "wu_sent s1 = (wu_sent st)[q := wu_sent st ! q + warmupsession p]" by auto
  from Cons.IH [OF Cons.prems(1) s1(2)] Cons.prems(3,4) obtain st' where
    st': "warm_up_qps fuel p env qs s1 = Some (Inr st')" "wu_flag st' = wu_flag s1" "wu_owed st' = wu_owed s1 + length qs * (wu_calls p * (post_signals p True - 1))"
      "\<forall>j < num_of_qps p. wu_sent st' ! j = wu_sent s1 ! j + (if j \<in> set qs then warmupsession p else 0)" by auto
  have "wu_sent st' ! j = wu_sent st ! j + (if j \<in> set (q # qs) then warmupsession p else 0)" if "j < num_of_qps p" for j
    using st'(4) that s1(5) Cons.prems(2,3) by (cases "j = q") (auto simp: wu_ready_def)
  then show ?case using s1 st' by auto
qed

lemma warm_up_result:
  assumes "wu_fair d fuel p env" "wu_ready p st" "wu_owed st = 0"
  shows "\<exists>st'. perform_warm_up fuel p env st = Some (Inr st') \<and> wu_flag st' = wu_flag st
    \<and> wu_owed st' = bw_num_qps p * (wu_calls p * (post_signals p True - 1))
    \<and> (\<forall>q < bw_num_qps p. wu_sent st' ! q = wu_sent st ! q + warmupsession p)"
proof -
  have le: "bw_num_qps p \<le> num_of_qps p" by (simp add: bw_num_qps_def)
  have "wu_ready p (clean_pipe p env st)" using assms(2) by (simp add: wu_ready_def clean_pipe_def)
  from warm_up_qps_result [OF assms(1) this, of "[0..<bw_num_qps p]"] le obtain st' where
    "warm_up_qps fuel p env [0..<bw_num_qps p] (clean_pipe p env st) = Some (Inr st')" "wu_flag st' = wu_flag (clean_pipe p env st)"
    "wu_owed st' = wu_owed (clean_pipe p env st) + length [0..<bw_num_qps p] * (wu_calls p * (post_signals p True - 1))"
    "\<forall>q < num_of_qps p. wu_sent st' ! q = wu_sent (clean_pipe p env st) ! q + (if q \<in> set [0..<bw_num_qps p] then warmupsession p else 0)"
    by force
  then show ?thesis using le assms(3) by (auto simp: perform_warm_up_def clean_pipe_def)
qed

section \<open>The latency test of one-sided verbs\<close>

record rl_state =
  rl_scnt :: nat
  rl_iters :: nat
  rl_owed :: nat
  rl_posted :: nat
  rl_done :: nat
  rl_stamps :: nat
  rl_clk :: nat
  rl_waiting :: "nat list"

record rl_env =
  rl_dstate :: "nat \<Rightarrow> DurationStates"
  rl_post_ok :: "nat \<Rightarrow> bool"
  rl_notify_ok :: "nat \<Rightarrow> bool"
  rl_poll :: "nat \<Rightarrow> poll_answer"

text \<open>The requests out at each post are kept in \<open>rl_waiting\<close>, newest first.\<close>

definition rl_post :: "perftest_parameters \<Rightarrow> rl_state \<Rightarrow> rl_state" where
  "rl_post p st =
     (let st1 = (if test_type p = ITERATIONS then st\<lparr> rl_stamps := rl_stamps st + 1, rl_scnt := rl_scnt st + 1 \<rparr> else st)
      in st1\<lparr> rl_waiting := (rl_posted st - rl_done st) # rl_waiting st, rl_posted := rl_posted st + 1, rl_owed := rl_owed st + 1, rl_clk := rl_clk st + 1 \<rparr>)"

definition rl_complete :: "perftest_parameters \<Rightarrow> rl_env \<Rightarrow> rl_state \<Rightarrow> rl_state" where
  "rl_complete p env st =
     st\<lparr> rl_owed := rl_owed st - 1, rl_done := rl_done st + 1, rl_clk := rl_clk st + 1,
        rl_iters := (if test_type p = DURATION \<and> rl_dstate env (rl_clk st) = SAMPLE_STATE then rl_iters st + 1 else rl_iters st) \<rparr>"

fun rl_wait :: "nat \<Rightarrow> perftest_parameters \<Rightarrow> rl_env \<Rightarrow> rl_state \<Rightarrow> (rl_state + rl_state) option" where
  "rl_wait 0 p env st = None"
| "rl_wait (Suc f) p env st =
     (case answer (rl_poll env (rl_clk st)) (rl_owed st) of
        Poll_good \<Rightarrow> Some (Inr (rl_complete p env st))
      | Poll_none \<Rightarrow> (if use_event p then Some (Inr (st\<lparr> rl_clk := rl_clk st + 1 \<rparr>)) else rl_wait f p env (st\<lparr> rl_clk := rl_clk st + 1 \<rparr>))
      | _ \<Rightarrow> Some (Inl st))"

text \<open>One turn of the loop; the flag of the result tells whether it ends here because the time is over.\<close>

definition rl_turn :: "nat \<Rightarrow> perftest_parameters \<Rightarrow> rl_env \<Rightarrow> rl_state \<Rightarrow> (rl_state + bool \<times> rl_state) option" where
  "rl_turn inner p env st =
     (if \<not> rl_post_ok env (rl_clk st) then Some (Inl st)
      else let st1 = rl_post p st in
        if test_type p = DURATION \<and> rl_dstate env (rl_clk st1) = END_STATE then Some (Inr (True, st1))
        else if use_event p \<and> \<not> rl_notify_ok env (rl_clk st1) then Some (Inl st1)
        else (case rl_wait inner p env st1 of None \<Rightarrow> None | Some (Inl s) \<Rightarrow> Some (Inl s) | Some (Inr s) \<Rightarrow> Some (Inr (False, s))))"

fun rl_loop :: "nat \<Rightarrow> nat \<Rightarrow> perftest_parameters \<Rightarrow> rl_env \<Rightarrow> rl_state \<Rightarrow> (rl_state + rl_state) option" where
  "rl_loop inner fuel p env st =
     (if \<not> (rl_scnt st < rl_iters st \<or> test_type p = DURATION \<and> rl_dstate env (rl_clk st) \<noteq> END_STATE) then Some (Inr st)
      else case fuel of
             0 \<Rightarrow> None
           | Suc f \<Rightarrow>
               (case rl_turn inner p env st of
                  None \<Rightarrow> None
                | Some (Inl s) \<Rightarrow> Some (Inl s)
                | Some (Inr (over, s)) \<Rightarrow> if over then Some (Inr s) else rl_loop inner f p env s))"

declare rl_loop.simps [simp del]

definition run_iter_lat :: "nat \<Rightarrow> nat \<Rightarrow> perftest_parameters \<Rightarrow> rl_env \<Rightarrow> (rl_state + rl_state) option" where
  "run_iter_lat inner fuel p env =
     rl_loop inner fuel p env \<lparr> rl_scnt = 0, rl_iters = (if test_type p = DURATION then 0 else iters p), rl_owed = 0, rl_posted = 0, rl_done = 0,
       rl_stamps = 0, rl_clk = 0, rl_waiting = [] \<rparr>"

text \<open>Between two turns of a counted test every request has been completed, and each was posted alone.\<close>

definition rl_between :: "perftest_parameters \<Rightarrow> rl_state \<Rightarrow> bool" where
  "rl_between p st \<longleftrightarrow> rl_iters st = iters p \<and> rl_scnt st \<le> iters p \<and> rl_posted st = rl_scnt st \<and> rl_done st = rl_scnt st \<and> rl_stamps st = rl_scnt st
     \<and> rl_owed st = 0 \<and> rl_waiting st = replicate (rl_scnt st) 0"

lemma rl_wait_fair:
  assumes "fair_polls d (rl_poll env)" and "test_type p = ITERATIONS" and "\<not> use_event p"
  shows "\<lbrakk> 0 < rl_owed st; k < inner; rl_poll env (rl_clk st + k) = Poll_good \<rbrakk> \<Longrightarrow>
    \<exists>t. rl_wait inner p env st = Some (Inr (st\<lparr> rl_owed := rl_owed st - 1, rl_done := rl_done st + 1, rl_clk := t \<rparr>))"
proof (induction k arbitrary: st inner)
  case 0
  then obtain f where "inner = Suc f" by (cases inner) auto
  with 0 assms(2) show ?case by (auto simp: answer_def rl_complete_def)
next
  case (Suc k)
  then obtain f where f: "inner = Suc f" by (cases inner) auto
  show ?case
  proof (cases "rl_poll env (rl_clk st) = Poll_good")
    case True
    with f Suc.prems assms(2) show ?thesis by (auto simp: answer_def rl_complete_def)
  next
    case False
    then have none: "rl_poll env (rl_clk st) = Poll_none" using assms(1) by (auto simp: fair_polls_def)
    have "\<exists>t. rl_wait f p env (st\<lparr> rl_clk := rl_clk st + 1 \<rparr>) = Some (Inr ((st\<lparr> rl_clk := rl_clk st + 1 \<rparr>)\<lparr> rl_owed := rl_owed st - 1, rl_done := rl_done st + 1, rl_clk := t \<rparr>))"
      using Suc.IH [of "st\<lparr> rl_clk := rl_clk st + 1 \<rparr>" f] Suc.prems f by simp
    with none f assms(3) show ?thesis by (simp add: answer_def)
  qed
qed

lemma rl_turn_between:
  assumes fair: "fair_polls d (rl_poll env)" "\<And>t. rl_post_ok env t" and p: "test_type p = ITERATIONS" "\<not> use_event p"
    and b: "rl_between p st" "rl_scnt st < iters p" and d: "d \<le> inner"
  shows "\<exists>st'. rl_turn inner p env st = Some (Inr (False, st')) \<and> rl_between p st' \<and> rl_scnt st' = rl_scnt st + 1"
proof -
  let ?s = "rl_post p st"
  obtain k where "k < d" "rl_poll env (rl_clk ?s + k) = Poll_good" using fair(1) by (auto simp only: fair_polls_def)
  then have k: "k < inner" "rl_poll env (rl_clk ?s + k) = Poll_good" using d by auto
  have "0 < rl_owed ?s" by (simp add: rl_post_def Let_def)
  from rl_wait_fair [OF fair(1) p this k] obtain t where
    t: "rl_wait inner p env ?s = Some (Inr (?s\<lparr> rl_owed := rl_owed ?s - 1, rl_done := rl_done ?s + 1, rl_clk := t \<rparr>))" by blast
  have "rl_between p (?s\<lparr> rl_owed := rl_owed ?s - 1, rl_done := rl_done ?s + 1, rl_clk := t \<rparr>)"
    using b p by (simp add: rl_between_def rl_post_def Let_def)
  moreover have "rl_scnt ?s = rl_scnt st + 1" using p by (simp add: rl_post_def Let_def)
  ultimately show ?thesis using t fair(2) p by (simp add: rl_turn_def Let_def)
qed

lemma rl_loop_ends:
  assumes fair: "fair_polls d (rl_poll env)" "\<And>t. rl_post_ok env t" and p: "test_type p = ITERATIONS" "\<not> use_event p" and d: "d \<le> inner"
  shows "rl_between p st \<Longrightarrow> iters p - rl_scnt st \<le> fuel \<Longrightarrow> \<exists>st'. rl_loop inner fuel p env st = Some (Inr st') \<and> rl_between p st' \<and> rl_scnt st' = iters p"
proof (induction fuel arbitrary: st)
  case 0
  then have "rl_scnt st = iters p" "rl_iters st = iters p" by (auto simp: rl_between_def)
  then show ?case using 0(1) p by (subst rl_loop.simps) simp
next
  case (Suc f)
  show ?case
  proof (cases "rl_scnt st < iters p")
    case False
    then have "rl_scnt st = iters p" "rl_iters st = iters p" using Suc.prems(1) by (auto simp: rl_between_def)
    then show ?thesis using Suc.prems(1) p by (subst rl_loop.simps) simp
  next
    case True
    from rl_turn_between [OF fair p Suc.prems(1) True d] obtain s1 where
      s1: "rl_turn inner p env st = Some (Inr (False, s1))" "rl_between p s1" "rl_scnt s1 = rl_scnt st + 1" by blast
    have "rl_iters st = iters p" using Suc.prems(1) by (simp add: rl_between_def)
    then have "rl_loop inner (Suc f) p env st = rl_loop inner f p env s1" using s1(1) True by (subst rl_loop.simps) simp
    then show ?thesis using Suc.IH [OF s1(2)] s1(3) Suc.prems(2) by simp
  qed
qed

section \<open>Properties\<close>

text \<open>
  C40. The counted latency test of the one-sided verbs always ends well on a fair device: when a completion is found at least
  once in \<open>d\<close> polls, it returns after \<open>iters\<close> requests, each of them time-stamped, posted only after the one before it was
  completed, and completed itself.
\<close>

theorem read_latency_one_at_a_time:
  assumes "fair_polls d (rl_poll env)" and "\<forall>t. rl_post_ok env t" and "test_type p = ITERATIONS" and "\<not> use_event p" and "d \<le> inner" and "iters p \<le> fuel"
  shows "\<exists>st. run_iter_lat inner fuel p env = Some (Inr st) \<and> rl_posted st = iters p \<and> rl_done st = iters p \<and> rl_stamps st = iters p
    \<and> rl_waiting st = replicate (iters p) 0"
proof -
  let ?s = "\<lparr> rl_scnt = 0, rl_iters = iters p, rl_owed = 0, rl_posted = 0, rl_done = 0, rl_stamps = 0, rl_clk = 0, rl_waiting = [] \<rparr>"
  have "rl_between p ?s" by (simp add: rl_between_def)
  from rl_loop_ends [OF assms(1) _ assms(3-5) this, of fuel] assms(2,6) obtain st where
    "rl_loop inner fuel p env ?s = Some (Inr st)" "rl_between p st" "rl_scnt st = iters p" by auto
  then show ?thesis using assms(3) by (auto simp: run_iter_lat_def rl_between_def)
qed

definition demo_read :: rl_env where
  "demo_read = \<lparr> rl_dstate = \<lambda>_. START_STATE, rl_post_ok = \<lambda>_. True, rl_notify_ok = \<lambda>_. True, rl_poll = \<lambda>t. if even t then Poll_good else Poll_none \<rparr>"

lemma alternating_fair: "fair_polls 2 (\<lambda>t. if even t then Poll_good else Poll_none)"
proof -
  have "\<exists>k < 2. even (t + k)" for t :: nat by (cases "even t") (auto intro: exI [of _ 0] exI [of _ 1])
  then show ?thesis by (auto simp: fair_polls_def)
qed

theorem read_latency_one_at_a_time_witness:
  "\<exists>st. run_iter_lat 2 5 (basic_params\<lparr> verb := READ, tst := LAT \<rparr>) demo_read = Some (Inr st) \<and> rl_done st = 5"
  using read_latency_one_at_a_time [of 2 demo_read "basic_params\<lparr> verb := READ, tst := LAT \<rparr>" 2 5] alternating_fair
  by (auto simp: demo_read_def basic_params_def)

text \<open>
  The warm-up with single posts leaves no trace: on a fair device it returns, has posted \<open>tx_depth\<close> requests on every queue
  pair and taken all their completions, and every completion flag is as it was.
\<close>

theorem warm_up_leaves_no_trace:
  assumes "post_list p = 1" and "0 < tx_depth p" and "\<forall>t. wu_post_ok env t" and "fair_polls d (wu_poll env)" and "d * tx_depth p \<le> fuel"
    and "length (wu_sent st) = num_of_qps p" and "length (wu_flag st) = num_of_qps p" and "wu_owed st = 0"
  shows "\<exists>st'. perform_warm_up fuel p env st = Some (Inr st') \<and> wu_owed st' = 0 \<and> wu_flag st' = wu_flag st
    \<and> (\<forall>q < bw_num_qps p. wu_sent st' ! q = wu_sent st ! q + tx_depth p)"
proof -
  have f: "wu_fair d fuel p env" using assms(1-5) by (simp add: wu_fair_def wu_calls_def post_signals_def)
  have "wu_ready p st" using assms(6,7) by (simp add: wu_ready_def)
  from warm_up_result [OF f this assms(8)] show ?thesis using assms(1) by (auto simp: post_signals_def warmupsession_def)
qed

definition demo_warm :: wu_env where
  "demo_warm = \<lparr> wu_found = 0, wu_post_ok = \<lambda>_. True, wu_poll = \<lambda>t. if even t then Poll_good else Poll_none \<rparr>"

definition demo_idle :: wu_state where
  "demo_idle = \<lparr> wu_flag = [False], wu_owed = 0, wu_sent = [0], wu_clk = 0 \<rparr>"

theorem warm_up_leaves_no_trace_witness:
  "\<exists>st'. perform_warm_up 8 basic_params demo_warm demo_idle = Some (Inr st') \<and> wu_owed st' = 0 \<and> wu_flag st' = [False] \<and> wu_sent st' ! 0 = 4"
  using warm_up_leaves_no_trace [of basic_params demo_warm 2 8 demo_idle] alternating_fair
  by (auto simp: demo_warm_def demo_idle_def basic_params_def bw_num_qps_def)

text \<open>
  The warm-up with a list of requests waits for too few completions: a list of \<open>k \<ge> 2\<close> groups owes \<open>k\<close> completions but only one
  is waited for, so \<open>k - 1\<close> completions per queue pair are left for the test, which counts them as its own.
\<close>

theorem warm_up_leaves_completions:
  assumes "post_list p = k * cq_mod p" and "2 \<le> k" and "0 < cq_mod p" and "\<forall>t. wu_post_ok env t" and "fair_polls d (wu_poll env)" and "d \<le> fuel"
    and "length (wu_sent st) = num_of_qps p" and "length (wu_flag st) = num_of_qps p" and "wu_owed st = 0"
  shows "\<exists>st'. perform_warm_up fuel p env st = Some (Inr st') \<and> wu_owed st' = bw_num_qps p * (k - 1)"
proof -
  have "2 * 1 \<le> k * cq_mod p" using assms(2,3) by (intro mult_le_mono) auto
  then have pl: "post_list p \<noteq> 1" "0 < post_list p" "post_list p div cq_mod p = k" using assms(1-3) by auto
  have f: "wu_fair d fuel p env" using assms(2,4-6) pl by (simp add: wu_fair_def wu_calls_def post_signals_def)
  have "wu_ready p st" using assms(7,8) by (simp add: wu_ready_def)
  from warm_up_result [OF f this assms(9)] show ?thesis using pl by (auto simp: post_signals_def wu_calls_def)
qed

theorem warm_up_leaves_completions_witness:
  "\<exists>st'. perform_warm_up 2 (basic_params\<lparr> post_list := 4 \<rparr>) demo_warm demo_idle = Some (Inr st') \<and> wu_owed st' = 1"
  using warm_up_leaves_completions [of "basic_params\<lparr> post_list := 4 \<rparr>" 2 demo_warm 2 2 demo_idle] alternating_fair
  by (auto simp: demo_warm_def demo_idle_def basic_params_def bw_num_qps_def)

end
