(* ===== verification/Lat_Send.thy ===== *)
theory Lat_Send
  imports Lat_Write
begin

text \<open>
  Model of \<open>run_iter_lat_send\<close> in \<^verbatim>\<open>src/src/perftest_resources.c\<close>, the ping-pong of the send latency tests, and of the two
  processes that play it.  As in the write test, the loop is cut where the process looks outside: at the loop
  head, where it polls the receive queue, where it posts, and where it polls the send queue.  Here the
  client sends first, a message needs a posted receive, and only every \<open>cq_mod\<close>-th send (and the last one) asks for a
  completion.  The timers that \<open>set_on_first_rx_packet\<close> starts are those of \<open>Alarms\<close>.
\<close>

section \<open>One process\<close>




definition pp_size_per_qp :: "perftest_parameters \<Rightarrow> nat" where
  "pp_size_per_qp p = (if use_srq p then rx_depth p div num_of_qps p else rx_depth p)"











section \<open>Two processes and their queues\<close>







section \<open>Invariant\<close>








text \<open>The counted test without events, at each point of the loop.\<close>

definition pp_plain :: "perftest_parameters \<Rightarrow> bool" where
  "pp_plain p \<longleftrightarrow> test_type p = ITERATIONS \<and> \<not> use_event p \<and> 0 < cq_mod p \<and> 0 < pp_size_per_qp p"







section \<open>Every step keeps the invariant\<close>







lemma size_per_qp_machine [simp]: "pp_size_per_qp (p\<lparr> machine := m \<rparr>) = pp_size_per_qp p" "pp_plain (p\<lparr> machine := m \<rparr>) = pp_plain p"
  by (simp_all add: pp_size_per_qp_def pp_plain_def)






section \<open>Progress and termination\<close>









section \<open>Properties\<close>









end
