(* ===== verification/Lat_Burst.thy ===== *)
theory Lat_Burst
  imports Lat_Send
begin

text \<open>
  Model of \<open>run_iter_lat_burst_server\<close> and \<open>run_iter_lat_burst\<close> in \<^verbatim>\<open>src/src/perftest_resources.c\<close>: the client sends bursts, the
  server replies to every \<open>reply_every\<close>-th message.  One turn of a loop is a function of what the process observes
  in it: the completions of both queues, the clock, and whether its calls succeed.  The array for completions
  has \<open>burst_size\<close> entries; a poll that writes more than that has no result.  The gap between bursts, computed from the clock
  rate in floating point, is a parameter of the client.
\<close>

section \<open>Completions\<close>

text \<open>
  A completion is good, has a bad status, or is good but lacks the immediate data, or carries other data than
  expected where the peer's version lets them be verified.
\<close>

datatype wc_kind = WC_good | WC_bad | WC_imm_mismatch

text \<open>Errors: a bad or unexpected completion, a failed call, a write behind the array, a division by zero.\<close>

datatype burst_error = Burst_bad_completion | Burst_imm_mismatch | Burst_call_failed | Burst_overrun | Burst_division

definition CTX_POLL_BATCH :: nat where
  "CTX_POLL_BATCH = 16"

definition with_imm :: "perftest_parameters \<Rightarrow> bool" where
  "with_imm p \<longleftrightarrow> verb p = SEND_IMM \<or> verb p = WRITE_IMM"

text \<open>The test whether the send queue has room subtracts unsigned counters: more completions than sends would wrap and fail it.\<close>

definition has_room :: "perftest_parameters \<Rightarrow> nat \<Rightarrow> nat \<Rightarrow> bool" where
  "has_room p sent completed \<longleftrightarrow> completed \<le> sent \<and> sent - completed < tx_depth p"

text \<open>A poll of at most \<open>n\<close> entries that finds the completions \<open>ws\<close> (\<open>None\<close>: the poll fails).\<close>

definition poll_into :: "perftest_parameters \<Rightarrow> nat \<Rightarrow> wc_kind list option \<Rightarrow> burst_error + wc_kind list" where
  "poll_into p n ws =
     (case ws of
        None \<Rightarrow> Inl Burst_call_failed
      | Some xs \<Rightarrow> let got = take n xs in if length got > burst_size p then Inl Burst_overrun else Inr got)"

section \<open>Server\<close>

record burst_server =
  b_scnt :: nat
  b_rcnt :: nat
  b_ccnt :: nat

record burst_turn =
  bt_recv :: "wc_kind list option"
  bt_send :: "wc_kind list option"
  bt_post_ok :: bool
  bt_repost_ok :: bool

definition burst_receive :: "perftest_parameters \<Rightarrow> nat \<Rightarrow> burst_turn \<Rightarrow> wc_kind \<Rightarrow> burst_server \<Rightarrow> burst_error + burst_server" where
  "burst_receive p every t w st =
     (if w = WC_bad then Inl Burst_bad_completion
      else if with_imm p \<and> w = WC_imm_mismatch then Inl Burst_imm_mismatch
      else if every = 0 then Inl Burst_division
      else let st1 = st\<lparr> b_rcnt := b_rcnt st + 1 \<rparr>;
               reply = (b_rcnt st1 mod every = 0 \<and> has_room p (b_scnt st1) (b_ccnt st1))
           in if reply \<and> \<not> bt_post_ok t then Inl Burst_call_failed
              else if \<not> bt_repost_ok t then Inl Burst_call_failed
              else Inr (if reply then st1\<lparr> b_scnt := b_scnt st1 + 1 \<rparr> else st1))"

fun burst_receives :: "perftest_parameters \<Rightarrow> nat \<Rightarrow> burst_turn \<Rightarrow> wc_kind list \<Rightarrow> burst_server \<Rightarrow> burst_error + burst_server" where
  "burst_receives p every t [] st = Inr st"
| "burst_receives p every t (w # ws) st =
     (case burst_receive p every t w st of Inl e \<Rightarrow> Inl e | Inr st' \<Rightarrow> burst_receives p every t ws st')"

fun burst_sends :: "wc_kind list \<Rightarrow> burst_server \<Rightarrow> burst_error + burst_server" where
  "burst_sends [] st = Inr st"
| "burst_sends (w # ws) st = (if w = WC_bad then Inl Burst_bad_completion else burst_sends ws (st\<lparr> b_ccnt := b_ccnt st + 1 \<rparr>))"

definition burst_server_turn :: "perftest_parameters \<Rightarrow> nat \<Rightarrow> burst_turn \<Rightarrow> burst_server \<Rightarrow> burst_error + burst_server" where
  "burst_server_turn p every t st =
     (case poll_into p (burst_size p) (bt_recv t) of
        Inl e \<Rightarrow> Inl e
      | Inr ws \<Rightarrow>
          (case burst_receives p every t ws st of
             Inl e \<Rightarrow> Inl e
           | Inr st1 \<Rightarrow> (case poll_into p CTX_POLL_BATCH (bt_send t) of Inl e \<Rightarrow> Inl e | Inr ss \<Rightarrow> burst_sends ss st1)))"

text \<open>The loop over the turns of a run: \<open>Inr (done, st)\<close> tells whether it has ended.\<close>

fun run_iter_lat_burst_server :: "perftest_parameters \<Rightarrow> nat \<Rightarrow> burst_turn list \<Rightarrow> burst_server \<Rightarrow> burst_error + bool \<times> burst_server" where
  "run_iter_lat_burst_server p every ts st =
     (if \<not> b_rcnt st < iters p then Inr (True, st)
      else case ts of
             [] \<Rightarrow> Inr (False, st)
           | t # ts' \<Rightarrow> (case burst_server_turn p every t st of Inl e \<Rightarrow> Inl e | Inr st' \<Rightarrow> run_iter_lat_burst_server p every ts' st'))"

section \<open>Client\<close>

record burst_client =
  totscnt' :: nat
  totccnt' :: nat
  totrcnt' :: nat
  pong_cnt :: nat
  burst_iter :: nat
  is_sending_burst :: bool
  gap_deadline :: nat
  post_stamps :: nat
  reply_stamps :: nat

text \<open>What the client observes in one turn: the clock at its two readings, its polls, one pair for each round of the polling loop (a list that ends stands for a round that finds nothing).\<close>

record client_turn =
  ct_now :: nat
  ct_later :: nat
  ct_post_ok :: bool
  ct_repost_ok :: bool
  ct_polls :: "(wc_kind list option \<times> wc_kind list option) list"

definition begin_burst :: "perftest_parameters \<Rightarrow> nat \<Rightarrow> client_turn \<Rightarrow> burst_client \<Rightarrow> burst_client" where
  "begin_burst p gap_cycles t st =
     (if is_sending_burst st then st
      else if gap_deadline st > ct_now t \<and> rate_limit_type p = SW_RATE_LIMIT then st
      else st\<lparr> gap_deadline := ct_later t + gap_cycles, is_sending_burst := True, burst_iter := 0 \<rparr>)"

definition burst_post_one :: "perftest_parameters \<Rightarrow> nat \<Rightarrow> burst_client \<Rightarrow> burst_client" where
  "burst_post_one p every st =
     (let st1 = st\<lparr> totscnt' := totscnt' st + post_list p \<rparr>;
          st2 = (if totscnt' st1 mod every = 0 \<and> totscnt' st1 \<noteq> 0 then st1\<lparr> post_stamps := post_stamps st1 + 1, pong_cnt := pong_cnt st1 + 1 \<rparr> else st1);
          st3 = st2\<lparr> burst_iter := burst_iter st2 + 1 \<rparr>
      in if burst_iter st3 = burst_size p then st3\<lparr> is_sending_burst := False \<rparr> else st3)"

text \<open>The posting loop, with fuel: it ends when all is sent, the send queue is full, or the burst is over.\<close>

fun post_burst :: "nat \<Rightarrow> perftest_parameters \<Rightarrow> nat \<Rightarrow> client_turn \<Rightarrow> burst_client \<Rightarrow> (burst_error + burst_client) option" where
  "post_burst fuel p every t st =
     (if totscnt' st < iters p \<and> has_room p (totscnt' st) (totccnt' st) \<and> is_sending_burst st then
        (if \<not> ct_post_ok t then Some (Inl Burst_call_failed)
         else if every = 0 then Some (Inl Burst_division)
         else case fuel of 0 \<Rightarrow> None | Suc n \<Rightarrow> post_burst n p every t (burst_post_one p every st))
      else Some (Inr st))"

fun client_receives :: "perftest_parameters \<Rightarrow> client_turn \<Rightarrow> wc_kind list \<Rightarrow> burst_client \<Rightarrow> burst_error + burst_client" where
  "client_receives p t [] st = Inr st"
| "client_receives p t (w # ws) st =
     (if w = WC_bad then Inl Burst_bad_completion
      else if with_imm p \<and> w = WC_imm_mismatch then Inl Burst_imm_mismatch
      else if \<not> ct_repost_ok t then Inl Burst_call_failed
      else client_receives p t ws (st\<lparr> totrcnt' := totrcnt' st + 1, reply_stamps := reply_stamps st + 1 \<rparr>))"

fun client_completes :: "perftest_parameters \<Rightarrow> wc_kind list \<Rightarrow> burst_client \<Rightarrow> burst_error + burst_client" where
  "client_completes p [] st = Inr st"
| "client_completes p (w # ws) st =
     (if w = WC_bad then Inl Burst_bad_completion else client_completes p ws (st\<lparr> totccnt' := totccnt' st + cq_mod p \<rparr>))"

fun client_polls :: "perftest_parameters \<Rightarrow> client_turn \<Rightarrow> (wc_kind list option \<times> wc_kind list option) list \<Rightarrow> burst_client \<Rightarrow> burst_error + burst_client" where
  "client_polls p t [] st = Inr st"
| "client_polls p t ((r, s) # ps) st =
     (case poll_into p CTX_POLL_BATCH r of
        Inl e \<Rightarrow> Inl e
      | Inr rs \<Rightarrow>
          (case client_receives p t rs st of
             Inl e \<Rightarrow> Inl e
           | Inr st1 \<Rightarrow>
               (case poll_into p (burst_size p) s of
                  Inl e \<Rightarrow> Inl e
                | Inr ss \<Rightarrow> (case client_completes p ss st1 of
                               Inl e \<Rightarrow> Inl e
                             | Inr st2 \<Rightarrow> if rs = [] then Inr st2 else client_polls p t ps st2))))"

definition client_running :: "perftest_parameters \<Rightarrow> nat \<Rightarrow> burst_client \<Rightarrow> bool" where
  "client_running p every st \<longleftrightarrow> totrcnt' st < totscnt' st div every \<or> totccnt' st < iters p"

text \<open>A burst that has to wait for its gap goes right to the polling.\<close>

definition burst_client_turn :: "perftest_parameters \<Rightarrow> nat \<Rightarrow> nat \<Rightarrow> client_turn \<Rightarrow> burst_client \<Rightarrow> (burst_error + burst_client) option" where
  "burst_client_turn p every gap_cycles t st =
     (case post_burst (iters p + burst_size p) p every t (begin_burst p gap_cycles t st) of
        None \<Rightarrow> None
      | Some (Inl e) \<Rightarrow> Some (Inl e)
      | Some (Inr st1) \<Rightarrow> Some (client_polls p t (ct_polls t) st1))"

fun run_iter_lat_burst :: "perftest_parameters \<Rightarrow> nat \<Rightarrow> nat \<Rightarrow> client_turn list \<Rightarrow> burst_client \<Rightarrow> (burst_error + bool \<times> burst_client) option" where
  "run_iter_lat_burst p every gap_cycles ts st =
     (if every = 0 then Some (Inl Burst_division)
      else if \<not> client_running p every st then Some (Inr (True, st))
      else case ts of
             [] \<Rightarrow> Some (Inr (False, st))
           | t # ts' \<Rightarrow> (case burst_client_turn p every gap_cycles t st of
                            None \<Rightarrow> None
                          | Some (Inl e) \<Rightarrow> Some (Inl e)
                          | Some (Inr st') \<Rightarrow> run_iter_lat_burst p every gap_cycles ts' st'))"

definition burst_start :: burst_client where
  "burst_start = \<lparr> totscnt' = 0, totccnt' = 0, totrcnt' = 0, pong_cnt = 0, burst_iter = 0, is_sending_burst = False, gap_deadline = 0,
     post_stamps = 0, reply_stamps = 0 \<rparr>"

definition server_start :: burst_server where
  "server_start = \<lparr> b_scnt = 0, b_rcnt = 0, b_ccnt = 0 \<rparr>"

section \<open>The replies of the server\<close>

lemma burst_receive_cases:
  assumes "burst_receive p every t w st = Inr st'"
  shows "0 < every \<and> b_rcnt st' = b_rcnt st + 1 \<and> b_ccnt st' = b_ccnt st
    \<and> b_scnt st' = b_scnt st + (if (b_rcnt st + 1) mod every = 0 \<and> has_room p (b_scnt st) (b_ccnt st) then 1 else 0)"
  using assms by (auto simp: burst_receive_def Let_def split: if_splits)

lemma div_step:
  fixes n d :: nat
  assumes "0 < d"
  shows "(n + 1) div d = n div d + (if (n + 1) mod d = 0 then 1 else 0)"
  using assms by (simp add: div_Suc)

text \<open>The replies replies_owed and not sent; no step ever makes up for one.\<close>

definition replies_owed :: "nat \<Rightarrow> burst_server \<Rightarrow> nat" where
  "replies_owed every st = b_rcnt st div every - b_scnt st"

definition server_ok :: "nat \<Rightarrow> burst_server \<Rightarrow> bool" where
  "server_ok every st \<longleftrightarrow> b_scnt st \<le> b_rcnt st div every"

lemma burst_receive_owed:
  assumes "burst_receive p every t w st = Inr st'" and "server_ok every st"
  shows "server_ok every st' \<and> replies_owed every st \<le> replies_owed every st' \<and> b_ccnt st' = b_ccnt st"
  using burst_receive_cases [OF assms(1)] assms(2) div_step [of every "b_rcnt st"] by (auto simp: replies_owed_def server_ok_def)

lemma burst_receives_owed:
  "burst_receives p every t ws st = Inr st' \<Longrightarrow> server_ok every st \<Longrightarrow> server_ok every st' \<and> replies_owed every st \<le> replies_owed every st'"
proof (induction ws arbitrary: st)
  case Nil
  then show ?case by simp
next
  case (Cons w ws)
  from Cons.prems(1) obtain st1 where one: "burst_receive p every t w st = Inr st1" and rest: "burst_receives p every t ws st1 = Inr st'"
    by (auto split: sum.splits)
  show ?case using burst_receive_owed [OF one Cons.prems(2)] Cons.IH [OF rest] by linarith
qed

lemma burst_sends_keeps:
  "burst_sends ws st = Inr st' \<Longrightarrow> b_scnt st' = b_scnt st \<and> b_rcnt st' = b_rcnt st \<and> b_ccnt st' = b_ccnt st + length ws"
  by (induction ws arbitrary: st) (auto split: if_splits)

lemma burst_server_turn_parts:
  assumes "burst_server_turn p every t st = Inr st'"
  obtains ws ss st1 where "poll_into p (burst_size p) (bt_recv t) = Inr ws" and "burst_receives p every t ws st = Inr st1"
    and "poll_into p CTX_POLL_BATCH (bt_send t) = Inr ss" and "burst_sends ss st1 = Inr st'"
  using assms by (auto simp: burst_server_turn_def split: sum.splits)

lemma burst_server_turn_owed:
  assumes "burst_server_turn p every t st = Inr st'" and "server_ok every st"
  shows "server_ok every st' \<and> replies_owed every st \<le> replies_owed every st'"
  using assms(1)
proof (rule burst_server_turn_parts)
  fix ws ss st1
  assume rec: "burst_receives p every t ws st = Inr st1" and snd: "burst_sends ss st1 = Inr st'"
  show ?thesis using burst_receives_owed [OF rec assms(2)] burst_sends_keeps [OF snd] by (simp add: server_ok_def replies_owed_def)
qed

lemma burst_server_run_owed:
  "run_iter_lat_burst_server p every ts st = Inr (d, st') \<Longrightarrow> server_ok every st \<Longrightarrow>
   server_ok every st' \<and> replies_owed every st \<le> replies_owed every st' \<and> (d \<longrightarrow> iters p \<le> b_rcnt st')"
proof (induction p every ts st rule: run_iter_lat_burst_server.induct)
  case (1 p every ts st)
  show ?case
  proof (cases "b_rcnt st < iters p")
    case False
    then show ?thesis using "1.prems" by auto
  next
    case True
    show ?thesis
    proof (cases ts)
      case Nil
      then show ?thesis using "1.prems" True by auto
    next
      case (Cons t ts')
      with "1.prems"(1) True obtain st1 where one: "burst_server_turn p every t st = Inr st1"
        and rest: "run_iter_lat_burst_server p every ts' st1 = Inr (d, st')"
        by (auto split: sum.splits)
      note turn = burst_server_turn_owed [OF one "1.prems"(2)]
      have "server_ok every st' \<and> replies_owed every st1 \<le> replies_owed every st' \<and> (d \<longrightarrow> iters p \<le> b_rcnt st')"
        using "1.IH" [of t ts' st1] True Cons one rest turn by auto
      then show ?thesis using turn by linarith
    qed
  qed
qed

text \<open>With room for a whole batch no reply is lost.\<close>

lemma burst_receives_replies:
  "burst_receives p every t ws st = Inr st' \<Longrightarrow> b_scnt st = b_rcnt st div every \<Longrightarrow> b_ccnt st \<le> b_scnt st
   \<Longrightarrow> b_scnt st - b_ccnt st + length ws \<le> tx_depth p
   \<Longrightarrow> b_scnt st' = b_rcnt st' div every \<and> b_rcnt st' = b_rcnt st + length ws \<and> b_ccnt st' = b_ccnt st"
proof (induction ws arbitrary: st)
  case Nil
  then show ?case by simp
next
  case (Cons w ws)
  from Cons.prems(1) obtain st1 where one: "burst_receive p every t w st = Inr st1" and rest: "burst_receives p every t ws st1 = Inr st'"
    by (auto split: sum.splits)
  have room: "has_room p (b_scnt st) (b_ccnt st)" using Cons.prems(3,4) by (simp add: has_room_def)
  note step = burst_receive_cases [OF one]
  have "b_scnt st1 = b_rcnt st1 div every" using step room Cons.prems(2) div_step [of every "b_rcnt st"] by auto
  moreover have "b_ccnt st1 \<le> b_scnt st1" and "b_scnt st1 - b_ccnt st1 + length ws \<le> tx_depth p"
    using step Cons.prems(3,4) by auto
  ultimately show ?case using Cons.IH [OF rest] step by simp
qed

lemma poll_into_length: "poll_into p n ws = Inr got \<Longrightarrow> length got \<le> n \<and> length got \<le> burst_size p"
  by (auto simp: poll_into_def Let_def split: option.splits if_splits)

text \<open>A run in which, at each turn, at most \<open>d\<close> replies are still to be completed (and no completion is spurious).\<close>

fun replies_drain :: "perftest_parameters \<Rightarrow> nat \<Rightarrow> nat \<Rightarrow> burst_turn list \<Rightarrow> burst_server \<Rightarrow> bool" where
  "replies_drain p every d [] st \<longleftrightarrow> True"
| "replies_drain p every d (t # ts) st \<longleftrightarrow>
     b_ccnt st \<le> b_scnt st \<and> b_scnt st - b_ccnt st \<le> d
     \<and> (case burst_server_turn p every t st of Inl _ \<Rightarrow> True | Inr st' \<Rightarrow> replies_drain p every d ts st')"

lemma burst_server_run_replies:
  "run_iter_lat_burst_server p every ts st = Inr (d, st') \<Longrightarrow> b_scnt st = b_rcnt st div every \<Longrightarrow> replies_drain p every k ts st
   \<Longrightarrow> k + burst_size p \<le> tx_depth p \<Longrightarrow> b_scnt st' = b_rcnt st' div every"
proof (induction p every ts st rule: run_iter_lat_burst_server.induct)
  case (1 p every ts st)
  show ?case
  proof (cases "b_rcnt st < iters p \<and> ts \<noteq> []")
    case False
    then show ?thesis using "1.prems"(1,2) by (auto split: list.splits if_splits)
  next
    case True
    then obtain t ts' where ts: "ts = t # ts'" by (cases ts) auto
    with "1.prems"(1) True obtain st1 where one: "burst_server_turn p every t st = Inr st1"
      and rest: "run_iter_lat_burst_server p every ts' st1 = Inr (d, st')"
      by (auto split: sum.splits)
    have drain: "b_ccnt st \<le> b_scnt st" "b_scnt st - b_ccnt st \<le> k" "replies_drain p every k ts' st1"
      using "1.prems"(3) ts one by auto
    have "b_scnt st1 = b_rcnt st1 div every" using one
    proof (rule burst_server_turn_parts)
      fix ws ss st2
      assume poll: "poll_into p (burst_size p) (bt_recv t) = Inr ws" and rec: "burst_receives p every t ws st = Inr st2"
        and snd: "burst_sends ss st2 = Inr st1"
      have "b_scnt st - b_ccnt st + length ws \<le> tx_depth p" using poll_into_length [OF poll] drain(2) "1.prems"(4) by linarith
      then show ?thesis using burst_receives_replies [OF rec "1.prems"(2) drain(1)] burst_sends_keeps [OF snd] by simp
    qed
    then show ?thesis using "1.IH" [of t ts' st1] True ts one rest drain(3) "1.prems"(4) by auto
  qed
qed

section \<open>The client\<close>

lemma post_burst_enough:
  "iters p - totscnt' st < fuel \<Longrightarrow> 1 \<le> post_list p \<Longrightarrow> \<exists>r. post_burst fuel p every t st = Some r"
proof (induction fuel arbitrary: st)
  case 0
  then show ?case by simp
next
  case (Suc n)
  have "totscnt' (burst_post_one p every st) = totscnt' st + post_list p" by (simp add: burst_post_one_def Let_def)
  then have "totscnt' st < iters p \<Longrightarrow> iters p - totscnt' (burst_post_one p every st) < n" using Suc.prems by linarith
  then show ?case using Suc.IH [of "burst_post_one p every st"] Suc.prems(2) by auto
qed

lemma burst_client_turn_returns:
  assumes "1 \<le> post_list p" and "1 \<le> burst_size p"
  shows "burst_client_turn p every g t st \<noteq> None"
proof -
  have "iters p - totscnt' (begin_burst p g t st) < iters p + burst_size p" using assms(2) by linarith
  from post_burst_enough [OF this assms(1), of every t]
  obtain r where "post_burst (iters p + burst_size p) p every t (begin_burst p g t st) = Some r" by blast
  then show ?thesis by (cases r) (simp_all add: burst_client_turn_def)
qed

text \<open>A client that has had fewer replies than it waits for stays in its loop, whatever else it observes.\<close>

lemma waiting_client_runs: "totrcnt' st < totscnt' st div every \<Longrightarrow> client_running p every st"
  by (simp add: client_running_def)

section \<open>Properties\<close>

text \<open>
  C29. In the burst latency test the server answers every \<open>reply_every\<close>-th message, as long as its send queue keeps room for the
  replies to one batch: in every run from the start in which each turn begins with at most \<open>k\<close> uncompleted replies, where
  \<open>k + burst_size \<le> tx_depth\<close>, the replies sent are the messages received divided by \<open>reply_every\<close>, and the run ends
  only once all the iterations have been received.
\<close>

theorem burst_replies_complete:
  assumes "run_iter_lat_burst_server p every ts server_start = Inr (True, st)" and "replies_drain p every k ts server_start"
    and "k + burst_size p \<le> tx_depth p"
  shows "b_scnt st = b_rcnt st div every \<and> iters p \<le> b_rcnt st"
proof
  have start: "b_scnt server_start = b_rcnt server_start div every" by (simp add: server_start_def)
  show "b_scnt st = b_rcnt st div every" by (rule burst_server_run_replies [OF assms(1) start assms(2,3)])
  show "iters p \<le> b_rcnt st" using burst_server_run_owed [OF assms(1)] by (simp add: server_ok_def server_start_def)
qed

definition burst_demo :: perftest_parameters where
  "burst_demo = basic_params\<lparr> verb := SEND, tst := LAT_BY_BW, iters := 4, tx_depth := 20, burst_size := 16 \<rparr>"

definition burst_demo_turn :: burst_turn where
  "burst_demo_turn = \<lparr> bt_recv = Some [WC_good, WC_good], bt_send = Some [WC_good], bt_post_ok = True, bt_repost_ok = True \<rparr>"

lemmas burst_run_defs = burst_server_turn_def burst_receive_def poll_into_def has_room_def with_imm_def CTX_POLL_BATCH_def server_start_def Let_def

theorem burst_replies_complete_witness:
  "b_scnt \<lparr> b_scnt = 2, b_rcnt = 4, b_ccnt = 2 \<rparr> = b_rcnt \<lparr> b_scnt = 2, b_rcnt = 4, b_ccnt = 2 \<rparr> div 2
   \<and> iters burst_demo \<le> b_rcnt \<lparr> b_scnt = 2, b_rcnt = 4, b_ccnt = 2 \<rparr>"
  by (rule burst_replies_complete [where ts = "[burst_demo_turn, burst_demo_turn]" and k = 4])
    (simp_all add: burst_run_defs burst_demo_def basic_params_def burst_demo_turn_def)

text \<open>A turn that begins with a full send queue and completes the count of a reply loses that reply.\<close>

lemma full_queue_loses_reply:
  assumes "burst_server_turn p every t st = Inr st1" and "server_ok every st" and "bt_recv t = Some (w # ws)" and "0 < burst_size p"
    and "(b_rcnt st + 1) mod every = 0" and "\<not> has_room p (b_scnt st) (b_ccnt st)"
  shows "server_ok every st1 \<and> 0 < replies_owed every st1"
  using assms(1)
proof (rule burst_server_turn_parts)
  fix got ss st2
  assume poll: "poll_into p (burst_size p) (bt_recv t) = Inr got" and rec: "burst_receives p every t got st = Inr st2"
    and snd: "burst_sends ss st2 = Inr st1"
  from poll assms(3,4) obtain rest where got: "got = w # rest"
    by (cases "burst_size p") (auto simp: poll_into_def Let_def split: if_splits)
  from rec got obtain st3 where one: "burst_receive p every t w st = Inr st3" and more: "burst_receives p every t rest st3 = Inr st2"
    by (auto split: sum.splits)
  note step = burst_receive_cases [OF one] and ok = burst_receive_owed [OF one assms(2)]
  have "0 < replies_owed every st3" using step assms(2,5,6) div_step [of every "b_rcnt st"] by (simp add: replies_owed_def server_ok_def)
  then show ?thesis using burst_receives_owed [OF more] ok burst_sends_keeps [OF snd] by (auto simp: server_ok_def replies_owed_def)
qed

text \<open>
  C39. A reply that falls due while the server's send queue is full is never sent, and the client waits for it forever: after a
  turn that begins with a full queue and in which a reply falls due, every run of the server that ends has sent fewer
  replies than the client counts on, and a client that has sent all of those messages and has had every reply of
  the server is still in its loop.
\<close>

theorem lost_reply_hangs_client:
  assumes "burst_server_turn p every t st = Inr st1" and "server_ok every st" and "bt_recv t = Some (w # ws)" and "0 < burst_size p"
    and "(b_rcnt st + 1) mod every = 0" and "\<not> has_room p (b_scnt st) (b_ccnt st)"
    and "run_iter_lat_burst_server p every ts st1 = Inr (True, st')"
    and "totscnt' c = b_rcnt st'" and "totrcnt' c \<le> b_scnt st'"
  shows "b_scnt st' < b_rcnt st' div every \<and> client_running p every c"
proof -
  note lost = full_queue_loses_reply [OF assms(1-6)]
  have "0 < replies_owed every st'" using burst_server_run_owed [OF assms(7)] lost by linarith
  then have less: "b_scnt st' < b_rcnt st' div every" by (simp add: replies_owed_def)
  then show ?thesis using waiting_client_runs [of c every p] assms(8,9) by simp
qed

definition full_queue :: burst_server where
  "full_queue = \<lparr> b_scnt = 20, b_rcnt = 20, b_ccnt = 0 \<rparr>"

definition full_turn :: burst_turn where
  "full_turn = \<lparr> bt_recv = Some [WC_good], bt_send = Some [WC_good], bt_post_ok = True, bt_repost_ok = True \<rparr>"

definition waiting_client :: burst_client where
  "waiting_client = burst_start\<lparr> totscnt' := 21, totccnt' := 21, totrcnt' := 20 \<rparr>"

theorem lost_reply_hangs_client_witness:
  "b_scnt \<lparr> b_scnt = 20, b_rcnt = 21, b_ccnt = 1 \<rparr> < b_rcnt \<lparr> b_scnt = 20, b_rcnt = 21, b_ccnt = 1 \<rparr> div 1
   \<and> client_running (burst_demo\<lparr> iters := 21 \<rparr>) 1 waiting_client"
  by (rule lost_reply_hangs_client [where t = full_turn and st = full_queue and w = WC_good and ws = "[]" and ts = "[]"
        and ?st1.0 = "\<lparr> b_scnt = 20, b_rcnt = 21, b_ccnt = 1 \<rparr>"])
    (simp_all add: burst_run_defs burst_demo_def basic_params_def full_turn_def full_queue_def waiting_client_def burst_start_def server_ok_def)

text \<open>
  The server's array for completions has \<open>burst_size\<close> entries but the send queue is polled for up to sixteen: some turn writes
  behind the array exactly when \<open>burst_size\<close> is less than sixteen.
\<close>

theorem burst_array_bound:
  "(\<exists>t st. burst_server_turn p every t st = Inl Burst_overrun) \<longleftrightarrow> burst_size p < CTX_POLL_BATCH"
proof
  assume "burst_size p < CTX_POLL_BATCH"
  then have "burst_server_turn p every \<lparr> bt_recv = Some [], bt_send = Some (replicate CTX_POLL_BATCH WC_good), bt_post_ok = True, bt_repost_ok = True \<rparr>
    server_start = Inl Burst_overrun"
    by (simp add: burst_server_turn_def poll_into_def Let_def)
  then show "\<exists>t st. burst_server_turn p every t st = Inl Burst_overrun" by blast
next
  have rec: "burst_receives p every t ws st \<noteq> Inl Burst_overrun" for t ws st
    by (induction ws arbitrary: st) (auto simp: burst_receive_def Let_def split: sum.splits if_splits)
  have snd: "burst_sends ws st \<noteq> Inl Burst_overrun" for ws st
    by (induction ws arbitrary: st) auto
  have own: "poll_into p (burst_size p) ws \<noteq> Inl Burst_overrun" for ws
    by (auto simp: poll_into_def Let_def split: option.splits)
  assume "\<exists>t st. burst_server_turn p every t st = Inl Burst_overrun"
  then obtain t st where turn: "burst_server_turn p every t st = Inl Burst_overrun" by blast
  then have "poll_into p CTX_POLL_BATCH (bt_send t) = Inl Burst_overrun"
    using own [of "bt_recv t"] rec [of t _ st] snd
    by (cases "poll_into p (burst_size p) (bt_recv t)"; cases "poll_into p CTX_POLL_BATCH (bt_send t)")
      (auto simp: burst_server_turn_def split: sum.splits)
  then show "burst_size p < CTX_POLL_BATCH" by (auto simp: poll_into_def Let_def split: option.splits if_splits)
qed

end
