(* ===== verification/Packets.thy ===== *)
theory Packets
  imports Prelude
begin

text \<open>
  The packet headers of \<^verbatim>\<open>src/src/raw_ethernet_resources.c\<close> and \<^verbatim>\<open>raw_ethernet_resources.h\<close>: the header structures and their
  images in memory, the functions that fill them in, and the IP checksum.  The host is little-endian,
  as the bit-field layout and \<^verbatim>\<open>htons\<close> decide.  A buffer is a list of bytes; a copy that would leave
  the buffer has no result.

  The reference side is independent of it: a reader of frames that follows the network protocols (big-endian
  fields, the checksum of RFC 1071 with its end-around carry).
\<close>

section \<open>Byte order\<close>

definition htons :: "u16 \<Rightarrow> u16" where
  "htons w = push_bit 8 w OR drop_bit 8 w"

definition net_long :: "u32 \<Rightarrow> u32" where
  "net_long w = push_bit 24 w OR (push_bit 8 w AND 0xFF0000) OR (drop_bit 8 w AND 0xFF00) OR drop_bit 24 w"

text \<open>Images of integers in the memory of the host, and the 32-bit integer that four bytes hold.\<close>

definition mem16 :: "u16 \<Rightarrow> u8 list" where
  "mem16 w = [ucast w, ucast (drop_bit 8 w)]"

definition mem32 :: "u32 \<Rightarrow> u8 list" where
  "mem32 w = [ucast w, ucast (drop_bit 8 w), ucast (drop_bit 16 w), ucast (drop_bit 24 w)]"

definition int32 :: "u8 \<Rightarrow> u8 \<Rightarrow> u8 \<Rightarrow> u8 \<Rightarrow> u32" where
  "int32 a b c d = ucast a + ucast b * 2 ^ 8 + ucast c * 2 ^ 16 + ucast d * 2 ^ 24"

fun raw_words :: "u8 list \<Rightarrow> u32 list" where
  "raw_words (a # b # c # d # bs) = int32 a b c d # raw_words bs"
| "raw_words bs = []"

section \<open>Header structures\<close>

record IP_V4_header =
  ihl :: "4 word"
  ip_version :: "4 word"
  ip_tos :: u8
  tot_len :: u16
  ip_id :: u16
  frag_off :: u16
  ttl :: u8
  protocol :: u8
  check :: u16
  saddr :: u32
  daddr :: u32

record IP_V6_header =
  priority :: "4 word"
  ip6_version :: "4 word"
  flow_lbl :: "u8 list"
  payload_len :: u16
  nexthdr :: u8
  ip6_hop_limit :: u8
  saddr6 :: "u8 list"
  daddr6 :: "u8 list"

record UDP_header =
  uh_sport :: u16
  uh_dport :: u16
  uh_ulen :: u16
  uh_sum :: u16

record TCP_header =
  th_sport :: u16
  th_dport :: u16
  th_seq :: u32
  th_ack :: u32
  th_rsv :: "4 word"
  th_doff :: "4 word"
  th_falgs :: u8
  th_window :: u16
  th_check :: u16
  th_urgptr :: u16

abbreviation (input) sizeof_ETH_header :: nat where "sizeof_ETH_header \<equiv> 14"
abbreviation (input) sizeof_ETH_vlan_header :: nat where "sizeof_ETH_vlan_header \<equiv> 18"
abbreviation (input) sizeof_IP_V4_header :: nat where "sizeof_IP_V4_header \<equiv> 20"
abbreviation (input) sizeof_IP_V6_header :: nat where "sizeof_IP_V6_header \<equiv> 40"
abbreviation (input) sizeof_UDP_header :: nat where "sizeof_UDP_header \<equiv> 8"
abbreviation (input) sizeof_TCP_header :: nat where "sizeof_TCP_header \<equiv> 20"

text \<open>Two bit fields of four bits: the first one declared is the low half of the byte.\<close>

definition nibbles :: "4 word \<Rightarrow> 4 word \<Rightarrow> u8" where
  "nibbles low high = ucast low + ucast high * 2 ^ 4"

definition v4_image :: "IP_V4_header \<Rightarrow> u8 list" where
  "v4_image h = [nibbles (ihl h) (ip_version h), ip_tos h] @ mem16 (tot_len h) @ mem16 (ip_id h) @ mem16 (frag_off h) @
     [ttl h, protocol h] @ mem16 (check h) @ mem32 (saddr h) @ mem32 (daddr h)"

definition v6_image :: "IP_V6_header \<Rightarrow> u8 list" where
  "v6_image h = [nibbles (priority h) (ip6_version h)] @ flow_lbl h @ mem16 (payload_len h) @ [nexthdr h, ip6_hop_limit h] @
     saddr6 h @ daddr6 h"

definition udp_image :: "UDP_header \<Rightarrow> u8 list" where
  "udp_image h = mem16 (uh_sport h) @ mem16 (uh_dport h) @ mem16 (uh_ulen h) @ mem16 (uh_sum h)"

definition tcp_image :: "TCP_header \<Rightarrow> u8 list" where
  "tcp_image h = mem16 (th_sport h) @ mem16 (th_dport h) @ mem32 (th_seq h) @ mem32 (th_ack h) @
     [nibbles (th_rsv h) (th_doff h), th_falgs h] @ mem16 (th_window h) @ mem16 (th_check h) @ mem16 (th_urgptr h)"

section \<open>Checksum\<close>

fun sum_words :: "u32 list \<Rightarrow> nat \<Rightarrow> u64 \<Rightarrow> u64" where
  "sum_words raw 0 sm = sm"
| "sum_words raw (Suc idx) sm = sum_words raw idx (sm + ucast (raw ! idx))"

lemma unat_and_ffff: "unat (sm AND 0xFFFF :: u64) = unat sm mod 65536"
proof -
  have "sm AND 0xFFFF = sm mod 65536" using take_bit_eq_mask [of 16 sm] by (simp add: mask_eq_exp_minus_1 take_bit_eq_mod)
  then show ?thesis by (simp add: unat_mod_word)
qed

lemma unat_shift16: "unat (drop_bit 16 sm :: u64) = unat sm div 65536"
  by (simp add: drop_bit_eq_div unat_div_word)

lemma unat_fold_once: "unat ((sm AND 0xFFFF) + drop_bit 16 sm :: u64) = unat sm mod 65536 + unat sm div 65536"
proof -
  have "unat sm mod 65536 + unat sm div 65536 < 2 ^ 64"
    using unat_lt_u64 [of sm] mod_less_divisor [of 65536 "unat sm"] div_le_dividend [of "unat sm" 65536]
    by (simp add: less_mult_imp_div_less)
  then show ?thesis by (subst unat_add_exact) (simp_all add: unat_and_ffff unat_shift16)
qed

function fold_carry :: "u64 \<Rightarrow> u64" where
  "fold_carry sm = (if drop_bit 16 sm \<noteq> 0 then fold_carry ((sm AND 0xFFFF) + drop_bit 16 sm) else sm)"
  by auto

termination
proof (relation "measure unat")
  fix sm :: u64
  assume "drop_bit 16 sm \<noteq> 0"
  then have "unat sm div 65536 \<noteq> 0" by (simp add: unat_shift16 [symmetric] unat_eq_zero)
  moreover have "unat sm = unat sm div 65536 * 65536 + unat sm mod 65536" by simp
  ultimately have "unat sm mod 65536 + unat sm div 65536 < unat sm" by linarith
  then show "((sm AND 0xFFFF) + drop_bit 16 sm, sm) \<in> measure unat" by (simp only: in_measure unat_fold_once)
qed simp

declare fold_carry.simps [simp del]

definition ip_checksum :: "u32 list \<Rightarrow> nat \<Rightarrow> u16" where
  "ip_checksum raw hdr_len = ucast (NOT (fold_carry (sum_words raw (hdr_len div 4) 0)))"

section \<open>Header generation\<close>

abbreviation DEF_TOS :: int where "DEF_TOS \<equiv> - 1"
abbreviation DEFAULT_IPV6_NEXT_HDR :: u8 where "DEFAULT_IPV6_NEXT_HDR \<equiv> 0x3b"

text \<open>
  The address arguments of the IPv6 header are 16 bytes long; \<open>tos\<close> is an argument that the code does not use.
  The length is reduced for a transport header after it has been brought into network order.
\<close>

definition gen_ipv6_header :: "u8 list \<Rightarrow> u8 list \<Rightarrow> u8 \<Rightarrow> int \<Rightarrow> int \<Rightarrow> int \<Rightarrow> bool \<Rightarrow> bool \<Rightarrow> u8 list" where
  "gen_ipv6_header src dst proto pkt_size hops tos is_l4 is_tcp =
     (let len0 = htons (word_of_int (pkt_size - int sizeof_IP_V6_header));
          len = (if is_l4 then (if is_tcp then len0 - of_nat sizeof_TCP_header else len0 - of_nat sizeof_UDP_header) else len0)
      in v6_image \<lparr> priority = 0, ip6_version = 6, flow_lbl = [0, 0, 0], payload_len = len,
           nexthdr = (if proto \<noteq> 0 then proto else DEFAULT_IPV6_NEXT_HDR), ip6_hop_limit = word_of_int hops,
           saddr6 = src, daddr6 = dst \<rparr>)"

definition gen_ipv4_header :: "u32 \<Rightarrow> u32 \<Rightarrow> u8 \<Rightarrow> int \<Rightarrow> int \<Rightarrow> int \<Rightarrow> nat \<Rightarrow> u8 list" where
  "gen_ipv4_header src dst proto pkt_size hops tos flows_offset =
     (let h = \<lparr> ihl = 5, ip_version = 4, ip_tos = (if tos = DEF_TOS then 0 else word_of_int tos),
                tot_len = htons (word_of_int pkt_size), ip_id = htons 0, frag_off = htons 0, ttl = word_of_int hops,
                protocol = proto, check = 0, saddr = src, daddr = dst \<rparr>
      in v4_image (h\<lparr> check := ip_checksum (raw_words (v4_image h)) sizeof_IP_V4_header \<rparr>))"

definition gen_udp_header :: "int \<Rightarrow> int \<Rightarrow> int \<Rightarrow> u8 list" where
  "gen_udp_header src_port dst_port pkt_size =
     udp_image \<lparr> uh_sport = htons (word_of_int src_port), uh_dport = htons (word_of_int dst_port),
       uh_ulen = htons (word_of_int (pkt_size - int sizeof_IP_V4_header)), uh_sum = 0 \<rparr>"

definition gen_tcp_header :: "int \<Rightarrow> int \<Rightarrow> u8 list" where
  "gen_tcp_header src_port dst_port =
     tcp_image \<lparr> th_sport = htons (word_of_int src_port), th_dport = htons (word_of_int dst_port), th_seq = 0, th_ack = 0,
       th_rsv = 0, th_doff = 5, th_falgs = 0, th_window = htons 8192, th_check = 0, th_urgptr = 0 \<rparr>"

section \<open>Reference: frames on the network\<close>

definition be16 :: "u8 \<Rightarrow> u8 \<Rightarrow> u16" where
  "be16 hi lo = ucast hi * 2 ^ 8 + ucast lo"

text \<open>RFC 1071: the 16-bit words of the header are added with end-around carry; the sum of a valid header is all ones.\<close>

definition oc_add :: "nat \<Rightarrow> nat \<Rightarrow> nat" where
  "oc_add a b = (a + b) mod 65536 + (a + b) div 65536"

fun oc_sum :: "u8 list \<Rightarrow> nat" where
  "oc_sum (a # b # bs) = oc_add (oc_sum bs) (unat (be16 a b))"
| "oc_sum bs = 0"

definition checksum_valid :: "u8 list \<Rightarrow> bool" where
  "checksum_valid bs \<longleftrightarrow> oc_sum bs = 65535"

record ip_info =
  i_tos :: u8
  i_len :: u16
  i_hops :: u8
  i_proto :: u8
  i_src :: "u8 list"
  i_dst :: "u8 list"
  i_label :: u32

definition read_ipv4 :: "u8 list \<Rightarrow> ip_info option" where
  "read_ipv4 bs =
     (if 20 \<le> length bs \<and> bs ! 0 = 0x45 \<and> checksum_valid (take 20 bs)
      then Some \<lparr> i_tos = bs ! 1, i_len = be16 (bs ! 2) (bs ! 3), i_hops = bs ! 8, i_proto = bs ! 9,
             i_src = take 4 (drop 12 bs), i_dst = take 4 (drop 16 bs), i_label = 0 \<rparr>
      else None)"

text \<open>The traffic class of IPv6 is four bits of the first and four of the second byte, the flow label the twenty bits behind it.\<close>

definition read_ipv6 :: "u8 list \<Rightarrow> ip_info option" where
  "read_ipv6 bs =
     (if 40 \<le> length bs \<and> drop_bit 4 (bs ! 0) = 6
      then Some \<lparr> i_tos = push_bit 4 (bs ! 0) OR drop_bit 4 (bs ! 1), i_len = be16 (bs ! 4) (bs ! 5), i_hops = bs ! 7,
             i_proto = bs ! 6, i_src = take 16 (drop 8 bs), i_dst = take 16 (drop 24 bs),
             i_label = push_bit 16 (ucast (bs ! 1 AND 0xf)) OR push_bit 8 (ucast (bs ! 2)) OR ucast (bs ! 3) \<rparr>
      else None)"

definition read_ports :: "u8 list \<Rightarrow> (u16 \<times> u16) option" where
  "read_ports bs = (if 4 \<le> length bs then Some (be16 (bs ! 0) (bs ! 1), be16 (bs ! 2) (bs ! 3)) else None)"


section \<open>Byte order facts\<close>

lemma unat_be16: "unat (be16 hi lo) = 256 * unat hi + unat lo"
proof -
  have hi: "unat (ucast hi :: u16) = unat hi" and lo: "unat (ucast lo :: u16) = unat lo"
    by (simp_all add: unat_ucast_up)
  have b: "unat hi < 256" "unat lo < 256" using unat_lt_len [of hi] unat_lt_len [of lo] by simp_all
  have m: "unat (ucast hi * 2 ^ 8 :: u16) = unat hi * 256"
    using b by (subst unat_mult_exact) (simp_all add: hi)
  show ?thesis unfolding be16_def using b by (subst unat_add_exact) (simp_all add: m [simplified] lo)
qed

lemma unat_low_byte: "unat (ucast w :: u8) = unat w mod 256" for w :: u16
  by (simp add: unsigned_ucast_eq take_bit_eq_mod)

lemma unat_high_byte: "unat (ucast (drop_bit 8 w) :: u8) = unat w div 256" for w :: u16
proof -
  have "unat (drop_bit 8 w) = unat w div 256" by (simp add: drop_bit_eq_div unat_div_word)
  moreover have "unat w div 256 < 256" using unat_lt_len [of w] by (simp add: less_mult_imp_div_less)
  ultimately show ?thesis by (simp add: unsigned_ucast_eq take_bit_eq_mod)
qed

lemma be16_bytes [simp]: "be16 (ucast (drop_bit 8 w)) (ucast w) = w"
  by (simp only: word_unat_eq_iff unat_be16 unat_high_byte) (simp add: unat_low_byte)

lemma mem16_htons: "mem16 (htons w) = [ucast (drop_bit 8 w), ucast w]"
proof -
  have "(ucast (htons w) :: u8) = ucast (drop_bit 8 w)" "(ucast (drop_bit 8 (htons w)) :: u8) = ucast w"
    by (rule bit_word_eqI; auto simp: htons_def bit_simps)+
  then show ?thesis by (simp add: mem16_def)
qed

lemma unat_int32: "unat (int32 a b c d) = unat a + 256 * unat b + 65536 * unat c + 16777216 * unat d"
proof -
  have u: "unat (ucast x :: u32) = unat x" for x :: u8 by (simp add: unat_ucast_up)
  have lt: "unat x < 256" for x :: u8 using unat_lt_len [of x] by simp
  have m: "unat (ucast x * 2 ^ k :: u32) = unat x * 2 ^ k" if "k \<le> 24" for x :: u8 and k
  proof -
    have "(2 :: nat) ^ k < 2 ^ 32" using that by (intro power_strict_increasing) simp_all
    then have p: "unat (2 ^ k :: u32) = 2 ^ k" using unat_of_nat [where 'a = 32, of "2 ^ k"] by simp
    have "unat x * 2 ^ k < 256 * 2 ^ k" using lt [of x] by simp
    also have "\<dots> \<le> 256 * 2 ^ 24" using that by (intro mult_le_mono2 power_increasing) simp_all
    finally show ?thesis by (subst unat_mult_exact) (simp_all add: u p)
  qed
  have s: "unat a + unat b * 2 ^ 8 + unat c * 2 ^ 16 + unat d * 2 ^ 24 < 2 ^ 32"
    using lt [of a] lt [of b] lt [of c] lt [of d] by simp
  have s1: "unat (ucast a + ucast b * 2 ^ 8 :: u32) = unat a + unat b * 2 ^ 8"
    using s by (subst unat_add_exact) (simp_all only: u m, simp_all)
  have s2: "unat (ucast a + ucast b * 2 ^ 8 + ucast c * 2 ^ 16 :: u32) = unat a + unat b * 2 ^ 8 + unat c * 2 ^ 16"
    using s by (subst unat_add_exact) (simp_all only: s1 m, simp_all)
  show ?thesis unfolding int32_def using s by (subst unat_add_exact) (simp_all only: s2 m, simp_all)
qed


section \<open>The checksum is valid\<close>

text \<open>Sums of the 16-bit words of a header, read in either byte order.\<close>

fun be_sum :: "u8 list \<Rightarrow> nat" where
  "be_sum (a # b # bs) = 256 * unat a + unat b + be_sum bs"
| "be_sum bs = 0"

fun le_sum :: "u8 list \<Rightarrow> nat" where
  "le_sum (a # b # bs) = unat a + 256 * unat b + le_sum bs"
| "le_sum bs = 0"

lemma be_sum_cong: "be_sum bs mod 65535 = 256 * le_sum bs mod 65535"
proof (induction bs rule: be_sum.induct)
  case (1 a b bs)
  have "256 * (unat a + 256 * unat b + le_sum bs) = 65535 * unat b + (256 * unat a + unat b + 256 * le_sum bs)" by simp
  then have "256 * (unat a + 256 * unat b + le_sum bs) mod 65535 = (256 * unat a + unat b + 256 * le_sum bs) mod 65535"
    by (metis mod_mult_self4)
  also have "\<dots> = (256 * unat a + unat b + be_sum bs) mod 65535" using 1 by (metis mod_add_right_eq)
  finally show ?case by simp
qed simp_all

lemma raw_words_sum: "4 dvd length bs \<Longrightarrow> sum_list (map unat (raw_words bs)) mod 65535 = le_sum bs mod 65535"
proof (induction bs rule: raw_words.induct)
  case (1 a b c d bs)
  let ?s = "sum_list (map unat (raw_words bs))"
  from 1(2) have "4 dvd length bs" by (simp, presburger)
  then have IH: "?s mod 65535 = le_sum bs mod 65535" by (rule 1(1))
  have "unat (int32 a b c d) + ?s = 65535 * (unat c + 256 * unat d) + (unat a + 256 * unat b + (unat c + 256 * unat d) + ?s)"
    by (simp add: unat_int32)
  then have "(unat (int32 a b c d) + ?s) mod 65535 = (unat a + 256 * unat b + (unat c + 256 * unat d) + ?s) mod 65535"
    by (metis mod_mult_self4)
  also have "\<dots> = (unat a + 256 * unat b + (unat c + 256 * unat d) + le_sum bs) mod 65535"
    using IH by (metis mod_add_right_eq)
  finally show ?case by (simp add: add.assoc)
qed (auto dest: dvd_imp_le)

lemma fold_carry_mod: "unat (fold_carry sm) mod 65535 = unat sm mod 65535"
proof (induction sm rule: fold_carry.induct)
  case (1 sm)
  show ?case
  proof (cases "drop_bit 16 sm = 0")
    case False
    have "unat sm = 65535 * (unat sm div 65536) + (unat sm mod 65536 + unat sm div 65536)"
      using div_mult_mod_eq [of "unat sm" 65536] by linarith
    then have "(unat sm mod 65536 + unat sm div 65536) mod 65535 = unat sm mod 65535" by (metis mod_mult_self4)
    with 1 [OF False] False show ?thesis by (subst fold_carry.simps) (simp only: unat_fold_once if_True not_False_eq_True)
  qed (simp add: fold_carry.simps)
qed

lemma fold_carry_bound: "unat (fold_carry sm) < 65536"
proof (induction sm rule: fold_carry.induct)
  case (1 sm)
  show ?case
  proof (cases "drop_bit 16 sm = 0")
    case True
    then have "unat sm div 65536 = 0" by (simp add: unat_shift16 [symmetric])
    with True show ?thesis by (subst fold_carry.simps) (simp add: div_eq_0_iff)
  qed (use 1 in \<open>subst fold_carry.simps, simp\<close>)
qed

lemma fold_carry_pos: "0 < unat sm \<Longrightarrow> 0 < unat (fold_carry sm)"
proof (induction sm rule: fold_carry.induct)
  case (1 sm)
  have "0 < unat sm mod 65536 + unat sm div 65536" using 1(2) div_mult_mod_eq [of "unat sm" 65536] by linarith
  with 1 show ?case by (subst fold_carry.simps) (simp add: unat_fold_once [symmetric] del: unat_gt_0)
qed


lemma sum_words_exact:
  "idx \<le> length raw \<Longrightarrow> unat sm + idx * 2 ^ 32 < 2 ^ 64 \<Longrightarrow> unat (sum_words raw idx sm) = unat sm + sum_list (map unat (take idx raw))"
proof (induction idx arbitrary: sm)
  case (Suc idx)
  let ?w = "raw ! idx"
  have w: "unat ?w < 2 ^ 32" using unat_lt_u32 [of ?w] by simp
  have add: "unat (sm + ucast ?w :: u64) = unat sm + unat ?w"
    using w Suc.prems(2) by (subst unat_add_exact) (simp_all add: unat_u32_to_u64)
  have "unat (sm + ucast ?w) + idx * 2 ^ 32 < 2 ^ 64" using Suc.prems(2) w by (simp add: add)
  with Suc have "unat (sum_words raw (Suc idx) sm) = unat sm + unat ?w + sum_list (map unat (take idx raw))"
    by (simp add: add)
  with Suc.prems(1) show ?case by (simp add: take_Suc_conv_app_nth)
qed simp

lemma unat_not_u16: "unat (ucast (NOT sm) :: u16) = 65535 - unat sm" if "unat sm < 65536" for sm :: u64
proof -
  have "(ucast (NOT sm) :: u16) = NOT (ucast sm)" by (rule bit_word_eqI) (auto simp: bit_simps)
  moreover have "unat (NOT x) = 65535 - unat x" for x :: u16
  proof -
    have "NOT x = - 1 - x" by (simp add: not_eq_complement)
    moreover have "unat (- 1 - x) = unat (- 1 :: u16) - unat x" by (rule unat_sub) simp
    ultimately show ?thesis by (simp add: unsigned_minus_1_eq_mask mask_eq_exp_minus_1)
  qed
  moreover have "unat (ucast sm :: u16) = unat sm" using that by (simp add: unat_ucast_exact)
  ultimately show ?thesis by simp
qed

lemma oc_add_spec:
  assumes "a < 65536" "b < 65536"
  shows "oc_add a b < 65536" "oc_add a b mod 65535 = (a + b) mod 65535" "oc_add a b = 0 \<longleftrightarrow> a + b = 0"
proof -
  have s: "a + b = (a + b) div 65536 * 65536 + (a + b) mod 65536" by simp
  have q: "(a + b) div 65536 \<le> 1" using assms by linarith
  show "oc_add a b < 65536" unfolding oc_add_def using assms s q by linarith
  have "a + b = 65535 * ((a + b) div 65536) + oc_add a b" unfolding oc_add_def using s by linarith
  then show "oc_add a b mod 65535 = (a + b) mod 65535" by (metis mod_mult_self4)
  show "oc_add a b = 0 \<longleftrightarrow> a + b = 0" unfolding oc_add_def using s by linarith
qed

lemma unat_be16_bound: "unat (be16 a b) < 65536"
  using unat_lt_len [of "be16 a b"] by simp

lemma oc_sum_spec: "oc_sum bs < 65536 \<and> oc_sum bs mod 65535 = be_sum bs mod 65535 \<and> (oc_sum bs = 0 \<longleftrightarrow> be_sum bs = 0)"
proof (induction bs rule: be_sum.induct)
  case (1 a b bs)
  note o = oc_add_spec [of "oc_sum bs" "unat (be16 a b)", OF _ unat_be16_bound]
  have "(oc_sum bs + unat (be16 a b)) mod 65535 = (be_sum bs + unat (be16 a b)) mod 65535"
    using 1 by (metis mod_add_left_eq)
  with 1 o show ?case by (simp add: unat_be16 add.commute)
qed simp_all

lemma checksum_validI:
  assumes "le_sum bs mod 65535 = 0" "0 < be_sum bs"
  shows "checksum_valid bs"
proof -
  have "be_sum bs mod 65535 = 0" using be_sum_cong [of bs] assms(1) by (metis mod_mult_right_eq mult_0_right mod_0)
  with oc_sum_spec [of bs] assms(2) have "oc_sum bs < 65536" "oc_sum bs mod 65535 = 0" "0 < oc_sum bs" by auto
  then show ?thesis unfolding checksum_valid_def by (cases "oc_sum bs < 65535") simp_all
qed


lemma length_images [simp]:
  "length (mem16 w) = 2" "length (mem32 v) = 4" "length (v4_image h) = 20" "length (udp_image u) = 8" "length (tcp_image t) = 20"
  by (simp_all add: mem16_def mem32_def v4_image_def udp_image_def tcp_image_def)

lemma bytes_of_u16: "unat (ucast w :: u8) + 256 * unat (ucast (drop_bit 8 w) :: u8) = unat w" for w :: u16
  by (simp only: unat_high_byte) (simp add: unat_low_byte)

lemma le_sum_check: "le_sum (v4_image (h\<lparr> check := c \<rparr>)) = le_sum (v4_image (h\<lparr> check := 0 \<rparr>)) + unat c"
proof -
  let ?rest = "le_sum ([nibbles (ihl h) (ip_version h), ip_tos h] @ mem16 (tot_len h) @ mem16 (ip_id h) @ mem16 (frag_off h) @ [ttl h, protocol h]) +
    le_sum (mem32 (saddr h) @ mem32 (daddr h))"
  have "le_sum (v4_image (h\<lparr> check := c \<rparr>)) = ?rest + (unat (ucast c :: u8) + 256 * unat (ucast (drop_bit 8 c) :: u8))" for c
    by (simp add: v4_image_def mem16_def mem32_def)
  then show ?thesis by (simp only: bytes_of_u16) simp
qed

lemma header_checksum:
  assumes "check h = 0" "0 < be_sum (v4_image h)"
  shows "checksum_valid (v4_image (h\<lparr> check := ip_checksum (raw_words (v4_image h)) 20 \<rparr>))"
proof (rule checksum_validI)
  let ?raw = "raw_words (v4_image h)" and ?c = "ip_checksum (raw_words (v4_image h)) 20"
  have h0: "h\<lparr> check := 0 \<rparr> = h" using assms(1) by simp
  have len: "length ?raw = 5" by (simp add: v4_image_def mem16_def mem32_def)
  let ?s = "sum_words ?raw 5 0"
  have "unat ?s = sum_list (map unat ?raw)" using sum_words_exact [of 5 ?raw 0] len by simp
  moreover have "sum_list (map unat ?raw) mod 65535 = le_sum (v4_image h) mod 65535" by (rule raw_words_sum) simp
  ultimately have f: "unat (fold_carry ?s) mod 65535 = le_sum (v4_image h) mod 65535" by (simp add: fold_carry_mod)
  have b: "unat (fold_carry ?s) < 65536" by (rule fold_carry_bound)
  have "?c = ucast (NOT (fold_carry ?s))" by (simp add: ip_checksum_def)
  then have c: "unat ?c = 65535 - unat (fold_carry ?s)" using unat_not_u16 [OF b] by simp
  have "(le_sum (v4_image h) + (65535 - unat (fold_carry ?s))) mod 65535 = (unat (fold_carry ?s) + (65535 - unat (fold_carry ?s))) mod 65535"
    using f by (metis mod_add_left_eq)
  also have "\<dots> = 0" using b by simp
  finally show "le_sum (v4_image (h\<lparr> check := ?c \<rparr>)) mod 65535 = 0" using le_sum_check [where h = h and c = ?c] h0 c by simp
  have "be_sum (v4_image h) \<le> be_sum (v4_image (h\<lparr> check := ?c \<rparr>))" by (subst h0 [symmetric]) (simp add: v4_image_def mem16_def mem32_def)
  with assms(2) show "0 < be_sum (v4_image (h\<lparr> check := ?c \<rparr>))" by simp
qed

lemma read_gen_ipv4 [simp]:
  "read_ipv4 (gen_ipv4_header src dst proto pkt_size hops tos flow @ rest) =
     Some \<lparr> i_tos = (if tos = DEF_TOS then 0 else word_of_int tos), i_len = word_of_int pkt_size, i_hops = word_of_int hops,
       i_proto = proto, i_src = mem32 src, i_dst = mem32 dst, i_label = 0 \<rparr>"
proof -
  let ?h = "\<lparr> ihl = 5, ip_version = 4, ip_tos = (if tos = DEF_TOS then 0 else word_of_int tos),
                tot_len = htons (word_of_int pkt_size), ip_id = htons 0, frag_off = htons 0, ttl = word_of_int hops,
                protocol = proto, check = 0, saddr = src, daddr = dst \<rparr>"
  let ?c = "ip_checksum (raw_words (v4_image ?h)) 20"
  let ?bs = "v4_image (?h\<lparr> check := ?c \<rparr>)"
  have first: "nibbles 5 4 = 0x45" by (simp add: nibbles_def)
  have "checksum_valid ?bs" by (rule header_checksum) (simp_all add: v4_image_def first)
  moreover have "gen_ipv4_header src dst proto pkt_size hops tos flow = ?bs" by (simp add: gen_ipv4_header_def Let_def)
  moreover obtain c0 c1 where "mem16 ?c = [c0, c1]" by (simp add: mem16_def)
  ultimately show ?thesis
    unfolding read_ipv4_def by (simp add: v4_image_def mem16_htons mem32_def first nth_append)
qed


lemma be16_swapped: "be16 (ucast w) (ucast (drop_bit 8 w)) = htons w"
proof -
  have "(ucast (htons w) :: u8) = ucast (drop_bit 8 w)" "(ucast (drop_bit 8 (htons w)) :: u8) = ucast w"
    using mem16_htons [of w] by (simp_all add: mem16_def)
  then show ?thesis using be16_bytes [of "htons w"] by (simp del: be16_bytes)
qed

lemma htons_htons [simp]: "htons (htons w) = w"
  by (rule bit_word_eqI) (auto simp: htons_def bit_simps)

lemma read_ipv6_bytes:
  assumes "length src = 16" "length dst = 16"
  shows "read_ipv6 (0x60 # 0 # 0 # 0 # mem16 len @ x # y # src @ dst @ rest) =
    Some \<lparr> i_tos = 0, i_len = htons len, i_hops = y, i_proto = x, i_src = src, i_dst = dst, i_label = 0 \<rparr>"
  using assms by (simp add: read_ipv6_def mem16_def be16_swapped)

lemma read_gen_ipv6 [simp]:
  assumes "length src = 16" "length dst = 16"
  shows "read_ipv6 (gen_ipv6_header src dst proto pkt_size hops tos is_l4 is_tcp @ rest) =
    Some \<lparr> i_tos = 0,
      i_len = (let n = htons (word_of_int (pkt_size - 40)) in htons (if is_l4 then (if is_tcp then n - 20 else n - 8) else n)),
      i_hops = word_of_int hops, i_proto = (if proto \<noteq> 0 then proto else DEFAULT_IPV6_NEXT_HDR), i_src = src, i_dst = dst, i_label = 0 \<rparr>"
proof -
  have first: "nibbles 0 6 = 0x60" by (simp add: nibbles_def)
  show ?thesis
    unfolding gen_ipv6_header_def Let_def v6_image_def using read_ipv6_bytes [OF assms] by (simp add: first)
qed

lemma read_gen_ports [simp]:
  "read_ports (gen_udp_header s d n @ rest) = Some (word_of_int s, word_of_int d)"
  "read_ports (gen_tcp_header s d @ rest) = Some (word_of_int s, word_of_int d)"
  by (simp_all add: read_ports_def gen_udp_header_def gen_tcp_header_def udp_image_def tcp_image_def mem16_htons)


lemma length_gen [simp]:
  "length (gen_ipv4_header a b pr n h t i) = 20" "length (gen_udp_header s d n) = 8" "length (gen_tcp_header s d) = 20"
  "length src = 16 \<Longrightarrow> length dst = 16 \<Longrightarrow> length (gen_ipv6_header src dst pr n h t l4 tc) = 40"
  by (simp_all add: gen_ipv4_header_def gen_udp_header_def gen_tcp_header_def gen_ipv6_header_def v6_image_def Let_def)

section \<open>Properties of single headers\<close>

text \<open>
  C23. The checksum that \<open>ip_checksum\<close> computes over 32-bit words in host order makes the generated IPv4 header valid
  for a receiver that adds its 16-bit words in network order with end-around carry, and this receiver
  reads the fields that were asked for.
\<close>

theorem ipv4_header_is_valid:
  "checksum_valid (gen_ipv4_header src dst proto pkt_size hops tos flow) \<and>
   read_ipv4 (gen_ipv4_header src dst proto pkt_size hops tos flow @ rest) =
     Some \<lparr> i_tos = (if tos = DEF_TOS then 0 else word_of_int tos), i_len = word_of_int pkt_size, i_hops = word_of_int hops,
       i_proto = proto, i_src = mem32 src, i_dst = mem32 dst, i_label = 0 \<rparr>"
  using read_gen_ipv4 [of src dst proto pkt_size hops tos flow rest] by (simp add: read_ipv4_def split: if_splits)

lemma unat_htons: "unat (htons w) = 256 * (unat w mod 256) + unat w div 256"
  using arg_cong [OF be16_swapped [of w], of unat] by (simp only: unat_be16 unat_high_byte) (simp add: unat_low_byte)

lemma digits_256: "256 * a + b = 256 * c + d \<Longrightarrow> b < 256 \<Longrightarrow> d < 256 \<Longrightarrow> a = c \<and> b = (d :: nat)"
  by (cases "a < c"; cases "a = c") linarith+

text \<open>Adding \<open>k\<close> to a two-digit number does not commute with swapping its digits.\<close>

lemma swap_add_low:
  assumes "256 * c + d = 256 * a + b + k \<or> 256 * c + d + 65536 = 256 * a + b + k"
    "a < 256" "b < 256" "c < 256" "d < (256 :: nat)" "k < 256"
  shows "if b + k < 256 then c = a else c = a + 1 \<or> c + 256 = a + 1"
  using assms digits_256 [of c d a "b + k"] digits_256 [of "c + 256" d a "b + k"]
    digits_256 [of c d "a + 1" "b + k - 256"] digits_256 [of "c + 256" d "a + 1" "b + k - 256"]
  by (auto simp: algebra_simps)

lemma swap_add:
  assumes w: "256 * c + d = 256 * a + b + k \<or> 256 * c + d + 65536 = 256 * a + b + k"
    and s: "256 * d + c = 256 * b + a + k \<or> 256 * d + c + 65536 = 256 * b + a + k"
    and b: "a < 256" "b < 256" "c < 256" "d < (256 :: nat)" "1 < k" "k < 256"
  shows False
proof (cases "a + k < 256")
  case True
  then have "c = a + k" using s b digits_256 [of d c b "a + k"] digits_256 [of "d + 256" c b "a + k"] by (auto simp: algebra_simps)
  with swap_add_low [OF w b(1-4,6)] b True show False by (auto split: if_splits)
next
  case False
  then have "c = a + k - 256"
    using s b digits_256 [of d c "b + 1" "a + k - 256"] digits_256 [of "d + 256" c "b + 1" "a + k - 256"] by (auto simp: algebra_simps)
  with swap_add_low [OF w b(1-4,6)] b False show False by (auto split: if_splits)
qed

lemma unat_add_cases:
  "unat (v + of_nat k :: u16) = unat v + k \<or> unat (v + of_nat k) + 65536 = unat v + k" if "k < 256"
proof -
  have k: "unat (of_nat k :: u16) = k" using that by (simp add: unat_of_nat)
  have "unat v + k < 2 * 65536" using unat_lt_len [of v] that by simp
  then have "(unat v + k) mod 65536 = (if unat v + k < 65536 then unat v + k else unat v + k - 65536)"
    by (auto simp: le_mod_geq not_less)
  then show ?thesis by (auto simp: unat_word_ariths k)
qed

text \<open>Taking \<open>k\<close> off a length in network order never takes \<open>k\<close> off the length.\<close>

lemma swapped_subtraction:
  assumes "1 < k" "k < (256 :: nat)"
  shows "htons (htons w - of_nat k) \<noteq> w" "htons (htons w - of_nat k) \<noteq> w - of_nat k"
proof -
  have "(of_nat k :: u16) \<noteq> 0" using assms by (simp add: word_eq_0_iff_unat unat_of_nat)
  then show "htons (htons w - of_nat k) \<noteq> w" by (metis htons_htons diff_eq_eq add_cancel_right_right)
  show "htons (htons w - of_nat k) \<noteq> w - of_nat k"
  proof
    assume a: "htons (htons w - of_nat k) = w - of_nat k"
    define v where "v = w - of_nat k"
    have w: "w = v + of_nat k" by (simp add: v_def)
    have "htons w - of_nat k = htons v" using a by (metis htons_htons v_def)
    then have s: "htons w = htons v + of_nat k" by (simp add: diff_eq_eq)
    have lt: "unat x div 256 < 256" for x :: u16 using unat_lt_len [of x] by (simp add: less_mult_imp_div_less)
    have digits: "256 * (unat x div 256) + unat x mod 256 = unat x" for x :: u16 by simp
    have "256 * (unat w div 256) + unat w mod 256 = 256 * (unat v div 256) + unat v mod 256 + k \<or>
        256 * (unat w div 256) + unat w mod 256 + 65536 = 256 * (unat v div 256) + unat v mod 256 + k"
      unfolding digits using unat_add_cases [OF assms(2), of v] w by simp
    moreover have "256 * (unat w mod 256) + unat w div 256 = 256 * (unat v mod 256) + unat v div 256 + k \<or>
        256 * (unat w mod 256) + unat w div 256 + 65536 = 256 * (unat v mod 256) + unat v div 256 + k"
      using unat_add_cases [OF assms(2), of "htons v"] unfolding s [symmetric] unat_htons .
    ultimately show False by (rule swap_add) (use lt assms in simp_all)
  qed
qed

text \<open>
  The payload length of an IPv6 header with a transport header is never right: whatever the packet size, a
  receiver reads neither the length behind the IPv6 header nor that length without the transport header.
\<close>

theorem ipv6_length_never_right:
  assumes "read_ipv6 (gen_ipv6_header src dst proto pkt_size hops tos True is_tcp) = Some i"
    and "length src = 16" "length dst = 16"
  shows "i_len i \<noteq> word_of_int (pkt_size - 40) \<and> i_len i \<noteq> word_of_int (pkt_size - 40) - (if is_tcp then 20 else 8)"
proof -
  let ?n = "word_of_int (pkt_size - 40) :: u16"
  have "i_len i = htons (htons ?n - of_nat (if is_tcp then 20 else 8))"
    using assms(1) read_gen_ipv6 [OF assms(2,3), of proto pkt_size hops tos True is_tcp "[]"] by (auto simp: Let_def)
  then show ?thesis using swapped_subtraction [of "if is_tcp then 20 else 8" ?n] by (simp split: if_splits)
qed

theorem ipv6_length_never_right_witness:
  "\<exists>i. read_ipv6 (gen_ipv6_header (replicate 16 0) (replicate 16 1) 17 100 64 (- 1) True False) = Some i \<and> i_len i \<noteq> 60 \<and> i_len i \<noteq> 52"
proof -
  obtain i where "read_ipv6 (gen_ipv6_header (replicate 16 0) (replicate 16 1) 17 100 64 (- 1) True False) = Some i"
    using read_gen_ipv6 [of "replicate 16 0" "replicate 16 1" 17 100 64 "- 1" True False "[]"] by auto
  with ipv6_length_never_right [OF this] show ?thesis by auto
qed

end
