(* ===== verification/Raw_Ethernet.thy ===== *)
theory Raw_Ethernet
  imports Packets Options
begin

text \<open>
  Model of the packets and flow rules of \<^verbatim>\<open>src/src/raw_ethernet_resources.c\<close>: \<open>build_pkt_on_buffer\<close> and \<open>create_raw_eth_pkt\<close>, which
  fill the send buffer of a raw Ethernet test, \<open>set_up_flow_rules\<close>, which describes the packets that the
  device shall steer to a queue pair, and \<open>send_set_up_connection\<close>, which derives both from the options.

  The buffer is host memory.  A copy that leaves the buffer has no result, nor has a loop that does not end.
\<close>

section \<open>Parameters\<close>

text \<open>The members of \<^verbatim>\<open>struct perftest_parameters\<close> that only raw Ethernet tests read; the others are in \<open>opt\<close>.\<close>

record raw_parameters =
  opt :: perftest_options
  raw_ipv6 :: bool
  vlan_en :: bool
  vlan_pcp :: u32
  is_ethertype :: bool
  ethertype :: u16
  source_mac :: "u8 list"
  dest_mac :: "u8 list"
  server_ip :: u32
  client_ip :: u32
  server_ip6 :: "u8 list"
  client_ip6 :: "u8 list"
  server_port :: int
  client_port :: int
  local_port :: int
  remote_port :: int
  rp_ib_port :: u8
  flow_label :: "int list option"

record raw_ethernet_info =
  mac :: "u8 list"
  ip :: u32
  ip6 :: "u8 list"
  port :: int

abbreviation (input) RAWETH_ADDITION :: nat where "RAWETH_ADDITION \<equiv> 18"
abbreviation VLAN_PCP_VARIOUS :: u32 where "VLAN_PCP_VARIOUS \<equiv> 8"
abbreviation IP_ETHER_TYPE :: u16 where "IP_ETHER_TYPE \<equiv> 0x800"
abbreviation IP6_ETHER_TYPE :: u16 where "IP6_ETHER_TYPE \<equiv> 0x86DD"
abbreviation UDP_PROTOCOL :: u16 where "UDP_PROTOCOL \<equiv> 0x11"
abbreviation TCP_PROTOCOL :: u16 where "TCP_PROTOCOL \<equiv> 0x06"
abbreviation VLAN_TPID :: u32 where "VLAN_TPID \<equiv> 0x8100"
abbreviation VLAN_VID :: u32 where "VLAN_VID \<equiv> 1"
abbreviation VLAN_CFI :: u32 where "VLAN_CFI \<equiv> 0"

definition has_ip :: "raw_parameters \<Rightarrow> bool" where
  "has_ip p \<longleftrightarrow> is_client_ip (opt p) \<or> is_server_ip (opt p)"

definition has_ports :: "raw_parameters \<Rightarrow> bool" where
  "has_ports p \<longleftrightarrow> is_client_port (opt p) \<and> is_server_port (opt p)"

section \<open>Packets\<close>

definition memcpy_at :: "nat \<Rightarrow> u8 list \<Rightarrow> u8 list \<Rightarrow> u8 list option" where
  "memcpy_at off bs m = (if off + length bs \<le> length m then Some (take off m @ bs @ drop (off + length bs) m) else None)"

definition gen_eth_header :: "nat \<Rightarrow> u8 list \<Rightarrow> u8 list \<Rightarrow> u16 \<Rightarrow> u8 list \<Rightarrow> u8 list option" where
  "gen_eth_header off src_mac dst_mac eth_type m =
     Option.bind (memcpy_at (off + 6) src_mac m) (\<lambda>m1.
     Option.bind (memcpy_at off dst_mac m1) (\<lambda>m2.
     memcpy_at (off + 12) (mem16 (htons eth_type)) m2))"

text \<open>The static counter of \<open>build_pkt_on_buffer\<close> and the tag that is made of it.\<close>

definition next_pcp :: "raw_parameters \<Rightarrow> u32 \<Rightarrow> u32" where
  "next_pcp p pcp = (if vlan_pcp p = VLAN_PCP_VARIOUS then pcp + 1 else vlan_pcp p)"

definition vlan_word :: "u32 \<Rightarrow> u32" where
  "vlan_word pcp = push_bit 16 VLAN_TPID OR push_bit 13 (pcp AND 7) OR VLAN_VID OR push_bit 12 VLAN_CFI"

definition put_vlan :: "nat \<Rightarrow> u32 \<Rightarrow> u8 list \<Rightarrow> u8 list option" where
  "put_vlan off pcp m =
     Option.bind (memcpy_at (off + 16) (take 2 (drop (off + 12) m)) m) (\<lambda>m1.
     memcpy_at (off + 12) (mem32 (net_long (vlan_word pcp))) m1)"

definition ip_header :: "raw_parameters \<Rightarrow> raw_ethernet_info \<Rightarrow> raw_ethernet_info \<Rightarrow> u16 \<Rightarrow> int \<Rightarrow> nat \<Rightarrow> u8 list" where
  "ip_header p my_dest rem_dest ip_next_protocol pkt_size flows_offset =
     (if raw_ipv6 p
      then gen_ipv6_header (ip6 my_dest) (ip6 rem_dest) (ucast ip_next_protocol) pkt_size (hop_limit (opt p)) (tos (opt p)) (has_ports p) (tcp (opt p))
      else gen_ipv4_header (ip my_dest) (ip rem_dest) (ucast ip_next_protocol) pkt_size (hop_limit (opt p)) (tos (opt p))
             (if has_ports p then 0 else flows_offset))"

definition l4_header :: "raw_parameters \<Rightarrow> raw_ethernet_info \<Rightarrow> raw_ethernet_info \<Rightarrow> int \<Rightarrow> nat \<Rightarrow> u8 list" where
  "l4_header p my_dest rem_dest pkt_size flows_offset =
     (if tcp (opt p) then gen_tcp_header (port my_dest + int flows_offset) (port rem_dest + int flows_offset)
      else gen_udp_header (port my_dest + int flows_offset) (port rem_dest + int flows_offset) pkt_size)"

text \<open>Ports without an IP header make the code compute with a null pointer.\<close>

definition build_pkt_on_buffer ::
  "raw_parameters \<Rightarrow> raw_ethernet_info \<Rightarrow> raw_ethernet_info \<Rightarrow> u16 \<Rightarrow> u16 \<Rightarrow> int \<Rightarrow> nat \<Rightarrow> nat \<Rightarrow> u32 \<times> u8 list \<Rightarrow> (u32 \<times> u8 list) option" where
  "build_pkt_on_buffer p my_dest rem_dest eth_type ip_next_protocol pkt_size0 flows_offset off s =
     (let pcp = next_pcp p (fst s);
          eth_header_size = (if vlan_en p then sizeof_ETH_vlan_header else sizeof_ETH_header);
          pkt_size = (if vlan_en p then pkt_size0 - 4 else pkt_size0);
          ip_size = (if raw_ipv6 p then sizeof_IP_V6_header else sizeof_IP_V4_header)
      in Option.bind (gen_eth_header off (mac my_dest) (mac rem_dest) eth_type (snd s)) (\<lambda>m1.
         Option.bind (if vlan_en p then put_vlan off pcp m1 else Some m1) (\<lambda>m2.
         Option.bind (if has_ip p then memcpy_at (off + eth_header_size) (ip_header p my_dest rem_dest ip_next_protocol pkt_size flows_offset) m2
                      else Some m2) (\<lambda>m3.
         Option.bind (if \<not> has_ports p then Some m3 else if \<not> has_ip p then None
                      else memcpy_at (off + eth_header_size + ip_size) (l4_header p my_dest rem_dest pkt_size flows_offset) m3) (\<lambda>m4.
         Some (pcp, m4))))))"

definition raw_eth_type :: "raw_parameters \<Rightarrow> u16" where
  "raw_eth_type p =
     (if is_ethertype p then ethertype p
      else if has_ip p then (if raw_ipv6 p then IP6_ETHER_TYPE else IP_ETHER_TYPE)
      else word_of_int (int (up_size (opt p)) - int RAWETH_ADDITION - (if vlan_en p then 4 else 0)))"

definition raw_next_protocol :: "raw_parameters \<Rightarrow> u16" where
  "raw_next_protocol p = (if has_ports p then (if tcp (opt p) then TCP_PROTOCOL else UDP_PROTOCOL) else 0)"

definition build_flow_pkt ::
  "raw_parameters \<Rightarrow> raw_ethernet_info \<Rightarrow> raw_ethernet_info \<Rightarrow> nat \<Rightarrow> nat \<Rightarrow> u32 \<times> u8 list \<Rightarrow> (u32 \<times> u8 list) option" where
  "build_flow_pkt p my_dest rem_dest =
     build_pkt_on_buffer p my_dest rem_dest (raw_eth_type p) (raw_next_protocol p) (int (up_size (opt p)) - int RAWETH_ADDITION)"

lemma memcpy_at_length: "memcpy_at off bs m = Some m' \<Longrightarrow> length m' = length m \<and> off + length bs \<le> length m"
  by (auto simp: memcpy_at_def split: if_splits)

lemma build_length: "build_pkt_on_buffer p a b t pr n i off s = Some s' \<Longrightarrow> length (snd s') = length (snd s) \<and> off < length (snd s)"
  unfolding build_pkt_on_buffer_def gen_eth_header_def put_vlan_def Let_def
  by (auto simp: bind_eq_Some_conv dest!: memcpy_at_length split: if_splits simp: mem16_def)

text \<open>
  The offset and the limit of a flow are C \<^verbatim>\<open>int\<close>s; the inner loop compares them as 64-bit unsigned numbers, to
  which a negative one is extended by its sign.  The fuel is one more than the length of the buffer: the loop
  is controlled by the offset alone and every packet is put inside the buffer, so that a loop with more rounds
  has met an offset for the second time and does not end.
\<close>

definition c_int :: "int \<Rightarrow> int" where
  "c_int k = (k + 2 ^ 31) mod 2 ^ 32 - 2 ^ 31"

lemma c_int_small [simp]: "0 \<le> k \<Longrightarrow> k < 2 ^ 31 \<Longrightarrow> c_int k = k"
  by (simp add: c_int_def)

lemma c_int_nat: "n < 2 ^ 31 \<Longrightarrow> c_int (int n) = int n"
  by simp

definition build_at ::
  "raw_parameters \<Rightarrow> raw_ethernet_info \<Rightarrow> raw_ethernet_info \<Rightarrow> nat \<Rightarrow> int \<Rightarrow> u32 \<times> u8 list \<Rightarrow> (u32 \<times> u8 list) option" where
  "build_at p my_dest rem_dest i pkt_offset s =
     (if pkt_offset < 0 then None else build_flow_pkt p my_dest rem_dest i (nat pkt_offset) s)"

text \<open>A flow that starts \<open>2 ^ 31\<close> bytes behind the start of the buffer or later gets a negative offset.\<close>

lemma large_offset_leaves_buffer:
  assumes "2 ^ 31 \<le> n" "n < 2 ^ 32"
  shows "build_at p my rem i (c_int (int n)) s = None"
proof -
  have "(int n + 2147483648) mod 4294967296 = int n - 2147483648"
    using assms minus_mod_self2 [of "int n + 2147483648" 4294967296] by simp
  then show ?thesis using assms by (simp add: build_at_def c_int_def)
qed

fun fill_flow ::
  "nat \<Rightarrow> raw_parameters \<Rightarrow> raw_ethernet_info \<Rightarrow> raw_ethernet_info \<Rightarrow> nat \<Rightarrow> int \<Rightarrow> int \<Rightarrow> u32 \<times> u8 list \<Rightarrow> (u32 \<times> u8 list) option" where
  "fill_flow 0 p my_dest rem_dest i flow_limit pkt_offset s = None"
| "fill_flow (Suc fuel) p my_dest rem_dest i flow_limit pkt_offset s =
     (let inc = INC (up_size (opt p)) (cache_line_size (opt p)) in
      if (word_of_int flow_limit - of_nat inc :: u64) \<ge> word_of_int pkt_offset then
        (case build_at p my_dest rem_dest i pkt_offset s of
           None \<Rightarrow> None
         | Some s' \<Rightarrow> fill_flow fuel p my_dest rem_dest i flow_limit (c_int (pkt_offset + int inc)) s')
      else Some s)"

declare fill_flow.simps(2) [simp del]

definition raw_flow_size :: "raw_parameters \<Rightarrow> nat" where
  "raw_flow_size p = flow_buff_size (alloc_buffer_sizes (test_params (opt p)))"

fun over_flows :: "(nat \<Rightarrow> 's \<Rightarrow> 's option) \<Rightarrow> nat list \<Rightarrow> 's \<Rightarrow> 's option" where
  "over_flows f [] s = Some s"
| "over_flows f (i # is) s = (case f i s of None \<Rightarrow> None | Some s' \<Rightarrow> over_flows f is s')"

definition create_raw_eth_pkt ::
  "raw_parameters \<Rightarrow> raw_ethernet_info \<Rightarrow> raw_ethernet_info \<Rightarrow> u32 \<times> u8 list \<Rightarrow> (u32 \<times> u8 list) option" where
  "create_raw_eth_pkt p my_dest rem_dest s =
     (let fb = raw_flow_size p in
      case tst (opt p) of
        LAT \<Rightarrow> over_flows (\<lambda>i. build_at p my_dest rem_dest i (c_int (int (fb * i)))) [0..<flows (opt p)] s
      | FS_RATE \<Rightarrow> Some s
      | _ \<Rightarrow> over_flows (\<lambda>i s. fill_flow (Suc (length (snd s))) p my_dest rem_dest i (c_int (int (fb * (i + 1)))) (c_int (int (fb * i))) s)
          [0..<flows (opt p)] s)"


section \<open>Flow rules\<close>

text \<open>
  The specifications of a flow rule, with value and mask of each member that is set.  \<open>Clobbered\<close> is a
  specification of another kind over which the code writes an Ethernet type, \<open>Blank\<close> one that is announced
  but not filled in.  The integers are in network order, as they are stored.
\<close>

record eth_spec =
  val_dst_mac :: "u8 list"
  mask_dst_mac :: "u8 list"
  val_ether_type :: u16
  mask_ether_type :: u16

record ip_spec =
  val_dst_ip :: "u8 list"
  val_src_ip :: "u8 list"
  mask_dst_ip :: "u8 list"
  mask_src_ip :: "u8 list"
  val_tos :: u8
  mask_tos :: u8
  val_flow_label :: u32
  mask_flow_label :: u32

record tcp_udp_spec =
  is_tcp_spec :: bool
  val_dst_port :: u16
  val_src_port :: u16
  mask_dst_port :: u16
  mask_src_port :: u16

datatype flow_spec = Eth_spec eth_spec | Ipv4_spec ip_spec | Ipv6_spec ip_spec | Tcp_udp_spec tcp_udp_spec
  | Blank | Clobbered flow_spec u16

text \<open>Sizes of the structures of the verbs library and whether the build has the extended IPv4 specification.\<close>

record flow_sizes =
  sizeof_flow_attr :: nat
  sizeof_spec_eth :: nat
  sizeof_spec_ipv4 :: nat
  sizeof_spec_ipv4_ext :: nat
  sizeof_spec_ipv6 :: nat
  sizeof_spec_tcp_udp :: nat
  HAVE_IPV4_EXT :: bool

record flow_attr =
  attr_size :: nat
  num_of_specs :: nat
  attr_port :: u8
  specs :: "flow_spec list"

definition get_ip_size :: "flow_sizes \<Rightarrow> bool \<Rightarrow> nat" where
  "get_ip_size z is_ipv6 =
     (if is_ipv6 then sizeof_spec_ipv6 z else if HAVE_IPV4_EXT z then sizeof_spec_ipv4_ext z else sizeof_spec_ipv4 z)"

definition calc_flow_rules_size :: "flow_sizes \<Rightarrow> raw_parameters \<Rightarrow> bool \<Rightarrow> bool \<Rightarrow> nat" where
  "calc_flow_rules_size z p is_ip_header is_udp_header =
     sizeof_flow_attr z + sizeof_spec_eth z + (if is_ip_header then get_ip_size z (raw_ipv6 p) else 0) +
     (if is_udp_header then sizeof_spec_tcp_udp z else 0)"

definition zero_ip_spec :: "nat \<Rightarrow> ip_spec" where
  "zero_ip_spec n = \<lparr> val_dst_ip = replicate n 0, val_src_ip = replicate n 0, mask_dst_ip = replicate n 0, mask_src_ip = replicate n 0,
     val_tos = 0, mask_tos = 0, val_flow_label = 0, mask_flow_label = 0 \<rparr>"

text \<open>
  The array of flow labels starts with the number of labels and a cursor; the rule takes the label the
  cursor points to and moves the cursor.  A division by zero has no result.
\<close>

definition take_flow_label :: "int list \<Rightarrow> (int \<times> int list) option" where
  "take_flow_label fl =
     (if length fl < 2 \<or> fl ! 0 = 0 \<or> fl ! 0 < 0 \<or> fl ! 1 < 0 then None
      else let k = nat (fl ! 1 mod fl ! 0 + 2) in if k < length fl then Some (fl ! k, fl[1 := fl ! 1 + 1]) else None)"

definition fill_ipv6_common :: "raw_parameters \<Rightarrow> (ip_spec \<times> raw_parameters) option" where
  "fill_ipv6_common p =
     (let sp = (zero_ip_spec 16)\<lparr> val_dst_ip := server_ip6 p, val_src_ip := client_ip6 p,
                 mask_dst_ip := replicate 16 0xff, mask_src_ip := replicate 16 0xff \<rparr>;
          sp1 = (if tos (opt p) \<noteq> DEF_TOS then sp\<lparr> val_tos := word_of_int (tos (opt p)), mask_tos := 0xff \<rparr> else sp)
      in case flow_label p of
           None \<Rightarrow> Some (sp1, p)
         | Some fl \<Rightarrow> (case take_flow_label fl of
                         None \<Rightarrow> None
                       | Some (l, fl') \<Rightarrow> Some (sp1\<lparr> val_flow_label := net_long (word_of_int l), mask_flow_label := net_long 0xfffff \<rparr>,
                                               p\<lparr> flow_label := Some fl' \<rparr>)))"

definition fill_ipv4_common :: "flow_sizes \<Rightarrow> raw_parameters \<Rightarrow> ip_spec" where
  "fill_ipv4_common z p =
     (let sp = (zero_ip_spec 4)\<lparr> val_dst_ip := mem32 (server_ip p), val_src_ip := mem32 (client_ip p),
                 mask_dst_ip := replicate 4 0xff, mask_src_ip := replicate 4 0xff \<rparr>
      in if HAVE_IPV4_EXT z \<and> tos (opt p) \<noteq> DEF_TOS then sp\<lparr> val_tos := word_of_int (tos (opt p)), mask_tos := 0xff \<rparr> else sp)"

definition fill_ip_spec :: "flow_sizes \<Rightarrow> raw_parameters \<Rightarrow> (flow_spec \<times> raw_parameters) option" where
  "fill_ip_spec z p =
     (if raw_ipv6 p then
        (if machine (opt p) = SERVER then map_option (\<lambda>(sp, p'). (Ipv6_spec sp, p')) (fill_ipv6_common p)
         else Some (Ipv6_spec (zero_ip_spec 16), p))
      else Some (Ipv4_spec (if machine (opt p) = SERVER then fill_ipv4_common z p else zero_ip_spec 4), p))"

definition port_spec :: "raw_parameters \<Rightarrow> int \<Rightarrow> int \<Rightarrow> flow_spec" where
  "port_spec p local_p remote_p =
     (let l = htons (word_of_int local_p); r = htons (word_of_int remote_p) in
      Tcp_udp_spec \<lparr> is_tcp_spec = tcp (opt p),
        val_dst_port = (if machine (opt p) = SERVER then l else r),
        val_src_port = (if machine (opt p) = SERVER then r else l),
        mask_dst_port = 0xffff, mask_src_port = 0xffff \<rparr>)"

text \<open>The Ethernet type is written through the pointer to the specification that was filled in last.\<close>

fun put_ether_type :: "u16 \<Rightarrow> flow_spec \<Rightarrow> flow_spec" where
  "put_ether_type t (Eth_spec e) = Eth_spec (e\<lparr> val_ether_type := htons t, mask_ether_type := 0xffff \<rparr>)"
| "put_ether_type t sp = Clobbered sp t"

definition set_up_flow_rules :: "flow_sizes \<Rightarrow> raw_parameters \<Rightarrow> int \<Rightarrow> int \<Rightarrow> (flow_attr \<times> raw_parameters) option" where
  "set_up_flow_rules z p local_p remote_p =
     (let is_port = (is_server_port (opt p) \<or> is_client_port (opt p));
          eth = Eth_spec \<lparr> val_dst_mac = source_mac p, mask_dst_mac = replicate 6 0xff, val_ether_type = 0, mask_ether_type = 0 \<rparr>
      in case (if has_ip p then map_option (\<lambda>(sp, p'). ([eth, sp], p')) (fill_ip_spec z p) else Some ([eth], p)) of
           None \<Rightarrow> None
         | Some (sps, p1) \<Rightarrow>
             (if has_ports p \<and> \<not> has_ip p then None
              else let sps1 = (if has_ports p then sps @ [port_spec p local_p remote_p] else sps);
                       sps2 = (if is_ethertype p then butlast sps1 @ [put_ether_type (ethertype p) (last sps1)] else sps1);
                       n = 1 + of_bool (has_ip p) + of_bool is_port
                   in Some (\<lparr> attr_size = calc_flow_rules_size z p (has_ip p) is_port, num_of_specs = n, attr_port = rp_ib_port p,
                             specs = sps2 @ replicate (n - length sps2) Blank \<rparr>, p1)))"

text \<open>\<open>set_up_fs_rules\<close>: the rules of the flow steering rate test, in the order in which they are made.\<close>

definition fs_next :: "raw_parameters \<Rightarrow> nat \<Rightarrow> int \<times> int \<times> int \<Rightarrow> int \<times> int \<times> int" where
  "fs_next p flow_index s =
     (case s of (l, r, last_local_index) \<Rightarrow>
        if int flow_index \<le> 65536 - server_port p
        then (local_port p + int flow_index, remote_port p, int flow_index)
        else (local_port p, remote_port p + int flow_index - last_local_index, last_local_index))"

fun fs_rules :: "flow_sizes \<Rightarrow> nat list \<Rightarrow> raw_parameters \<times> int \<times> int \<times> int \<Rightarrow> (flow_attr list \<times> raw_parameters \<times> int \<times> int \<times> int) option" where
  "fs_rules z [] s = Some ([], s)"
| "fs_rules z (i # is) (p, ports) =
     (case set_up_flow_rules z p (fst ports) (fst (snd ports)) of
        None \<Rightarrow> None
      | Some (a, p1) \<Rightarrow> map_option (\<lambda>(as, s). (a # as, s)) (fs_rules z is (p1, fs_next p1 i ports)))"

definition set_up_fs_rules :: "flow_sizes \<Rightarrow> raw_parameters \<Rightarrow> nat \<Rightarrow> flow_attr list option" where
  "set_up_fs_rules z p allocated_flows =
     map_option fst (fs_rules z (concat (replicate (num_of_qps (opt p)) [0..<allocated_flows])) (p, 0, 0, 0))"

section \<open>Connection set-up\<close>

fun flow_rules_from :: "flow_sizes \<Rightarrow> nat list \<Rightarrow> raw_parameters \<Rightarrow> (flow_attr list \<times> raw_parameters) option" where
  "flow_rules_from z [] p = Some ([], p)"
| "flow_rules_from z (i # is) p =
     (case set_up_flow_rules z p (server_port p + int i) (client_port p + int i) of
        None \<Rightarrow> None
      | Some (a, p1) \<Rightarrow> map_option (\<lambda>(as, p2). (a # as, p2)) (flow_rules_from z is p1))"

definition my_address :: "raw_parameters \<Rightarrow> raw_ethernet_info \<Rightarrow> raw_ethernet_info" where
  "my_address p d =
     (if \<not> is_client_ip (opt p) then d
      else if machine (opt p) = CLIENT then (if \<not> raw_ipv6 p then d\<lparr> ip := client_ip p \<rparr> else d\<lparr> ip6 := client_ip6 p \<rparr>)
      else (if \<not> raw_ipv6 p then d\<lparr> ip := server_ip p \<rparr> else d\<lparr> ip6 := server_ip6 p \<rparr>))"

definition address_ports :: "raw_parameters \<Rightarrow> raw_ethernet_info \<times> raw_ethernet_info \<Rightarrow> raw_ethernet_info \<times> raw_ethernet_info" where
  "address_ports p ds =
     (let (my, rem) = ds;
          (my1, rem1) = (if machine (opt p) = CLIENT
             then (my\<lparr> port := client_port p \<rparr>,
                   (if \<not> raw_ipv6 p then rem\<lparr> ip := server_ip p \<rparr> else rem\<lparr> ip6 := server_ip6 p \<rparr>)\<lparr> port := server_port p \<rparr>)
             else (my, rem))
      in if machine (opt p) = SERVER \<and> duplex (opt p)
         then (my1\<lparr> port := server_port p \<rparr>,
               (if \<not> raw_ipv6 p then rem1\<lparr> ip := client_ip p \<rparr> else rem1\<lparr> ip6 := client_ip6 p \<rparr>)\<lparr> port := client_port p \<rparr>)
         else (my1, rem1))"

definition send_set_up_connection ::
  "flow_sizes \<Rightarrow> raw_parameters \<Rightarrow> raw_ethernet_info \<times> raw_ethernet_info \<Rightarrow>
   (flow_attr list \<times> raw_parameters \<times> raw_ethernet_info \<times> raw_ethernet_info) option" where
  "send_set_up_connection z p ds =
     (case (if machine (opt p) = SERVER \<or> duplex (opt p) then flow_rules_from z [0..<flows (opt p)] p else Some ([], p)) of
        None \<Rightarrow> None
      | Some (rules, p1) \<Rightarrow>
          Some (rules, p1,
            if machine (opt p1) = CLIENT \<or> duplex (opt p1)
            then address_ports p1 (my_address p1 ((fst ds)\<lparr> mac := source_mac p1 \<rparr>), (snd ds)\<lparr> mac := dest_mac p1 \<rparr>)
            else ds))"

section \<open>Forwarding\<close>

text \<open>\<open>switch_smac_dmac\<close> at the start of a packet: the copies in the order of the code.\<close>

definition switch_smac_dmac :: "nat \<Rightarrow> u8 list \<Rightarrow> u8 list option" where
  "switch_smac_dmac off m =
     (if off + 12 \<le> length m then
        (let tmp_mac = take 6 (drop (off + 6) m) in
         Option.bind (memcpy_at (off + 6) (take 6 (drop off m)) m) (\<lambda>m1. memcpy_at off tmp_mac m1))
      else None)"


section \<open>Writing into a buffer\<close>

definition splice_at :: "nat \<Rightarrow> 'a list \<Rightarrow> 'a list \<Rightarrow> 'a list" where
  "splice_at off bs m = take off m @ bs @ drop (off + length bs) m"

lemma memcpy_at_splice: "off + length bs \<le> length m \<Longrightarrow> memcpy_at off bs m = Some (splice_at off bs m)"
  by (simp add: memcpy_at_def splice_at_def)

lemma length_splice [simp]: "off + length bs \<le> length m \<Longrightarrow> length (splice_at off bs m) = length m"
  by (simp add: splice_at_def)

lemma nth_splice_out:
  "off + length bs \<le> length m \<Longrightarrow> x < off \<or> off + length bs \<le> x \<Longrightarrow> x < length m \<Longrightarrow> splice_at off bs m ! x = m ! x"
  by (auto simp: splice_at_def nth_append min_def)

lemma nth_splice_in: "off \<le> length m \<Longrightarrow> x < length bs \<Longrightarrow> splice_at off bs m ! (off + x) = bs ! x"
  by (simp add: splice_at_def nth_append min_def)

lemma slice_splice [simp]: "off \<le> length m \<Longrightarrow> take (length bs) (drop off (splice_at off bs m)) = bs"
  by (simp add: splice_at_def)

lemma splice_join: "off + length a + length b \<le> length m \<Longrightarrow> splice_at (off + length a) b (splice_at off a m) = splice_at off (a @ b) m"
  by (simp add: splice_at_def ac_simps)

lemma splice_join_before: "off + length a + length b \<le> length m \<Longrightarrow> splice_at off a (splice_at (off + length a) b m) = splice_at off (a @ b) m"
  by (simp add: splice_at_def ac_simps)

lemma splice_over: "length y \<le> length x \<Longrightarrow> off + length x \<le> length m \<Longrightarrow> splice_at off x (splice_at off y m) = splice_at off x m"
  by (simp add: splice_at_def ac_simps)

lemma gen_eth_header_splice:
  assumes "length src = 6" "length dst = 6" "off + 14 \<le> length m"
  shows "gen_eth_header off src dst t m = Some (splice_at off (dst @ src @ mem16 (htons t)) m)"
proof -
  let ?t = "mem16 (htons t)"
  have "memcpy_at (off + 6) src m = Some (splice_at (off + 6) src m)" using assms by (intro memcpy_at_splice) simp
  moreover have "memcpy_at off dst (splice_at (off + 6) src m) = Some (splice_at off (dst @ src) m)"
    using assms splice_join_before [of off dst src m] by (simp add: memcpy_at_splice)
  moreover have "memcpy_at (off + 12) ?t (splice_at off (dst @ src) m) = Some (splice_at off (dst @ src @ ?t) m)"
    using assms splice_join [of off "dst @ src" ?t m] by (simp add: memcpy_at_splice)
  ultimately show ?thesis by (simp add: gen_eth_header_def)
qed

lemma put_vlan_splice:
  assumes "length d = 12" "length t = 2" "off + 18 \<le> length m"
  shows "put_vlan off pcp (splice_at off (d @ t) m) = Some (splice_at off (d @ mem32 (net_long (vlan_word pcp)) @ t) m)"
proof -
  let ?v = "mem32 (net_long (vlan_word pcp))" and ?m1 = "splice_at off d m"
  let ?m = "splice_at (off + 12) t ?m1"
  have m: "splice_at off (d @ t) m = ?m" using assms splice_join [of off d t m] by simp
  have t: "take 2 (drop (off + 12) ?m) = t" using assms slice_splice [of "off + 12" ?m1 t] by simp
  have "memcpy_at (off + 16) t ?m = Some (splice_at (off + 16) t ?m)" using assms by (intro memcpy_at_splice) simp
  moreover have "memcpy_at (off + 12) ?v (splice_at (off + 16) t ?m) = Some (splice_at (off + 12) (?v @ t) ?m)"
    using assms splice_join_before [of "off + 12" ?v t ?m] by (simp add: memcpy_at_splice add.assoc)
  moreover have "splice_at (off + 12) (?v @ t) ?m = splice_at off (d @ ?v @ t) m"
    using assms splice_over [of t "?v @ t" "off + 12" ?m1] splice_join [of off d "?v @ t" m] by simp
  ultimately show ?thesis unfolding put_vlan_def m by (simp add: t)
qed

section \<open>The bytes of a packet\<close>

definition eth_bytes :: "raw_parameters \<Rightarrow> raw_ethernet_info \<Rightarrow> raw_ethernet_info \<Rightarrow> u32 \<Rightarrow> u8 list" where
  "eth_bytes p my rem pcp =
     mac rem @ mac my @ (if vlan_en p then mem32 (net_long (vlan_word pcp)) else []) @ mem16 (htons (raw_eth_type p))"

definition ip_size :: "raw_parameters \<Rightarrow> int" where
  "ip_size p = int (up_size (opt p)) - int RAWETH_ADDITION - (if vlan_en p then 4 else 0)"

definition upper_bytes :: "raw_parameters \<Rightarrow> raw_ethernet_info \<Rightarrow> raw_ethernet_info \<Rightarrow> nat \<Rightarrow> u8 list" where
  "upper_bytes p my rem i =
     (if has_ip p then ip_header p my rem (raw_next_protocol p) (ip_size p) i else []) @
     (if has_ports p then l4_header p my rem (ip_size p) i else [])"

definition frame_bytes :: "raw_parameters \<Rightarrow> raw_ethernet_info \<Rightarrow> raw_ethernet_info \<Rightarrow> nat \<Rightarrow> u32 \<Rightarrow> u8 list" where
  "frame_bytes p my rem i pcp = eth_bytes p my rem pcp @ upper_bytes p my rem i"

text \<open>The length of the headers, and the addresses and options with which they are built.\<close>

definition headers_length :: "raw_parameters \<Rightarrow> nat" where
  "headers_length p = (if vlan_en p then 18 else 14) + (if has_ip p then (if raw_ipv6 p then 40 else 20) else 0) +
     (if has_ports p then (if tcp (opt p) then 20 else 8) else 0)"

definition proper_info :: "raw_ethernet_info \<Rightarrow> bool" where
  "proper_info d \<longleftrightarrow> length (mac d) = 6 \<and> length (ip6 d) = 16"

lemma length_eth_bytes: "proper_info my \<Longrightarrow> proper_info rem \<Longrightarrow> length (eth_bytes p my rem pcp) = (if vlan_en p then 18 else 14)"
  by (simp add: eth_bytes_def proper_info_def)

lemma length_upper:
  assumes "proper_info my" "proper_info rem"
  shows "length (ip_header p my rem pr n i) = (if raw_ipv6 p then 40 else 20)" "length (l4_header p my rem n i) = (if tcp (opt p) then 20 else 8)"
  using assms by (simp_all add: ip_header_def l4_header_def proper_info_def)

lemma length_frame_bytes: "proper_info my \<Longrightarrow> proper_info rem \<Longrightarrow> length (frame_bytes p my rem i pcp) = headers_length p"
  by (simp add: frame_bytes_def upper_bytes_def length_eth_bytes length_upper headers_length_def)

lemma build_flow_pkt_splice:
  assumes d: "proper_info my" "proper_info rem" and "has_ports p \<Longrightarrow> has_ip p" and fit: "off + headers_length p \<le> length m"
  shows "build_flow_pkt p my rem i off (pcp, m) =
    Some (next_pcp p pcp, splice_at off (frame_bytes p my rem i (next_pcp p pcp)) m)"
proof -
  let ?c = "next_pcp p pcp" and ?n = "if vlan_en p then 18 else 14 :: nat"
  let ?e = "eth_bytes p my rem ?c" and ?i = "ip_header p my rem (raw_next_protocol p) (ip_size p) i"
    and ?l = "l4_header p my rem (ip_size p) i"
  let ?m2 = "splice_at off ?e m" and ?m3 = "if has_ip p then splice_at off (?e @ ?i) m else splice_at off ?e m"
  note len = length_eth_bytes [OF d, of p ?c] length_upper [OF d]
  have fit2: "off + ?n \<le> length m" using fit by (simp add: headers_length_def split: if_splits)
  have eth: "Option.bind (gen_eth_header off (mac my) (mac rem) (raw_eth_type p) m) (\<lambda>m1. if vlan_en p then put_vlan off ?c m1 else Some m1) = Some ?m2"
    using d fit2 put_vlan_splice [of "mac rem @ mac my" "mem16 (htons (raw_eth_type p))" off m ?c]
    by (simp add: gen_eth_header_splice proper_info_def eth_bytes_def split: if_splits)
  have ip: "(if has_ip p then memcpy_at (off + length ?e) ?i ?m2 else Some ?m2) = Some ?m3"
    using fit fit2 len splice_join [of off ?e ?i m] by (simp add: memcpy_at_splice headers_length_def split: if_splits)
  have l4: "(if \<not> has_ports p then Some ?m3 else if \<not> has_ip p then None
       else memcpy_at (off + length ?e + length ?i) ?l ?m3) = Some (splice_at off (frame_bytes p my rem i ?c) m)"
    using assms(3) fit fit2 len splice_join [of off "?e @ ?i" ?l m]
    by (auto simp add: memcpy_at_splice headers_length_def frame_bytes_def upper_bytes_def add.assoc)
  from eth obtain m1 where m1: "gen_eth_header off (mac my) (mac rem) (raw_eth_type p) m = Some m1"
      "(if vlan_en p then put_vlan off ?c m1 else Some m1) = Some ?m2"
    by (auto simp: bind_eq_Some_conv)
  have sz: "(if vlan_en p then int (up_size (opt p)) - int 18 - 4 else int (up_size (opt p)) - int 18) = ip_size p"
    by (simp add: ip_size_def)
  show ?thesis
    unfolding build_flow_pkt_def build_pkt_on_buffer_def Let_def fst_conv snd_conv m1 bind.bind_lunit sz
    using ip l4 unfolding len by (simp only: bind.bind_lunit)
qed


lemma slice_cong:
  assumes "length m' = length m" "\<And>x. a \<le> x \<Longrightarrow> x < a + n \<Longrightarrow> x < length m \<Longrightarrow> m' ! x = m ! x"
  shows "take n (drop a m') = take n (drop a m)"
  using assms by (intro nth_equalityI) auto

section \<open>Filling the buffer\<close>

text \<open>What a filling step guarantees: it writes only its own range, and every slot in the range holds a packet of the flow.\<close>

definition slots_filled :: "raw_parameters \<Rightarrow> raw_ethernet_info \<Rightarrow> raw_ethernet_info \<Rightarrow> nat \<Rightarrow> nat \<Rightarrow> nat \<Rightarrow> u8 list \<Rightarrow> bool" where
  "slots_filled p my rem i off bnd m \<longleftrightarrow>
     (\<forall>k. off + (k + 1) * INC (up_size (opt p)) (cache_line_size (opt p)) \<le> bnd \<longrightarrow>
        (\<exists>c. take (headers_length p) (drop (off + k * INC (up_size (opt p)) (cache_line_size (opt p))) m) = frame_bytes p my rem i c))"

definition changed_within :: "nat \<Rightarrow> nat \<Rightarrow> u8 list \<Rightarrow> u8 list \<Rightarrow> bool" where
  "changed_within a b m m' \<longleftrightarrow> length m' = length m \<and> (\<forall>x < length m. x < a \<or> b \<le> x \<longrightarrow> m' ! x = m ! x)"

lemma loop_condition: "inc \<le> bnd \<Longrightarrow> bnd < 2 ^ 64 \<Longrightarrow> off \<le> bnd \<Longrightarrow>
    (of_nat bnd - of_nat inc :: u64) \<ge> of_nat off \<longleftrightarrow> off + inc \<le> bnd"
proof -
  assume a: "inc \<le> bnd" "bnd < 2 ^ 64" "off \<le> bnd"
  define n where "n = bnd - inc"
  have d: "(of_nat bnd - of_nat inc :: u64) = of_nat n" using a(1) by (simp add: n_def)
  have "n < 2 ^ 64" using a by (simp add: n_def)
  then have n: "unat (of_nat n :: u64) = n" and o: "unat (of_nat off :: u64) = off" using a by (simp_all add: unat_of_nat)
  have "(of_nat off :: u64) \<le> of_nat n \<longleftrightarrow> off \<le> n" by (simp only: word_le_nat_alt n o)
  then show ?thesis unfolding d using a(1) by (auto simp: n_def)
qed

lemma slots_filled_keep:
  assumes "slots_filled p my rem i off bnd m" "changed_within a b m m'" "bnd \<le> a \<or> b \<le> off"
    "headers_length p \<le> INC (up_size (opt p)) (cache_line_size (opt p))"
  shows "slots_filled p my rem i off bnd m'"
  unfolding slots_filled_def
proof (intro allI impI)
  fix k
  let ?inc = "INC (up_size (opt p)) (cache_line_size (opt p))"
  assume k: "off + (k + 1) * ?inc \<le> bnd"
  have "take (headers_length p) (drop (off + k * ?inc) m') = take (headers_length p) (drop (off + k * ?inc) m)"
    using assms(2-4) k by (intro slice_cong) (auto simp: changed_within_def)
  with assms(1) k show "\<exists>c. take (headers_length p) (drop (off + k * ?inc) m') = frame_bytes p my rem i c"
    by (auto simp: slots_filled_def)
qed

lemma fill_flow_spec:
  assumes d: "proper_info my" "proper_info rem" "has_ports p \<Longrightarrow> has_ip p"
    and inc: "inc = INC (up_size (opt p)) (cache_line_size (opt p))" "headers_length p \<le> inc" "0 < inc" "inc \<le> bnd" "bnd < 2 ^ 31"
    and "off \<le> bnd" "bnd \<le> length m" "bnd - off < fuel"
  shows "\<exists>c m'. fill_flow fuel p my rem i (int bnd) (int off) (pcp, m) = Some (c, m') \<and> changed_within off bnd m m' \<and>
    slots_filled p my rem i off bnd m'"
  using assms(9-11)
proof (induction fuel arbitrary: off pcp m)
  case (Suc fuel)
  have cond: "(word_of_int (int bnd) - of_nat inc :: u64) \<ge> word_of_int (int off) \<longleftrightarrow> off + inc \<le> bnd"
    using loop_condition [of inc bnd off] inc(4,5) Suc.prems(1) by simp
  show ?case
  proof (cases "off + inc \<le> bnd")
    case False
    then have "fill_flow (Suc fuel) p my rem i (int bnd) (int off) (pcp, m) = Some (pcp, m)"
      using cond by (simp add: fill_flow.simps(2) Let_def flip: inc(1))
    moreover have "slots_filled p my rem i off bnd m" using False by (auto simp: slots_filled_def simp flip: inc(1))
    ultimately show ?thesis by (auto simp: changed_within_def)
  next
    case True
    let ?c = "next_pcp p pcp" let ?f = "frame_bytes p my rem i ?c" let ?m = "splice_at off ?f m"
    have len: "length ?f = headers_length p" by (rule length_frame_bytes [OF d(1,2)])
    have b: "build_at p my rem i (int off) (pcp, m) = Some (?c, ?m)"
      using build_flow_pkt_splice [OF d, of off m i pcp] True inc Suc.prems by (simp add: build_at_def)
    have nxt: "c_int (int off + int inc) = int (off + inc)" using True inc(5) by simp
    have step: "fill_flow (Suc fuel) p my rem i (int bnd) (int off) (pcp, m) = fill_flow fuel p my rem i (int bnd) (int (off + inc)) (?c, ?m)"
      using cond True by (simp add: fill_flow.simps(2) Let_def b nxt [simplified] flip: inc(1))
    have "bnd - (off + inc) < fuel" "length ?m = length m" using True inc len Suc.prems by auto
    with Suc.IH [of "off + inc" ?m ?c] True Suc.prems
    obtain c m' where r: "fill_flow fuel p my rem i (int bnd) (int (off + inc)) (?c, ?m) = Some (c, m')" and w: "changed_within (off + inc) bnd ?m m'"
      and sl: "slots_filled p my rem i (off + inc) bnd m'" by auto
    have "changed_within off bnd m m'"
      using w True inc len Suc.prems by (auto simp: changed_within_def nth_splice_out)
    moreover have "slots_filled p my rem i off bnd m'"
      unfolding slots_filled_def inc(1) [symmetric]
    proof (intro allI impI)
      fix k assume k: "off + (k + 1) * inc \<le> bnd"
      show "\<exists>c. take (headers_length p) (drop (off + k * inc) m') = frame_bytes p my rem i c"
      proof (cases k)
        case 0
        have "take (headers_length p) (drop off m') = take (headers_length p) (drop off ?m)"
          using w inc len True Suc.prems by (intro slice_cong) (auto simp: changed_within_def)
        also have "\<dots> = ?f" using slice_splice [of off m ?f] len Suc.prems by simp
        finally show ?thesis using 0 by auto
      next
        case (Suc j)
        then have "off + inc + (j + 1) * inc \<le> bnd" "off + inc + j * inc = off + k * inc" using k by simp_all
        with sl show ?thesis unfolding slots_filled_def inc(1) [symmetric] by metis
      qed
    qed
    ultimately show ?thesis using step r by auto
  qed
qed simp

end
