(* ===== verification/Raw_Steering.thy ===== *)
theory Raw_Steering
  imports Raw_Ethernet Accepted_Tests
begin

text \<open>
  The two halves of a raw Ethernet test put together: the packets that the client lays out in its send
  buffer, read as a receiver on the network reads them, and the flow rules of the server, with the
  meaning that the verbs library documents (a packet matches when every specification of the rule agrees with
  it under its mask).
\<close>

section \<open>Reading a frame\<close>

record frame =
  fr_dst :: "u8 list"
  fr_src :: "u8 list"
  fr_vlan :: "u16 option"
  fr_type :: u16
  fr_ip :: "ip_info option"
  fr_ports :: "(bool \<times> u16 \<times> u16) option"

definition read_l4 :: "u8 \<Rightarrow> u8 list \<Rightarrow> (bool \<times> u16 \<times> u16) option" where
  "read_l4 proto bs =
     (if proto = 17 then map_option (Pair False) (read_ports bs)
      else if proto = 6 then map_option (Pair True) (read_ports bs) else None)"

definition read_frame :: "u8 list \<Rightarrow> frame option" where
  "read_frame bs =
     (if length bs < 14 then None
      else let tagged = (be16 (bs ! 12) (bs ! 13) = 0x8100 \<and> 18 \<le> length bs);
               t = (if tagged then be16 (bs ! 16) (bs ! 17) else be16 (bs ! 12) (bs ! 13));
               body = drop (if tagged then 18 else 14) bs;
               f = \<lparr> fr_dst = take 6 bs, fr_src = take 6 (drop 6 bs), fr_vlan = (if tagged then Some (be16 (bs ! 14) (bs ! 15)) else None),
                     fr_type = t, fr_ip = None, fr_ports = None \<rparr>
           in if t = 0x800 then map_option (\<lambda>i. f\<lparr> fr_ip := Some i, fr_ports := read_l4 (i_proto i) (drop 20 body) \<rparr>) (read_ipv4 body)
              else if t = 0x86DD then map_option (\<lambda>i. f\<lparr> fr_ip := Some i, fr_ports := read_l4 (i_proto i) (drop 40 body) \<rparr>) (read_ipv6 body)
              else Some f)"

section \<open>Matching a rule\<close>

definition masked :: "u8 list \<Rightarrow> u8 list \<Rightarrow> u8 list \<Rightarrow> bool" where
  "masked v msk x \<longleftrightarrow> map2 (AND) v msk = map2 (AND) x msk"

definition ip_matches :: "ip_spec \<Rightarrow> ip_info \<Rightarrow> bool" where
  "ip_matches sp i \<longleftrightarrow> masked (val_dst_ip sp) (mask_dst_ip sp) (i_dst i) \<and> masked (val_src_ip sp) (mask_src_ip sp) (i_src i) \<and>
     val_tos sp AND mask_tos sp = i_tos i AND mask_tos sp \<and>
     val_flow_label sp AND mask_flow_label sp = net_long (i_label i) AND mask_flow_label sp"

fun spec_matches :: "flow_spec \<Rightarrow> frame \<Rightarrow> bool option" where
  "spec_matches (Eth_spec e) f = Some (masked (val_dst_mac e) (mask_dst_mac e) (fr_dst f) \<and>
     val_ether_type e AND mask_ether_type e = htons (fr_type f) AND mask_ether_type e)"
| "spec_matches (Ipv4_spec sp) f = Some (fr_type f = 0x800 \<and> (case fr_ip f of None \<Rightarrow> False | Some i \<Rightarrow> ip_matches sp i))"
| "spec_matches (Ipv6_spec sp) f = Some (fr_type f = 0x86DD \<and> (case fr_ip f of None \<Rightarrow> False | Some i \<Rightarrow> ip_matches sp i))"
| "spec_matches (Tcp_udp_spec t) f =
     Some (case fr_ports f of None \<Rightarrow> False
           | Some (is_tcp, src, dst) \<Rightarrow> is_tcp = is_tcp_spec t \<and> val_dst_port t AND mask_dst_port t = htons dst AND mask_dst_port t \<and>
               val_src_port t AND mask_src_port t = htons src AND mask_src_port t)"
| "spec_matches Blank f = None"
| "spec_matches (Clobbered sp t) f = None"

text \<open>A rule with a specification that is not well formed has no documented meaning.\<close>

definition rule_matches :: "flow_attr \<Rightarrow> frame \<Rightarrow> bool option" where
  "rule_matches r f =
     (if list_all (\<lambda>sp. spec_matches sp f \<noteq> None) (specs r)
      then Some (list_all (\<lambda>sp. spec_matches sp f = Some True) (specs r)) else None)"

section \<open>The buffer after \<open>create_raw_eth_pkt\<close>\<close>

lemma over_flows_append: "over_flows f (xs @ ys) s = Option.bind (over_flows f xs s) (over_flows f ys)"
  by (induction f xs s rule: over_flows.induct) (auto split: option.splits)

lemma changed_within_trans:
  "changed_within a b m m1 \<Longrightarrow> changed_within c d m1 m2 \<Longrightarrow> a \<le> c \<Longrightarrow> b \<le> d \<Longrightarrow> a \<le> b \<Longrightarrow> c \<le> d \<Longrightarrow> changed_within a d m m2"
  by (auto simp: changed_within_def)

lemma ROUND_UP_mono:
  assumes "0 < cls" "a \<le> b"
  shows "ROUND_UP a cls \<le> ROUND_UP b cls"
proof (rule ccontr)
  obtain x y where xy: "ROUND_UP a cls = cls * x" "ROUND_UP b cls = cls * y"
    using ROUND_UP_props(3) [OF assms(1)] by (metis dvdE)
  assume "\<not> ROUND_UP a cls \<le> ROUND_UP b cls"
  then have "Suc y \<le> x" using xy by simp
  then have "cls * Suc y \<le> cls * x" by (rule mult_le_mono2)
  then have "ROUND_UP b cls + cls \<le> ROUND_UP a cls" using xy by simp
  with ROUND_UP_props(1) [OF assms(1), of b] ROUND_UP_props(2) [OF assms(1), of a] assms(2) show False by linarith
qed

lemma INC_mono: "0 < cls \<Longrightarrow> a \<le> b \<Longrightarrow> INC a cls \<le> INC b cls"
  using ROUND_UP_mono [of cls a b] ROUND_UP_mono [of cls cls b] by (auto simp: INC_def ROUND_UP_def split: if_splits)

lemma raw_flow_size: "0 < flows (opt p) \<Longrightarrow> 0 < num_of_qps (opt p) \<Longrightarrow>
    raw_flow_size p = INC (BUFF_SIZE (up_size (opt p)) (ctx_cycle_buffer (test_params (opt p)))) (cache_line_size (opt p))"
  by (simp add: raw_flow_size_def alloc_buffer_sizes_def test_params_def perftest_parameters.truncate_def Let_def)

text \<open>A test whose packets have room for their headers, with a send half whose offsets are positive as \<^verbatim>\<open>int\<close>s.\<close>

definition roomy :: "raw_parameters \<Rightarrow> bool" where
  "roomy p \<longleftrightarrow> 0 < flows (opt p) \<and> 0 < num_of_qps (opt p) \<and> 0 < cache_line_size (opt p) \<and> (has_ports p \<longrightarrow> has_ip p) \<and>
     headers_length p + HW_CRC_ADDITION \<le> up_size (opt p) \<and> raw_flow_size p * flows (opt p) < 2 ^ 31"

lemma roomy_inc:
  assumes "roomy p"
  shows "0 < INC (up_size (opt p)) (cache_line_size (opt p))" "up_size (opt p) \<le> INC (up_size (opt p)) (cache_line_size (opt p))"
    "INC (up_size (opt p)) (cache_line_size (opt p)) \<le> raw_flow_size p"
proof -
  have c: "0 < cache_line_size (opt p)" using assms by (simp add: roomy_def)
  show "0 < INC (up_size (opt p)) (cache_line_size (opt p))" "up_size (opt p) \<le> INC (up_size (opt p)) (cache_line_size (opt p))"
    using INC_props [OF c, of "up_size (opt p)"] by simp_all
  show "INC (up_size (opt p)) (cache_line_size (opt p)) \<le> raw_flow_size p"
    using assms INC_mono [OF c, of "up_size (opt p)"] raw_flow_size [of p] by (simp add: roomy_def BUFF_SIZE_def)
qed

lemma fill_flows_spec:
  assumes r: "roomy p" and d: "proper_info my" "proper_info rem"
    and len: "raw_flow_size p * flows (opt p) \<le> length m" and n: "n \<le> flows (opt p)"
  shows "\<exists>c m'. over_flows (\<lambda>i s. fill_flow (Suc (length (snd s))) p my rem i (c_int (int (raw_flow_size p * (i + 1)))) (c_int (int (raw_flow_size p * i))) s)
      [0..<n] (pcp, m) = Some (c, m') \<and>
    changed_within 0 (raw_flow_size p * n) m m' \<and> (\<forall>i<n. slots_filled p my rem i (raw_flow_size p * i) (raw_flow_size p * (i + 1)) m')"
  using n
proof (induction n)
  case (Suc n)
  let ?fb = "raw_flow_size p" and ?inc = "INC (up_size (opt p)) (cache_line_size (opt p))"
  let ?f = "\<lambda>i s. fill_flow (Suc (length (snd s))) p my rem i (c_int (int (?fb * (i + 1)))) (c_int (int (?fb * i))) s"
  from Suc obtain c m1 where IH: "over_flows ?f [0..<n] (pcp, m) = Some (c, m1)" "changed_within 0 (?fb * n) m m1"
    "\<forall>i<n. slots_filled p my rem i (?fb * i) (?fb * (i + 1)) m1" by auto
  note inc = roomy_inc [OF r]
  have hl: "headers_length p \<le> ?inc" using r inc(2) by (simp add: roomy_def)
  have le: "?fb * (n + 1) \<le> ?fb * flows (opt p)" using Suc.prems by (intro mult_le_mono2) simp
  have lm: "length m1 = length m" using IH(2) by (simp add: changed_within_def)
  have small: "?fb * (n + 1) < 2 ^ 31" using r le by (simp add: roomy_def)
  moreover have "?fb * n < 2 ^ 31" using small by simp
  ultimately have wrap: "c_int (int (?fb * (n + 1))) = int (?fb * (n + 1))" "c_int (int (?fb * n)) = int (?fb * n)"
    by (simp_all only: c_int_nat)
  have "\<exists>c' m'. ?f n (c, m1) = Some (c', m') \<and> changed_within (?fb * n) (?fb * (n + 1)) m1 m' \<and> slots_filled p my rem n (?fb * n) (?fb * (n + 1)) m'"
    unfolding wrap
  proof (rule fill_flow_spec [OF d _ refl hl inc(1) _ small])
    show "?inc \<le> ?fb * (n + 1)" using inc(3) by simp
    show "?fb * (n + 1) \<le> length m1" using le len lm by simp
    then show "?fb * (n + 1) - ?fb * n < Suc (length (snd (c, m1)))" by simp
  qed (use r in \<open>simp_all add: roomy_def\<close>)
  then obtain c' m' where st: "?f n (c, m1) = Some (c', m')" "changed_within (?fb * n) (?fb * (n + 1)) m1 m'"
    "slots_filled p my rem n (?fb * n) (?fb * (n + 1)) m'" by blast
  have "slots_filled p my rem i (?fb * i) (?fb * (i + 1)) m'" if "i < n" for i
  proof (rule slots_filled_keep [OF _ st(2) _ hl])
    show "slots_filled p my rem i (?fb * i) (?fb * (i + 1)) m1" using IH(3) that by simp
    show "?fb * (i + 1) \<le> ?fb * n \<or> ?fb * (n + 1) \<le> ?fb * i" using that by (intro disjI1 mult_le_mono2) simp
  qed
  moreover have "changed_within 0 (?fb * (n + 1)) m m'" by (rule changed_within_trans [OF IH(2) st(2)]) simp_all
  moreover have "over_flows ?f [0..<Suc n] (pcp, m) = Some (c', m')" using IH(1) st(1) by (simp add: over_flows_append)
  ultimately show ?case using st(3) by (auto simp: less_Suc_eq)
qed (simp add: changed_within_def)


section \<open>The packets are read as they were meant\<close>

lemma mem32_htonl: "mem32 (net_long w) = [ucast (drop_bit 24 w), ucast (drop_bit 16 w), ucast (drop_bit 8 w), ucast w]"
proof -
  have "net_long w = push_bit 24 w OR (push_bit 8 w AND push_bit 16 (mask 8)) OR (drop_bit 8 w AND push_bit 8 (mask 8)) OR drop_bit 24 w"
    by (simp add: net_long_def mask_eq_exp_minus_1 push_bit_eq_mult)
  then have b: "bit (net_long w) n \<longleftrightarrow> (24 \<le> n \<and> n < 32 \<and> bit w (n - 24)) \<or> (16 \<le> n \<and> n < 24 \<and> bit w (n - 8)) \<or>
      (8 \<le> n \<and> n < 16 \<and> bit w (n + 8)) \<or> bit w (n + 24)" for n
    by (auto simp: bit_simps add.commute dest: bit_imp_le_length)
  have hi: "\<not> bit w n" if "32 \<le> n" for n using that bit_imp_le_length [of w n] by auto
  show ?thesis unfolding mem32_def list.inject
    by (intro conjI bit_word_eqI; auto simp: bit_simps b hi add.commute)
qed

lemma tag_bytes:
  fixes x :: u32
  assumes "x \<in> {0, 1, 2, 3, 4, 5, 6, 7}"
  defines "w \<equiv> push_bit 16 VLAN_TPID OR push_bit 13 x OR VLAN_VID OR push_bit 12 VLAN_CFI"
  shows "be16 (ucast (drop_bit 24 w)) (ucast (drop_bit 16 w)) = 0x8100"
    "be16 (ucast (drop_bit 8 w)) (ucast w) = of_nat (unat x * 8192 + 1)"
  using assms(1) unfolding w_def by (auto simp: be16_def)

lemma read_tag:
  "be16 (ucast (drop_bit 24 (vlan_word c))) (ucast (drop_bit 16 (vlan_word c))) = 0x8100"
  "be16 (ucast (drop_bit 8 (vlan_word c))) (ucast (vlan_word c)) = of_nat (unat c mod 8 * 8192 + 1)"
proof -
  have "c AND 7 = c mod 8" using take_bit_eq_mask [of 3 c] by (simp add: mask_eq_exp_minus_1 take_bit_eq_mod)
  then have u: "unat (c AND 7) = unat c mod 8" by (simp add: unat_mod_word)
  then have "unat (c AND 7) < 8" by simp
  then have "unat (c AND 7) \<in> {0, 1, 2, 3, 4, 5, 6, 7}" by auto
  then have cs: "c AND 7 \<in> {0, 1, 2, 3, 4, 5, 6, 7}" by (auto simp: word_unat_eq_iff)
  show "be16 (ucast (drop_bit 24 (vlan_word c))) (ucast (drop_bit 16 (vlan_word c))) = 0x8100"
    "be16 (ucast (drop_bit 8 (vlan_word c))) (ucast (vlan_word c)) = of_nat (unat c mod 8 * 8192 + 1)"
    unfolding vlan_word_def u [symmetric] using tag_bytes [OF cs] by simp_all
qed


text \<open>What the packets of the code carry.\<close>

definition sent_ip :: "raw_parameters \<Rightarrow> raw_ethernet_info \<Rightarrow> raw_ethernet_info \<Rightarrow> ip_info" where
  "sent_ip p my rem =
     (if raw_ipv6 p
      then \<lparr> i_tos = 0, i_len = (let n = htons (word_of_int (ip_size p - 40)) in
                htons (if has_ports p then (if tcp (opt p) then n - 20 else n - 8) else n)),
             i_hops = word_of_int (hop_limit (opt p)),
             i_proto = (if has_ports p then (if tcp (opt p) then 6 else 17) else DEFAULT_IPV6_NEXT_HDR),
             i_src = ip6 my, i_dst = ip6 rem, i_label = 0 \<rparr>
      else \<lparr> i_tos = (if tos (opt p) = DEF_TOS then 0 else word_of_int (tos (opt p))), i_len = word_of_int (ip_size p),
             i_hops = word_of_int (hop_limit (opt p)), i_proto = (if has_ports p then (if tcp (opt p) then 6 else 17) else 0),
             i_src = mem32 (ip my), i_dst = mem32 (ip rem), i_label = 0 \<rparr>)"

definition sent_frame :: "raw_parameters \<Rightarrow> raw_ethernet_info \<Rightarrow> raw_ethernet_info \<Rightarrow> nat \<Rightarrow> u32 \<Rightarrow> frame" where
  "sent_frame p my rem i c =
     \<lparr> fr_dst = mac rem, fr_src = mac my, fr_vlan = (if vlan_en p then Some (of_nat (unat c mod 8 * 8192 + 1)) else None),
       fr_type = raw_eth_type p, fr_ip = (if has_ip p then Some (sent_ip p my rem) else None),
       fr_ports = (if has_ports p then Some (tcp (opt p), word_of_int (port my + int i), word_of_int (port rem + int i)) else None) \<rparr>"

text \<open>No Ethernet type is forced, and a packet without IP header is short enough to carry its length as type.\<close>

definition plain_type :: "raw_parameters \<Rightarrow> bool" where
  "plain_type p \<longleftrightarrow> \<not> is_ethertype p \<and> (has_ip p \<or> up_size (opt p) \<le> 1518)"

lemma read_ip_header [simp]:
  assumes "proper_info my" "proper_info rem"
  shows "(if raw_ipv6 p then read_ipv6 else read_ipv4) (ip_header p my rem (raw_next_protocol p) (ip_size p) i @ rest) = Some (sent_ip p my rem)"
  using assms by (auto simp: ip_header_def sent_ip_def proper_info_def raw_next_protocol_def)

lemma read_l4_header:
  "has_ports p \<Longrightarrow> read_l4 (i_proto (sent_ip p my rem)) (l4_header p my rem n i @ rest) =
     Some (tcp (opt p), word_of_int (port my + int i), word_of_int (port rem + int i))"
  "\<not> has_ports p \<Longrightarrow> read_l4 (i_proto (sent_ip p my rem)) bs = None"
  by (auto simp: read_l4_def sent_ip_def l4_header_def)

lemma plain_eth_type:
  assumes "roomy p" "plain_type p"
  shows "raw_eth_type p \<noteq> 0x8100" "has_ip p \<Longrightarrow> raw_eth_type p = (if raw_ipv6 p then 0x86DD else 0x800)"
    "\<not> has_ip p \<Longrightarrow> raw_eth_type p \<noteq> 0x800 \<and> raw_eth_type p \<noteq> 0x86DD"
proof -
  have "unat (raw_eth_type p) \<le> 1500" if "\<not> has_ip p"
  proof -
    have "0 \<le> ip_size p" "ip_size p \<le> 1500"
      using assms that by (auto simp: roomy_def headers_length_def plain_type_def ip_size_def split: if_splits)
    moreover have "raw_eth_type p = word_of_int (ip_size p)" using assms that by (simp add: raw_eth_type_def plain_type_def ip_size_def)
    ultimately show ?thesis by (simp add: unat_word_of_int)
  qed
  then show "raw_eth_type p \<noteq> 0x8100" "has_ip p \<Longrightarrow> raw_eth_type p = (if raw_ipv6 p then 0x86DD else 0x800)"
    "\<not> has_ip p \<Longrightarrow> raw_eth_type p \<noteq> 0x800 \<and> raw_eth_type p \<noteq> 0x86DD"
    using assms by (auto simp: raw_eth_type_def plain_type_def)
qed

lemma read_frame_bytes:
  assumes "roomy p" "plain_type p" and d: "proper_info my" "proper_info rem"
  shows "read_frame (frame_bytes p my rem i c @ rest) = Some (sent_frame p my rem i c)"
proof -
  let ?bs = "frame_bytes p my rem i c @ rest" and ?u = "upper_bytes p my rem i @ rest"
  let ?t = "raw_eth_type p"
  note ty = plain_eth_type [OF assms(1,2)]
  obtain a0 a1 a2 a3 a4 a5 b0 b1 b2 b3 b4 b5 where m: "mac rem = [a0, a1, a2, a3, a4, a5]" "mac my = [b0, b1, b2, b3, b4, b5]"
    using d by (auto simp: proper_info_def numeral_eq_Suc length_Suc_conv)
  have body: "drop (if vlan_en p then 18 else 14) ?bs = ?u" "take 6 ?bs = mac rem" "take 6 (drop 6 ?bs) = mac my"
    by (simp_all add: frame_bytes_def eth_bytes_def m mem16_htons mem32_htonl)
  have len: "14 \<le> length ?bs" "vlan_en p \<Longrightarrow> 18 \<le> length ?bs"
    using length_frame_bytes [OF d, of p i c] by (simp_all add: headers_length_def)
  have tag: "be16 (?bs ! 12) (?bs ! 13) = (if vlan_en p then 0x8100 else ?t)" "vlan_en p \<Longrightarrow> be16 (?bs ! 16) (?bs ! 17) = ?t"
    "vlan_en p \<Longrightarrow> be16 (?bs ! 14) (?bs ! 15) = of_nat (unat c mod 8 * 8192 + 1)"
    by (simp_all add: frame_bytes_def eth_bytes_def m mem16_htons mem32_htonl read_tag)
  have up4: "drop (if raw_ipv6 p then 40 else 20) ?u = (if has_ports p then l4_header p my rem (ip_size p) i else []) @ rest" if "has_ip p"
    using that length_upper [OF d] by (simp add: upper_bytes_def)
  have ip: "(if raw_ipv6 p then read_ipv6 else read_ipv4) ?u = Some (sent_ip p my rem)" if "has_ip p"
    using that read_ip_header [OF d] by (simp add: upper_bytes_def)
  have l4: "read_l4 (i_proto (sent_ip p my rem)) (drop (if raw_ipv6 p then 40 else 20) ?u) = fr_ports (sent_frame p my rem i c)" if "has_ip p"
    unfolding up4 [OF that] by (cases "has_ports p") (simp_all add: read_l4_header sent_frame_def)
  have ports: "\<not> has_ports p" if "\<not> has_ip p" using that assms(1) by (auto simp: roomy_def)
  show ?thesis
    unfolding read_frame_def Let_def
    using len tag ty body ip l4 ports by (cases "has_ip p"; cases "vlan_en p"; cases "raw_ipv6 p") (auto simp: sent_frame_def)
qed


section \<open>The rules of the server\<close>

lemma masked_full: "length v = n \<Longrightarrow> length x = n \<Longrightarrow> masked v (replicate n 0xff) x \<longleftrightarrow> v = x"
proof -
  assume a: "length v = n" "length x = n"
  have "map2 (AND) y (replicate n 0xff) = y" if "length y = n" for y :: "u8 list"
  proof -
    have "(0xff :: u8) = - 1" by simp
    then show ?thesis using that by (intro nth_equalityI) (simp_all only: length_map length_zip length_replicate min.idem nth_map nth_zip nth_replicate case_prod_conv and.right_neutral)
  qed
  then show ?thesis using a by (simp add: masked_def)
qed

definition server_rule :: "flow_sizes \<Rightarrow> raw_parameters \<Rightarrow> nat \<Rightarrow> flow_attr" where
  "server_rule z p i = fst (the (set_up_flow_rules z p (server_port p + int i) (client_port p + int i)))"

lemma set_up_server:
  assumes "machine (opt p) = SERVER" "flow_label p = None" "has_ports p \<Longrightarrow> has_ip p"
  shows "set_up_flow_rules z p (server_port p + int i) (client_port p + int i) = Some (server_rule z p i, p)"
  using assms unfolding server_rule_def set_up_flow_rules_def fill_ip_spec_def fill_ipv6_common_def
  by (auto simp: Let_def)

lemma server_rules:
  assumes "machine (opt p) = SERVER" "flow_label p = None" "has_ports p \<Longrightarrow> has_ip p"
  shows "flow_rules_from z is p = Some (map (server_rule z p) is, p)"
  by (induction "is") (simp_all add: set_up_server [OF assms])

lemma server_specs:
  assumes "machine (opt p) = SERVER" "flow_label p = None" "\<not> is_ethertype p"
    "is_server_port (opt p) = is_client_port (opt p)" "has_ports p \<Longrightarrow> has_ip p"
  shows "specs (server_rule z p i) =
    [Eth_spec \<lparr> val_dst_mac = source_mac p, mask_dst_mac = replicate 6 0xff, val_ether_type = 0, mask_ether_type = 0 \<rparr>] @
    (if has_ip p then [if raw_ipv6 p then Ipv6_spec (fst (the (fill_ipv6_common p))) else Ipv4_spec (fill_ipv4_common z p)] else []) @
    (if has_ports p then [port_spec p (server_port p + int i) (client_port p + int i)] else [])"
  using assms unfolding server_rule_def set_up_flow_rules_def fill_ip_spec_def fill_ipv6_common_def
  by (auto simp: Let_def has_ports_def)

lemma ip_spec_matches:
  assumes "length (server_ip6 p) = 16" "length (client_ip6 p) = 16"
  shows "flow_label p = None \<Longrightarrow> tos (opt p) = DEF_TOS \<Longrightarrow> length (i_dst i) = 16 \<Longrightarrow> length (i_src i) = 16 \<Longrightarrow>
      ip_matches (fst (the (fill_ipv6_common p))) i \<longleftrightarrow> i_dst i = server_ip6 p \<and> i_src i = client_ip6 p"
    "i_tos j = (if tos (opt p) = DEF_TOS then 0 else word_of_int (tos (opt p))) \<Longrightarrow> length (i_dst j) = 4 \<Longrightarrow> length (i_src j) = 4 \<Longrightarrow>
      ip_matches (fill_ipv4_common z p) j \<longleftrightarrow> i_dst j = mem32 (server_ip p) \<and> i_src j = mem32 (client_ip p)"
  using assms by (auto simp: ip_matches_def fill_ipv6_common_def fill_ipv4_common_def zero_ip_spec_def Let_def masked_full)

lemma port_spec_matches:
  assumes "machine (opt p) = SERVER" "fr_ports f = Some (tcp (opt p), word_of_int (client_port p + int i), word_of_int (server_port p + int i))"
    "i < 65536" "j < 65536"
  shows "spec_matches (port_spec p (server_port p + int j) (client_port p + int j)) f = Some (j = i)"
proof -
  have inj: "htons a = htons b \<longleftrightarrow> a = b" for a b by (metis htons_htons)
  have mask: "w AND 0xffff = w" for w :: u16
  proof -
    have "(0xffff :: u16) = - 1" by simp
    then show ?thesis by (simp only: and.right_neutral)
  qed
  have "(of_nat j :: u16) = of_nat i \<longleftrightarrow> j = i" using assms(3,4) by (simp add: word_of_nat_eq_iff take_bit_nat_eq_self)
  then show ?thesis using assms(1,2) by (simp add: port_spec_def Let_def mask inj)
qed


section \<open>Client and server\<close>

text \<open>The two sides of a test, started with the same addresses.\<close>

definition peers :: "raw_parameters \<Rightarrow> raw_parameters \<Rightarrow> bool" where
  "peers pc ps \<longleftrightarrow> machine (opt pc) = CLIENT \<and> machine (opt ps) = SERVER \<and> \<not> duplex (opt pc) \<and> \<not> duplex (opt ps) \<and>
     dest_mac pc = source_mac ps \<and> length (source_mac pc) = 6 \<and> length (source_mac ps) = 6 \<and>
     raw_ipv6 pc = raw_ipv6 ps \<and> server_ip pc = server_ip ps \<and> client_ip pc = client_ip ps \<and>
     server_ip6 pc = server_ip6 ps \<and> client_ip6 pc = client_ip6 ps \<and> length (server_ip6 ps) = 16 \<and> length (client_ip6 ps) = 16 \<and>
     server_port pc = server_port ps \<and> client_port pc = client_port ps \<and> flows (opt pc) = flows (opt ps) \<and>
     tcp (opt pc) = tcp (opt ps) \<and> tos (opt pc) = tos (opt ps) \<and>
     is_server_ip (opt pc) = is_server_ip (opt ps) \<and> is_client_ip (opt pc) = is_client_ip (opt ps) \<and>
     is_server_port (opt pc) = is_server_port (opt ps) \<and> is_client_port (opt pc) = is_client_port (opt ps)"

text \<open>The options that the rules of the server honour and its packets do not, or the other way round, are not used.\<close>

definition steerable :: "raw_parameters \<Rightarrow> bool" where
  "steerable p \<longleftrightarrow> \<not> is_ethertype p \<and> flow_label p = None \<and> (raw_ipv6 p \<longrightarrow> tos (opt p) = DEF_TOS) \<and>
     is_server_ip (opt p) = is_client_ip (opt p) \<and> is_server_port (opt p) = is_client_port (opt p) \<and>
     (flows (opt p) = 1 \<or> is_server_port (opt p)) \<and> flows (opt p) \<le> 65536"

definition client_my :: "raw_parameters \<Rightarrow> raw_ethernet_info \<Rightarrow> raw_ethernet_info" where
  "client_my p d = (my_address p (d\<lparr> mac := source_mac p \<rparr>))\<lparr> port := client_port p \<rparr>"

definition client_rem :: "raw_parameters \<Rightarrow> raw_ethernet_info \<Rightarrow> raw_ethernet_info" where
  "client_rem p d = (let e = d\<lparr> mac := dest_mac p \<rparr> in
     (if \<not> raw_ipv6 p then e\<lparr> ip := server_ip p \<rparr> else e\<lparr> ip6 := server_ip6 p \<rparr>)\<lparr> port := server_port p \<rparr>)"

lemma client_set_up:
  "peers pc ps \<Longrightarrow> send_set_up_connection z pc ds = Some ([], pc, client_my pc (fst ds), client_rem pc (snd ds))"
  by (auto simp: send_set_up_connection_def peers_def address_ports_def client_my_def client_rem_def Let_def)

lemma server_set_up:
  assumes "peers pc ps" "steerable ps" "has_ports ps \<Longrightarrow> has_ip ps"
  shows "send_set_up_connection z ps ds = Some (map (server_rule z ps) [0..<flows (opt ps)], ps, ds)"
  using assms server_rules [of ps z] by (auto simp: send_set_up_connection_def peers_def steerable_def)

lemma client_infos:
  assumes "peers pc ps" "proper_info d" "proper_info e"
  shows "proper_info (client_my pc d)" "proper_info (client_rem pc e)" "mac (client_rem pc e) = source_mac ps"
    "port (client_my pc d) = client_port ps" "port (client_rem pc e) = server_port ps"
  using assms by (auto simp: peers_def proper_info_def client_my_def client_rem_def my_address_def Let_def)

lemma peers_flags:
  assumes "peers pc ps"
  shows "has_ip pc = has_ip ps" "has_ports pc = has_ports ps"
  using assms by (auto simp: peers_def has_ip_def has_ports_def)

lemma sent_ip_matches:
  assumes "peers pc ps" "steerable ps" "has_ip ps" "proper_info d" "proper_info e"
  defines "i \<equiv> sent_ip pc (client_my pc d) (client_rem pc e)"
  shows "raw_ipv6 ps \<Longrightarrow> ip_matches (fst (the (fill_ipv6_common ps))) i" "\<not> raw_ipv6 ps \<Longrightarrow> ip_matches (fill_ipv4_common z ps) i"
proof -
  have ip: "is_client_ip (opt pc)" using assms(1-3) by (auto simp: peers_def steerable_def has_ip_def)
  show "ip_matches (fst (the (fill_ipv6_common ps))) i" if "raw_ipv6 ps"
    by (subst ip_spec_matches(1))
      (use assms(1,2) that ip in \<open>auto simp: i_def peers_def steerable_def sent_ip_def client_my_def client_rem_def my_address_def Let_def\<close>)
  show "ip_matches (fill_ipv4_common z ps) i" if "\<not> raw_ipv6 ps"
    by (subst ip_spec_matches(2))
      (use assms(1,2) that ip in \<open>auto simp: i_def peers_def steerable_def sent_ip_def client_my_def client_rem_def my_address_def Let_def\<close>)
qed

lemma rule_matches_sent:
  assumes pr: "peers pc ps" and st: "steerable ps" and pl: "plain_type pc" and ro: "roomy pc" and d: "proper_info d" "proper_info e"
    and ij: "i < flows (opt ps)" "j < flows (opt ps)"
  shows "rule_matches (server_rule z ps j) (sent_frame pc (client_my pc d) (client_rem pc e) i c) = Some (j = i)"
proof -
  let ?f = "sent_frame pc (client_my pc d) (client_rem pc e) i c"
  note fl = peers_flags [OF pr] and inf = client_infos [OF pr d]
  have pi: "has_ports ps \<Longrightarrow> has_ip ps" using ro fl by (simp add: roomy_def)
  have sp: "specs (server_rule z ps j) =
    [Eth_spec \<lparr> val_dst_mac = source_mac ps, mask_dst_mac = replicate 6 0xff, val_ether_type = 0, mask_ether_type = 0 \<rparr>] @
    (if has_ip ps then [if raw_ipv6 ps then Ipv6_spec (fst (the (fill_ipv6_common ps))) else Ipv4_spec (fill_ipv4_common z ps)] else []) @
    (if has_ports ps then [port_spec ps (server_port ps + int j) (client_port ps + int j)] else [])"
    by (rule server_specs) (use pr st pi in \<open>auto simp: peers_def steerable_def\<close>)
  have eth: "spec_matches (Eth_spec \<lparr> val_dst_mac = source_mac ps, mask_dst_mac = replicate 6 0xff, val_ether_type = 0, mask_ether_type = 0 \<rparr>) ?f = Some True"
    using pr inf(3) masked_full [of "source_mac ps" 6 "source_mac ps"] by (simp add: sent_frame_def peers_def)
  have ips: "spec_matches (if raw_ipv6 ps then Ipv6_spec (fst (the (fill_ipv6_common ps))) else Ipv4_spec (fill_ipv4_common z ps)) ?f = Some True"
    if "has_ip ps"
    using that plain_eth_type(2) [OF ro pl] sent_ip_matches [OF pr st that d] fl pr
    by (auto simp: sent_frame_def peers_def)
  have ports: "spec_matches (port_spec ps (server_port ps + int j) (client_port ps + int j)) ?f = Some (j = i)" if "has_ports ps"
    by (rule port_spec_matches) (use that fl inf pr st ij in \<open>auto simp: sent_frame_def peers_def steerable_def\<close>)
  have one: "j = i" if "\<not> has_ports ps"
    using that st ij by (auto simp: steerable_def has_ports_def)
  show ?thesis
    using eth ips ports one pi unfolding rule_matches_def sp by (cases "has_ip ps"; cases "has_ports ps") auto
qed

lemma create_fills:
  assumes "roomy p" "proper_info my" "proper_info rem" "tst (opt p) = BW \<or> tst (opt p) = LAT_BY_BW"
    "raw_flow_size p * flows (opt p) \<le> length m"
  shows "\<exists>c m'. create_raw_eth_pkt p my rem (pcp, m) = Some (c, m') \<and> changed_within 0 (raw_flow_size p * flows (opt p)) m m' \<and>
    (\<forall>i<flows (opt p). slots_filled p my rem i (raw_flow_size p * i) (raw_flow_size p * (i + 1)) m')"
  using fill_flows_spec [OF assms(1-3,5) order_refl] assms(4) by (auto simp: create_raw_eth_pkt_def Let_def)

lemma slot_is_read:
  assumes "roomy p" "plain_type p" "proper_info my" "proper_info rem"
    "take (headers_length p) (drop off m) = frame_bytes p my rem i c"
  shows "read_frame (take (up_size (opt p) - HW_CRC_ADDITION) (drop off m)) = Some (sent_frame p my rem i c)"
proof -
  let ?n = "up_size (opt p) - HW_CRC_ADDITION" and ?h = "headers_length p"
  have "?h \<le> ?n" using assms(1) unfolding roomy_def by linarith
  then have "take ?n (drop off m) = take ?h (drop off m) @ take (?n - ?h) (drop ?h (drop off m))"
    by (metis le_add_diff_inverse take_add)
  then show ?thesis using read_frame_bytes [OF assms(1-4), of i c] assms(5) by simp
qed


section \<open>The packets that were asked for\<close>

text \<open>
  The packet that the options ask for, stated without the code: the frame of \<open>up_size\<close> bytes ends with the frame
  check sequence that the device adds, the datagram is what the link header leaves of it, and IPv6 counts the
  bytes behind its own header.
\<close>

definition datagram_length :: "raw_parameters \<Rightarrow> nat" where
  "datagram_length p = up_size (opt p) - HW_CRC_ADDITION - (if vlan_en p then 18 else 14)"

definition wanted_ip :: "raw_parameters \<Rightarrow> raw_ethernet_info \<Rightarrow> raw_ethernet_info \<Rightarrow> ip_info" where
  "wanted_ip p my rem =
     \<lparr> i_tos = (if tos (opt p) = DEF_TOS then 0 else word_of_int (tos (opt p))),
       i_len = of_nat (if raw_ipv6 p then datagram_length p - 40 else datagram_length p),
       i_hops = word_of_int (hop_limit (opt p)),
       i_proto = (if has_ports p then (if tcp (opt p) then 6 else 17) else if raw_ipv6 p then DEFAULT_IPV6_NEXT_HDR else 0),
       i_src = (if raw_ipv6 p then ip6 my else mem32 (ip my)), i_dst = (if raw_ipv6 p then ip6 rem else mem32 (ip rem)), i_label = 0 \<rparr>"

definition wanted_frame :: "raw_parameters \<Rightarrow> raw_ethernet_info \<Rightarrow> raw_ethernet_info \<Rightarrow> nat \<Rightarrow> u32 \<Rightarrow> frame" where
  "wanted_frame p my rem i c =
     \<lparr> fr_dst = mac rem, fr_src = mac my, fr_vlan = (if vlan_en p then Some (of_nat (unat c mod 8 * 8192 + 1)) else None),
       fr_type = (if has_ip p then (if raw_ipv6 p then 0x86DD else 0x800) else of_nat (datagram_length p)),
       fr_ip = (if has_ip p then Some (wanted_ip p my rem) else None),
       fr_ports = (if has_ports p then Some (tcp (opt p), word_of_int (port my + int i), word_of_int (port rem + int i)) else None) \<rparr>"

text \<open>
  The options for which the code builds it: over IPv6 no ports (the length of the packet is wrong with them,
  \<open>Packets.ipv6_length_never_right\<close>) and no traffic class (it is ignored), and a datagram whose length fits its field.
\<close>

definition conforming :: "raw_parameters \<Rightarrow> bool" where
  "conforming p \<longleftrightarrow> (raw_ipv6 p \<longrightarrow> \<not> has_ports p \<and> (tos (opt p) = DEF_TOS \<or> word_of_int (tos (opt p)) = (0 :: u8))) \<and>
     datagram_length p < 2 ^ 16"

lemma ip_size_datagram:
  assumes "roomy p" shows "ip_size p = int (datagram_length p)" "has_ip p \<Longrightarrow> raw_ipv6 p \<Longrightarrow> 40 \<le> datagram_length p"
  using assms by (auto simp: roomy_def headers_length_def datagram_length_def ip_size_def split: if_splits)

lemma sent_is_wanted:
  assumes "roomy p" "plain_type p" "conforming p"
  shows "sent_frame p my rem i c = wanted_frame p my rem i c"
proof -
  have "sent_ip p my rem = wanted_ip p my rem" if "has_ip p"
  proof (cases "raw_ipv6 p")
    case True
    define n where "n = datagram_length p - 40"
    have "datagram_length p = n + 40" using ip_size_datagram(2) [OF assms(1) that True] by (simp add: n_def)
    then have "(word_of_int (ip_size p - 40) :: u16) = of_nat n" by (simp add: ip_size_datagram(1) [OF assms(1)])
    with True assms(3) show ?thesis
      by (auto simp: sent_ip_def wanted_ip_def conforming_def Let_def n_def [symmetric])
  qed (simp add: sent_ip_def wanted_ip_def ip_size_datagram(1) [OF assms(1)])
  moreover have "raw_eth_type p = (if has_ip p then (if raw_ipv6 p then 0x86DD else 0x800) else of_nat (datagram_length p))"
    using assms(2) ip_size_datagram(1) [OF assms(1)] by (auto simp: raw_eth_type_def plain_type_def ip_size_def)
  ultimately show ?thesis by (simp add: sent_frame_def wanted_frame_def)
qed

section \<open>Properties\<close>

text \<open>
  C24. \<open>create_raw_eth_pkt\<close> fills the send buffer with whole packets of the right flow and writes nothing behind it.  For a
  message size with room for the headers, a send half below \<open>2 ^ 31\<close> bytes, no forced Ethernet type, and options for
  which the lengths are right (\<open>conforming\<close>: over IPv6 neither ports nor a traffic class) it succeeds, every slot of a
  flow holds a frame that a receiver reads with the addresses, the VLAN tag, the IP header (length, type of service,
  hop limit, protocol, valid checksum) and the ports asked for that flow, and no byte outside the send half is changed.
\<close>

theorem raw_buffer_holds_packets:
  assumes "roomy p" "plain_type p" "conforming p" "proper_info my" "proper_info rem" "tst (opt p) = BW \<or> tst (opt p) = LAT_BY_BW"
    "raw_flow_size p * flows (opt p) \<le> length m"
  shows "\<exists>pcp' m'. create_raw_eth_pkt p my rem (pcp, m) = Some (pcp', m') \<and> length m' = length m \<and>
    drop (raw_flow_size p * flows (opt p)) m' = drop (raw_flow_size p * flows (opt p)) m \<and>
    (\<forall>i k. i < flows (opt p) \<and> (k + 1) * INC (up_size (opt p)) (cache_line_size (opt p)) \<le> raw_flow_size p \<longrightarrow>
       (\<exists>c. read_frame (take (up_size (opt p) - HW_CRC_ADDITION)
              (drop (raw_flow_size p * i + k * INC (up_size (opt p)) (cache_line_size (opt p))) m')) = Some (wanted_frame p my rem i c)))"
proof -
  let ?inc = "INC (up_size (opt p)) (cache_line_size (opt p))" and ?fb = "raw_flow_size p"
  obtain c m' where cr: "create_raw_eth_pkt p my rem (pcp, m) = Some (c, m')" and w: "changed_within 0 (?fb * flows (opt p)) m m'"
    and sl: "\<forall>i<flows (opt p). slots_filled p my rem i (?fb * i) (?fb * (i + 1)) m'"
    using create_fills [OF assms(1,4-7)] by blast
  have "\<exists>c. read_frame (take (up_size (opt p) - HW_CRC_ADDITION) (drop (?fb * i + k * ?inc) m')) = Some (wanted_frame p my rem i c)"
    if i: "i < flows (opt p)" and k: "(k + 1) * ?inc \<le> ?fb" for i k
  proof -
    have "?fb * i + (k + 1) * ?inc \<le> ?fb * (i + 1)" using k by simp
    with sl i obtain c where "take (headers_length p) (drop (?fb * i + k * ?inc) m') = frame_bytes p my rem i c"
      unfolding slots_filled_def by blast
    then show ?thesis using slot_is_read [OF assms(1,2,4,5)] sent_is_wanted [OF assms(1-3)] by metis
  qed
  moreover have "drop (?fb * flows (opt p)) m' = drop (?fb * flows (opt p)) m" "length m' = length m"
    using w by (auto simp: changed_within_def intro!: nth_equalityI)
  ultimately show ?thesis using cr by blast
qed

text \<open>
  C6. The server's flow rules steer the client's packets: when both sides are started with the same addresses and options,
  every packet in the client's buffer matches the server's rule for its flow and no other rule.  The options are those
  that rules and packets both honour (\<open>steerable\<close>): no Ethernet type, no flow label, no type of service with IPv6,
  addresses and ports given for both sides or for neither, and several flows only with ports; the send half is below
  \<open>2 ^ 31\<close> bytes (\<open>roomy\<close>).  For the others see \<open>ethertype_clobbers_rule\<close> and \<open>raw_ipv6_tos_never_matches\<close>.
\<close>

theorem raw_packets_are_steered:
  assumes "peers pc ps" "steerable ps" "roomy pc" "plain_type pc" "proper_info (fst ds)" "proper_info (snd ds)"
    "tst (opt pc) = BW \<or> tst (opt pc) = LAT_BY_BW" "raw_flow_size pc * flows (opt pc) \<le> length m"
  shows "\<exists>rules my rem c m'. send_set_up_connection z ps es = Some (rules, ps, es) \<and> length rules = flows (opt pc) \<and>
    send_set_up_connection z pc ds = Some ([], pc, my, rem) \<and> create_raw_eth_pkt pc my rem (pcp, m) = Some (c, m') \<and>
    (\<forall>i k. i < flows (opt pc) \<and> (k + 1) * INC (up_size (opt pc)) (cache_line_size (opt pc)) \<le> raw_flow_size pc \<longrightarrow>
       (\<exists>f. read_frame (take (up_size (opt pc) - HW_CRC_ADDITION)
              (drop (raw_flow_size pc * i + k * INC (up_size (opt pc)) (cache_line_size (opt pc))) m')) = Some f \<and>
            (\<forall>j < flows (opt pc). rule_matches (rules ! j) f = Some (j = i))))"
proof -
  let ?my = "client_my pc (fst ds)" and ?rem = "client_rem pc (snd ds)" and ?rules = "map (server_rule z ps) [0..<flows (opt ps)]"
  let ?inc = "INC (up_size (opt pc)) (cache_line_size (opt pc))" and ?fb = "raw_flow_size pc"
  note inf = client_infos(1,2) [OF assms(1,5,6)]
  have n: "flows (opt ps) = flows (opt pc)" using assms(1) by (simp add: peers_def)
  have sv: "send_set_up_connection z ps es = Some (?rules, ps, es)"
    using assms(1-3) peers_flags [OF assms(1)] by (intro server_set_up) (auto simp: roomy_def)
  obtain c m' where cr: "create_raw_eth_pkt pc ?my ?rem (pcp, m) = Some (c, m')"
    and sl: "\<forall>i<flows (opt pc). slots_filled pc ?my ?rem i (?fb * i) (?fb * (i + 1)) m'"
    using create_fills [OF assms(3) inf assms(7,8)] by blast
  have "\<exists>f. read_frame (take (up_size (opt pc) - HW_CRC_ADDITION) (drop (?fb * i + k * ?inc) m')) = Some f \<and>
      (\<forall>j < flows (opt pc). rule_matches (?rules ! j) f = Some (j = i))"
    if i: "i < flows (opt pc)" and k: "(k + 1) * ?inc \<le> ?fb" for i k
  proof -
    have "?fb * i + (k + 1) * ?inc \<le> ?fb * (i + 1)" using k by simp
    with sl i obtain b where "take (headers_length pc) (drop (?fb * i + k * ?inc) m') = frame_bytes pc ?my ?rem i b"
      unfolding slots_filled_def by blast
    then have "read_frame (take (up_size (opt pc) - HW_CRC_ADDITION) (drop (?fb * i + k * ?inc) m')) = Some (sent_frame pc ?my ?rem i b)"
      by (rule slot_is_read [OF assms(3,4) inf])
    moreover have "rule_matches (?rules ! j) (sent_frame pc ?my ?rem i b) = Some (j = i)" if "j < flows (opt pc)" for j
      using rule_matches_sent [OF assms(1,2,4,3,5,6)] that i n by simp
    ultimately show ?thesis by blast
  qed
  then show ?thesis using sv client_set_up [OF assms(1)] cr n by (intro exI [of _ ?rules] exI [of _ ?my] exI [of _ ?rem] exI [of _ c] exI [of _ m']) auto
qed


text \<open>An Ethernet type given with IP addresses is written over another specification, and the rule has no meaning.\<close>

lemma ethertype_clobbers_rule:
  assumes "machine (opt p) = SERVER" "is_ethertype p" "has_ip p" "set_up_flow_rules z p l r = Some (a, p')"
  shows "rule_matches a f = None"
proof -
  have "\<exists>sp t. Clobbered sp t \<in> set (specs a)"
    using assms unfolding set_up_flow_rules_def fill_ip_spec_def
    by (auto simp: Let_def port_spec_def split: if_splits prod.splits option.splits)
  then show ?thesis by (force simp: rule_matches_def list_all_iff)
qed

text \<open>
  The rules of the server and the packets of the client disagree on the traffic class of IPv6: with a type of
  service whose low byte is not zero, the rule asks for it and the packets do not carry it, so no packet
  of the client matches any rule of the server.
\<close>

theorem raw_ipv6_tos_never_matches:
  assumes "peers pc ps" "plain_type pc" "roomy pc" "proper_info d" "proper_info e" "raw_ipv6 ps" "has_ip ps"
    "tos (opt ps) \<noteq> DEF_TOS" "(word_of_int (tos (opt ps)) :: u8) \<noteq> 0" "\<not> is_ethertype ps"
    "is_server_port (opt ps) = is_client_port (opt ps)" "set_up_flow_rules z ps l r = Some (a, ps')"
  shows "rule_matches a (sent_frame pc (client_my pc d) (client_rem pc e) i c) = Some False"
proof -
  let ?f = "sent_frame pc (client_my pc d) (client_rem pc e) i c"
  have srv: "machine (opt ps) = SERVER" and v6: "raw_ipv6 pc" using assms(1,6) by (auto simp: peers_def)
  obtain sp where sp: "Ipv6_spec sp \<in> set (specs a)" "val_tos sp = word_of_int (tos (opt ps))" "mask_tos sp = 0xff"
    and ok: "\<forall>x \<in> set (specs a). (\<exists>e. x = Eth_spec e) \<or> (\<exists>e. x = Ipv6_spec e) \<or> (\<exists>e. x = Tcp_udp_spec e)"
    using assms(6-12) srv unfolding set_up_flow_rules_def fill_ip_spec_def fill_ipv6_common_def
    by (auto simp: Let_def port_spec_def has_ports_def split: if_splits prod.splits option.splits)
  have "(0xff :: u8) = - 1" by simp
  then have m: "w AND 0xff = w" for w :: u8 by (simp only: and.right_neutral)
  have "i_tos (sent_ip pc (client_my pc d) (client_rem pc e)) = 0" using v6 by (simp add: sent_ip_def)
  then have "\<not> ip_matches sp (sent_ip pc (client_my pc d) (client_rem pc e))"
    using sp assms(9) by (simp add: ip_matches_def m)
  then have "spec_matches (Ipv6_spec sp) ?f = Some False" by (simp add: sent_frame_def)
  moreover have "spec_matches x ?f \<noteq> None" if "x \<in> set (specs a)" for x using ok that by auto
  ultimately show ?thesis using sp(1) unfolding rule_matches_def by (force simp: list_all_iff)
qed

section \<open>Concrete tests\<close>

definition demo_client :: raw_parameters where
  "demo_client = \<lparr> opt = demo_options\<lparr> connection_type := RawEth, machine := CLIENT, up_size := 128, flows := 2, num_of_qps := 1,
       cache_line_size := 64, cycle_buffer := 4096, is_server_ip := True, is_client_ip := True, is_server_port := True, is_client_port := True,
       tcp := False, tos := - 1, hop_limit := 64, duplex := False, mac_fwd := False \<rparr>,
     raw_ipv6 = False, vlan_en = True, vlan_pcp = 3, is_ethertype = False, ethertype = 0,
     source_mac = [2, 0, 0, 0, 0, 1], dest_mac = [2, 0, 0, 0, 0, 2], server_ip = 0x0200000A, client_ip = 0x0100000A,
     server_ip6 = replicate 16 2, client_ip6 = replicate 16 1, server_port = 5000, client_port = 4000, local_port = 0, remote_port = 0,
     rp_ib_port = 1, flow_label = None \<rparr>"

definition demo_raw_server :: raw_parameters where
  "demo_raw_server = demo_client\<lparr> opt := (opt demo_client)\<lparr> machine := SERVER \<rparr>, source_mac := [2, 0, 0, 0, 0, 2], dest_mac := [2, 0, 0, 0, 0, 1] \<rparr>"

definition no_info :: raw_ethernet_info where
  "no_info = \<lparr> mac = replicate 6 0, ip = 0, ip6 = replicate 16 0, port = 0 \<rparr>"

lemmas demo_raw = demo_client_def demo_raw_server_def no_info_def demo_options_def basic_params_def

lemma demo_peers: "peers demo_client demo_raw_server" "steerable demo_raw_server" "plain_type demo_client" "proper_info no_info"
  by (simp_all add: peers_def steerable_def plain_type_def proper_info_def has_ip_def demo_raw)

lemma demo_flow_size: "raw_flow_size demo_client = 4096"
  by (subst raw_flow_size) (simp_all add: demo_raw BUFF_SIZE_def INC_def ROUND_UP_def ctx_cycle_buffer_def test_params_def perftest_parameters.truncate_def)

lemma demo_sizes: "flows (opt demo_client) = 2" "up_size (opt demo_client) = 128" "cache_line_size (opt demo_client) = 64" "tst (opt demo_client) = BW"
  "INC 128 64 = 128"
  by (simp_all add: demo_raw INC_def ROUND_UP_def)

lemma demo_roomy: "roomy demo_client"
  unfolding roomy_def demo_flow_size by (simp add: headers_length_def has_ports_def has_ip_def demo_raw)


lemma demo_conforming: "conforming demo_client"
  by (simp add: conforming_def datagram_length_def demo_raw)

theorem raw_buffer_holds_packets_witness:
  "\<exists>pcp' m' c. create_raw_eth_pkt demo_client no_info no_info (0, replicate 8192 0) = Some (pcp', m') \<and>
     read_frame (take 124 (drop 4352 m')) = Some (wanted_frame demo_client no_info no_info 1 c)"
proof -
  from raw_buffer_holds_packets [OF demo_roomy demo_peers(3) demo_conforming demo_peers(4,4), of "replicate 8192 0" 0] obtain pcp' m' where
    "create_raw_eth_pkt demo_client no_info no_info (0, replicate 8192 0) = Some (pcp', m')"
    and r: "\<forall>i k. i < 2 \<and> (k + 1) * 128 \<le> (4096 :: nat) \<longrightarrow> (\<exists>c. read_frame (take 124 (drop (4096 * i + k * 128) m')) = Some (wanted_frame demo_client no_info no_info i c))"
    by (auto simp: demo_sizes demo_flow_size)
  moreover from r have "\<exists>c. read_frame (take 124 (drop (4096 * 1 + 2 * 128) m')) = Some (wanted_frame demo_client no_info no_info 1 c)"
    by (elim allE [of _ 1] allE [of _ 2]) simp
  ultimately show ?thesis by auto
qed

theorem raw_packets_are_steered_witness:
  "\<forall>z es. \<exists>rules my rem c m' f. send_set_up_connection z demo_raw_server es = Some (rules, demo_raw_server, es) \<and>
     send_set_up_connection z demo_client (no_info, no_info) = Some ([], demo_client, my, rem) \<and>
     create_raw_eth_pkt demo_client my rem (0, replicate 8192 0) = Some (c, m') \<and>
     read_frame (take 124 (drop 4096 m')) = Some f \<and> rule_matches (rules ! 1) f = Some True \<and> rule_matches (rules ! 0) f = Some False"
proof (intro allI)
  fix z es
  from raw_packets_are_steered [OF demo_peers(1,2) demo_roomy demo_peers(3), of "(no_info, no_info)" "replicate 8192 0" z es 0]
  obtain rules my rem c m' where x: "send_set_up_connection z demo_raw_server es = Some (rules, demo_raw_server, es)"
     "send_set_up_connection z demo_client (no_info, no_info) = Some ([], demo_client, my, rem)"
     "create_raw_eth_pkt demo_client my rem (0, replicate 8192 0) = Some (c, m')"
    and r: "\<forall>i k. i < 2 \<and> (k + 1) * 128 \<le> (4096 :: nat) \<longrightarrow> (\<exists>f. read_frame (take 124 (drop (4096 * i + k * 128) m')) = Some f \<and>
      (\<forall>j < 2. rule_matches (rules ! j) f = Some (j = i)))"
    by (auto simp: demo_sizes demo_flow_size demo_peers(4))
  from r obtain f where "read_frame (take 124 (drop (4096 * 1 + 0 * 128) m')) = Some f" "\<forall>j < 2. rule_matches (rules ! j) f = Some (j = 1)"
    by (elim allE [of _ 1] allE [of _ 0]) auto
  then show "\<exists>rules my rem c m' f. send_set_up_connection z demo_raw_server es = Some (rules, demo_raw_server, es) \<and>
     send_set_up_connection z demo_client (no_info, no_info) = Some ([], demo_client, my, rem) \<and>
     create_raw_eth_pkt demo_client my rem (0, replicate 8192 0) = Some (c, m') \<and>
     read_frame (take 124 (drop 4096 m')) = Some f \<and> rule_matches (rules ! 1) f = Some True \<and> rule_matches (rules ! 0) f = Some False"
    using x by (intro exI conjI) auto
qed

abbreviation demo_v6 :: "raw_parameters \<Rightarrow> raw_parameters" where
  "demo_v6 p \<equiv> p\<lparr> raw_ipv6 := True, opt := (opt p)\<lparr> tos := 32 \<rparr> \<rparr>"

theorem raw_ipv6_tos_never_matches_witness:
  "\<forall>z. \<exists>a. set_up_flow_rules z (demo_v6 demo_raw_server) 5000 4000 = Some (a, demo_v6 demo_raw_server) \<and>
     rule_matches a (sent_frame (demo_v6 demo_client) (client_my (demo_v6 demo_client) no_info) (client_rem (demo_v6 demo_client) no_info) 0 0) = Some False"
proof
  fix z
  have p: "peers (demo_v6 demo_client) (demo_v6 demo_raw_server)" "plain_type (demo_v6 demo_client)" "has_ip (demo_v6 demo_raw_server)"
    by (simp_all add: peers_def plain_type_def has_ip_def demo_raw)
  have fs: "raw_flow_size (demo_v6 demo_client) = 4096"
    by (subst raw_flow_size) (simp_all add: demo_raw BUFF_SIZE_def INC_def ROUND_UP_def ctx_cycle_buffer_def test_params_def perftest_parameters.truncate_def)
  have r: "roomy (demo_v6 demo_client)"
    unfolding roomy_def fs by (simp add: headers_length_def has_ports_def has_ip_def demo_raw)
  have s: "\<exists>a. set_up_flow_rules z (demo_v6 demo_raw_server) 5000 4000 = Some (a, demo_v6 demo_raw_server)"
    by (simp add: set_up_flow_rules_def fill_ip_spec_def fill_ipv6_common_def has_ip_def has_ports_def demo_raw)
  then obtain a where a: "set_up_flow_rules z (demo_v6 demo_raw_server) 5000 4000 = Some (a, demo_v6 demo_raw_server)" by blast
  have "rule_matches a (sent_frame (demo_v6 demo_client) (client_my (demo_v6 demo_client) no_info) (client_rem (demo_v6 demo_client) no_info) 0 0) = Some False"
    by (rule raw_ipv6_tos_never_matches [OF p(1,2) r demo_peers(4,4) _ p(3) _ _ _ _ a]) (simp_all add: demo_raw)
  with a show "\<exists>a. set_up_flow_rules z (demo_v6 demo_raw_server) 5000 4000 = Some (a, demo_v6 demo_raw_server) \<and>
     rule_matches a (sent_frame (demo_v6 demo_client) (client_my (demo_v6 demo_client) no_info) (client_rem (demo_v6 demo_client) no_info) 0 0) = Some False"
    by blast
qed

end
