(* ===== verification/Reports.thy ===== *)
theory Reports
  imports Complex_Main Options
begin

text \<open>
  Model of the result reports of \<^verbatim>\<open>src/src/perftest_parameters.c\<close>: \<open>print_report_lat\<close>, \<open>print_report_lat_duration\<close>,
  \<open>print_report_fs_rate\<close>, \<open>print_report_bw\<close> and \<open>print_full_bw_report\<close>.

  Time stamps are 64-bit words, as in the code.  A \<^verbatim>\<open>double\<close> is an exact rational number; a quotient by zero,
  which the hardware makes infinite, has no value.  The square root of the standard
  deviation is not taken.  A report that reads outside its array of samples has no result.  Printing and the JSON
  file are left out.
\<close>

section \<open>Common\<close>

type_synonym cycles_t = u64

definition ddiv :: "rat \<Rightarrow> rat \<Rightarrow> rat option" where
  "ddiv a b = (if b = 0 then None else Some (a / b))"

definition cyc :: "cycles_t \<Rightarrow> rat" where
  "cyc w = of_nat (unat w)"

definition at_index :: "'a list \<Rightarrow> int \<Rightarrow> 'a option" where
  "at_index xs i = (if 0 \<le> i \<and> i < int (length xs) then Some (xs ! nat i) else None)"

text \<open>The quotient of an integer by two, rounded toward zero.\<close>

definition c_half :: "int \<Rightarrow> int" where
  "c_half n = (if n < 0 then - ((- n) div 2) else n div 2)"

definition calc_cpu_util :: "int \<times> int \<Rightarrow> int \<times> int \<Rightarrow> rat" where
  "calc_cpu_util ustat idle =
     (let ustat_diff = snd ustat - fst ustat; idle_diff = snd idle - fst idle
      in if ustat_diff + idle_diff \<noteq> 0 then of_int ustat_diff / of_int (ustat_diff + idle_diff) * 100 else 0)"

definition cycles_compare :: "cycles_t \<Rightarrow> cycles_t \<Rightarrow> int" where
  "cycles_compare a b = (if a < b then - 1 else if a > b then 1 else 0)"

section \<open>Latency\<close>

definition get_median :: "int \<Rightarrow> cycles_t list \<Rightarrow> cycles_t option" where
  "get_median n delta =
     (if (n - 1) mod 2 \<noteq> 0
      then (case (at_index delta (c_half n), at_index delta (c_half n - 1)) of
              (Some a, Some b) \<Rightarrow> Some ((a + b) div 2)
            | _ \<Rightarrow> None)
      else at_index delta (c_half n))"

record report_options =
  ro_params :: perftest_parameters
  reply_every :: nat
  in_cycles :: bool
  cpu_mhz :: rat
  report_gbs :: bool
  cpu_freq_f :: bool
  last_iters :: u64
  iters_per_port :: "u64 \<times> u64"
  is_limit_bw :: bool
  limit_bw :: rat
  is_limit_msgrate :: bool
  limit_msgrate :: rat
  is_bw_limit_passed :: bool
  is_msgrate_limit_passed :: bool

record lat_report =
  t_min :: rat
  t_max :: rat
  t_typical :: rat
  t_avg :: rat
  t_variance :: rat
  t_99 :: rat
  t_99_9 :: rat

definition LAT_MEASURE_TAIL :: int where
  "LAT_MEASURE_TAIL = 2"

definition rtt_factor :: "perftest_parameters \<Rightarrow> rat" where
  "rtt_factor p = (if verb p = READ \<or> verb p = ATOMIC then 1 else 2)"

definition lat_measures :: "report_options \<Rightarrow> int option" where
  "lat_measures r =
     (let p = ro_params r in
      if tst p = LAT then Some (int (iters p) - 1)
      else if reply_every r = 0 then None else Some (int (iters p div reply_every r)))"

text \<open>The samples: the distances of the posts of a ping-pong, or from post to completion.\<close>

definition lat_samples :: "TestType \<Rightarrow> nat \<Rightarrow> cycles_t list \<Rightarrow> cycles_t list \<Rightarrow> cycles_t list option" where
  "lat_samples t n tposted tcompleted =
     (case t of
        LAT \<Rightarrow> if n < length tposted then Some (map (\<lambda>i. tposted ! (i + 1) - tposted ! i) [0..<n]) else None
      | LAT_BY_BW \<Rightarrow> if n \<le> length tposted \<and> n \<le> length tcompleted then Some (map (\<lambda>i. tcompleted ! i - tposted ! i) [0..<n]) else None
      | _ \<Rightarrow> None)"

text \<open>Conversion of a \<^verbatim>\<open>double\<close> to \<^verbatim>\<open>int\<close>: the fraction is dropped.\<close>

definition to_int :: "rat \<Rightarrow> int" where
  "to_int x = (if 0 \<le> x then \<lfloor>x\<rfloor> else \<lceil>x\<rceil>)"

definition lat_figures :: "rat \<Rightarrow> int \<Rightarrow> cycles_t list \<Rightarrow> lat_report option" where
  "lat_figures quot measure_cnt delta =
     (let kept = take (nat measure_cnt) delta;
          average_sum = sum_list (map (\<lambda>d. cyc d / quot) kept);
          average = average_sum / of_int measure_cnt;
          stdev_sum = sum_list (map (\<lambda>d. of_int ((to_int (average - cyc d / quot))\<^sup>2)) kept)
      in case (get_median measure_cnt delta, at_index delta 0, at_index delta measure_cnt,
               at_index delta \<lceil>of_int measure_cnt * (99 / 100 :: rat)\<rceil>, at_index delta \<lceil>of_int measure_cnt * (999 / 1000 :: rat)\<rceil>) of
           (Some median, Some d0, Some dm, Some d99, Some d999) \<Rightarrow>
             if measure_cnt = 0 then None
             else Some \<lparr> t_min = cyc d0 / quot, t_max = cyc dm / quot, t_typical = cyc median / quot, t_avg = average,
                         t_variance = stdev_sum / of_int measure_cnt, t_99 = cyc d99 / quot, t_99_9 = cyc d999 / quot \<rparr>
         | _ \<Rightarrow> None)"

definition lat_quotient :: "report_options \<Rightarrow> rat" where
  "lat_quotient r = (if in_cycles r then 1 else cpu_mhz r) * rtt_factor (ro_params r)"

definition print_report_lat :: "report_options \<Rightarrow> cycles_t list \<Rightarrow> cycles_t list \<Rightarrow> lat_report option" where
  "print_report_lat r tposted tcompleted =
     (case lat_measures r of
        None \<Rightarrow> None
      | Some measure_cnt \<Rightarrow>
          (case lat_samples (tst (ro_params r)) (nat measure_cnt) tposted tcompleted of
             None \<Rightarrow> None
           | Some delta \<Rightarrow> if lat_quotient r = 0 then None
                           else lat_figures (lat_quotient r) (measure_cnt - LAT_MEASURE_TAIL) (sort delta)))"

definition print_report_lat_duration :: "report_options \<Rightarrow> cycles_t \<Rightarrow> cycles_t \<Rightarrow> (rat option \<times> rat option)" where
  "print_report_lat_duration r posted completed =
     (let p = ro_params r;
          test_sample_time = cyc (completed - posted)
      in (Option.bind (ddiv test_sample_time (cpu_mhz r)) (\<lambda>x. ddiv (x / rtt_factor p) (of_nat (iters p))),
          Option.bind (ddiv test_sample_time (cpu_mhz r * 1000000)) (ddiv (of_nat (iters p)))))"

section \<open>Flow steering rate\<close>

record fs_report =
  fs_min :: "rat option"
  fs_max :: "rat option"
  fs_typical :: "rat option"
  fs_avg :: "rat option"
  fs_rate :: "rat option"

definition fs_units :: "report_options \<Rightarrow> rat \<times> rat" where
  "fs_units r = (if in_cycles r then (1, cpu_mhz r) else (cpu_mhz r, 1000000))"

definition print_report_fs_rate :: "report_options \<Rightarrow> cycles_t list \<Rightarrow> cycles_t list \<Rightarrow> fs_report option" where
  "print_report_fs_rate r tposted tcompleted =
     (let p = ro_params r; (cycles_to_units, units_to_sec) = fs_units r in
      if test_type p = ITERATIONS then
        (let n = flows p in
         if n \<le> length tposted \<and> n \<le> length tcompleted then
           (let delta = sort (map (\<lambda>i. tcompleted ! i - tposted ! i) [0..<n]); average_sum = sum_list delta in
            case (get_median (int n) delta, at_index delta 0, at_index delta (int n - 1)) of
              (Some median, Some d0, Some dl) \<Rightarrow>
                Some \<lparr> fs_min = ddiv (cyc d0) cycles_to_units, fs_max = ddiv (cyc dl) cycles_to_units,
                       fs_typical = ddiv (cyc median) cycles_to_units, fs_avg = ddiv (cyc (average_sum div of_nat n)) cycles_to_units,
                       fs_rate = Option.bind (ddiv (cyc average_sum) (cycles_to_units * units_to_sec)) (ddiv (of_nat n)) \<rparr>
            | _ \<Rightarrow> None)
         else None)
      else if iters p = 0 \<or> tposted = [] \<or> tcompleted = [] then None
      else (let t = tcompleted ! 0 - tposted ! 0; lat = ddiv (cyc (t div of_nat (iters p))) cycles_to_units
            in Some \<lparr> fs_min = None, fs_max = None, fs_typical = lat, fs_avg = lat,
                      fs_rate = Option.bind (ddiv (cyc t) (cycles_to_units * units_to_sec)) (ddiv (of_nat (iters p))) \<rparr>))"

section \<open>Bandwidth\<close>

text \<open>The search for the fastest stretch: from every post to every completion behind it.\<close>

definition stretch :: "cycles_t list \<Rightarrow> cycles_t list \<Rightarrow> nat \<Rightarrow> nat \<Rightarrow> cycles_t" where
  "stretch tposted tcompleted i j = (tcompleted ! j - tposted ! i) div of_nat (j - i + 1)"

fun scan_ends :: "cycles_t list \<Rightarrow> cycles_t list \<Rightarrow> nat \<Rightarrow> nat list \<Rightarrow> cycles_t \<Rightarrow> cycles_t" where
  "scan_ends tp tc i [] opt_delta = opt_delta"
| "scan_ends tp tc i (j # js) opt_delta =
     (let t = stretch tp tc i j in scan_ends tp tc i js (if t < opt_delta then t else opt_delta))"

text \<open>The completions that the inner loop looks at, and the last one when it was signalled by itself.\<close>

function ends_from :: "nat \<Rightarrow> nat \<Rightarrow> nat \<Rightarrow> nat list" where
  "ends_from m n j = (if j < n \<and> 0 < m then j # ends_from m n (j + m) else [])"
  by auto
termination by (relation "measure (\<lambda>(m, n, j). n - j)") auto

declare ends_from.simps [simp del]

definition peak_ends :: "nat \<Rightarrow> nat \<Rightarrow> nat \<Rightarrow> nat list" where
  "peak_ends m n i = ends_from m n (ROUND_UP (i + 1) m - 1) @ (if n mod m \<noteq> 0 then [n - 1] else [])"

function scan_posts :: "nat \<Rightarrow> nat \<Rightarrow> cycles_t list \<Rightarrow> cycles_t list \<Rightarrow> nat \<Rightarrow> nat \<Rightarrow> cycles_t \<Rightarrow> cycles_t option" where
  "scan_posts pl m tp tc n i opt_delta =
     (if i < n then (if pl = 0 \<or> m = 0 then None else scan_posts pl m tp tc n (i + pl) (scan_ends tp tc i (peak_ends m n i) opt_delta))
      else Some opt_delta)"
  by auto
termination by (relation "measure (\<lambda>(pl, m, tp, tc, n, i, d). n - i)") auto

declare scan_posts.simps [simp del]

record bw_figures =
  bw_iters :: nat
  bw_peak :: "rat option"
  bw_avg :: "rat option"
  msgRate_avg :: "rat option"
  bw_avg_p1 :: "rat option"
  msgRate_avg_p1 :: "rat option"
  bw_avg_p2 :: "rat option"
  msgRate_avg_p2 :: "rat option"

definition report_qps :: "perftest_parameters \<Rightarrow> nat" where
  "report_qps p = (if (connection_type p = DC \<or> use_xrc p) \<and> duplex p then num_of_qps p div 2 else num_of_qps p)"

definition run_inf_bi_factor :: "perftest_parameters \<Rightarrow> nat" where
  "run_inf_bi_factor p = (if duplex p \<and> test_method p = RUN_INFINITELY then (if verb p = SEND \<or> verb p = SEND_IMM then 1 else 2) else 1)"

definition format_factor :: "report_options \<Rightarrow> nat" where
  "format_factor r = (if report_gbs r then 125000000 else 0x100000)"

definition calculated_iters :: "report_options \<Rightarrow> u64" where
  "calculated_iters r = (if test_method (ro_params r) = RUN_INFINITELY then of_nat (iters (ro_params r)) - last_iters r else of_nat (iters (ro_params r)))"

definition opt_delta_of :: "report_options \<Rightarrow> cycles_t list \<Rightarrow> cycles_t list \<Rightarrow> cycles_t option" where
  "opt_delta_of r tposted tcompleted =
     (let p = ro_params r; n = unat (calculated_iters r * of_nat (report_qps p)) in
      if tposted = [] \<or> tcompleted = [] then None
      else let d0 = tcompleted ! 0 - tposted ! 0 in
           if noPeak p then Some d0
           else if n \<le> length tposted \<and> n \<le> length tcompleted then scan_posts (post_list p) (cq_mod p) tposted tcompleted n 0 d0
           else None)"

text \<open>The instant \<open>now\<close> ends a test that runs infinitely.\<close>

definition print_report_bw :: "report_options \<Rightarrow> cycles_t \<Rightarrow> cycles_t list \<Rightarrow> cycles_t list \<Rightarrow> bw_figures option" where
  "print_report_bw r now tposted tcompl =
     (let p = ro_params r;
          tcompleted = (if test_method p = RUN_INFINITELY then tcompl[0 := now] else tcompl);
          units = cpu_mhz r * 1000000;
          f = run_inf_bi_factor p;
          tsize = f * up_size p;
          its = unat (calculated_iters r * (if test_type p = DURATION then 1 else of_nat (report_qps p)));
          loc = (if noPeak p then 0 else its - 1)
      in if cpu_mhz r = 0 \<and> \<not> cpu_freq_f r then None
         else (case opt_delta_of r tposted tcompleted of
                 None \<Rightarrow> None
               | Some opt_delta \<Rightarrow>
                   if \<not> noPeak p \<and> its = 0 \<or> length tcompleted \<le> loc then None
                   else (let whole = cyc (tcompleted ! loc - tposted ! 0);
                             peak_up = (if noPeak p then 0 else of_nat tsize * of_nat (nat \<lfloor>units\<rfloor>)) :: u64;
                             peak_down = opt_delta * of_nat (format_factor r);
                             avg = (\<lambda>n. ddiv (of_nat tsize * of_nat n * units) (whole * of_nat (format_factor r)));
                             rate = (\<lambda>n. ddiv (of_nat n * units * of_nat f) (whole * 1000000))
                         in Some \<lparr> bw_iters = its, bw_peak = ddiv (cyc peak_up) (cyc peak_down), bw_avg = avg its, msgRate_avg = rate its,
                                   bw_avg_p1 = avg (unat (fst (iters_per_port r))), msgRate_avg_p1 = rate (unat (fst (iters_per_port r))),
                                   bw_avg_p2 = avg (unat (snd (iters_per_port r))), msgRate_avg_p2 = rate (unat (snd (iters_per_port r))) \<rparr>)))"


definition oadd :: "rat option \<Rightarrow> rat option \<Rightarrow> rat option" where
  "oadd x y = (case (x, y) of (Some a, Some b) \<Rightarrow> Some (a + b) | _ \<Rightarrow> None)"

definition add_reports :: "bw_figures \<Rightarrow> bw_figures \<Rightarrow> bw_figures" where
  "add_reports a b = a\<lparr> bw_peak := oadd (bw_peak a) (bw_peak b), bw_avg := oadd (bw_avg a) (bw_avg b),
     bw_avg_p1 := oadd (bw_avg_p1 a) (bw_avg_p1 b), bw_avg_p2 := oadd (bw_avg_p2 a) (bw_avg_p2 b),
     msgRate_avg := oadd (msgRate_avg a) (msgRate_avg b), msgRate_avg_p1 := oadd (msgRate_avg_p1 a) (msgRate_avg_p1 b),
     msgRate_avg_p2 := oadd (msgRate_avg_p2 a) (msgRate_avg_p2 b) \<rparr>"

text \<open>A limit is above every finite value that is smaller; an infinite rate is never below it.\<close>

definition below :: "rat \<Rightarrow> rat option \<Rightarrow> bool" where
  "below lm x = (case x of None \<Rightarrow> False | Some v \<Rightarrow> lm > v)"

definition print_full_bw_report :: "report_options \<Rightarrow> bw_figures \<Rightarrow> bw_figures option \<Rightarrow> report_options \<times> bw_figures" where
  "print_full_bw_report r my_rep rem_rep =
     (let p = ro_params r;
          f = (case rem_rep of None \<Rightarrow> my_rep | Some b \<Rightarrow> add_reports my_rep b);
          checked = ((duplex p \<and> rem_rep \<noteq> None) \<or> (\<not> duplex p \<and> rem_rep = None) \<or> (duplex p \<and> (verb p = SEND \<or> verb p = SEND_IMM)));
          r1 = (if checked \<and> \<not> (is_limit_bw r \<and> below (limit_bw r) (bw_avg f)) then r\<lparr> is_bw_limit_passed := True \<rparr> else r);
          r2 = (if checked \<and> \<not> (is_limit_msgrate r \<and> below (limit_msgrate r) (msgRate_avg f)) then r1\<lparr> is_msgrate_limit_passed := True \<rparr> else r1)
      in (r2, f))"

text \<open>Which of the two limits makes the test fail at its end.\<close>

datatype limit_failure = Bw_below_limit | Rate_below_limit

definition limit_checks :: "report_options \<Rightarrow> limit_failure option" where
  "limit_checks r =
     (if \<not> is_bw_limit_passed r \<and> is_limit_bw r then Some Bw_below_limit
      else if \<not> is_msgrate_limit_passed r \<and> is_limit_bw r then Some Rate_below_limit
      else None)"

section \<open>The latency figures are in order\<close>

text \<open>\<open>qsort\<close> with this comparison sorts by the order of the words.\<close>

lemma cycles_compare_order: "cycles_compare a b \<le> 0 \<longleftrightarrow> a \<le> b"
  by (auto simp: cycles_compare_def)

lemma at_index_nat: "n < length xs \<Longrightarrow> at_index xs (int n) = Some (xs ! n)"
  by (simp add: at_index_def)

lemma cyc_mono [simp]: "cyc a \<le> cyc b \<longleftrightarrow> a \<le> b"
  unfolding cyc_def by (simp only: of_nat_le_iff word_le_nat_alt)

lemma sort_nth_mono: "i \<le> j \<Longrightarrow> j < length xs \<Longrightarrow> sort xs ! i \<le> sort xs ! (j :: nat)" for xs :: "cycles_t list"
  by (simp add: sorted_nth_mono)

lemma half_between:
  fixes a b :: cycles_t
  assumes "a \<le> b" "unat b < 2 ^ 63"
  shows "a \<le> (b + a) div 2" "(b + a) div 2 \<le> b"
proof -
  have le: "unat a \<le> unat b" using assms(1) by (simp add: word_le_nat_alt)
  then have "unat (b + a) = unat b + unat a" using assms(2) by (intro unat_add_exact) simp
  then have "unat ((b + a) div 2) = (unat b + unat a) div 2" by (simp add: unat_div_word)
  then show "a \<le> (b + a) div 2" "(b + a) div 2 \<le> b" using le by (auto simp: word_le_nat_alt)
qed

text \<open>The median lies between the two middle elements.\<close>

lemma get_median_between:
  assumes "0 < n" "n \<le> length ds" "sorted ds" "\<forall>d \<in> set ds. unat (d :: cycles_t) < 2 ^ 63"
  obtains md where "get_median (int n) ds = Some md" "ds ! ((n - 1) div 2) \<le> md" "md \<le> ds ! (n div 2)"
proof (cases "even n")
  case True
  then have odd: "(int n - 1) mod 2 \<noteq> 0" by presburger
  from True assms(1) have h: "n div 2 < length ds" "1 \<le> n div 2" "(n - 1) div 2 = n div 2 - 1" using assms(2) by (auto elim!: evenE)
  have i: "c_half (int n) = int (n div 2)" "int (n div 2) - 1 = int (n div 2 - 1)" using h by (simp_all add: c_half_def of_nat_diff)
  have lt: "n div 2 - 1 < length ds" using h by simp
  have "get_median (int n) ds = Some ((ds ! (n div 2) + ds ! (n div 2 - 1)) div 2)"
    unfolding get_median_def i using odd at_index_nat [OF h(1)] at_index_nat [OF lt] by simp
  moreover have "ds ! (n div 2 - 1) \<le> ds ! (n div 2)" using assms(3) h by (simp add: sorted_nth_mono)
  moreover have "unat (ds ! (n div 2)) < 2 ^ 63" using assms(4) h by simp
  ultimately show thesis using that half_between h(3) by metis
next
  case False
  then have ev: "(int n - 1) mod 2 = 0" by presburger
  have "n div 2 < length ds" "(n - 1) div 2 = n div 2" using False assms(1,2) by (auto elim!: oddE)
  moreover have "c_half (int n) = int (n div 2)" by (simp add: c_half_def zdiv_int)
  ultimately show thesis using that ev at_index_nat [of "n div 2" ds] by (auto simp: get_median_def)
qed

lemma percentile_index:
  fixes q :: rat
  assumes "0 < n" "1 / 2 \<le> q" "q \<le> 1"
  obtains k where "\<lceil>of_int (int n) * q\<rceil> = int k" "n div 2 \<le> k" "k \<le> n"
proof -
  have "of_nat n * q \<le> of_nat n * (1 :: rat)" using assms(3) by (intro mult_left_mono) simp_all
  then have hi: "\<lceil>of_nat n * q\<rceil> \<le> int n" by (simp add: ceiling_le_iff)
  have "of_nat (n div 2) \<le> (of_nat n * (1 / 2) :: rat)"
  proof -
    have "(of_nat (2 * (n div 2)) :: rat) \<le> of_nat n" unfolding of_nat_le_iff by simp
    then show ?thesis by simp
  qed
  also have "\<dots> \<le> of_nat n * q" using assms(2) by (intro mult_left_mono) simp_all
  finally have "of_int (int (n div 2)) \<le> of_nat n * q" by simp
  then have lo: "int (n div 2) \<le> \<lceil>of_nat n * q\<rceil>" by (metis ceiling_mono ceiling_of_int)
  then obtain k where "\<lceil>of_nat n * q\<rceil> = int k" by (metis nonneg_int_cases of_nat_0_le_iff order_trans)
  then show thesis using that [of k] hi lo by simp
qed


lemma average_between:
  fixes xs :: "rat list"
  assumes "xs \<noteq> []" "\<forall>x \<in> set xs. lo \<le> x \<and> x \<le> hi"
  shows "lo \<le> sum_list xs / of_nat (length xs)" "sum_list xs / of_nat (length xs) \<le> hi"
proof -
  have "of_nat (length xs) * lo \<le> sum_list xs \<and> sum_list xs \<le> of_nat (length xs) * hi"
    using assms(2) by (induction xs) (auto simp: algebra_simps)
  moreover have "(0 :: rat) < of_nat (length xs)" using assms(1) by simp
  ultimately show "lo \<le> sum_list xs / of_nat (length xs)" "sum_list xs / of_nat (length xs) \<le> hi"
    by (simp_all add: pos_le_divide_eq pos_divide_le_eq mult.commute)
qed

text \<open>Figures of a sorted array with two samples more than are counted.\<close>

lemma lat_figures_ordered:
  assumes "0 < quot" "0 < n" "length ds = n + 2" "sorted ds" "\<forall>d \<in> set ds. unat (d :: cycles_t) < 2 ^ 63"
  obtains rep where "lat_figures quot (int n) ds = Some rep" "t_min rep = cyc (ds ! 0) / quot" "t_max rep = cyc (ds ! n) / quot"
    "t_min rep \<le> t_typical rep" "t_typical rep \<le> t_99 rep" "t_99 rep \<le> t_99_9 rep" "t_99_9 rep \<le> t_max rep"
    "t_min rep \<le> t_avg rep" "t_avg rep \<le> t_max rep"
proof -
  have mono: "cyc (ds ! i) / quot \<le> cyc (ds ! j) / quot" if "i \<le> j" "j < n + 2" for i j
    using that assms(1,3,4) by (simp add: divide_right_mono sorted_nth_mono)
  obtain md where md: "get_median (int n) ds = Some md" "ds ! ((n - 1) div 2) \<le> md" "md \<le> ds ! (n div 2)"
    using get_median_between [OF assms(2) _ assms(4,5)] assms(3) by auto
  obtain k1 where k1: "\<lceil>of_int (int n) * (99 / 100 :: rat)\<rceil> = int k1" "n div 2 \<le> k1" "k1 \<le> n"
    using percentile_index [OF assms(2), of "99 / 100"] by auto
  obtain k2 where k2: "\<lceil>of_int (int n) * (999 / 1000 :: rat)\<rceil> = int k2" "k2 \<le> n"
    using percentile_index [OF assms(2), of "999 / 1000"] by auto
  have "of_int (int n) * (99 / 100 :: rat) \<le> of_int (int n) * (999 / 1000)" by (intro mult_left_mono) simp_all
  then have "int k1 \<le> int k2" unfolding k1(1) [symmetric] k2(1) [symmetric] by (rule ceiling_mono)
  then have k12: "k1 \<le> k2" by simp
  let ?kept = "map (\<lambda>d. cyc d / quot) (take n ds)"
  have "\<forall>x \<in> set ?kept. cyc (ds ! 0) / quot \<le> x \<and> x \<le> cyc (ds ! n) / quot"
    using assms(3) mono by (auto simp: in_set_conv_nth)
  moreover have "?kept \<noteq> []" "length ?kept = n" using assms(2,3) by auto
  ultimately have av: "cyc (ds ! 0) / quot \<le> sum_list ?kept / of_nat n" "sum_list ?kept / of_nat n \<le> cyc (ds ! n) / quot"
    using average_between [of ?kept] by auto
  have ix: "at_index ds 0 = Some (ds ! 0)" "at_index ds (int n) = Some (ds ! n)" "at_index ds (int k1) = Some (ds ! k1)" "at_index ds (int k2) = Some (ds ! k2)"
    using assms(3) k1 k2 at_index_nat [of 0 ds] by (simp_all add: at_index_nat)
  have middle: "cyc (ds ! 0) / quot \<le> cyc md / quot" "cyc md / quot \<le> cyc (ds ! k1) / quot"
  proof -
    have "ds ! 0 \<le> ds ! ((n - 1) div 2)" "ds ! (n div 2) \<le> ds ! k1" using assms(3,4) k1 by (simp_all add: sorted_nth_mono)
    with md show "cyc (ds ! 0) / quot \<le> cyc md / quot" "cyc md / quot \<le> cyc (ds ! k1) / quot"
      using assms(1) by (auto intro!: divide_right_mono)
  qed
  obtain v where "lat_figures quot (int n) ds = Some \<lparr> t_min = cyc (ds ! 0) / quot, t_max = cyc (ds ! n) / quot, t_typical = cyc md / quot,
      t_avg = sum_list ?kept / of_nat n, t_variance = v, t_99 = cyc (ds ! k1) / quot, t_99_9 = cyc (ds ! k2) / quot \<rparr>"
    unfolding lat_figures_def Let_def md(1) k1(1) k2(1) ix using assms(2) by simp
  then show thesis by (rule that) (use av middle k12 k1 k2 mono [of k1 k2] mono [of k2 n] in simp_all)
qed


lemma sort_head: "xs \<noteq> [] \<Longrightarrow> sort xs ! 0 = Min (set xs)" for xs :: "'a::linorder list"
proof -
  assume "xs \<noteq> []"
  then obtain a l where al: "sort xs = a # l" by (metis length_0_conv length_sort neq_Nil_conv)
  have "sorted (a # l)" "set (a # l) = set xs" by (metis al sorted_sort, metis al set_sort)
  then have "Min (set (a # l)) = a" by (intro Min_eqI) auto
  with al \<open>set (a # l) = set xs\<close> show ?thesis by simp
qed

definition ping_deltas :: "nat \<Rightarrow> cycles_t list \<Rightarrow> cycles_t list" where
  "ping_deltas n tposted = map (\<lambda>i. tposted ! (i + 1) - tposted ! i) [0..<n]"

text \<open>
  C26. The latency report of a ping-pong with at least four messages is complete, reads no sample outside its array, and
  its figures are in order: the minimum is the smallest sample, the typical value, the 99 and 99.9
  percentiles and the maximum follow, and the average lies between minimum and maximum.
\<close>

theorem latency_report_ordered:
  assumes "tst (ro_params r) = LAT" "4 \<le> iters (ro_params r)" "iters (ro_params r) \<le> length tposted" "0 < lat_quotient r"
    "\<forall>d \<in> set (ping_deltas (iters (ro_params r) - 1) tposted). unat d < 2 ^ 63"
  shows "\<exists>rep. print_report_lat r tposted tcompleted = Some rep \<and>
    t_min rep = cyc (Min (set (ping_deltas (iters (ro_params r) - 1) tposted))) / lat_quotient r \<and>
    t_min rep \<le> t_typical rep \<and> t_typical rep \<le> t_99 rep \<and> t_99 rep \<le> t_99_9 rep \<and> t_99_9 rep \<le> t_max rep \<and>
    t_min rep \<le> t_avg rep \<and> t_avg rep \<le> t_max rep"
proof -
  let ?n = "iters (ro_params r) - 1" let ?ds = "sort (ping_deltas ?n tposted)"
  have len: "length ?ds = (?n - 2) + 2" using assms(2) by (simp add: ping_deltas_def)
  obtain rep where rep: "lat_figures (lat_quotient r) (int (?n - 2)) ?ds = Some rep" "t_min rep = cyc (?ds ! 0) / lat_quotient r"
    "t_min rep \<le> t_typical rep" "t_typical rep \<le> t_99 rep" "t_99 rep \<le> t_99_9 rep" "t_99_9 rep \<le> t_max rep"
    "t_min rep \<le> t_avg rep" "t_avg rep \<le> t_max rep"
    by (rule lat_figures_ordered [OF assms(4) _ len]) (use assms(2,5) in auto)
  have "lat_measures r = Some (int ?n)" using assms(1,2) by (simp add: lat_measures_def Let_def)
  moreover have "lat_samples LAT ?n tposted tcompleted = Some (ping_deltas ?n tposted)"
    using assms(2,3) by (simp add: lat_samples_def ping_deltas_def)
  moreover have "int ?n - LAT_MEASURE_TAIL = int (?n - 2)" using assms(2) by (simp add: LAT_MEASURE_TAIL_def)
  ultimately have "print_report_lat r tposted tcompleted = Some rep"
    using assms(1,4) rep(1) by (simp add: print_report_lat_def)
  moreover have "?ds ! 0 = Min (set (ping_deltas ?n tposted))"
    using len by (intro sort_head) (simp flip: length_0_conv)
  ultimately show ?thesis using rep by auto
qed

text \<open>
  A LAT_BY_BW report with at most two measured replies reads in front of its array: the two discarded
  samples leave no sample, but the code goes on to take their median and maximum.
\<close>

theorem short_burst_report_fails:
  assumes "tst (ro_params r) = LAT_BY_BW" "iters (ro_params r) div reply_every r \<le> 2"
  shows "print_report_lat r tposted tcompleted = None"
proof -
  have "lat_figures q (int n - 2) ds = None" if "n \<le> 2" for q n and ds :: "cycles_t list"
  proof -
    from that consider "n = 0" | "n = 1" | "n = 2" by linarith
    then show ?thesis
    proof cases
      case 1
      have "get_median (- 2) ds = None" by (simp add: get_median_def c_half_def at_index_def)
      then show ?thesis using 1 by (simp add: lat_figures_def Let_def)
    next
      case 2
      have "at_index ds (- 1) = None" by (simp add: at_index_def)
      then show ?thesis using 2 by (simp add: lat_figures_def Let_def split: option.splits)
    next
      case 3
      have "get_median 0 ds = None" by (simp add: get_median_def c_half_def at_index_def split: option.splits)
      then show ?thesis using 3 by (simp add: lat_figures_def Let_def)
    qed
  qed
  then show ?thesis
    using assms by (auto simp: print_report_lat_def lat_measures_def Let_def LAT_MEASURE_TAIL_def split: option.splits if_splits)
qed

section \<open>The peak is the fastest stretch\<close>

lemma scan_ends_min: "scan_ends tp tc i js d = Min (insert d (stretch tp tc i ` set js))"
proof (induction tp tc i js d rule: scan_ends.induct)
  case (2 tp tc i j js d)
  let ?t = "stretch tp tc i j"
  have "Min (insert (if ?t < d then ?t else d) (stretch tp tc i ` set js)) = Min (insert d (insert ?t (stretch tp tc i ` set js)))"
    by (cases "set js = {}") (auto simp: min_def not_less intro: antisym)
  with 2 show ?case by (simp add: Let_def)
qed simp

lemma ends_from_set: "0 < m \<Longrightarrow> set (ends_from m n j) = {j + k * m | k. j + k * m < n}"
proof (induction m n j rule: ends_from.induct)
  case (1 m n j)
  show ?case
  proof (cases "j < n")
    case True
    have "{j + k * m | k. j + k * m < n} = insert j {j + m + k * m | k. j + m + k * m < n}" (is "?A = ?B")
    proof
      show "?A \<subseteq> ?B"
      proof
        fix x assume "x \<in> ?A"
        then obtain k where k: "x = j + k * m" "j + k * m < n" by auto
        then show "x \<in> ?B" by (cases k) auto
      qed
      show "?B \<subseteq> ?A" using True by (auto intro: exI [of _ 0] exI [of _ "Suc k" for k])
    qed
    with 1 True show ?thesis by (subst ends_from.simps) simp
  qed (use 1 in \<open>subst ends_from.simps, auto\<close>)
qed

text \<open>The last request always ends a stretch that is looked at.\<close>

lemma last_is_end:
  assumes "0 < m" "0 < n"
  shows "n - 1 \<in> set (peak_ends m n 0)"
proof (cases "n mod m = 0")
  case True
  have "ROUND_UP (0 + 1) m = m" using assms(1) by (auto simp: ROUND_UP_def)
  moreover obtain q where q: "n = m * q" using True by (auto simp: mod_eq_0_iff_dvd)
  then obtain k where "q = Suc k" using assms(2) by (cases q) auto
  with q have "n - 1 = (m - 1) + k * m" "(m - 1) + k * m < n" using assms(1) by (auto simp: algebra_simps)
  ultimately show ?thesis using True unfolding peak_ends_def by (auto simp: ends_from_set [OF assms(1)])
qed (simp add: peak_ends_def)

lemma scan_posts_le:
  "0 < pl \<Longrightarrow> 0 < m \<Longrightarrow> \<exists>d'. scan_posts pl m tp tc n i d = Some d' \<and> d' \<le> d"
proof (induction pl m tp tc n i d rule: scan_posts.induct)
  case (1 pl m tp tc n i d)
  show ?case
  proof (cases "i < n")
    case True
    let ?d = "scan_ends tp tc i (peak_ends m n i) d"
    have "?d \<le> d" by (simp add: scan_ends_min)
    moreover obtain d' where "scan_posts pl m tp tc n (i + pl) ?d = Some d'" "d' \<le> ?d" using 1 True by auto
    ultimately show ?thesis using True 1(2,3) by (subst scan_posts.simps) auto
  qed (subst scan_posts.simps, simp)
qed

lemma peak_below_total:
  assumes "0 < pl" "0 < m" "0 < n" "scan_posts pl m tp tc n 0 d = Some d'"
  shows "d' \<le> stretch tp tc 0 (n - 1)"
proof -
  let ?d = "scan_ends tp tc 0 (peak_ends m n 0) d"
  have "?d \<le> stretch tp tc 0 (n - 1)" using last_is_end [OF assms(2,3)] by (auto simp: scan_ends_min intro!: Min_le)
  moreover have "scan_posts pl m tp tc n pl ?d = Some d'" using assms by (subst (asm) scan_posts.simps) simp
  moreover obtain e where "scan_posts pl m tp tc n pl ?d = Some e" "e \<le> ?d" using scan_posts_le [OF assms(1,2)] by blast
  ultimately show ?thesis by simp
qed


lemma report_opt_delta:
  assumes "\<not> noPeak (ro_params r)" "0 < post_list (ro_params r)" "0 < cq_mod (ro_params r)"
    "n = unat (calculated_iters r * of_nat (report_qps (ro_params r)))" "0 < n" "opt_delta_of r tp tc = Some d"
  shows "unat d * n \<le> unat (tc ! (n - 1) - tp ! 0)"
proof -
  have "scan_posts (post_list (ro_params r)) (cq_mod (ro_params r)) tp tc n 0 (tc ! 0 - tp ! 0) = Some d"
    using assms(1,4,6) by (simp add: opt_delta_of_def Let_def split: if_splits)
  then have "d \<le> stretch tp tc 0 (n - 1)" by (rule peak_below_total [OF assms(2,3,5)])
  moreover have "unat (of_nat (n - 1 - 0 + 1) :: u64) = n"
    using assms(4,5) by simp
  ultimately have "unat d \<le> unat (tc ! (n - 1) - tp ! 0) div n"
    by (simp add: stretch_def word_le_nat_alt unat_div_word)
  then show ?thesis by (metis div_times_less_eq_dividend le_trans mult_le_mono1)
qed

lemma cyc_of_nat: "n < 2 ^ 64 \<Longrightarrow> cyc (of_nat n) = of_nat n"
  unfolding cyc_def by (subst unat_of_nat) simp

text \<open>The integers behind the peak do not wrap around.\<close>

definition peak_exact :: "report_options \<Rightarrow> cycles_t \<Rightarrow> bool" where
  "peak_exact r whole \<longleftrightarrow> of_nat (nat \<lfloor>cpu_mhz r * 1000000\<rfloor>) = cpu_mhz r * 1000000 \<and>
     up_size (ro_params r) * nat \<lfloor>cpu_mhz r * 1000000\<rfloor> < 2 ^ 64 \<and> unat whole * format_factor r < 2 ^ 64"

text \<open>
  C25. The peak bandwidth of a counted regular test is never below its average: the search over the stretches between posts
  and completions, whatever the post list and the completion moderation, includes the whole test.  Peak and average are
  exact rational numbers, the clock rate is a whole number of hertz, and the 64-bit products of the search do not wrap around (\<open>peak_exact\<close>).
\<close>

theorem bw_peak_at_least_average:
  assumes "print_report_bw r now tp tc = Some f" "bw_peak f = Some pk" "bw_avg f = Some av"
    "\<not> noPeak (ro_params r)" "0 < post_list (ro_params r)" "0 < cq_mod (ro_params r)"
    "test_type (ro_params r) = ITERATIONS" "test_method (ro_params r) = RUN_REGULAR"
    "peak_exact r (tc ! (bw_iters f - 1) - tp ! 0)"
  shows "av \<le> pk"
proof -
  let ?p = "ro_params r" and ?n = "bw_iters f"
  let ?total = "tc ! (?n - 1) - tp ! 0" and ?u = "cpu_mhz r * 1000000" and ?ff = "format_factor r" and ?s = "up_size ?p"
  obtain d where d: "opt_delta_of r tp tc = Some d" and n: "?n = unat (calculated_iters r * of_nat (report_qps ?p))" "0 < ?n"
    and pk: "ddiv (cyc (of_nat ?s * of_nat (nat \<lfloor>?u\<rfloor>))) (cyc (d * of_nat ?ff)) = Some pk"
    and av: "ddiv (of_nat ?s * of_nat ?n * ?u) (cyc ?total * of_nat ?ff) = Some av"
    using assms by (auto simp: print_report_bw_def Let_def run_inf_bi_factor_def split: if_splits option.splits)
  have le: "unat d * ?n \<le> unat ?total" by (rule report_opt_delta [OF assms(4-6) n d])
  have dle: "unat d \<le> unat ?total" using le n(2) by (metis One_nat_def Suc_leI le_trans mult.right_neutral mult_le_mono2)
  have ex: "of_nat (nat \<lfloor>?u\<rfloor>) = ?u" "?s * nat \<lfloor>?u\<rfloor> < 2 ^ 64" "unat ?total * ?ff < 2 ^ 64"
    using assms(9) by (simp_all add: peak_exact_def)
  have up: "cyc (of_nat ?s * of_nat (nat \<lfloor>?u\<rfloor>)) = of_nat ?s * ?u"
    using cyc_of_nat [OF ex(2)] ex(1) by simp
  have "unat d * ?ff \<le> unat ?total * ?ff" using dle by (rule mult_le_mono1)
  then have "cyc (of_nat (unat d * ?ff)) = of_nat (unat d * ?ff)" using ex(3) by (intro cyc_of_nat) linarith
  then have down: "cyc (d * of_nat ?ff) = of_nat (unat d) * of_nat ?ff" by simp
  have ne: "unat d \<noteq> 0" "?ff \<noteq> 0" and pk': "pk = of_nat ?s * ?u / (of_nat (unat d) * of_nat ?ff)"
    using pk unfolding up down by (auto simp: ddiv_def simp del: of_nat_unat split: if_splits)
  have av': "av = of_nat ?s * of_nat ?n * ?u / (of_nat (unat ?total) * of_nat ?ff)"
    using av by (auto simp: ddiv_def cyc_def split: if_splits)
  have le': "(of_nat (unat d) :: rat) * of_nat ?n \<le> of_nat (unat ?total)" using le unfolding of_nat_mult [symmetric] of_nat_le_iff .
  have pos: "(0 :: rat) < of_nat (unat d)" "(0 :: rat) < of_nat (unat ?total)"
  proof -
    have "0 < unat d * ?n" using ne n(2) by simp
    also note le
    finally have "0 < unat ?total" .
    moreover have "0 < unat d" using ne by simp
    ultimately show "(0 :: rat) < of_nat (unat d)" "(0 :: rat) < of_nat (unat ?total)" by (simp_all only: of_nat_0_less_iff)
  qed
  then have "of_nat ?n / of_nat (unat ?total) \<le> (1 :: rat) / of_nat (unat d)"
    using le' by (simp add: divide_le_eq le_divide_eq mult.commute)
  moreover have "0 \<le> of_nat ?s * ?u / of_nat ?ff"
    using ex(1) by (metis divide_nonneg_nonneg mult_nonneg_nonneg of_nat_0_le_iff)
  ultimately have "of_nat ?s * ?u / of_nat ?ff * (of_nat ?n / of_nat (unat ?total)) \<le> of_nat ?s * ?u / of_nat ?ff * (1 / of_nat (unat d))"
    by (rule mult_left_mono)
  then show ?thesis unfolding pk' av' by (simp add: ac_simps)
qed


section \<open>Limits\<close>

text \<open>
  The message rate limit is not enforced on its own: a test that reports a message rate below \<open>--limit_msgrate\<close>, with
  no bandwidth limit given, ends as if it had passed.
\<close>

theorem msgrate_limit_not_enforced:
  assumes "\<not> is_limit_bw r" "is_limit_msgrate r" "print_full_bw_report r my_rep None = (r', f)" "msgRate_avg f = Some v" "v < limit_msgrate r"
    "\<not> is_msgrate_limit_passed r" "\<not> duplex (ro_params r)"
  shows "\<not> is_msgrate_limit_passed r' \<and> limit_checks r' = None"
  using assms by (auto simp: print_full_bw_report_def limit_checks_def Let_def below_def split: if_splits)

section \<open>Concrete reports\<close>

definition demo_figures :: report_options where
  "demo_figures = \<lparr> ro_params = basic_params\<lparr> tst := LAT, noPeak := False, iters := 6, cq_mod := 2 \<rparr>, reply_every = 1, in_cycles = True, cpu_mhz = 1, report_gbs = False,
     cpu_freq_f = False, last_iters = 0, iters_per_port = (0, 0), is_limit_bw = False, limit_bw = 0, is_limit_msgrate = True,
     limit_msgrate = 100, is_bw_limit_passed = False, is_msgrate_limit_passed = False \<rparr>"

lemmas demo_report_defs = demo_figures_def basic_params_def

theorem latency_report_ordered_witness:
  "\<exists>rep. print_report_lat demo_figures [0, 10, 18, 30, 36, 60] [] = Some rep \<and> t_min rep = 3 \<and> t_min rep \<le> t_typical rep \<and>
     t_typical rep \<le> t_99 rep \<and> t_99_9 rep \<le> t_max rep"
proof -
  have d: "ping_deltas 5 [0, 10, 18, 30, 36, 60] = [10, 8, 12, 6, 24]" by (simp add: ping_deltas_def upt_rec)
  have q: "lat_quotient demo_figures = 2" by (simp add: lat_quotient_def rtt_factor_def demo_report_defs)
  have m: "Min (set [10, 8, 12, 6, 24 :: cycles_t]) = 6" by simp
  have i: "tst (ro_params demo_figures) = LAT" "iters (ro_params demo_figures) = 6" by (simp_all add: demo_report_defs)
  from latency_report_ordered [of demo_figures "[0, 10, 18, 30, 36, 60]" "[]"] show ?thesis
    by (auto simp: i d q m cyc_def)
qed

theorem short_burst_report_fails_witness:
  "print_report_lat (demo_figures\<lparr> ro_params := basic_params\<lparr> tst := LAT_BY_BW, iters := 6 \<rparr>, reply_every := 3 \<rparr>) (replicate 6 0) (replicate 6 0) = None"
  by (rule short_burst_report_fails) (simp_all add: demo_report_defs)

definition demo_report_bw :: report_options where
  "demo_report_bw = demo_figures\<lparr> ro_params := basic_params\<lparr> noPeak := False, iters := 3, cq_mod := 2 \<rparr> \<rparr>"

lemma demo_bw_report:
  "\<exists>f pk av. print_report_bw demo_report_bw 0 [5, 10, 20] [0, 30, 42] = Some f \<and> bw_peak f = Some pk \<and> bw_avg f = Some av \<and> bw_iters f = 3"
  by (simp add: print_report_bw_def opt_delta_of_def scan_posts.simps peak_ends_def ends_from.simps scan_ends_min stretch_def ROUND_UP_def
      calculated_iters_def report_qps_def run_inf_bi_factor_def format_factor_def ddiv_def cyc_def demo_report_bw_def demo_report_defs)
    (rule conjI, rule exI [of _ "15625 / 3072"], simp, rule exI [of _ "46875 / 9472"], simp)

theorem bw_peak_at_least_average_witness:
  "\<exists>f pk av. print_report_bw demo_report_bw 0 [5, 10, 20] [0, 30, 42] = Some f \<and> bw_peak f = Some pk \<and> bw_avg f = Some av \<and> av \<le> pk"
proof -
  obtain f pk av where f: "print_report_bw demo_report_bw 0 [5, 10, 20] [0, 30, 42] = Some f" "bw_peak f = Some pk" "bw_avg f = Some av" "bw_iters f = 3"
    using demo_bw_report by blast
  have "av \<le> pk" by (rule bw_peak_at_least_average [OF f(1-3)])
    (simp_all add: f(4) peak_exact_def format_factor_def demo_report_bw_def demo_report_defs)
  with f show ?thesis by blast
qed

theorem msgrate_limit_not_enforced_witness:
  "\<exists>r' f. print_full_bw_report demo_figures \<lparr> bw_iters = 1, bw_peak = None, bw_avg = Some 1, msgRate_avg = Some 5, bw_avg_p1 = None,
       msgRate_avg_p1 = None, bw_avg_p2 = None, msgRate_avg_p2 = None \<rparr> None = (r', f) \<and> limit_checks r' = None"
proof -
  let ?my = "\<lparr> bw_iters = 1, bw_peak = None, bw_avg = Some 1, msgRate_avg = Some 5, bw_avg_p1 = None,
       msgRate_avg_p1 = None, bw_avg_p2 = None, msgRate_avg_p2 = None \<rparr>"
  obtain r' f where rf: "print_full_bw_report demo_figures ?my None = (r', f)" by (cases "print_full_bw_report demo_figures ?my None")
  then have "msgRate_avg f = Some 5" by (auto simp: print_full_bw_report_def Let_def)
  then have "limit_checks r' = None" using msgrate_limit_not_enforced [OF _ _ rf, of 5] by (simp add: demo_report_defs)
  with rf show ?thesis by blast
qed

end
