(* ===== verification/Rdma_Cm.thy ===== *)
theory Rdma_Cm
  imports Params
begin

text \<open>
  Model of the connection manager part of \<^verbatim>\<open>src/src/perftest_communication.c\<close> and \<^verbatim>\<open>src/src/perftest_resources.c\<close>: the handlers of the events of
  \<^verbatim>\<open>rdma_cm\<close> and their dispatcher, the loops that connect and disconnect all nodes, and the retries of the client.  The events
  that come in, with the results of the library calls made while they are handled, are lists; an empty list makes the program wait.
\<close>

section \<open>State\<close>

record cma_node =
  cma_id :: "nat option"
  remote_qpn :: u32
  remote_qkey :: u32
  connected :: bool

text \<open>
  The fields of \<open>struct cma\<close>, and of the context: the identifier in use, whether the context is initialised, and which queue pairs and address handles exist.
  \<open>accepted_conns\<close>, \<open>rejected\<close> and \<open>hung_up\<close> record calls of the library, \<open>gone\<close> the number of disconnections that were reported.
\<close>

record cma =
  nodes :: "cma_node list"
  connection_index :: nat
  connects_left :: int
  disconnects_left :: int
  have_rai :: bool
  cm_id :: "nat option"
  ctx_ready :: bool
  qp_made :: "bool list"
  ah_made :: "bool list"
  accepted_conns :: "(nat \<times> nat \<times> nat) list"
  rejected :: "nat option list"
  hung_up :: "nat option list"
  gone :: nat

record cm_params =
  cmp :: perftest_parameters
  tos_given :: bool
  cm_out_reads :: nat
  with_validation :: bool

datatype cm_event_type = ADDR_RESOLVED | ROUTE_RESOLVED | CONNECT_REQUEST | ESTABLISHED | ADDR_ERROR | ROUTE_ERROR | CONNECT_ERROR
  | UNREACHABLE | REJECTED | DISCONNECTED | DEVICE_REMOVAL | OTHER_EVENT

record cm_event =
  ev_type :: cm_event_type
  ev_id :: nat
  ev_get_ok :: bool
  ev_ack_ok :: bool
  ev_tos_ok :: bool
  ev_timeout_ok :: bool
  ev_route_ok :: bool
  ev_init_ok :: bool
  ev_qp_ok :: bool
  ev_connect_ok :: bool
  ev_accept_ok :: bool
  ev_ud_request_ok :: bool
  ev_ud_init :: "(u32 \<times> u32) option"
  ev_ah_ok :: bool
  ev_ud_send_ok :: bool
  ev_qp_num :: u32
  ev_qkey :: u32
  ev_initiator_depth :: nat
  ev_responder_resources :: nat

section \<open>Handlers\<close>

definition rdma_cm_connect_error :: "cma \<Rightarrow> cma" where
  "rdma_cm_connect_error st = st\<lparr> connects_left := connects_left st - 1 \<rparr>"

text \<open>The result of a handler: whether it succeeded, and the state.\<close>

definition rdma_cm_address_handler :: "cm_params \<Rightarrow> cm_event \<Rightarrow> cma \<Rightarrow> bool \<times> cma" where
  "rdma_cm_address_handler p e st =
     (if tos_given p \<and> \<not> ev_tos_ok e then (False, st)
      else if connection_type (cmp p) = RC \<and> \<not> ev_timeout_ok e then (False, rdma_cm_connect_error st)
      else if \<not> ev_route_ok e then (False, rdma_cm_connect_error st)
      else (True, st))"

fun find_node :: "nat \<Rightarrow> cma_node list \<Rightarrow> nat option" where
  "find_node x [] = None"
| "find_node x (nd # nds) = (if cma_id nd = Some x then Some 0 else map_option Suc (find_node x nds))"

definition rdma_cm_route_handler :: "cm_params \<Rightarrow> cm_event \<Rightarrow> cma \<Rightarrow> bool \<times> cma" where
  "rdma_cm_route_handler p e st =
     (case find_node (ev_id e) (nodes st) of
        None \<Rightarrow> (False, rdma_cm_connect_error st)
      | Some i \<Rightarrow>
          if \<not> ctx_ready st \<and> \<not> ev_init_ok e then (False, rdma_cm_connect_error st)
          else let st1 = st\<lparr> ctx_ready := True, cm_id := Some (ev_id e) \<rparr> in
            if \<not> qp_made st1 ! i \<and> \<not> ev_qp_ok e then (False, rdma_cm_connect_error st1)
            else let st2 = st1\<lparr> qp_made := (qp_made st1)[i := True] \<rparr> in
              if \<not> ev_connect_ok e
              then (False, rdma_cm_connect_error (st2\<lparr> cm_id := None, nodes := (nodes st2)[i := (nodes st2 ! i)\<lparr> cma_id := None \<rparr>] \<rparr>))
              else (True, st2))"

definition needs_ud_parameters :: "perftest_parameters \<Rightarrow> bool" where
  "needs_ud_parameters p \<longleftrightarrow> connection_type p = UD \<and> (tst p = BW \<and> duplex p \<or> tst p = LAT)"

definition request_failed :: "nat \<Rightarrow> cma \<Rightarrow> bool \<times> cma" where
  "request_failed i st =
     (False, (rdma_cm_connect_error (st\<lparr> nodes := (nodes st)[i := (nodes st ! i)\<lparr> cma_id := None \<rparr>] \<rparr>))\<lparr> rejected := rejected st @ [cm_id st] \<rparr>)"

text \<open>The depths of outstanding reads that the server accepts.\<close>

definition accept_depths :: "cm_params \<Rightarrow> cm_event \<Rightarrow> nat \<times> nat" where
  "accept_depths p e =
     (if verb (cmp p) = READ \<or> verb (cmp p) = ATOMIC \<or> with_validation p
      then (if cm_out_reads p > ev_initiator_depth e then ev_initiator_depth e else cm_out_reads p,
            if cm_out_reads p > ev_responder_resources e then ev_responder_resources e else cm_out_reads p)
      else (0, 0))"

definition rdma_cm_connection_request_handler :: "cm_params \<Rightarrow> cm_event \<Rightarrow> cma \<Rightarrow> bool \<times> cma" where
  "rdma_cm_connection_request_handler p e st =
     (let i = connection_index st in
      if i = num_of_qps (cmp p) then (False, st\<lparr> rejected := rejected st @ [cm_id st] \<rparr>)
      else let st1 = st\<lparr> nodes := (nodes st)[i := (nodes st ! i)\<lparr> cma_id := Some (ev_id e) \<rparr>] \<rparr> in
        if \<not> ctx_ready st1 \<and> \<not> ev_init_ok e then request_failed i st1
        else let st2 = st1\<lparr> ctx_ready := True, cm_id := Some (ev_id e) \<rparr> in
          if \<not> qp_made st2 ! i \<and> \<not> ev_qp_ok e then request_failed i st2
          else let st3 = st2\<lparr> qp_made := (qp_made st2)[i := True] \<rparr> in
            if needs_ud_parameters (cmp p) \<and> \<not> ev_ud_request_ok e then request_failed i st3
            else if connection_type (cmp p) = RC \<and> \<not> ev_timeout_ok e then request_failed i st3
            else if \<not> ev_accept_ok e then request_failed i st3
            else let st4 = st3\<lparr> accepted_conns := accepted_conns st3 @ [(ev_id e, accept_depths p e)] \<rparr> in
              if needs_ud_parameters (cmp p) \<and> ev_ud_init e = None then request_failed i st4
              else let ud = (case ev_ud_init e of Some (q, k) \<Rightarrow> if needs_ud_parameters (cmp p) then Some (q, k) else None | None \<Rightarrow> None);
                       nd = (case ud of None \<Rightarrow> nodes st4 ! i | Some (q, k) \<Rightarrow> (nodes st4 ! i)\<lparr> remote_qpn := q, remote_qkey := k \<rparr>)
                   in (True, st4\<lparr> nodes := (nodes st4)[i := nd\<lparr> connected := True \<rparr>],
                                  ah_made := (if ud = None then ah_made st4 else (ah_made st4)[i := ev_ah_ok e]),
                                  connection_index := i + 1, connects_left := connects_left st4 - 1, disconnects_left := disconnects_left st4 + 1 \<rparr>))"

text \<open>For UD the address handle of a connection is put at the index given by the number of connections so far.\<close>

definition rdma_cm_establish_ud_connection :: "cm_params \<Rightarrow> cm_event \<Rightarrow> cma \<Rightarrow> bool \<times> cma" where
  "rdma_cm_establish_ud_connection p e st =
     (if connection_type (cmp p) \<noteq> UD then (True, st)
      else let i = nat (disconnects_left st);
               st1 = st\<lparr> nodes := (nodes st)[i := (nodes st ! i)\<lparr> remote_qpn := ev_qp_num e, remote_qkey := ev_qkey e \<rparr>] \<rparr>
           in if \<not> ev_ah_ok e then (False, st1\<lparr> ah_made := (ah_made st1)[i := False] \<rparr>)
              else let st2 = st1\<lparr> ah_made := (ah_made st1)[i := True] \<rparr>
                   in if needs_ud_parameters (cmp p) \<and> \<not> ev_ud_send_ok e then (False, st2) else (True, st2))"

definition mark_connected :: "nat \<Rightarrow> cma \<Rightarrow> cma" where
  "mark_connected x st =
     (case find_node x (nodes st) of None \<Rightarrow> st | Some i \<Rightarrow> st\<lparr> nodes := (nodes st)[i := (nodes st ! i)\<lparr> connected := True \<rparr>] \<rparr>)"

definition rdma_cm_connection_established_handler :: "cm_params \<Rightarrow> cm_event \<Rightarrow> cma \<Rightarrow> bool \<times> cma" where
  "rdma_cm_connection_established_handler p e st =
     (case rdma_cm_establish_ud_connection p e st of
        (False, st1) \<Rightarrow> (False, rdma_cm_connect_error st1)
      | (True, st1) \<Rightarrow>
          let st2 = mark_connected (ev_id e) st1
          in (True, if machine (cmp p) = CLIENT then st2\<lparr> connects_left := connects_left st2 - 1, disconnects_left := disconnects_left st2 + 1 \<rparr> else st2))"

definition rdma_cm_event_error_handler :: "cma \<Rightarrow> bool \<times> cma" where
  "rdma_cm_event_error_handler st = (False, rdma_cm_connect_error st)"

definition rdma_cm_disconnect_handler :: "cma \<Rightarrow> cma" where
  "rdma_cm_disconnect_handler st = st\<lparr> disconnects_left := disconnects_left st - 1, gone := gone st + 1 \<rparr>"

definition rdma_cm_events_dispatcher :: "cm_params \<Rightarrow> cm_event \<Rightarrow> cma \<Rightarrow> bool \<times> cma" where
  "rdma_cm_events_dispatcher p e st =
     (case ev_type e of
        ADDR_RESOLVED \<Rightarrow> rdma_cm_address_handler p e st
      | ROUTE_RESOLVED \<Rightarrow> rdma_cm_route_handler p e st
      | CONNECT_REQUEST \<Rightarrow> rdma_cm_connection_request_handler p e st
      | ESTABLISHED \<Rightarrow> rdma_cm_connection_established_handler p e st
      | ADDR_ERROR \<Rightarrow> rdma_cm_event_error_handler st
      | ROUTE_ERROR \<Rightarrow> rdma_cm_event_error_handler st
      | CONNECT_ERROR \<Rightarrow> rdma_cm_event_error_handler st
      | UNREACHABLE \<Rightarrow> rdma_cm_event_error_handler st
      | REJECTED \<Rightarrow> rdma_cm_event_error_handler st
      | DISCONNECTED \<Rightarrow> (True, rdma_cm_disconnect_handler st)
      | DEVICE_REMOVAL \<Rightarrow> (True, st)
      | OTHER_EVENT \<Rightarrow> (True, st))"

section \<open>Loops over the events\<close>

datatype cm_result = Cm_ok | Cm_fail | Cm_wait

definition handle_event :: "cm_params \<Rightarrow> cm_event \<Rightarrow> cma \<Rightarrow> bool \<times> cma" where
  "handle_event p e st =
     (if \<not> ev_get_ok e then (False, st)
      else case rdma_cm_events_dispatcher p e st of (ok, st') \<Rightarrow> (ok \<and> ev_ack_ok e, st'))"

fun rdma_cm_connect_events :: "cm_params \<Rightarrow> cm_event list \<Rightarrow> cma \<Rightarrow> cm_result \<times> cma" where
  "rdma_cm_connect_events p evs st =
     (if connects_left st = 0 then (Cm_ok, st)
      else case evs of
             [] \<Rightarrow> (Cm_wait, st)
           | e # es \<Rightarrow> (case handle_event p e st of (False, st') \<Rightarrow> (Cm_fail, st') | (True, st') \<Rightarrow> rdma_cm_connect_events p es st'))"

declare rdma_cm_connect_events.simps [simp del]

text \<open>Every connected node is marked as not connected, and hung up by a server; the results of the calls come as a function.\<close>

fun hang_up :: "perftest_parameters \<Rightarrow> (nat \<Rightarrow> bool) \<Rightarrow> nat list \<Rightarrow> cma \<Rightarrow> bool \<times> cma" where
  "hang_up p ok [] st = (True, st)"
| "hang_up p ok (i # is) st =
     (if \<not> connected (nodes st ! i) then hang_up p ok is st
      else let st1 = st\<lparr> nodes := (nodes st)[i := (nodes st ! i)\<lparr> connected := False \<rparr>] \<rparr> in
        if machine p \<noteq> SERVER then hang_up p ok is st1
        else let st2 = st1\<lparr> hung_up := hung_up st1 @ [cma_id (nodes st ! i)] \<rparr>
             in if ok i then hang_up p ok is st2 else (False, st2))"

fun wait_disconnects :: "cm_params \<Rightarrow> cm_event list \<Rightarrow> cma \<Rightarrow> cm_result \<times> cma" where
  "wait_disconnects p evs st =
     (if disconnects_left st = 0 then (Cm_ok, st)
      else case evs of
             [] \<Rightarrow> (Cm_wait, st)
           | e # es \<Rightarrow> (case handle_event p e st of (False, st') \<Rightarrow> (Cm_fail, st') | (True, st') \<Rightarrow> wait_disconnects p es st'))"

declare wait_disconnects.simps [simp del]

definition rdma_cm_disconnect_nodes :: "cm_params \<Rightarrow> (nat \<Rightarrow> bool) \<Rightarrow> cm_event list \<Rightarrow> cma \<Rightarrow> cm_result \<times> cma" where
  "rdma_cm_disconnect_nodes p ok evs st =
     (if disconnects_left st = 0 \<or> connection_type (cmp p) = UD then (Cm_ok, st)
      else case hang_up (cmp p) ok [0..<num_of_qps (cmp p)] st of
             (False, st1) \<Rightarrow> (Cm_fail, st1)
           | (True, st1) \<Rightarrow> wait_disconnects p evs st1)"

section \<open>Nodes\<close>

definition fresh_node :: cma_node where
  "fresh_node = \<lparr> cma_id = None, remote_qpn = 0, remote_qkey = 0, connected = False \<rparr>"

text \<open>The nodes without an identifier get one; \<open>None\<close> from the library is a failure.\<close>

fun create_ids :: "(nat \<Rightarrow> nat option) \<Rightarrow> nat list \<Rightarrow> cma \<Rightarrow> bool \<times> cma" where
  "create_ids f [] st = (True, st)"
| "create_ids f (i # is) st =
     (if cma_id (nodes st ! i) \<noteq> None then create_ids f is st
      else case f i of None \<Rightarrow> (False, st)
           | Some x \<Rightarrow> create_ids f is (st\<lparr> nodes := (nodes st)[i := (nodes st ! i)\<lparr> cma_id := Some x \<rparr>] \<rparr>))"

text \<open>
  A server gets the identifiers of its nodes with the requests.  Whether the address of the source can be used comes as an argument.
\<close>

definition rdma_cm_allocate_nodes :: "cm_params \<Rightarrow> bool \<Rightarrow> (nat \<Rightarrow> nat option) \<Rightarrow> bool \<Rightarrow> cma \<Rightarrow> bool \<times> cma" where
  "rdma_cm_allocate_nodes p retry f source_ok st =
     (let st0 = (if retry then st else st\<lparr> nodes := replicate (num_of_qps (cmp p)) fresh_node \<rparr>) in
      case (if machine (cmp p) = CLIENT then create_ids f [0..<num_of_qps (cmp p)] st0 else (True, st0)) of
        (False, st1) \<Rightarrow> (False, st1)
      | (True, st1) \<Rightarrow> (source_ok, st1))"

section \<open>Client\<close>

record cm_attempt =
  at_address_ok :: bool
  at_resolve_ok :: "nat \<Rightarrow> bool"
  at_events :: "cm_event list"
  at_new_id :: "nat \<Rightarrow> nat option"
  at_source_ok :: bool
  at_destroy_ok :: "nat \<Rightarrow> bool"

definition resolve_all :: "cm_params \<Rightarrow> cm_attempt \<Rightarrow> cma \<Rightarrow> bool" where
  "resolve_all p a st \<longleftrightarrow> (\<forall>i \<in> set [0..<num_of_qps (cmp p)]. connected (nodes st ! i) \<or> at_resolve_ok a i)"

definition client_attempt :: "cm_params \<Rightarrow> cm_attempt \<Rightarrow> cma \<Rightarrow> cm_result \<times> cma" where
  "client_attempt p a st =
     (if \<not> have_rai st \<and> \<not> at_address_ok a then (Cm_fail, st)
      else let st1 = st\<lparr> have_rai := True \<rparr> in
        if \<not> resolve_all p a st1 then (Cm_fail, rdma_cm_connect_error st1)
        else rdma_cm_connect_events p (at_events a) st1)"

text \<open>\<open>rdma_cm_destroy_cma\<close>: what is not connected is torn down, and the connections still to be made are counted again.\<close>

fun tear_down :: "(nat \<Rightarrow> bool) \<Rightarrow> nat list \<Rightarrow> cma \<Rightarrow> bool \<times> cma" where
  "tear_down ok [] st = (True, st)"
| "tear_down ok (i # is) st =
     (if cma_id (nodes st ! i) = None \<or> connected (nodes st ! i) then tear_down ok is st
      else let st1 = st\<lparr> qp_made := (qp_made st)[i := False], ah_made := (ah_made st)[i := False] \<rparr>
           in if \<not> ok i then (False, st1)
              else tear_down ok is (st1\<lparr> nodes := (nodes st1)[i := (nodes st1 ! i)\<lparr> cma_id := None \<rparr>] \<rparr>))"

definition connected_count :: "cma \<Rightarrow> nat" where
  "connected_count st = length (filter connected (nodes st))"

definition rdma_cm_destroy_cma :: "cm_params \<Rightarrow> (nat \<Rightarrow> bool) \<Rightarrow> cma \<Rightarrow> bool \<times> cma" where
  "rdma_cm_destroy_cma p ok st =
     (case tear_down ok [0..<num_of_qps (cmp p)] st of
        (False, st1) \<Rightarrow> (False, st1)
      | (True, st1) \<Rightarrow> (True, st1\<lparr> connects_left := int (num_of_qps (cmp p)) - int (connected_count st1) \<rparr>))"

fun client_attempts :: "nat \<Rightarrow> bool \<Rightarrow> cm_params \<Rightarrow> cm_attempt list \<Rightarrow> cma \<Rightarrow> cm_result \<times> cma" where
  "client_attempts left retry p [] st = (if left = 0 then (Cm_fail, st) else (Cm_wait, st))"
| "client_attempts left retry p (a # as) st =
     (if left = 0 then (Cm_fail, st)
      else case (if retry then rdma_cm_allocate_nodes p True (at_new_id a) (at_source_ok a) st else (True, st)) of
             (False, st1) \<Rightarrow> (Cm_fail, st1)
           | (True, st1) \<Rightarrow>
               (case client_attempt p a st1 of
                  (Cm_ok, st2) \<Rightarrow> (Cm_ok, st2)
                | (Cm_wait, st2) \<Rightarrow> (Cm_wait, st2)
                | (Cm_fail, st2) \<Rightarrow>
                    (case rdma_cm_destroy_cma p (at_destroy_ok a) st2 of
                       (False, st3) \<Rightarrow> (Cm_fail, st3)
                     | (True, st3) \<Rightarrow> client_attempts (left - 1) True p as st3)))"

definition rdma_cm_client_connection :: "cm_params \<Rightarrow> cm_attempt list \<Rightarrow> cma \<Rightarrow> cm_result \<times> cma" where
  "rdma_cm_client_connection p as st = client_attempts 10 False p as st"

section \<open>Server and the whole set-up\<close>

record cm_world =
  w_channel_ok :: bool
  w_new_id :: "nat \<Rightarrow> nat option"
  w_source_ok :: bool
  w_sync_before :: bool
  w_sync_after :: bool
  w_attempts :: "cm_attempt list"
  w_listen_id_ok :: bool
  w_address_ok :: bool
  w_bind_ok :: bool
  w_listen_ok :: bool
  w_server_events :: "cm_event list"
  w_close_ok :: bool
  w_destroy_ok :: "nat \<Rightarrow> bool"

definition rdma_cm_server_connection :: "cm_params \<Rightarrow> cm_world \<Rightarrow> cma \<Rightarrow> cm_result \<times> cma" where
  "rdma_cm_server_connection p w st =
     (if \<not> w_listen_id_ok w \<or> \<not> w_address_ok w then (Cm_fail, st)
      else let st1 = st\<lparr> have_rai := True \<rparr> in
        if \<not> w_bind_ok w \<or> \<not> w_listen_ok w then (Cm_fail, st1)
        else case rdma_cm_connect_events p (w_server_events w) st1 of
               (Cm_ok, st2) \<Rightarrow> (if w_close_ok w then Cm_ok else Cm_fail, st2)
             | (r, st2) \<Rightarrow> (r, st2))"

text \<open>What a client does when the set-up fails: it destroys the identifiers, up to one that cannot be destroyed.\<close>

fun destroy_ids :: "(nat \<Rightarrow> bool) \<Rightarrow> nat list \<Rightarrow> cma \<Rightarrow> cma" where
  "destroy_ids ok [] st = st"
| "destroy_ids ok (i # is) st =
     (if cma_id (nodes st ! i) = None then destroy_ids ok is st
      else if ok i then destroy_ids ok is (st\<lparr> nodes := (nodes st)[i := (nodes st ! i)\<lparr> cma_id := None \<rparr>] \<rparr>)
      else st)"

definition give_up :: "cm_params \<Rightarrow> cm_world \<Rightarrow> cma \<Rightarrow> cm_result \<times> cma" where
  "give_up p w st = (Cm_fail, if machine (cmp p) = CLIENT then destroy_ids (w_destroy_ok w) [0..<num_of_qps (cmp p)] st else st)"

definition create_rdma_cm_connection :: "cm_params \<Rightarrow> cm_world \<Rightarrow> cma \<Rightarrow> cm_result \<times> cma" where
  "create_rdma_cm_connection p w st =
     (let st0 = st\<lparr> connects_left := int (num_of_qps (cmp p)) \<rparr> in
      if \<not> w_channel_ok w then (Cm_fail, st0)
      else case rdma_cm_allocate_nodes p False (w_new_id w) (w_source_ok w) st0 of
             (False, st1) \<Rightarrow> give_up p w st1
           | (True, st1) \<Rightarrow>
               if \<not> w_sync_before w then give_up p w st1
               else case (if machine (cmp p) = CLIENT then rdma_cm_client_connection p (w_attempts w) st1 else rdma_cm_server_connection p w st1) of
                      (Cm_ok, st2) \<Rightarrow> if w_sync_after w then (Cm_ok, st2) else give_up p w st2
                    | (Cm_fail, st2) \<Rightarrow> give_up p w st2
                    | (Cm_wait, st2) \<Rightarrow> (Cm_wait, st2))"

section \<open>What the loops count\<close>

text \<open>Identifier and connection of every node: what the counts depend on.\<close>

definition node_view :: "cma \<Rightarrow> (nat option \<times> bool) list" where
  "node_view st = map (\<lambda>nd. (cma_id nd, connected nd)) (nodes st)"

definition up_count :: "(nat option \<times> bool) list \<Rightarrow> nat" where
  "up_count v = length (filter snd v)"

definition distinct_ids :: "(nat option \<times> bool) list \<Rightarrow> bool" where
  "distinct_ids v \<longleftrightarrow> (\<forall>i < length v. \<forall>j < length v. fst (v ! i) \<noteq> None \<and> fst (v ! i) = fst (v ! j) \<longrightarrow> i = j) \<and> (\<forall>i < length v. snd (v ! i) \<longrightarrow> fst (v ! i) \<noteq> None)"

definition pending :: "(nat option \<times> bool) list \<Rightarrow> nat set" where
  "pending v = {x. (Some x, False) \<in> set v}"

definition cm_books :: "cm_params \<Rightarrow> cma \<Rightarrow> bool" where
  "cm_books p st \<longleftrightarrow> length (nodes st) = num_of_qps (cmp p) \<and> distinct_ids (node_view st) \<and> disconnects_left st + int (gone st) = int (up_count (node_view st))"

definition counts_left :: "cm_params \<Rightarrow> cma \<Rightarrow> bool" where
  "counts_left p st \<longleftrightarrow> connects_left st = int (num_of_qps (cmp p)) - int (up_count (node_view st))"

lemma connected_count_view: "connected_count st = up_count (node_view st)"
  by (simp add: connected_count_def up_count_def node_view_def filter_map comp_def)

lemma find_node_Some: "find_node x nds = Some i \<Longrightarrow> i < length nds \<and> cma_id (nds ! i) = Some x"
  by (induction nds arbitrary: i) (auto split: if_splits)

lemma find_node_None: "find_node x nds = None \<Longrightarrow> nd \<in> set nds \<Longrightarrow> cma_id nd \<noteq> Some x"
  by (induction nds) (auto split: if_splits)

lemma node_view_update: "node_view (st\<lparr> nodes := (nodes st)[i := nd] \<rparr>) = (node_view st)[i := (cma_id nd, connected nd)]"
  by (simp add: node_view_def map_update)

lemma node_view_same: "nodes st' = nodes st \<Longrightarrow> node_view st' = node_view st"
  by (simp add: node_view_def)

lemma node_view_nth: "i < length (nodes st) \<Longrightarrow> node_view st ! i = (cma_id (nodes st ! i), connected (nodes st ! i))"
  by (simp add: node_view_def)

lemma up_count_split: "i < length v \<Longrightarrow> up_count v = up_count (take i v) + (if snd (v ! i) then 1 else 0) + up_count (drop (Suc i) v)"
  unfolding up_count_def by (subst id_take_nth_drop [of i v], assumption, simp)

lemma up_count_update: "i < length v \<Longrightarrow> up_count (v[i := e]) + (if snd (v ! i) then 1 else 0) = up_count v + (if snd e then 1 else 0)"
  using up_count_split [of i v] up_count_split [of i "v[i := e]"] by simp

text \<open>A pending identifier belongs to one node only, which \<open>mark_connected\<close> finds.\<close>

lemma mark_pending:
  assumes "distinct_ids (node_view st)" and "x \<in> pending (node_view st)"
  shows "\<exists>i < length (nodes st). node_view st ! i = (Some x, False) \<and> node_view (mark_connected x st) = (node_view st)[i := (Some x, True)]"
proof -
  from assms(2) obtain j where j: "j < length (nodes st)" "node_view st ! j = (Some x, False)"
    by (auto simp: pending_def in_set_conv_nth node_view_def)
  have "find_node x (nodes st) \<noteq> None"
  proof
    assume "find_node x (nodes st) = None"
    from find_node_None [OF this nth_mem [OF j(1)]] j show False by (simp add: node_view_nth)
  qed
  then obtain i where i: "find_node x (nodes st) = Some i" by blast
  note fi = find_node_Some [OF i]
  have "fst (node_view st ! i) = fst (node_view st ! j)" using fi j by (simp add: node_view_nth)
  moreover have "i < length (node_view st)" "j < length (node_view st)" using fi j by (simp_all add: node_view_def)
  ultimately have "i = j" using assms(1) j(2) unfolding distinct_ids_def by (metis fst_conv option.distinct(1))
  then show ?thesis using i fi j by (auto simp: mark_connected_def node_view_update)
qed

lemma distinct_ids_connect:
  assumes "distinct_ids v" and "i < length v" and "v ! i = (Some x, False)"
  shows "distinct_ids (v[i := (Some x, True)])"
  using assms unfolding distinct_ids_def by (simp add: nth_list_update) (metis fst_conv)

lemma pending_nth: "y \<in> pending v \<longleftrightarrow> (\<exists>j < length v. v ! j = (Some y, False))"
  by (auto simp: pending_def in_set_conv_nth)

lemma pending_connect:
  assumes "distinct_ids v" and "i < length v" and "v ! i = (Some x, False)"
  shows "pending (v[i := (Some x, True)]) = pending v - {x}"
proof (rule set_eqI)
  fix y
  have at: "v[i := (Some x, True)] ! j = (Some y, False) \<longleftrightarrow> j \<noteq> i \<and> v ! j = (Some y, False)" if "j < length v" for j
    using assms(2) that by (cases "j = i") auto
  have only: "j = i" if "j < length v" "v ! j = (Some x, False)" for j
    using assms that unfolding distinct_ids_def by (metis fst_conv option.distinct(1))
  show "y \<in> pending (v[i := (Some x, True)]) \<longleftrightarrow> y \<in> pending v - {x}"
  proof
    assume "y \<in> pending (v[i := (Some x, True)])"
    then obtain j where j: "j < length v" "j \<noteq> i" "v ! j = (Some y, False)" using at by (auto simp: pending_nth)
    then show "y \<in> pending v - {x}" using only by (auto simp: pending_nth)
  next
    assume "y \<in> pending v - {x}"
    then obtain j where j: "j < length v" "v ! j = (Some y, False)" and y: "y \<noteq> x" by (auto simp: pending_nth)
    have "j \<noteq> i" using j(2) assms(3) y by auto
    then show "y \<in> pending (v[i := (Some x, True)])" using j at by (auto simp: pending_nth)
  qed
qed

section \<open>One event of a client\<close>

text \<open>
  What \<^verbatim>\<open>rdma_cm\<close> reports to a client while it connects: a route or a connection is reported for an identifier that waits for
  its connection, a disconnection for one that is connected, and there are no requests.
\<close>

definition event_fits :: "cm_event \<Rightarrow> (nat option \<times> bool) list \<Rightarrow> bool" where
  "event_fits e v \<longleftrightarrow> ev_type e \<noteq> CONNECT_REQUEST
     \<and> (ev_type e = DISCONNECTED \<longrightarrow> (Some (ev_id e), True) \<in> set v)
     \<and> (ev_type e = ESTABLISHED \<or> ev_type e = ROUTE_RESOLVED \<longrightarrow> (Some (ev_id e), False) \<in> set v)"

lemma connect_error_keeps [simp]:
  "nodes (rdma_cm_connect_error st) = nodes st" "disconnects_left (rdma_cm_connect_error st) = disconnects_left st \<and> gone (rdma_cm_connect_error st) = gone st"
  by (simp_all add: rdma_cm_connect_error_def)

text \<open>Losing the identifier of a node that is not connected keeps the books.\<close>

lemma distinct_ids_drop:
  assumes "distinct_ids v" and "i < length v" and "\<not> snd (v ! i)"
  shows "distinct_ids (v[i := (None, False)]) \<and> up_count (v[i := (None, False)]) = up_count v"
proof
  show "distinct_ids (v[i := (None, False)])" using assms unfolding distinct_ids_def by (auto simp: nth_list_update)
  show "up_count (v[i := (None, False)]) = up_count v" using up_count_update [OF assms(2), of "(None, False)"] assms(3) by simp
qed

lemma ud_keeps:
  assumes "rdma_cm_establish_ud_connection p e st = (ok, st')"
  shows "length (nodes st') = length (nodes st) \<and> node_view st' = node_view st \<and> connects_left st' = connects_left st \<and> disconnects_left st' = disconnects_left st \<and> gone st' = gone st"
proof -
  have same: "node_view (st\<lparr> nodes := (nodes st)[i := (nodes st ! i)\<lparr> remote_qpn := a, remote_qkey := b \<rparr>] \<rparr>) = node_view st" for i a b
  proof (cases "i < length (nodes st)")
    case True
    then have "(cma_id (nodes st ! i), connected (nodes st ! i)) = node_view st ! i" by (simp add: node_view_nth)
    then show ?thesis by (simp add: node_view_update)
  next
    case False
    then show ?thesis by (simp add: node_view_def list_update_beyond)
  qed
  let ?s = "st\<lparr> nodes := (nodes st)[nat (disconnects_left st) := (nodes st ! nat (disconnects_left st))\<lparr> remote_qpn := ev_qp_num e, remote_qkey := ev_qkey e \<rparr>] \<rparr>"
  have "st' = st \<or> nodes st' = nodes ?s \<and> connects_left st' = connects_left st \<and> disconnects_left st' = disconnects_left st \<and> gone st' = gone st"
    using assms by (auto simp: rdma_cm_establish_ud_connection_def Let_def split: if_splits)
  then show ?thesis using same node_view_same [of st' ?s] by auto
qed

text \<open>An event that succeeds keeps all the counts; one that fails keeps the books of what is connected.\<close>

lemma established_event:
  assumes b: "cm_books p st" and c: "counts_left p st" and client: "machine (cmp p) = CLIENT" and x: "ev_id e \<in> pending (node_view st)"
    and r: "rdma_cm_connection_established_handler p e st = (ok, st')"
  shows "cm_books p st' \<and> (ok \<longrightarrow> counts_left p st' \<and> pending (node_view st') = pending (node_view st) - {ev_id e})"
proof -
  obtain ok1 st1 where ud: "rdma_cm_establish_ud_connection p e st = (ok1, st1)" by fastforce
  note keep = ud_keeps [OF ud]
  show ?thesis
  proof (cases ok1)
    case False
    with r ud have "ok = False" "st' = rdma_cm_connect_error st1" by (simp_all add: rdma_cm_connection_established_handler_def)
    then show ?thesis using b keep by (simp add: cm_books_def node_view_def)
  next
    case True
    have d1: "distinct_ids (node_view st1)" using b keep by (simp add: cm_books_def)
    from mark_pending [OF d1] x keep obtain i where i: "i < length (nodes st1)" "node_view st1 ! i = (Some (ev_id e), False)"
      "node_view (mark_connected (ev_id e) st1) = (node_view st1)[i := (Some (ev_id e), True)]" by auto
    have il: "i < length (node_view st1)" using i(1) by (simp add: node_view_def)
    have up: "up_count ((node_view st1)[i := (Some (ev_id e), True)]) = up_count (node_view st1) + 1"
      using up_count_update [OF il, of "(Some (ev_id e), True)"] i(2) by simp
    let ?m = "mark_connected (ev_id e) st1"
    have m: "connects_left ?m = connects_left st1" "disconnects_left ?m = disconnects_left st1 \<and> gone ?m = gone st1" "length (nodes ?m) = length (nodes st1)"
      by (simp_all add: mark_connected_def split: option.splits)
    have st': "ok" "st' = ?m\<lparr> connects_left := connects_left ?m - 1, disconnects_left := disconnects_left ?m + 1 \<rparr>"
      using r ud True client by (simp_all add: rdma_cm_connection_established_handler_def Let_def)
    have view: "node_view st' = (node_view st1)[i := (Some (ev_id e), True)]" using i(3) st'(2) by (simp add: node_view_def)
    show ?thesis using b c keep m st' view up distinct_ids_connect [OF d1 il i(2)] pending_connect [OF d1 il i(2)]
      by (simp add: cm_books_def counts_left_def)
  qed
qed

lemma route_event:
  assumes b: "cm_books p st" and c: "counts_left p st" and x: "ev_id e \<in> pending (node_view st)" and r: "rdma_cm_route_handler p e st = (ok, st')"
  shows "cm_books p st' \<and> (ok \<longrightarrow> counts_left p st' \<and> node_view st' = node_view st)"
proof (cases "find_node (ev_id e) (nodes st)")
  case None
  then show ?thesis using r b by (auto simp: rdma_cm_route_handler_def cm_books_def node_view_def)
next
  case (Some i)
  have d: "distinct_ids (node_view st)" using b by (simp add: cm_books_def)
  from mark_pending [OF d x] obtain j where j: "j < length (nodes st)" "node_view st ! j = (Some (ev_id e), False)" by blast
  note fi = find_node_Some [OF Some]
  have il: "i < length (node_view st)" "j < length (node_view st)" using fi j by (simp_all add: node_view_def)
  have "i = j" using d fi j il unfolding distinct_ids_def by (metis fst_conv node_view_nth option.distinct(1))
  then have ni: "\<not> snd (node_view st ! i)" "\<not> connected (nodes st ! i)" using j fi by (simp_all add: node_view_nth)
  note drop = distinct_ids_drop [OF d il(1) ni(1)]
  show ?thesis
  proof (cases "nodes st' = nodes st")
    case True
    then show ?thesis using r Some b c
      by (auto simp: rdma_cm_route_handler_def Let_def cm_books_def counts_left_def node_view_def split: if_splits)
  next
    case False
    then have "\<not> ok \<and> nodes st' = (nodes st)[i := (nodes st ! i)\<lparr> cma_id := None \<rparr>] \<and> disconnects_left st' = disconnects_left st \<and> gone st' = gone st"
      using r Some by (auto simp: rdma_cm_route_handler_def Let_def split: if_splits)
    moreover from this have "node_view st' = (node_view st)[i := (None, False)]" using ni(2) by (simp add: node_view_def map_update)
    ultimately show ?thesis using b drop by (simp add: cm_books_def)
  qed
qed

text \<open>One event of a client, with the acknowledgement.\<close>

lemma books_same:
  assumes "cm_books p st" and "nodes st' = nodes st" and "disconnects_left st' = disconnects_left st \<and> gone st' = gone st"
  shows "cm_books p st'"
  using assms by (simp add: cm_books_def node_view_def)

lemma counts_same:
  assumes "counts_left p st" and "nodes st' = nodes st" and "connects_left st' = connects_left st"
  shows "counts_left p st'"
  using assms by (simp add: counts_left_def node_view_def)

lemma address_event:
  assumes "rdma_cm_address_handler p e st = (ok, st')"
  shows "nodes st' = nodes st \<and> disconnects_left st' = disconnects_left st \<and> gone st' = gone st \<and> (ok \<longrightarrow> st' = st)"
  using assms by (auto simp: rdma_cm_address_handler_def split: if_splits)

lemma client_event:
  assumes b: "cm_books p st" and c: "counts_left p st" and client: "machine (cmp p) = CLIENT" and f: "event_fits e (node_view st)"
    and r: "handle_event p e st = (ok, st')"
  shows "cm_books p st' \<and> (ok \<longrightarrow> counts_left p st')"
proof (cases "ev_get_ok e")
  case False
  then show ?thesis using r b by (simp add: handle_event_def)
next
  case True
  then obtain ok1 where d: "rdma_cm_events_dispatcher p e st = (ok1, st')" and ok: "ok \<longrightarrow> ok1"
    using r by (auto simp: handle_event_def split: prod.splits)
  have pend: "ev_type e = ESTABLISHED \<or> ev_type e = ROUTE_RESOLVED \<Longrightarrow> ev_id e \<in> pending (node_view st)"
    using f by (simp add: event_fits_def pending_def)
  have err: "cm_books p (snd (rdma_cm_event_error_handler st))" "\<not> fst (rdma_cm_event_error_handler st)"
    using b by (simp_all add: rdma_cm_event_error_handler_def books_same [OF b])
  have "cm_books p st' \<and> (ok1 \<longrightarrow> counts_left p st')"
  proof (cases "ev_type e")
    case ADDR_RESOLVED
    then show ?thesis using d address_event [of p e st ok1 st'] b c books_same [OF b] by (auto simp: rdma_cm_events_dispatcher_def)
  next
    case ROUTE_RESOLVED
    then show ?thesis using d route_event [OF b c pend] by (simp add: rdma_cm_events_dispatcher_def)
  next
    case ESTABLISHED
    then show ?thesis using d established_event [OF b c client pend] by (simp add: rdma_cm_events_dispatcher_def)
  next
    case DISCONNECTED
    then have "st' = rdma_cm_disconnect_handler st" using d by (simp add: rdma_cm_events_dispatcher_def)
    then show ?thesis using b c by (simp add: rdma_cm_disconnect_handler_def cm_books_def counts_left_def node_view_def)
  qed (use d b c err f in \<open>simp_all add: rdma_cm_events_dispatcher_def event_fits_def\<close>)
  then show ?thesis using ok by blast
qed

section \<open>The loop over the events\<close>

text \<open>All events that are handled before the loop ends fit the state they come in.\<close>

fun events_fit :: "(cm_event \<Rightarrow> cma \<Rightarrow> bool) \<Rightarrow> cm_params \<Rightarrow> cm_event list \<Rightarrow> cma \<Rightarrow> bool" where
  "events_fit fits p [] st = True"
| "events_fit fits p (e # es) st = (connects_left st = 0 \<or> fits e st \<and> events_fit fits p es (snd (handle_event p e st)))"

lemma events_fit_all: "(\<And>e st. fits e st) \<Longrightarrow> events_fit fits p evs st"
  by (induction evs arbitrary: st) auto

text \<open>
  What the loop needs of the two machines: an invariant that a handled event keeps, and what is left of it after one that fails.
\<close>

locale event_loop =
  fixes mode :: "cm_params \<Rightarrow> bool"
    and inv :: "cm_params \<Rightarrow> cma \<Rightarrow> bool"
    and rest :: "cm_params \<Rightarrow> cma \<Rightarrow> bool"
    and fits :: "cm_event \<Rightarrow> cma \<Rightarrow> bool"
  assumes handled: "mode p \<Longrightarrow> inv p st \<Longrightarrow> fits e st \<Longrightarrow> handle_event p e st = (True, st') \<Longrightarrow> inv p st'"
    and failed: "mode p \<Longrightarrow> inv p st \<Longrightarrow> fits e st \<Longrightarrow> handle_event p e st = (False, st') \<Longrightarrow> rest p st'"
    and inv_rest: "inv p st \<Longrightarrow> rest p st"
begin

lemma connect_events_keep:
  assumes "mode p" and "inv p st" and "events_fit fits p evs st" and "rdma_cm_connect_events p evs st = (r, st')"
  shows "rest p st' \<and> (r = Cm_ok \<longrightarrow> inv p st' \<and> connects_left st' = 0)"
  using assms(2-4)
proof (induction evs arbitrary: st)
  case Nil
  then show ?case using inv_rest by (simp add: rdma_cm_connect_events.simps [of p "[]"] split: if_splits)
next
  case (Cons e es)
  show ?case
  proof (cases "connects_left st = 0")
    case True
    then show ?thesis using Cons.prems inv_rest by (simp add: rdma_cm_connect_events.simps [of p "e # es"])
  next
    case False
    obtain ok st1 where h: "handle_event p e st = (ok, st1)" by fastforce
    have f: "fits e st" "events_fit fits p es st1" using Cons.prems(2) False h by simp_all
    show ?thesis
    proof (cases ok)
      case True
      with Cons.prems(3) False h have "rdma_cm_connect_events p es st1 = (r, st')" by (simp add: rdma_cm_connect_events.simps [of p "e # es"])
      from Cons.IH [OF handled [OF assms(1) Cons.prems(1) f(1)] f(2) this] h True show ?thesis by simp
    next
      case False
      with Cons.prems(3) \<open>connects_left st \<noteq> 0\<close> h have "(r, st') = (Cm_fail, st1)" by (simp add: rdma_cm_connect_events.simps [of p "e # es"])
      then show ?thesis using failed [OF assms(1) Cons.prems(1) f(1)] h False by simp
    qed
  qed
qed

end

text \<open>No connection is reported as ended twice: there is one left that was not.\<close>

definition client_fits :: "cm_event \<Rightarrow> cma \<Rightarrow> bool" where
  "client_fits e st \<longleftrightarrow> event_fits e (node_view st) \<and> (ev_type e = DISCONNECTED \<longrightarrow> 0 < disconnects_left st)"

definition client_books :: "cm_params \<Rightarrow> cma \<Rightarrow> bool" where
  "client_books p st \<longleftrightarrow> cm_books p st \<and> counts_left p st"

interpretation client: event_loop "\<lambda>p. machine (cmp p) = CLIENT" client_books cm_books client_fits
  by unfold_locales (auto simp: client_books_def client_fits_def dest: client_event)

lemma client_events_keep:
  assumes "cm_books p st" and "counts_left p st" and "machine (cmp p) = CLIENT" and "events_fit client_fits p evs st"
    and "rdma_cm_connect_events p evs st = (r, st')"
  shows "cm_books p st' \<and> (r = Cm_ok \<longrightarrow> counts_left p st' \<and> connects_left st' = 0)"
  using client.connect_events_keep [OF assms(3) _ assms(4,5)] assms(1,2) by (simp add: client_books_def)

section \<open>Attempts of a client\<close>

text \<open>New identifiers differ from each other and from those in use.\<close>

definition new_ids_fresh :: "(nat \<Rightarrow> nat option) \<Rightarrow> nat list \<Rightarrow> (nat option \<times> bool) list \<Rightarrow> bool" where
  "new_ids_fresh f is v \<longleftrightarrow>
     (\<forall>i \<in> set is. f i \<noteq> None \<longrightarrow> f i \<notin> set (map fst v) \<and> (\<forall>j \<in> set is. f j = f i \<longrightarrow> j = i))"

lemma distinct_ids_add:
  assumes "distinct_ids v" and "i < length v" and "\<not> snd (v ! i)" and "Some x \<notin> set (map fst v)"
  shows "distinct_ids (v[i := (Some x, False)])"
proof -
  have "fst (v ! j) \<noteq> Some x" if "j < length v" for j using assms(4) that by (metis length_map nth_map nth_mem)
  then show ?thesis using assms(1-3) unfolding distinct_ids_def by (auto simp: nth_list_update) metis+
qed

lemma create_ids_keep:
  assumes "create_ids f is st = (ok, st')" and "distinct_ids (node_view st)" and "new_ids_fresh f is (node_view st)"
    and "set is \<subseteq> {..<length (nodes st)}" and "distinct is"
  shows "length (nodes st') = length (nodes st) \<and> distinct_ids (node_view st') \<and> up_count (node_view st') = up_count (node_view st)
    \<and> connects_left st' = connects_left st \<and> disconnects_left st' = disconnects_left st \<and> gone st' = gone st"
  using assms
proof (induction f "is" st arbitrary: ok st' rule: create_ids.induct)
  case (1 f st)
  then show ?case by simp
next
  case (2 f i "is" st)
  have i: "i < length (nodes st)" "i < length (node_view st)" using "2.prems"(4) by (simp_all add: node_view_def)
  consider (has) "cma_id (nodes st ! i) \<noteq> None" | (fails) "cma_id (nodes st ! i) = None" "f i = None"
    | (new) x where "cma_id (nodes st ! i) = None" "f i = Some x" by fastforce
  then show ?case
  proof cases
    case has
    then show ?thesis using 2 by (auto simp: new_ids_fresh_def)
  next
    case fails
    then show ?thesis using 2 by simp
  next
    case new
    let ?s = "st\<lparr> nodes := (nodes st)[i := (nodes st ! i)\<lparr> cma_id := Some x \<rparr>] \<rparr>"
    have off: "\<not> snd (node_view st ! i)" using "2.prems"(2) i new(1) unfolding distinct_ids_def by (metis fst_conv node_view_nth)
    have v: "node_view ?s = (node_view st)[i := (Some x, False)]" using off i by (simp add: node_view_update node_view_nth)
    have fr: "Some x \<notin> set (map fst (node_view st))" using "2.prems"(3) new(2) by (simp add: new_ids_fresh_def)
    have "new_ids_fresh f is (node_view ?s)"
    proof -
      have "set (map fst (node_view ?s)) \<subseteq> insert (Some x) (set (map fst (node_view st)))"
        unfolding v map_update fst_conv by (rule set_update_subset_insert)
      moreover have "f j \<noteq> Some x" if "j \<in> set is" for j
      proof
        assume "f j = Some x"
        then have "j = i" using "2.prems"(3) new(2) that by (simp add: new_ids_fresh_def)
        then show False using that "2.prems"(5) by simp
      qed
      ultimately show ?thesis using "2.prems"(3) unfolding new_ids_fresh_def by (metis insert_iff list.set_intros(2) subsetD)
    qed
    moreover have "distinct_ids (node_view ?s)" unfolding v by (rule distinct_ids_add [OF "2.prems"(2) i(2) off fr])
    moreover have "create_ids f is ?s = (ok, st')" using "2.prems"(1) new by simp
    ultimately have "length (nodes st') = length (nodes ?s) \<and> distinct_ids (node_view st') \<and> up_count (node_view st') = up_count (node_view ?s)
      \<and> connects_left st' = connects_left ?s \<and> disconnects_left st' = disconnects_left ?s \<and> gone st' = gone ?s"
      using "2.IH"(2) [OF _ new(2)] "2.prems"(4,5) new(1) by simp
    moreover have "up_count (node_view ?s) = up_count (node_view st)"
      using up_count_update [OF i(2), of "(Some x, False)"] off v by simp
    ultimately show ?thesis by simp
  qed
qed

text \<open>Tearing down what is not connected keeps the books, and the count of the connections to come is right again.\<close>

lemma tear_down_keep:
  assumes "tear_down ok is st = (r, st')" and "distinct_ids (node_view st)" and "set is \<subseteq> {..<length (nodes st)}"
  shows "length (nodes st') = length (nodes st) \<and> distinct_ids (node_view st') \<and> up_count (node_view st') = up_count (node_view st)
    \<and> disconnects_left st' = disconnects_left st \<and> gone st' = gone st"
  using assms
proof (induction ok "is" st arbitrary: r st' rule: tear_down.induct)
  case (1 ok st)
  then show ?case by simp
next
  case (2 ok i "is" st)
  have i: "i < length (nodes st)" "i < length (node_view st)" using "2.prems"(3) by (simp_all add: node_view_def)
  let ?d = "st\<lparr> qp_made := (qp_made st)[i := False], ah_made := (ah_made st)[i := False] \<rparr>"
  let ?s = "?d\<lparr> nodes := (nodes ?d)[i := (nodes ?d ! i)\<lparr> cma_id := None \<rparr>] \<rparr>"
  consider (skip) "cma_id (nodes st ! i) = None \<or> connected (nodes st ! i)"
    | (fails) "\<not> (cma_id (nodes st ! i) = None \<or> connected (nodes st ! i))" "\<not> ok i"
    | (drop) "\<not> (cma_id (nodes st ! i) = None \<or> connected (nodes st ! i))" "ok i" by blast
  then show ?case
  proof cases
    case skip
    then show ?thesis using 2 by simp
  next
    case fails
    then have "st' = ?d" using "2.prems"(1) by (auto simp: Let_def)
    then show ?thesis using "2.prems"(2) by (simp add: node_view_def)
  next
    case drop
    have off: "\<not> snd (node_view st ! i)" using drop(1) i by (simp add: node_view_nth)
    have v: "node_view ?s = (node_view st)[i := (None, False)]" using drop(1) by (simp add: node_view_def map_update)
    note k = distinct_ids_drop [OF "2.prems"(2) i(2) off]
    have "tear_down ok is ?s = (r, st')" using "2.prems"(1) drop by (simp add: Let_def)
    then have "length (nodes st') = length (nodes ?s) \<and> distinct_ids (node_view st') \<and> up_count (node_view st') = up_count (node_view ?s)
      \<and> disconnects_left st' = disconnects_left ?s \<and> gone st' = gone ?s"
      using "2.IH"(2) [OF drop(1) refl] drop(2) "2.prems"(3) k v by simp
    then show ?thesis using k v by simp
  qed
qed

lemma destroy_cma_keep:
  assumes "cm_books p st" and "rdma_cm_destroy_cma p ok st = (r, st')"
  shows "cm_books p st' \<and> (r \<longrightarrow> counts_left p st')"
proof -
  obtain r1 st1 where t: "tear_down ok [0..<num_of_qps (cmp p)] st = (r1, st1)" by fastforce
  have k: "length (nodes st1) = length (nodes st) \<and> distinct_ids (node_view st1) \<and> up_count (node_view st1) = up_count (node_view st)
      \<and> disconnects_left st1 = disconnects_left st \<and> gone st1 = gone st"
    by (rule tear_down_keep [OF t]) (use assms(1) in \<open>auto simp: cm_books_def\<close>)
  have "nodes st' = nodes st1 \<and> disconnects_left st' = disconnects_left st1 \<and> gone st' = gone st1
      \<and> (r \<longrightarrow> connects_left st' = int (num_of_qps (cmp p)) - int (connected_count st1))"
    using assms(2) t by (auto simp: rdma_cm_destroy_cma_def split: bool.splits)
  then show ?thesis using k assms(1) by (simp add: cm_books_def counts_left_def connected_count_view node_view_def)
qed

lemma allocate_keep:
  assumes "rdma_cm_allocate_nodes p True f src st = (r, st')" and "cm_books p st" and "counts_left p st" and "machine (cmp p) = CLIENT"
    and "new_ids_fresh f [0..<num_of_qps (cmp p)] (node_view st)"
  shows "cm_books p st' \<and> counts_left p st'"
proof -
  obtain r1 st1 where c: "create_ids f [0..<num_of_qps (cmp p)] st = (r1, st1)" by fastforce
  have "st' = st1" using assms(1,4) c by (auto simp: rdma_cm_allocate_nodes_def Let_def split: bool.splits)
  moreover have "length (nodes st1) = length (nodes st) \<and> distinct_ids (node_view st1) \<and> up_count (node_view st1) = up_count (node_view st)
    \<and> connects_left st1 = connects_left st \<and> disconnects_left st1 = disconnects_left st \<and> gone st1 = gone st"
    by (rule create_ids_keep [OF c]) (use assms(2,5) in \<open>auto simp: cm_books_def\<close>)
  ultimately show ?thesis using assms(2,3) by (simp add: cm_books_def counts_left_def)
qed

text \<open>What the library promises along the attempts of a client.\<close>

fun attempts_fit :: "cm_params \<Rightarrow> bool \<Rightarrow> cm_attempt list \<Rightarrow> cma \<Rightarrow> bool" where
  "attempts_fit p retry [] st = True"
| "attempts_fit p retry (a # as) st =
     (let st1 = (if retry then snd (rdma_cm_allocate_nodes p True (at_new_id a) (at_source_ok a) st) else st)
      in (retry \<longrightarrow> new_ids_fresh (at_new_id a) [0..<num_of_qps (cmp p)] (node_view st))
         \<and> events_fit client_fits p (at_events a) (st1\<lparr> have_rai := True \<rparr>)
         \<and> attempts_fit p True as (snd (rdma_cm_destroy_cma p (at_destroy_ok a) (snd (client_attempt p a st1)))))"

lemma attempt_keep:
  assumes "cm_books p st" and "counts_left p st" and "machine (cmp p) = CLIENT" and "events_fit client_fits p (at_events a) (st\<lparr> have_rai := True \<rparr>)"
    and r: "client_attempt p a st = (r, st')"
  shows "cm_books p st' \<and> (r = Cm_ok \<longrightarrow> counts_left p st' \<and> connects_left st' = 0)"
proof -
  let ?s = "st\<lparr> have_rai := True \<rparr>"
  have s: "cm_books p ?s" "counts_left p ?s" by (simp_all add: books_same [OF assms(1)] counts_same [OF assms(2)])
  consider "(r, st') = (Cm_fail, st)" | "(r, st') = (Cm_fail, rdma_cm_connect_error ?s)" | "rdma_cm_connect_events p (at_events a) ?s = (r, st')"
    using r unfolding client_attempt_def Let_def by (metis (full_types))
  then show ?thesis
  proof cases
    case 3
    then show ?thesis using client_events_keep [OF s assms(3,4)] by simp
  qed (use assms(1) books_same [OF s(1)] in auto)
qed

lemma attempts_keep:
  assumes "cm_books p st" and "counts_left p st" and "machine (cmp p) = CLIENT" and "attempts_fit p retry as st"
    and "client_attempts n retry p as st = (Cm_ok, st')"
  shows "cm_books p st' \<and> counts_left p st' \<and> connects_left st' = 0"
  using assms
proof (induction as arbitrary: n retry st)
  case Nil
  then show ?case by (simp split: if_splits)
next
  case (Cons a as)
  obtain r1 st1 where al: "(if retry then rdma_cm_allocate_nodes p True (at_new_id a) (at_source_ok a) st else (True, st)) = (r1, st1)" by fastforce
  have st1: "st1 = (if retry then snd (rdma_cm_allocate_nodes p True (at_new_id a) (at_source_ok a) st) else st)" using al by (auto split: if_splits)
  have b1: "cm_books p st1 \<and> counts_left p st1"
    using al allocate_keep [of p "at_new_id a" "at_source_ok a" st r1 st1] Cons.prems(1-4) by (auto simp: Let_def split: if_splits)
  obtain r2 st2 where at: "client_attempt p a st1 = (r2, st2)" by fastforce
  have k2: "cm_books p st2 \<and> (r2 = Cm_ok \<longrightarrow> counts_left p st2 \<and> connects_left st2 = 0)"
    by (rule attempt_keep [OF _ _ Cons.prems(3) _ at]) (use b1 st1 Cons.prems(4) in \<open>simp_all add: Let_def\<close>)
  obtain r3 st3 where de: "rdma_cm_destroy_cma p (at_destroy_ok a) st2 = (r3, st3)" by fastforce
  have n: "n \<noteq> 0" "r1" using Cons.prems(5) al by (auto split: if_splits bool.splits)
  show ?case
  proof (cases r2)
    case Cm_ok
    then show ?thesis using Cons.prems(5) n al at k2 by simp
  next
    case Cm_fail
    then have again: "client_attempts (n - 1) True p as st3 = (Cm_ok, st')" and r3: r3
      using Cons.prems(5) n al at de by (auto split: bool.splits)
    have "attempts_fit p True as st3" using Cons.prems(4) st1 at de by (simp add: Let_def)
    with Cons.IH [OF _ _ Cons.prems(3) _ again] destroy_cma_keep [OF _ de] k2 r3 show ?thesis by simp
  next
    case Cm_wait
    then show ?thesis using Cons.prems(5) n al at by simp
  qed
qed

section \<open>Requests to a server\<close>

text \<open>
  The first \<open>connection_index\<close> nodes are connected, with the identifiers that were accepted, in order.  Nothing is asked of the events.
\<close>

definition server_books :: "cm_params \<Rightarrow> cma \<Rightarrow> bool" where
  "server_books p st \<longleftrightarrow>
     (let v = node_view st; k = connection_index st
      in length v = num_of_qps (cmp p) \<and> k \<le> length v \<and> connects_left st = int (length v) - int k \<and> list_all snd (take k v)
         \<and> map (Some \<circ> fst) (accepted_conns st) = map fst (take k v)
         \<and> list_all (\<lambda>(_, r, d). r \<le> cm_out_reads p \<and> d \<le> cm_out_reads p) (accepted_conns st))"

lemma server_books_same:
  assumes "server_books p st" and "node_view st' = node_view st" and "connection_index st' = connection_index st"
    and "connects_left st' = connects_left st" and "accepted_conns st' = accepted_conns st"
  shows "server_books p st'"
  using assms by (simp add: server_books_def)

lemma accept_depths_bound: "fst (accept_depths p e) \<le> cm_out_reads p \<and> snd (accept_depths p e) \<le> cm_out_reads p"
  by (simp add: accept_depths_def)

lemma request_accepts:
  assumes r: "rdma_cm_connection_request_handler p e st = (True, st')" and k: "connection_index st < length (nodes st)"
  shows "node_view st' = (node_view st)[connection_index st := (Some (ev_id e), True)] \<and> connection_index st' = connection_index st + 1
    \<and> connects_left st' = connects_left st - 1 \<and> accepted_conns st' = accepted_conns st @ [(ev_id e, accept_depths p e)]"
  using r k by (auto simp: rdma_cm_connection_request_handler_def request_failed_def Let_def node_view_def map_update split: if_splits option.splits)

lemma server_request:
  assumes b: "server_books p st" and r: "rdma_cm_connection_request_handler p e st = (True, st')"
  shows "server_books p st'"
proof -
  let ?v = "node_view st" and ?k = "connection_index st"
  have "?k \<noteq> num_of_qps (cmp p)" using r by (auto simp: rdma_cm_connection_request_handler_def)
  then have k: "?k < length ?v" "?k < length (nodes st)" using b by (auto simp: server_books_def Let_def node_view_def)
  note a = request_accepts [OF r k(2)]
  have "take (?k + 1) (?v[?k := (Some (ev_id e), True)]) = take ?k ?v @ [(Some (ev_id e), True)]"
    using k(1) by (simp add: take_Suc_conv_app_nth)
  then show ?thesis using b a k(1) accept_depths_bound [of p e] by (auto simp: server_books_def Let_def split: prod.splits)
qed

lemma mark_connected_view:
  assumes "list_all snd (take k (node_view st))"
  shows "list_all snd (take k (node_view (mark_connected x st))) \<and> map fst (node_view (mark_connected x st)) = map fst (node_view st)"
proof (cases "find_node x (nodes st)")
  case None
  then show ?thesis using assms by (simp add: mark_connected_def)
next
  case (Some i)
  note i = find_node_Some [OF Some]
  have v: "node_view (mark_connected x st) = (node_view st)[i := (Some x, True)]" using Some i by (simp add: mark_connected_def node_view_update)
  have "take k ((node_view st)[i := (Some x, True)]) = (take k (node_view st))[i := (Some x, True)]" by (simp add: take_update_swap)
  moreover have "list_all snd ((take k (node_view st))[i := (Some x, True)])"
    using assms set_update_subset_insert [of "take k (node_view st)" i "(Some x, True)"] by (auto simp: list_all_iff)
  moreover have "map fst ((node_view st)[i := (Some x, True)]) = map fst (node_view st)"
    using i by (simp add: map_update) (metis fst_conv length_map list_update_id node_view_def node_view_nth nth_map)
  ultimately show ?thesis using v by simp
qed

lemma server_established:
  assumes b: "server_books p st" and m: "machine (cmp p) \<noteq> CLIENT" and r: "rdma_cm_connection_established_handler p e st = (True, st')"
  shows "server_books p st'"
proof -
  obtain ok st1 where ud: "rdma_cm_establish_ud_connection p e st = (ok, st1)" by fastforce
  have ok: "ok" "st' = mark_connected (ev_id e) st1"
    using r m ud by (auto simp: rdma_cm_connection_established_handler_def Let_def split: bool.splits)
  have keep: "connection_index st1 = connection_index st \<and> accepted_conns st1 = accepted_conns st"
    using ud by (auto simp: rdma_cm_establish_ud_connection_def Let_def split: if_splits)
  have b1: "server_books p st1" by (rule server_books_same [OF b]) (use ud_keeps [OF ud] keep in auto)
  let ?m = "mark_connected (ev_id e) st1"
  have m: "connection_index ?m = connection_index st1" "connects_left ?m = connects_left st1" "accepted_conns ?m = accepted_conns st1" "length (node_view ?m) = length (node_view st1)"
    by (simp_all add: mark_connected_def node_view_def split: option.splits)
  have l: "list_all snd (take (connection_index st1) (node_view st1))" using b1 by (simp add: server_books_def Let_def)
  note v = mark_connected_view [OF l, of "ev_id e"]
  have "map fst (take j (node_view ?m)) = map fst (take j (node_view st1))" for j using v by (simp add: take_map [symmetric])
  then show ?thesis using b1 m v ok(2) by (simp add: server_books_def Let_def)
qed

lemma server_event:
  assumes b: "server_books p st" and m: "machine (cmp p) \<noteq> CLIENT" and r: "handle_event p e st = (True, st')"
  shows "server_books p st'"
proof -
  have d: "rdma_cm_events_dispatcher p e st = (True, st')" using r by (auto simp: handle_event_def split: if_splits prod.splits)
  show ?thesis
  proof (cases "ev_type e")
    case ADDR_RESOLVED
    then show ?thesis using d address_event [of p e st True st'] b by (simp add: rdma_cm_events_dispatcher_def)
  next
    case ROUTE_RESOLVED
    then have "rdma_cm_route_handler p e st = (True, st')" using d by (simp add: rdma_cm_events_dispatcher_def)
    then show ?thesis by (intro server_books_same [OF b])
      (auto simp: rdma_cm_route_handler_def Let_def node_view_def split: option.splits if_splits)
  next
    case CONNECT_REQUEST
    then show ?thesis using d server_request [OF b] by (simp add: rdma_cm_events_dispatcher_def)
  next
    case ESTABLISHED
    then show ?thesis using d server_established [OF b m] by (simp add: rdma_cm_events_dispatcher_def)
  next
    case DISCONNECTED
    then show ?thesis using d by (intro server_books_same [OF b]) (auto simp: rdma_cm_events_dispatcher_def rdma_cm_disconnect_handler_def node_view_def)
  qed (use d b in \<open>auto simp: rdma_cm_events_dispatcher_def rdma_cm_event_error_handler_def\<close>)
qed

interpretation server: event_loop "\<lambda>p. machine (cmp p) \<noteq> CLIENT" server_books "\<lambda>_ _. True" "\<lambda>_ _. True"
  by unfold_locales (auto dest: server_event)

lemma server_events_keep:
  assumes "server_books p st" and "machine (cmp p) \<noteq> CLIENT" and "rdma_cm_connect_events p evs st = (Cm_ok, st')"
  shows "server_books p st' \<and> connects_left st' = 0"
  using server.connect_events_keep [OF assms(2,1) events_fit_all assms(3)] by simp

section \<open>The whole set-up\<close>

text \<open>What is assumed of the library: fresh identifiers, and events that fit, for a client.  A server relies on nothing.\<close>

definition world_fits :: "cm_params \<Rightarrow> cm_world \<Rightarrow> cma \<Rightarrow> bool" where
  "world_fits p w st \<longleftrightarrow>
     (machine (cmp p) = CLIENT \<longrightarrow>
        new_ids_fresh (w_new_id w) [0..<num_of_qps (cmp p)] []
        \<and> attempts_fit p False (w_attempts w)
            (snd (rdma_cm_allocate_nodes p False (w_new_id w) (w_source_ok w) (st\<lparr> connects_left := int (num_of_qps (cmp p)) \<rparr>))))"

definition new_cma :: "cma \<Rightarrow> bool" where
  "new_cma st \<longleftrightarrow> connection_index st = 0 \<and> disconnects_left st = 0 \<and> gone st = 0 \<and> accepted_conns st = []"

lemma up_count_fresh: "up_count (replicate n (None, False)) = 0"
  by (simp add: up_count_def)

lemma all_up: "up_count v = length v \<Longrightarrow> list_all snd v"
  unfolding up_count_def list_all_iff by (metis length_filter_less less_irrefl)

lemma list_all_view: "list_all snd (node_view st) = list_all connected (nodes st)"
  by (simp add: node_view_def list_all_iff)

lemma first_nodes:
  assumes al: "rdma_cm_allocate_nodes p False f src (st\<lparr> connects_left := int (num_of_qps (cmp p)) \<rparr>) = (r, st1)" and client: "machine (cmp p) = CLIENT"
    and fresh: "new_ids_fresh f [0..<num_of_qps (cmp p)] []" and new: "new_cma st"
  shows "cm_books p st1 \<and> counts_left p st1"
proof -
  let ?n = "num_of_qps (cmp p)"
  let ?s = "st\<lparr> connects_left := int ?n, nodes := replicate ?n fresh_node \<rparr>"
  obtain r1 st2 where c: "create_ids f [0..<?n] ?s = (r1, st2)" by fastforce
  have v: "node_view ?s = replicate ?n (None, False)" by (simp add: node_view_def fresh_node_def)
  have "st1 = st2" using al client c by (auto simp: rdma_cm_allocate_nodes_def Let_def split: bool.splits)
  moreover have "length (nodes st2) = length (nodes ?s) \<and> distinct_ids (node_view st2) \<and> up_count (node_view st2) = up_count (node_view ?s)
    \<and> connects_left st2 = connects_left ?s \<and> disconnects_left st2 = disconnects_left ?s \<and> gone st2 = gone ?s"
    by (rule create_ids_keep [OF c]) (use fresh in \<open>auto simp: v distinct_ids_def new_ids_fresh_def\<close>)
  ultimately show ?thesis using new v by (simp add: cm_books_def counts_left_def up_count_fresh new_cma_def)
qed

lemma client_all_up:
  assumes "cm_books p st" and "counts_left p st" and "connects_left st = 0"
  shows "length (nodes st) = num_of_qps (cmp p) \<and> list_all connected (nodes st) \<and> disconnects_left st + int (gone st) = int (num_of_qps (cmp p))"
proof -
  have "length (nodes st) = num_of_qps (cmp p)" "up_count (node_view st) = num_of_qps (cmp p)" "disconnects_left st + int (gone st) = int (num_of_qps (cmp p))"
    using assms by (simp_all add: cm_books_def counts_left_def)
  moreover from this have "list_all snd (node_view st)" by (intro all_up) (simp add: node_view_def)
  ultimately show ?thesis by (simp add: list_all_view)
qed

lemma server_all_up:
  assumes "server_books p st" and "connects_left st = 0"
  shows "length (nodes st) = num_of_qps (cmp p) \<and> list_all connected (nodes st) \<and> map (Some \<circ> fst) (accepted_conns st) = map cma_id (nodes st)"
proof -
  have "connection_index st = length (node_view st)" using assms by (auto simp: server_books_def Let_def)
  then have "length (node_view st) = num_of_qps (cmp p)" "list_all snd (node_view st)" "map (Some \<circ> fst) (accepted_conns st) = map fst (node_view st)"
    using assms(1) by (simp_all add: server_books_def Let_def)
  then show ?thesis using list_all_view [of st] by (simp add: node_view_def comp_def)
qed

lemma create_ok_cases:
  assumes "create_rdma_cm_connection p w st0 = (Cm_ok, st)"
  obtains st1 where "rdma_cm_allocate_nodes p False (w_new_id w) (w_source_ok w) (st0\<lparr> connects_left := int (num_of_qps (cmp p)) \<rparr>) = (True, st1)"
    and "(if machine (cmp p) = CLIENT then rdma_cm_client_connection p (w_attempts w) st1 else rdma_cm_server_connection p w st1) = (Cm_ok, st)"
proof -
  obtain r1 st1 where al: "rdma_cm_allocate_nodes p False (w_new_id w) (w_source_ok w) (st0\<lparr> connects_left := int (num_of_qps (cmp p)) \<rparr>) = (r1, st1)"
    by fastforce
  obtain r2 st2 where co: "(if machine (cmp p) = CLIENT then rdma_cm_client_connection p (w_attempts w) st1 else rdma_cm_server_connection p w st1) = (r2, st2)"
    by fastforce
  have "r1" "r2 = Cm_ok" "st2 = st"
    using assms al co by (auto simp: create_rdma_cm_connection_def Let_def give_up_def split: if_splits bool.splits cm_result.splits prod.splits)
  then show thesis using that al co by simp
qed

lemma server_connects:
  assumes "rdma_cm_server_connection p w st1 = (Cm_ok, st)" and "machine (cmp p) \<noteq> CLIENT" and "new_cma st0"
    and "rdma_cm_allocate_nodes p False f src (st0\<lparr> connects_left := int (num_of_qps (cmp p)) \<rparr>) = (True, st1)"
  shows "server_books p st \<and> connects_left st = 0"
proof -
  have st1: "st1 = st0\<lparr> connects_left := int (num_of_qps (cmp p)), nodes := replicate (num_of_qps (cmp p)) fresh_node \<rparr>"
    using assms(2,4) by (auto simp: rdma_cm_allocate_nodes_def Let_def)
  have "server_books p (st1\<lparr> have_rai := True \<rparr>)" using assms(3) by (simp add: st1 server_books_def Let_def node_view_def new_cma_def)
  moreover have "rdma_cm_connect_events p (w_server_events w) (st1\<lparr> have_rai := True \<rparr>) = (Cm_ok, st)"
    using assms(1) by (auto simp: rdma_cm_server_connection_def Let_def split: if_splits prod.splits cm_result.splits)
  ultimately show ?thesis using server_events_keep assms(2) by blast
qed

text \<open>
  C15. When the set-up of the connections through the connection manager succeeds, on the client, possibly after several attempts, or on the
  server, exactly one node per queue pair is connected and no connection is left to be made; the client then waits for one
  disconnection per queue pair less those that were reported during the set-up, and the nodes of the server hold the accepted
  identifiers in order.  For the client the library is assumed to make fresh identifiers and to report routes and connections
  for identifiers that wait for them and disconnections for connections, each once (\<open>world_fits\<close>).
\<close>

theorem create_connects_all:
  assumes "create_rdma_cm_connection p w st0 = (Cm_ok, st)" and "new_cma st0" and "world_fits p w st0"
  shows "length (nodes st) = num_of_qps (cmp p) \<and> list_all connected (nodes st) \<and> connects_left st = 0
    \<and> (if machine (cmp p) = CLIENT then disconnects_left st + int (gone st) = int (num_of_qps (cmp p))
       else map (Some \<circ> fst) (accepted_conns st) = map cma_id (nodes st))"
proof -
  obtain st1 where al: "rdma_cm_allocate_nodes p False (w_new_id w) (w_source_ok w) (st0\<lparr> connects_left := int (num_of_qps (cmp p)) \<rparr>) = (True, st1)"
    and co: "(if machine (cmp p) = CLIENT then rdma_cm_client_connection p (w_attempts w) st1 else rdma_cm_server_connection p w st1) = (Cm_ok, st)"
    by (rule create_ok_cases [OF assms(1)])
  show ?thesis
  proof (cases "machine (cmp p) = CLIENT")
    case True
    with assms(3) al have f: "new_ids_fresh (w_new_id w) [0..<num_of_qps (cmp p)] []" "attempts_fit p False (w_attempts w) st1"
      by (simp_all add: world_fits_def)
    from first_nodes [OF al True f(1) assms(2)] have b: "cm_books p st1" "counts_left p st1" by simp_all
    from attempts_keep [OF b True f(2)] co True have "cm_books p st \<and> counts_left p st \<and> connects_left st = 0"
      by (simp add: rdma_cm_client_connection_def)
    then show ?thesis using client_all_up [of p st] True by simp
  next
    case False
    with co have "rdma_cm_server_connection p w st1 = (Cm_ok, st)" by simp
    from server_connects [OF this False assms(2) al] show ?thesis using server_all_up [of p st] False by simp
  qed
qed

text \<open>
  A client with two queue pairs: the first attempt connects one of them and is rejected for the other; during the second attempt, which connects it, the first connection ends.
\<close>

definition demo_cm :: cm_params where
  "demo_cm = \<lparr> cmp = basic_params\<lparr> num_of_qps := 2 \<rparr>, tos_given = False, cm_out_reads = 1, with_validation = False \<rparr>"

definition demo_event :: "cm_event_type \<Rightarrow> nat \<Rightarrow> cm_event" where
  "demo_event t x = \<lparr> ev_type = t, ev_id = x, ev_get_ok = True, ev_ack_ok = True, ev_tos_ok = True, ev_timeout_ok = True, ev_route_ok = True,
     ev_init_ok = True, ev_qp_ok = True, ev_connect_ok = True, ev_accept_ok = True, ev_ud_request_ok = True, ev_ud_init = None, ev_ah_ok = True,
     ev_ud_send_ok = True, ev_qp_num = 0, ev_qkey = 0, ev_initiator_depth = 0, ev_responder_resources = 0 \<rparr>"

definition demo_attempt :: "nat \<Rightarrow> cm_event list \<Rightarrow> cm_attempt" where
  "demo_attempt x evs = \<lparr> at_address_ok = True, at_resolve_ok = (\<lambda>_. True), at_events = evs, at_new_id = (\<lambda>i. Some (x + i)), at_source_ok = True,
     at_destroy_ok = (\<lambda>_. True) \<rparr>"

definition demo_world :: cm_world where
  "demo_world = \<lparr> w_channel_ok = True, w_new_id = Some, w_source_ok = True, w_sync_before = True, w_sync_after = True,
     w_attempts = [demo_attempt 0 [demo_event ADDR_RESOLVED 0, demo_event ADDR_RESOLVED 1, demo_event ROUTE_RESOLVED 1, demo_event ROUTE_RESOLVED 0,
                                   demo_event ESTABLISHED 1, demo_event REJECTED 0],
                   demo_attempt 2 [demo_event ADDR_RESOLVED 2, demo_event DISCONNECTED 1, demo_event ROUTE_RESOLVED 2, demo_event ESTABLISHED 2]],
     w_listen_id_ok = True, w_address_ok = True, w_bind_ok = True, w_listen_ok = True, w_server_events = [], w_close_ok = True,
     w_destroy_ok = (\<lambda>_. True) \<rparr>"

definition demo_cma :: cma where
  "demo_cma = \<lparr> nodes = [], connection_index = 0, connects_left = 0, disconnects_left = 0, have_rai = False, cm_id = None, ctx_ready = False,
     qp_made = [False, False], ah_made = [False, False], accepted_conns = [], rejected = [], hung_up = [], gone = 0 \<rparr>"

theorem create_connects_all_witness:
  "fst (create_rdma_cm_connection demo_cm demo_world demo_cma) = Cm_ok
   \<and> list_all connected (nodes (snd (create_rdma_cm_connection demo_cm demo_world demo_cma)))
   \<and> disconnects_left (snd (create_rdma_cm_connection demo_cm demo_world demo_cma)) = 1"
proof -
  let ?r = "create_rdma_cm_connection demo_cm demo_world demo_cma"
  have ok: "fst ?r = Cm_ok" by code_simp
  then have r: "?r = (Cm_ok, snd ?r)" by (simp add: prod_eq_iff)
  have n: "new_cma demo_cma" by (simp add: new_cma_def demo_cma_def)
  have f: "world_fits demo_cm demo_world demo_cma" by code_simp
  have p: "machine (cmp demo_cm) = CLIENT" "num_of_qps (cmp demo_cm) = 2" by (simp_all add: demo_cm_def basic_params_def)
  have g: "gone (snd ?r) = 1" by code_simp
  from create_connects_all [OF r n f] ok p g show ?thesis by simp
qed

section \<open>Disconnecting\<close>

text \<open>
  The events that may come while the program waits for the disconnections, with successful calls: disconnections, events without
  effect, and for a server the reports of connections that its connecting loop, which ends with the last request, has not read.
\<close>

definition late_event :: "cm_params \<Rightarrow> cm_event \<Rightarrow> bool" where
  "late_event p e \<longleftrightarrow> ev_get_ok e \<and> ev_ack_ok e \<and>
     (ev_type e = DISCONNECTED \<or> ev_type e = DEVICE_REMOVAL \<or> ev_type e = OTHER_EVENT \<or> ev_type e = ESTABLISHED \<and> machine (cmp p) = SERVER)"

definition disconnections :: "cm_event list \<Rightarrow> nat" where
  "disconnections evs = length (filter (\<lambda>e. ev_type e = DISCONNECTED) evs)"

text \<open>A node of the identifiers given may have become connected, nothing else of the nodes has changed.\<close>

definition nodes_marked :: "nat set \<Rightarrow> cma_node list \<Rightarrow> cma_node list \<Rightarrow> bool" where
  "nodes_marked X = list_all2 (\<lambda>nd nd'. nd' = nd \<or> nd' = nd\<lparr> connected := True \<rparr> \<and> cma_id nd \<in> Some ` X)"

lemma nodes_marked_trans:
  assumes "nodes_marked X a b" "nodes_marked Y b c"
  shows "nodes_marked (X \<union> Y) a c"
  unfolding nodes_marked_def
  by (rule list_all2_trans [OF _ assms [unfolded nodes_marked_def]]) auto

lemma mark_connected_marks: "nodes_marked {x} (nodes st) (nodes (mark_connected x st))"
  using find_node_Some [of x "nodes st"]
  by (auto simp: nodes_marked_def mark_connected_def list_all2_conv_all_nth nth_list_update split: option.splits)

definition established_ids :: "cm_event list \<Rightarrow> nat set" where
  "established_ids evs = ev_id ` {e \<in> set evs. ev_type e = ESTABLISHED}"

lemma established_ids_Cons: "established_ids (e # es) = (if ev_type e = ESTABLISHED then insert (ev_id e) (established_ids es) else established_ids es)"
  "established_ids [] = {}"
  by (auto simp: established_ids_def)

lemma late_event_handled:
  assumes "late_event p e" "connection_type (cmp p) \<noteq> UD"
  shows "\<exists>st'. handle_event p e st = (True, st') \<and> hung_up st' = hung_up st \<and> nodes_marked (established_ids [e]) (nodes st) (nodes st') \<and>
    disconnects_left st' = disconnects_left st - int (disconnections [e])"
proof -
  have m: "hung_up (mark_connected x st) = hung_up st" "disconnects_left (mark_connected x st) = disconnects_left st" for x
    by (simp_all add: mark_connected_def split: option.splits)
  have "nodes_marked X (nodes st) (nodes st)" for X by (simp add: nodes_marked_def list_all2_refl)
  then show ?thesis using assms m mark_connected_marks [of "ev_id e" st]
    by (auto simp: late_event_def handle_event_def rdma_cm_events_dispatcher_def rdma_cm_disconnect_handler_def disconnections_def established_ids_Cons
        rdma_cm_connection_established_handler_def rdma_cm_establish_ud_connection_def Let_def)
qed

lemma wait_disconnects_ends:
  assumes "disconnects_left st = int d" and "list_all (late_event p) evs" and "d \<le> disconnections evs" and "connection_type (cmp p) \<noteq> UD"
  shows "\<exists>st'. wait_disconnects p evs st = (Cm_ok, st') \<and> disconnects_left st' = 0 \<and> hung_up st' = hung_up st
    \<and> nodes_marked (established_ids evs) (nodes st) (nodes st')"
  using assms(1-3)
proof (induction evs arbitrary: st d)
  case Nil
  then show ?case by (simp add: wait_disconnects.simps [of p "[]"] disconnections_def nodes_marked_def list_all2_refl)
next
  case (Cons e es)
  show ?case
  proof (cases "d = 0")
    case True
    then show ?thesis using Cons.prems(1) by (simp add: wait_disconnects.simps [of p "e # es"] nodes_marked_def list_all2_refl)
  next
    case False
    from Cons.prems(2) have "late_event p e" by simp
    from late_event_handled [OF this assms(4), of st] obtain s where s: "handle_event p e st = (True, s)" "hung_up s = hung_up st"
      "nodes_marked (established_ids [e]) (nodes st) (nodes s)" "disconnects_left s = disconnects_left st - int (disconnections [e])" by blast
    have one: "disconnections [e] \<le> d" "disconnections (e # es) = disconnections [e] + disconnections es"
      "established_ids (e # es) = established_ids [e] \<union> established_ids es"
      using False by (auto simp: disconnections_def established_ids_Cons)
    have "disconnects_left s = int (d - disconnections [e])" "d - disconnections [e] \<le> disconnections es"
      using s(4) one(1,2) Cons.prems(1,3) by (simp_all add: of_nat_diff)
    from Cons.IH [OF this(1) _ this(2)] Cons.prems(2) obtain st' where st': "wait_disconnects p es s = (Cm_ok, st')" "disconnects_left st' = 0"
      "hung_up st' = hung_up s" "nodes_marked (established_ids es) (nodes s) (nodes st')" by auto
    have "wait_disconnects p (e # es) st = (Cm_ok, st')"
      using st'(1) s(1) False Cons.prems(1) by (simp add: wait_disconnects.simps [of p "e # es"])
    then show ?thesis using st'(2,3) s(2) nodes_marked_trans [OF s(3) st'(4)] one(3) by auto
  qed
qed

lemma hang_up_all:
  assumes "distinct is" and "\<forall>i \<in> set is. ok i \<and> i < length (nodes st)"
  shows "\<exists>st'. hang_up p ok is st = (True, st') \<and> disconnects_left st' = disconnects_left st \<and> length (nodes st') = length (nodes st)
    \<and> (\<forall>i < length (nodes st). nodes st' ! i = (if i \<in> set is then (nodes st ! i)\<lparr> connected := False \<rparr> else nodes st ! i))
    \<and> hung_up st' = hung_up st @ (if machine p = SERVER then map (\<lambda>i. cma_id (nodes st ! i)) (filter (\<lambda>i. connected (nodes st ! i)) is) else [])"
  using assms
proof (induction "is" arbitrary: st)
  case Nil
  then show ?case by simp
next
  case (Cons i "is")
  show ?case
  proof (cases "connected (nodes st ! i)")
    case False
    then have off: "(nodes st ! i)\<lparr> connected := False \<rparr> = nodes st ! i" by (cases "nodes st ! i") simp
    have "distinct is" "\<forall>j \<in> set is. ok j \<and> j < length (nodes st)" using Cons.prems by auto
    from Cons.IH [OF this] obtain st' where st': "hang_up p ok is st = (True, st')" "disconnects_left st' = disconnects_left st"
      "length (nodes st') = length (nodes st)"
      "\<forall>j < length (nodes st). nodes st' ! j = (if j \<in> set is then (nodes st ! j)\<lparr> connected := False \<rparr> else nodes st ! j)"
      "hung_up st' = hung_up st @ (if machine p = SERVER then map (\<lambda>j. cma_id (nodes st ! j)) (filter (\<lambda>j. connected (nodes st ! j)) is) else [])"
      by blast
    have "nodes st' ! j = (if j \<in> set (i # is) then (nodes st ! j)\<lparr> connected := False \<rparr> else nodes st ! j)" if "j < length (nodes st)" for j
      using st'(4) that off by (cases "j = i") auto
    then show ?thesis using st' False by simp
  next
    case True
    let ?n = "(nodes st)[i := (nodes st ! i)\<lparr> connected := False \<rparr>]"
    let ?s = "st\<lparr> nodes := ?n, hung_up := hung_up st @ (if machine p = SERVER then [cma_id (nodes st ! i)] else []) \<rparr>"
    have step: "hang_up p ok (i # is) st = hang_up p ok is ?s" using True Cons.prems(2) by (simp add: Let_def)
    have other: "?n ! j = nodes st ! j" if "j \<in> set is" for j
      using that Cons.prems(1) by (metis distinct.simps(2) nth_list_update_neq)
    have same: "map (\<lambda>j. cma_id (?n ! j)) (filter (\<lambda>j. connected (?n ! j)) is) = map (\<lambda>j. cma_id (nodes st ! j)) (filter (\<lambda>j. connected (nodes st ! j)) is)"
      using other by (auto cong: filter_cong)
    have "distinct is" "\<forall>j \<in> set is. ok j \<and> j < length (nodes ?s)" using Cons.prems by auto
    from Cons.IH [OF this] obtain st' where st': "hang_up p ok is ?s = (True, st')" "disconnects_left st' = disconnects_left st"
      "length (nodes st') = length (nodes st)"
      "\<forall>j < length (nodes st). nodes st' ! j = (if j \<in> set is then (?n ! j)\<lparr> connected := False \<rparr> else ?n ! j)"
      "hung_up st' = hung_up ?s @ (if machine p = SERVER then map (\<lambda>j. cma_id (?n ! j)) (filter (\<lambda>j. connected (?n ! j)) is) else [])"
      by auto
    have "nodes st' ! j = (if j \<in> set (i # is) then (nodes st ! j)\<lparr> connected := False \<rparr> else nodes st ! j)" if "j < length (nodes st)" for j
      using st'(4) that by (cases "j = i") auto
    moreover have "hung_up st' = hung_up st @ (if machine p = SERVER then map (\<lambda>j. cma_id (nodes st ! j)) (filter (\<lambda>j. connected (nodes st ! j)) (i # is)) else [])"
      using st'(5) True unfolding same by simp
    ultimately show ?thesis using st'(1-3) step by auto
  qed
qed

lemma filter_indices: "map (\<lambda>i. f (xs ! i)) (filter (\<lambda>i. P (xs ! i)) [0..<length xs]) = map f (filter P xs)"
proof -
  have "map f (filter P xs) = map f (filter P (map ((!) xs) [0..<length xs]))" by (simp add: map_nth)
  then show ?thesis by (simp add: filter_map comp_def)
qed

text \<open>
  C30. Disconnecting, for a transport other than UD and a connection that is left, ends once as many disconnections have been reported as there are
  connections left, whatever reports of established connections a server still finds in between: every node keeps its identifier, a
  server has hung up every node that was connected, once and in order, and a node counts as connected afterwards only if such a late report named
  its identifier; without late reports no node is connected.
\<close>

theorem disconnect_completes:
  assumes "connection_type (cmp p) \<noteq> UD" and "length (nodes st) = num_of_qps (cmp p)" and "disconnects_left st = int (Suc d)"
    and "list_all ok [0..<num_of_qps (cmp p)]" and "list_all (late_event p) evs" and "Suc d \<le> disconnections evs"
  shows "\<exists>st'. rdma_cm_disconnect_nodes p ok evs st = (Cm_ok, st') \<and> disconnects_left st' = 0
    \<and> map cma_id (nodes st') = map cma_id (nodes st)
    \<and> (\<forall>nd \<in> set (nodes st'). connected nd \<longrightarrow> cma_id nd \<in> Some ` established_ids evs)
    \<and> hung_up st' = hung_up st @ (if machine (cmp p) = SERVER then map cma_id (filter connected (nodes st)) else [])"
proof -
  let ?is = "[0..<num_of_qps (cmp p)]"
  have "\<forall>i \<in> set ?is. ok i \<and> i < length (nodes st)" using assms(2,4) by (simp add: list_all_iff)
  from hang_up_all [OF distinct_upt this, of "cmp p"] obtain st1 where h: "hang_up (cmp p) ok ?is st = (True, st1)" "disconnects_left st1 = disconnects_left st"
    "length (nodes st1) = length (nodes st)"
    "\<forall>i < length (nodes st). nodes st1 ! i = (if i \<in> set ?is then (nodes st ! i)\<lparr> connected := False \<rparr> else nodes st ! i)"
    "hung_up st1 = hung_up st @ (if machine (cmp p) = SERVER then map (\<lambda>i. cma_id (nodes st ! i)) (filter (\<lambda>i. connected (nodes st ! i)) ?is) else [])"
    by blast
  have off: "nodes st1 = map (\<lambda>nd. nd\<lparr> connected := False \<rparr>) (nodes st)" using h(3,4) assms(2) by (intro nth_equalityI) simp_all
  have hung: "hung_up st1 = hung_up st @ (if machine (cmp p) = SERVER then map cma_id (filter connected (nodes st)) else [])"
    using h(5) filter_indices [of cma_id "nodes st" connected] assms(2) by simp
  have d1: "disconnects_left st1 = int (Suc d)" using h(2) assms(3) by simp
  from wait_disconnects_ends [OF d1 assms(5,6,1)] obtain st2 where w: "wait_disconnects p evs st1 = (Cm_ok, st2)" "disconnects_left st2 = 0"
    "hung_up st2 = hung_up st1" and mk: "nodes_marked (established_ids evs) (nodes st1) (nodes st2)" by blast
  have len: "length (nodes st2) = length (nodes st)" using mk by (simp add: nodes_marked_def off list_all2_conv_all_nth)
  have nd: "cma_id (nodes st2 ! i) = cma_id (nodes st ! i) \<and> (connected (nodes st2 ! i) \<longrightarrow> cma_id (nodes st ! i) \<in> Some ` established_ids evs)"
    if "i < length (nodes st)" for i
  proof -
    let ?x = "(nodes st ! i)\<lparr> connected := False \<rparr>"
    have "nodes st2 ! i = ?x \<or> nodes st2 ! i = ?x\<lparr> connected := True \<rparr> \<and> cma_id ?x \<in> Some ` established_ids evs"
      using mk that unfolding nodes_marked_def off list_all2_conv_all_nth by (metis length_map nth_map)
    then show ?thesis by (elim disjE conjE) simp_all
  qed
  have "map cma_id (nodes st2) = map cma_id (nodes st)" using len nd by (intro nth_equalityI) simp_all
  moreover have "\<forall>x \<in> set (nodes st2). connected x \<longrightarrow> cma_id x \<in> Some ` established_ids evs"
    using len nd by (metis in_set_conv_nth)
  ultimately show ?thesis using h(1) assms(1,3) w hung by (simp add: rdma_cm_disconnect_nodes_def)
qed

abbreviation demo_cm_server :: cm_params where
  "demo_cm_server \<equiv> demo_cm\<lparr> cmp := (cmp demo_cm)\<lparr> machine := SERVER \<rparr> \<rparr>"

abbreviation demo_cma_up :: cma where
  "demo_cma_up \<equiv> demo_cma\<lparr> nodes := [fresh_node\<lparr> cma_id := Some 4, connected := True \<rparr>, fresh_node\<lparr> cma_id := Some 7, connected := True \<rparr>],
     disconnects_left := 2 \<rparr>"

theorem disconnect_completes_witness:
  "\<exists>st'. rdma_cm_disconnect_nodes demo_cm_server (\<lambda>_. True) [demo_event ESTABLISHED 7, demo_event DISCONNECTED 4, demo_event DISCONNECTED 7] demo_cma_up
     = (Cm_ok, st') \<and> hung_up st' = [Some 4, Some 7] \<and> map cma_id (nodes st') = [Some 4, Some 7]"
  using disconnect_completes [of demo_cm_server demo_cma_up 1 "\<lambda>_. True" "[demo_event ESTABLISHED 7, demo_event DISCONNECTED 4, demo_event DISCONNECTED 7]"]
  by (auto simp: demo_cm_def basic_params_def demo_cma_def list_all_iff late_event_def disconnections_def demo_event_def)

text \<open>The report of a connection that is read only while the server disconnects marks its node as connected again, and the node stays so.\<close>

lemma late_report_reconnects:
  "map connected (nodes (snd (rdma_cm_disconnect_nodes demo_cm_server (\<lambda>_. True)
     [demo_event ESTABLISHED 7, demo_event DISCONNECTED 4, demo_event DISCONNECTED 7] demo_cma_up))) = [False, True]"
  by code_simp

text \<open>
  The parameters of an established UD connection go to the node at the number of connections so far, which need not be the node of the
  event: here the second node is established first.
\<close>

lemma ud_parameters_of_other_node:
  "map remote_qpn (nodes (snd (rdma_cm_connection_established_handler (demo_cm\<lparr> cmp := (cmp demo_cm)\<lparr> connection_type := UD \<rparr> \<rparr>)
     ((demo_event ESTABLISHED 7)\<lparr> ev_qp_num := 9 \<rparr>)
     (demo_cma\<lparr> nodes := [fresh_node\<lparr> cma_id := Some 4 \<rparr>, fresh_node\<lparr> cma_id := Some 7 \<rparr>], connects_left := 2 \<rparr>)))) = [9, 0]"
  by code_simp

end
