(* ===== verification/Spec2Isabelle.thy ===== *)
theory Spec2Isabelle
  imports Validation_Common Simd_Scan Host_Validation Bw_Progress Negotiation Key_Exchange Port_Setup Credit_Flow Accepted_Tests Bw_Bidir Connection_Setup Warm_Up Lat_Burst Raw_Steering Reports Rdma_Cm
begin

text \<open>
  \<^bold>\<open>Verification of perftest.\<close>  The repository holds the RDMA micro-benchmarks of linux-rdma (\<^verbatim>\<open>ib_send_bw\<close>, \<^verbatim>\<open>ib_write_lat\<close> and so on):
  a client and a server parse their options, meet over a TCP socket (or rdma_cm), compare their parameters, exchange
  the data of their queue pairs, bring these up, run a measuring loop over the verbs library and print a report.  This
  library models that program in the order in which a test passes through it and proves what makes each part correct.

  \<^bold>\<open>How the model is made.\<close>  C functions are HOL functions on records of the variables they use.  What a function observes
  of the outside (completions polled, results of library calls, clocks, alarm states, bytes on a socket) is an
  argument: an environment indexed by a clock that advances with every observation, or the answers of an interaction
  tree.  Nothing is assumed about it beyond what a theorem names, e.g. that a device completes only what was posted
  (\<open>honest_device\<close>, \<open>bi_device_ok\<close>) or answers at least once in \<open>d\<close> polls (\<open>fair_polls\<close>, \<open>fair_env\<close>).  Machine integers are words where
  they can wrap (addresses, \<^verbatim>\<open>swindow\<close>, wire fields, checksums, time stamps); an \<^verbatim>\<open>int\<close> that is given
  a 64-bit number is an integer with the wrap-around written out (\<open>as_int\<close> of the watchdog, \<open>c_int\<close> of the packet offsets); message counters of 64 bits are natural
  numbers.  Errors are values: \<open>Inl\<close> or \<open>None\<close>, with a constructor of their own for accesses outside an array and divisions by zero.
  A loop that the program text does not bound takes fuel and returns \<open>None\<close> when it is used up; every claim that such a
  loop returns is proved for a stated amount: \<open>d * (qps * (2 * iters) + 1)\<close> passes for a counted bandwidth test on a device that finds an owed completion once
  in \<open>d\<close> polls (of \<open>d\<close> passes in a row one posts or completes something), two network steps per byte for an exchange, \<open>d\<close> polls per completion for warm-up and read latency,
  \<open>iters + burst_size\<close> posts for a burst, one packet per byte of the buffer for the packets of a flow.  The latency ping-pongs have no fuel: two processes and the wire between them are a step
  relation, and every run of it is shown to be finite.

  \<^bold>\<open>Foundations.\<close>  \<open>Prelude\<close>: word types, generic lemmas on lists, words and invariants of loops.  \<open>C_Strings\<close>: the \<^verbatim>\<open>printf\<close>,
  \<^verbatim>\<open>scanf\<close> and \<^verbatim>\<open>strtol\<close> conversions that the sources use.  \<open>Params\<close>: \<open>struct perftest_parameters\<close> and the enumerations of
  \<^verbatim>\<open>perftest_parameters.h\<close>.

  \<^bold>\<open>Options.\<close>  \<open>Options\<close> (\<^verbatim>\<open>perftest_parameters.c\<close>, \<open>force_dependecies\<close>): every check and adjustment of the option dependencies, as a list
  of steps composed in the order of the code.  The locale \<open>step_invariant\<close> carries a property through a list of
  steps; its interpretations (\<open>moderation\<close>, \<open>ending\<close>, \<open>filling\<close>, and \<open>margins\<close>, \<open>margin_settings\<close>, \<open>readiness\<close> in \<open>Accepted_Tests\<close>) give what accepted options guarantee.
  \<open>Accepted_Tests\<close> composes them with the loops: an accepted counted test with single posts terminates, an accepted timed test
  ends, accepted validation is supported, and options with a post list longer than the send queue are accepted but never complete.

  \<^bold>\<open>Meeting the peer.\<close>  \<open>Transport\<close> (\<^verbatim>\<open>perftest_communication.c\<close>): sockets and rdma_cm exchanges as interaction trees, two of which
  run against each other (\<open>net_step\<close>); the locale \<open>dialogue\<close> shows that two programs that follow one script always finish, and is
  interpreted for the exchanges of numbers and reports.  \<open>Negotiation\<close> (\<^verbatim>\<open>perftest_negotiation.c\<close>): the table of compared parameters, its
  text and legacy encodings, and agreement of two peers.  \<open>Key_Exchange\<close>: the handshake and its text and binary formats.
  \<open>Port_Setup\<close>: choice of GID, MTU agreement, exchange of bandwidth reports.  \<open>Qp_Connect\<close> (\<^verbatim>\<open>perftest_resources.c\<close>,
  \<open>ctx_modify_qp_to_init/rtr/rts\<close>, \<open>ctx_connect\<close>): attributes and masks of the state changes, against the documented table of
  \<open>ibv_modify_qp\<close>, and the pairing of the queue pairs.  \<open>Connection_Setup\<close> puts
  handshake, MTU agreement and connection together.  \<open>Rdma_Cm\<close> (\<^verbatim>\<open>perftest_communication.c\<close>, \<^verbatim>\<open>perftest_resources.c\<close>): the event handlers, connection and disconnection loops and the
  retries of the path through rdma_cm; the locale \<open>event_loop\<close> carries an invariant through the loop over the events and is interpreted for the client and the server.

  \<^bold>\<open>Bandwidth.\<close>  \<open>Work_Requests\<close>: buffer geometry, the addresses in send and receive requests (\<open>alloc_ctx\<close>, \<open>ctx_set_send_reg_wqes\<close>, \<open>ctx_set_recv_wqes\<close>).
  \<open>Polling\<close>: the adaptive poll size.  \<open>Bw_Client\<close> (\<open>run_iter_bw\<close>): window, signalling schedule and books of the sender, as interpretations of the locale
  \<open>bw_invariant\<close>; \<open>Bw_Progress\<close>: it terminates on a fair device.  \<open>Bw_Server\<close> (\<open>run_iter_bw_server\<close>) accounts for receive requests and credits,
  \<open>Credit_Flow\<close> composes it with the sender: with single receives no message meets an empty receive queue.  \<open>Bw_Bidir\<close> (\<open>run_iter_bi\<close>) does both in one loop; the locale
  \<open>bi_invariant\<close> has the interpretations \<open>sendroom\<close> and \<open>bibooks\<close>.  \<open>Warm_Up\<close>: \<open>perform_warm_up\<close>.  \<open>Alarms\<close>: the phases of a timed
  test and the watchdog of a receiver, which stops a stalled one in a first message size and can be blind to it in a later one.

  \<^bold>\<open>Latency.\<close>  \<open>Lat_Write\<close> (\<open>run_iter_lat_write\<close>) and \<open>Lat_Send\<close> (\<open>run_iter_lat_send\<close>): the ping-pongs alternate strictly and terminate.  \<open>Warm_Up\<close> also
  holds \<open>run_iter_lat\<close> (read and atomic): one request at a time.  \<open>Lat_Burst\<close> (\<open>run_iter_lat_burst\<close> and its server): replies are complete while the send queue has room, and
  lost for good otherwise.

  \<^bold>\<open>Data validation.\<close>  \<open>Validation_Common\<close>, \<open>Simd_Scan\<close>, \<open>Validator_Placement\<close>, \<open>Marker_Distribution\<close>, \<open>Marker_Validation\<close>, \<open>Host_Validation\<close>
  (\<^verbatim>\<open>validation_common.h\<close>, \<^verbatim>\<open>host_validation.c\<close>): layout of the buffer, the four vectorised scans against one reference (locales \<open>block_step\<close>, \<open>three_loop_scan\<close>), the
  sharing of the markers, the validator thread (locale \<open>thread_invariant\<close>) and the life cycle of a session.

  \<^bold>\<open>Raw Ethernet.\<close>  \<open>Packets\<close>, \<open>Raw_Ethernet\<close>, \<open>Raw_Steering\<close> (\<^verbatim>\<open>raw_ethernet_resources.c\<close>): header images and checksum against RFC 1071, the filled send buffer read back by a
  protocol-conforming receiver as the packets that were asked for, and the flow rules of the server against the packets of the client, for the options that both honour.

  \<^bold>\<open>Reports.\<close>  \<open>Reports\<close> (\<^verbatim>\<open>perftest_parameters.c\<close>): the figures of the latency, bandwidth and flow-rate reports with exact arithmetic, their order, and the limits.

  \<^bold>\<open>Abstractions.\<close>  Floating point is exact (rational) arithmetic in the reports, and the gap between bursts, computed from it, is a parameter of the
  loops.  Structures are read as on a little-endian host with the layout of x86-64.  The network delivers bytes in order and unchanged.  Builds are with all
  optional features, or the feature is a flag of a record (\<open>build_config\<close>, \<open>conn_opts\<close>).

  \<^bold>\<open>Not modelled.\<close>  The parsing of the command line and the texts printed (pure input and output around the option record); opening devices and creating
  queue pairs, memory regions and address handles (calls of the verbs library with no state of the program's own), including the choice of post functions of
  the new verbs interface; the choice of the source address for rdma_cm; the memory back ends for GPUs and other accelerators and the kernels in \<^verbatim>\<open>cuda_kernels.cu\<close> (other execution models);
  multicast groups; reading the cycle counter; the endless loops \<open>run_iter_bw_infinitely\<close> and its server, \<open>run_iter_bw_dv\<close>, \<open>run_iter_lat_write_imm\<close>, \<open>run_iter_fs\<close> and
  \<open>run_iter_fw\<close>, variants of the loops above; the main functions, which call the parts in order; the stand-alone key tools \<^verbatim>\<open>encrypt_credentials.c\<close> and \<^verbatim>\<open>gen_data_enc_key.c\<close>.
\<close>

end
